(* ===== verification/Prelude.thy ===== *)
theory Prelude
  imports Main "HOL-Library.Word" "HOL-Library.Sublist"
begin

text \<open>
  Shared vocabulary of the development: the fault values that stand for
  \<^verbatim>\<open>FLARE_CHECK\<close>, \<^verbatim>\<open>FLARE_DCHECK\<close> and undefined behaviour, the result type that
  carries them, substring search as \<^verbatim>\<open>std::string_view::find\<close> performs it, and the
  lemmas on lists that several components use.

  A C++ \<^verbatim>\<open>char\<close> is a HOL \<^typ>\<open>char\<close> (256 values); \<open>of_char\<close> is its value as an
  \<^verbatim>\<open>unsigned char\<close>. \<^verbatim>\<open>std::size_t\<close> counters of objects held in memory are \<^typ>\<open>nat\<close>;
  integers whose width matters are words and say so.
\<close>

section \<open>Faults and results\<close>

text \<open>
  A failing \<^verbatim>\<open>FLARE_CHECK\<close> aborts the process in every build. A failing
  \<^verbatim>\<open>FLARE_DCHECK\<close> aborts debug builds; in release builds the behaviour is undefined
  from there on. Both are values here, so that \<^emph>\<open>no fault happens\<close> is a statement one
  can prove. \<open>Out_of_fuel\<close> is the value of a loop cut short by the bound of its model: the
  theorems about such a loop show that the bound is never reached. \<open>Std_exception\<close> is an
  exception of the standard library that the code does not catch.
\<close>

datatype fault =
  Check_failed | Dcheck_failed | Undefined_behaviour | Out_of_fuel | Std_exception

type_synonym 'a result = "fault + 'a"

definition rbind :: "'a result \<Rightarrow> ('a \<Rightarrow> 'b result) \<Rightarrow> 'b result" where
  "rbind m f = (case m of Inl e \<Rightarrow> Inl e | Inr x \<Rightarrow> f x)"

definition check :: "bool \<Rightarrow> 'a result \<Rightarrow> 'a result" where
  "check b k = (if b then k else Inl Check_failed)"

definition dcheck :: "bool \<Rightarrow> 'a result \<Rightarrow> 'a result" where
  "dcheck b k = (if b then k else Inl Dcheck_failed)"

lemma rbind_Inr [simp]: "rbind (Inr x) f = f x"
  by (simp add: rbind_def)

lemma rbind_Inl [simp]: "rbind (Inl e) f = Inl e"
  by (simp add: rbind_def)

lemma check_True [simp]: "check True k = k"
  by (simp add: check_def)

lemma check_False [simp]: "check False k = Inl Check_failed"
  by (simp add: check_def)

lemma dcheck_True [simp]: "dcheck True k = k"
  by (simp add: dcheck_def)

lemma dcheck_False [simp]: "dcheck False k = Inl Dcheck_failed"
  by (simp add: dcheck_def)

lemma rbind_eq_Inr_iff: "rbind m f = Inr y \<longleftrightarrow> (\<exists>x. m = Inr x \<and> f x = Inr y)"
  by (cases m) auto

lemma check_eq_Inr_iff: "check b k = Inr y \<longleftrightarrow> b \<and> k = Inr y"
  by (cases b) auto

lemma dcheck_eq_Inr_iff: "dcheck b k = Inr y \<longleftrightarrow> b \<and> k = Inr y"
  by (cases b) auto

lemmas result_iffs = rbind_eq_Inr_iff check_eq_Inr_iff dcheck_eq_Inr_iff

section \<open>Substring search\<close>

text \<open>
  \<^verbatim>\<open>s.find(d)\<close> of \<^verbatim>\<open>std::string_view\<close>: the least position at which \<open>d\<close> occurs, and
  \<open>None\<close> for \<^verbatim>\<open>npos\<close>; \<^verbatim>\<open>s.find(d, p)\<close> only looks at positions from \<open>p\<close> on.
\<close>

fun sv_find :: "'a list \<Rightarrow> 'a list \<Rightarrow> nat option" where
  "sv_find d [] = (if d = [] then Some 0 else None)"
| "sv_find d (x # xs) =
     (if prefix d (x # xs) then Some 0 else map_option Suc (sv_find d xs))"

definition sv_find_from :: "'a list \<Rightarrow> nat \<Rightarrow> 'a list \<Rightarrow> nat option" where
  "sv_find_from d p s =
     (if p \<le> length s then map_option (\<lambda>i. p + i) (sv_find d (drop p s)) else None)"

lemma sv_find_Nil [simp]: "sv_find [] s = Some 0"
  by (cases s) auto

lemma sv_find_SomeD: "sv_find d s = Some i \<Longrightarrow> i \<le> length s \<and> prefix d (drop i s)"
proof (induction s arbitrary: i)
  case Nil
  then show ?case by (auto split: if_splits)
next
  case (Cons x xs)
  then show ?case by (auto split: if_splits)
qed

lemma sv_find_Some_least: "sv_find d s = Some i \<Longrightarrow> j < i \<Longrightarrow> \<not> prefix d (drop j s)"
proof (induction s arbitrary: i j)
  case Nil
  then show ?case by (auto split: if_splits)
next
  case (Cons x xs)
  then show ?case by (cases j) (auto split: if_splits)
qed

lemma sv_find_NoneD: "sv_find d s = None \<Longrightarrow> j \<le> length s \<Longrightarrow> \<not> prefix d (drop j s)"
proof (induction s arbitrary: j)
  case Nil
  then show ?case by (auto split: if_splits)
next
  case (Cons x xs)
  then show ?case by (cases j) (auto split: if_splits)
qed

lemma sv_find_SomeI:
  assumes "i \<le> length s" and "prefix d (drop i s)" and "\<And>j. j < i \<Longrightarrow> \<not> prefix d (drop j s)"
  shows "sv_find d s = Some i"
proof (cases "sv_find d s")
  case None
  with assms(1,2) show ?thesis using sv_find_NoneD by blast
next
  case (Some k)
  have "\<not> k < i" using assms(3) sv_find_SomeD [OF Some] by blast
  moreover have "\<not> i < k" using assms(2) sv_find_Some_least [OF Some] by blast
  ultimately show ?thesis using Some by simp
qed

lemma sv_find_Some_iff:
  "sv_find d s = Some i \<longleftrightarrow>
     i \<le> length s \<and> prefix d (drop i s) \<and> (\<forall>j < i. \<not> prefix d (drop j s))"
  using sv_find_SomeD sv_find_SomeI sv_find_Some_least by blast

lemma sv_find_None_iff: "sv_find d s = None \<longleftrightarrow> (\<forall>j \<le> length s. \<not> prefix d (drop j s))"
proof (cases "sv_find d s")
  case None
  then show ?thesis by (simp add: sv_find_NoneD)
next
  case (Some i)
  from Some have "sv_find d s \<noteq> None" by simp
  then show ?thesis using sv_find_SomeD [OF Some] by blast
qed

lemma sv_find_length: "sv_find d s = Some i \<Longrightarrow> i + length d \<le> length s"
  using sv_find_SomeD [of d s i] prefix_length_le [of d "drop i s"] by auto

lemma prefix_conv_take: "prefix d s \<longleftrightarrow> take (length d) s = d"
proof
  assume "take (length d) s = d"
  then have "s = d @ drop (length d) s" using append_take_drop_id [of "length d" s] by simp
  then show "prefix d s" by (rule prefixI)
qed (auto simp: prefix_def)

lemma sv_find_split:
  assumes "sv_find d s = Some i"
  shows "s = take i s @ d @ drop (i + length d) s"
proof -
  have "take (length d) (drop i s) = d"
    using sv_find_SomeD [OF assms] by (simp add: prefix_conv_take)
  then have "d @ drop (i + length d) s = drop i s"
    using append_take_drop_id [of "length d" "drop i s"] by (simp add: add.commute)
  then show ?thesis by simp
qed

lemma prefix_drop_append:
  assumes "i + length d \<le> length s"
  shows "prefix d (drop i (s @ t)) \<longleftrightarrow> prefix d (drop i s)"
  using assms by (simp add: prefix_conv_take)

lemma sv_find_append_Some:
  assumes f: "sv_find d s = Some i"
  shows "sv_find d (s @ t) = Some i"
proof -
  have len: "i + length d \<le> length s" using f by (rule sv_find_length)
  have eq: "prefix d (drop j (s @ t)) = prefix d (drop j s)" if "j \<le> i" for j
    using that len by (intro prefix_drop_append) simp
  show ?thesis
  proof (rule sv_find_SomeI)
    show "i \<le> length (s @ t)" using len by simp
    show "prefix d (drop i (s @ t))" unfolding eq [OF order_refl] using sv_find_SomeD [OF f] by simp
    fix j assume "j < i"
    then show "\<not> prefix d (drop j (s @ t))"
      unfolding eq [OF less_imp_le [OF \<open>j < i\<close>]] by (rule sv_find_Some_least [OF f])
  qed
qed

text \<open>Positions already ruled out need not be searched again.\<close>

lemma sv_find_from_skip:
  assumes le: "p \<le> length s" and skip: "\<And>j. j < p \<Longrightarrow> \<not> prefix d (drop j s)"
  shows "sv_find_from d p s = sv_find d s"
proof -
  have shift: "drop j s = drop (j - p) (drop p s)" if "\<not> j < p" for j
    using that by simp
  show ?thesis
  proof (cases "sv_find d (drop p s)")
    case None
    have "\<not> prefix d (drop j s)" if "j \<le> length s" for j
    proof (cases "j < p")
      case True
      then show ?thesis by (rule skip)
    next
      case False
      show ?thesis unfolding shift [OF False] using that le by (intro sv_find_NoneD [OF None]) simp
    qed
    then have "sv_find d s = None" unfolding sv_find_None_iff by blast
    with None le show ?thesis by (simp add: sv_find_from_def)
  next
    case (Some k)
    have "sv_find d s = Some (p + k)"
    proof (rule sv_find_SomeI)
      show "p + k \<le> length s" using sv_find_SomeD [OF Some] le by auto
      show "prefix d (drop (p + k) s)" using sv_find_SomeD [OF Some] by (simp add: add.commute)
      fix j assume j: "j < p + k"
      show "\<not> prefix d (drop j s)"
      proof (cases "j < p")
        case True
        then show ?thesis by (rule skip)
      next
        case False
        show ?thesis unfolding shift [OF False]
          using j False by (intro sv_find_Some_least [OF Some]) simp
      qed
    qed
    with Some le show ?thesis by (simp add: sv_find_from_def)
  qed
qed

text \<open>
  Once \<open>s\<close> is known not to contain \<open>d\<close>, a search in \<open>s @ t\<close> may start
  \<open>length d\<close> bytes before the end of \<open>s\<close>.
\<close>

lemma sv_find_resume:
  assumes none: "sv_find d s = None"
  shows "sv_find_from d (length s - min (length s) (length d)) (s @ t) = sv_find d (s @ t)"
proof (rule sv_find_from_skip)
  fix j assume j: "j < length s - min (length s) (length d)"
  then have "j + length d \<le> length s" by (simp add: min_def split: if_splits)
  then have "prefix d (drop j (s @ t)) = prefix d (drop j s)" by (rule prefix_drop_append)
  moreover have "\<not> prefix d (drop j s)" using j by (intro sv_find_NoneD [OF none]) simp
  ultimately show "\<not> prefix d (drop j (s @ t))" by simp
qed simp

section \<open>Bytes\<close>

lemma of_char_bound: "of_char c < (256 :: nat)"
  by (cases c) (simp only: of_char_Char, simp)

lemma char_of_add_256: "char_of (of_char a + 256 * v :: nat) = a"
proof -
  have "char_of (of_char a + 256 * v :: nat) = char_of ((of_char a + 256 * v) mod 256 :: nat)"
    by (simp only: char_of_mod_256)
  also have "(of_char a + 256 * v :: nat) mod 256 = of_char a mod 256"
    by (simp only: mod_mult_self2)
  finally show ?thesis by (simp only: char_of_mod_256 char_of_char)
qed

section \<open>Integers\<close>

text \<open>An \<^verbatim>\<open>int\<close> is 32 bits wide; converting it to \<^verbatim>\<open>std::size_t\<close> extends its sign.\<close>

definition as_size_t :: "32 word \<Rightarrow> nat" where
  "as_size_t offset = unat (scast offset :: 64 word)"

lemma as_size_t_sint: "int (as_size_t w) = sint w mod 2 ^ 64"
proof -
  have "int (as_size_t w) = uint (word_of_int (sint w) :: 64 word)"
    by (simp add: as_size_t_def)
  also have "\<dots> = sint w mod 2 ^ LENGTH(64)" by (rule uint_word_of_int)
  finally show ?thesis by simp
qed

lemma as_size_t_of_nat:
  assumes "n < 2 ^ 31"
  shows "as_size_t (of_nat n) = n"
proof -
  have "sint (of_nat n :: 32 word) = int n"
    using assms by (simp add: signed_of_nat signed_take_bit_int_eq_self)
  then have "int (as_size_t (of_nat n)) = int n" using assms by (simp only: as_size_t_sint) simp
  then show ?thesis by simp
qed

lemma as_size_t_gap: "as_size_t w < 2 ^ 31 \<or> as_size_t w \<ge> 2 ^ 63"
proof (cases "sint w \<ge> 0")
  case True
  have "sint w < 2 ^ 31" using sint_less [of w] by simp
  with True have "int (as_size_t w) < 2 ^ 31" by (simp add: as_size_t_sint)
  then show ?thesis by simp
next
  case False
  have "- (2 ^ 31) \<le> sint w" using sint_ge [of w] by simp
  moreover have "sint w mod 2 ^ 64 = sint w + 2 ^ 64"
    using False calculation by (intro int_mod_pos_eq [of _ _ "-1"]) auto
  ultimately have "int (as_size_t w) \<ge> 2 ^ 63" by (simp add: as_size_t_sint)
  then show ?thesis by simp
qed

section \<open>Counting the elements of a list\<close>

text \<open>The states of several threads are kept in a list; invariants count how many are in some place.\<close>

abbreviation one :: "bool \<Rightarrow> nat" where
  "one b \<equiv> if b then 1 else 0"

definition cnt :: "('a \<Rightarrow> bool) \<Rightarrow> 'a list \<Rightarrow> nat" where
  "cnt P xs = length (filter P xs)"

lemma cnt_simps [simp]:
  "cnt P [] = 0" "cnt P (x # xs) = one (P x) + cnt P xs" "cnt P (xs @ ys) = cnt P xs + cnt P ys"
  by (simp_all add: cnt_def)

lemma cnt_update:
  "i < length xs \<Longrightarrow> cnt P (xs[i := y]) + one (P (xs ! i)) = cnt P xs + one (P y)"
proof (induction xs arbitrary: i)
  case (Cons x xs)
  then show ?case by (cases i) auto
qed simp

lemma cnt_mono: "(\<And>x. P x \<Longrightarrow> Q x) \<Longrightarrow> cnt P xs \<le> cnt Q xs"
  by (induction xs) auto

lemma cnt_zero: "cnt P xs = 0 \<longleftrightarrow> (\<forall>x \<in> set xs. \<not> P x)"
  by (auto simp: cnt_def filter_empty_conv)

lemma set_update_other: "x \<in> set (xs[i := y]) \<Longrightarrow> x \<noteq> y \<Longrightarrow> x \<in> set xs"
  using set_update_subset_insert [of xs i y] by auto

lemma in_update: "i < length xs \<Longrightarrow> x \<in> set xs \<Longrightarrow> xs ! i \<noteq> x \<Longrightarrow> x \<in> set (xs[i := y])"
  by (metis in_set_conv_nth length_list_update nth_list_update_neq)

end
