(* ===== verification/Encoding.thy ===== *)
theory Encoding
  imports Prelude
begin

text \<open>
  The text codecs of \<^verbatim>\<open>flare/base/encoding\<close>: the lookup tables of
  \<^verbatim>\<open>detail/hex_chars.h\<close>, hexadecimal (\<^verbatim>\<open>hex.cc\<close>), percent encoding
  (\<^verbatim>\<open>percent.cc\<close>) and Base64 (\<^verbatim>\<open>base64.cc\<close>, whose block coders are OpenSSL's and
  therefore parameters here). A function that fills a \<^verbatim>\<open>std::string* to\<close> takes the old
  value of \<^verbatim>\<open>*to\<close> and returns the new one; a \<^verbatim>\<open>bool\<close> it returns comes first.
\<close>

section \<open>Lookup tables\<close>

record CharPair =
  cp_a :: char
  cp_b :: char

definition kHexCharsLowercase :: "CharPair list" where
  "kHexCharsLowercase =
     (let chars = ''0123456789abcdef''
      in map (\<lambda>i. \<lparr>cp_a = chars ! (i div 16 mod 16), cp_b = chars ! (i mod 16)\<rparr>) [0..<256])"

definition kHexCharsUppercase :: "CharPair list" where
  "kHexCharsUppercase =
     (let chars = ''0123456789ABCDEF''
      in map (\<lambda>i. \<lparr>cp_a = chars ! (i div 16 mod 16), cp_b = chars ! (i mod 16)\<rparr>) [0..<256])"

definition kHexCharToDecimal :: "int list" where
  "kHexCharToDecimal =
     (let result = replicate 256 (-1);
          result = fold (\<lambda>i r. r[i + of_char CHR ''0'' := int i]) [0..<10] result
      in fold (\<lambda>i r. r[i + of_char CHR ''a'' := int (10 + i), i + of_char CHR ''A'' := int (10 + i)])
           [0..<6] result)"

definition AsciiCodeFromHexCharPair :: "char \<Rightarrow> char \<Rightarrow> int" where
  "AsciiCodeFromHexCharPair x y =
     (let a = kHexCharToDecimal ! of_char x; b = kHexCharToDecimal ! of_char y
      in if a = -1 \<or> b = -1 then -1 else a * 16 + b)"

section \<open>Hexadecimal\<close>

fun EncodeHex_into :: "string \<Rightarrow> string \<Rightarrow> bool \<Rightarrow> string" where
  "EncodeHex_into [] to uppercase = to"
| "EncodeHex_into (e # from) to uppercase =
     (let index = of_char e
      in if uppercase
         then EncodeHex_into from
                (to @ [cp_a (kHexCharsUppercase ! index), cp_b (kHexCharsUppercase ! index)]) uppercase
         else EncodeHex_into from
                (to @ [cp_a (kHexCharsLowercase ! index), cp_b (kHexCharsLowercase ! index)]) uppercase)"

definition EncodeHex :: "string \<Rightarrow> bool \<Rightarrow> string" where
  "EncodeHex from uppercase = EncodeHex_into from [] uppercase"

text \<open>The loop of \<^verbatim>\<open>DecodeHex\<close>, which runs only when the length is even.\<close>

fun DecodeHex_loop :: "string \<Rightarrow> string \<Rightarrow> bool \<times> string" where
  "DecodeHex_loop (x # y # from) to =
     (let v = AsciiCodeFromHexCharPair x y
      in if v = -1 then (False, to) else DecodeHex_loop from (to @ [char_of (nat v)]))"
| "DecodeHex_loop from to = (True, to)"

definition DecodeHex_into :: "string \<Rightarrow> string \<Rightarrow> bool \<times> string" where
  "DecodeHex_into from to =
     (if length from mod 2 \<noteq> 0 then (False, to) else DecodeHex_loop from to)"

text \<open>The overload that returns an optional ignores the success flag of the other one.\<close>

definition DecodeHex :: "string \<Rightarrow> string option" where
  "DecodeHex from = (let (_, result) = DecodeHex_into from [] in Some result)"

section \<open>Percent encoding\<close>

datatype PercentEncodingStyle = Ecma262 | Rfc3986 | Rfc5987

record PercentEncodingOptions =
  peo_style :: PercentEncodingStyle
  escape_reserved :: bool

definition default_PercentEncodingOptions :: PercentEncodingOptions where
  "default_PercentEncodingOptions = \<lparr>peo_style = Rfc3986, escape_reserved = True\<rparr>"

definition GenerateUnescapedCharBitmap :: "string \<Rightarrow> bool list" where
  "GenerateUnescapedCharBitmap unescaped_chars =
     (let result = replicate 256 False;
          result = fold (\<lambda>e r. r[of_char e := True]) unescaped_chars result;
          result = fold (\<lambda>i r. r[i + of_char CHR ''0'' := True]) [0..<10] result
      in fold (\<lambda>i r. r[i + of_char CHR ''a'' := True, i + of_char CHR ''A'' := True])
           [0..<26] result)"

fun kUnescapedChars :: "PercentEncodingStyle \<Rightarrow> bool \<Rightarrow> bool list" where
  "kUnescapedChars Ecma262 esc =
     GenerateUnescapedCharBitmap
       (if esc then ''_-!.*~'' @ [CHR 0x27] @ ''()''
        else ''_-,;:!?.'' @ [CHR 0x27] @ ''()@*/&#+=~$'')"
| "kUnescapedChars Rfc3986 esc =
     GenerateUnescapedCharBitmap
       (if esc then ''_-.~'' else ''_-,;:!?.'' @ [CHR 0x27] @ ''()[]@*/&#+=~$'')"
| "kUnescapedChars Rfc5987 esc =
     GenerateUnescapedCharBitmap (''!#$&+-.^_'' @ [CHR 0x60] @ ''|~'')"

fun EncodePercent_loop :: "bool list \<Rightarrow> string \<Rightarrow> string \<Rightarrow> string" where
  "EncodePercent_loop unescaped [] to = to"
| "EncodePercent_loop unescaped (e # from) to =
     (if unescaped ! of_char e then EncodePercent_loop unescaped from (to @ [e])
      else let hex_chars = kHexCharsUppercase ! of_char e
           in EncodePercent_loop unescaped from (to @ [CHR ''%'', cp_a hex_chars, cp_b hex_chars]))"

definition EncodePercent_into :: "string \<Rightarrow> string \<Rightarrow> PercentEncodingOptions \<Rightarrow> string" where
  "EncodePercent_into from to options =
     (let unescaped = kUnescapedChars (peo_style options) (escape_reserved options)
      in EncodePercent_loop unescaped from to)"

definition EncodePercent :: "string \<Rightarrow> PercentEncodingOptions \<Rightarrow> string" where
  "EncodePercent from options = EncodePercent_into from [] options"

fun DecodePercent_into :: "string \<Rightarrow> string \<Rightarrow> bool \<Rightarrow> bool \<times> string" where
  "DecodePercent_into [] to decode_plus = (True, to)"
| "DecodePercent_into (c # iter) to decode_plus =
     (if c = CHR ''%'' then
        (case iter of
           x # y # iter' \<Rightarrow>
             (let v = AsciiCodeFromHexCharPair x y
              in if v = -1 then (False, to)
                 else DecodePercent_into iter' (to @ [char_of (nat v)]) decode_plus)
         | _ \<Rightarrow> (False, to))
      else if decode_plus \<and> c = CHR ''+'' then DecodePercent_into iter (to @ [CHR '' '']) decode_plus
      else DecodePercent_into iter (to @ [c]) decode_plus)"

definition DecodePercent :: "string \<Rightarrow> bool \<Rightarrow> string option" where
  "DecodePercent from decode_plus =
     (case DecodePercent_into from [] decode_plus of
        (True, result) \<Rightarrow> Some result
      | (False, _) \<Rightarrow> None)"

section \<open>Base64\<close>

text \<open>
  \<^verbatim>\<open>EVP_EncodeBlock\<close> and \<^verbatim>\<open>EVP_DecodeBlock\<close> belong to OpenSSL. They are parameters:
  each maps its input to its return code and to the bytes it writes at the start of the
  output array.
\<close>

type_synonym evp_block = "string \<Rightarrow> int \<times> string"

text \<open>
  \<^verbatim>\<open>to->resize(n)\<close> keeps the old bytes and pads with zero; the block coder then
  overwrites the first \<open>length out\<close> of them.
\<close>

definition resize :: "string \<Rightarrow> nat \<Rightarrow> string" where
  "resize to n = take n (to @ replicate n (CHR 0x00))"

definition overwrite :: "string \<Rightarrow> string \<Rightarrow> string" where
  "overwrite to out = out @ drop (length out) to"

definition EncodeBase64_into :: "evp_block \<Rightarrow> string \<Rightarrow> string \<Rightarrow> string result" where
  "EncodeBase64_into EVP_EncodeBlock from to =
     check (length from < 2 ^ 31 - 1)
       (let size = 4 * ((length from + 2) div 3);
            to = resize to (size + 1);
            (rc, out) = EVP_EncodeBlock from;
            to = overwrite to out
        in check (rc = int size) (Inr (butlast to)))"

definition EncodeBase64 :: "evp_block \<Rightarrow> string \<Rightarrow> string result" where
  "EncodeBase64 EVP_EncodeBlock from = EncodeBase64_into EVP_EncodeBlock from []"

definition DecodeBase64_into :: "evp_block \<Rightarrow> string \<Rightarrow> string \<Rightarrow> (bool \<times> string) result" where
  "DecodeBase64_into EVP_DecodeBlock from to =
     (if length from < 3 then
        (if from = [] then Inr (True, []) else Inr (False, to))
      else
        let size = 3 * length from div 4;
            to = resize to (size + 1);
            (rc, out) = EVP_DecodeBlock from;
            to = overwrite to out
        in if rc \<noteq> int size then Inr (False, to)
           else check (length from \<ge> 2 \<and> length to \<ge> 2)
             (let to = (if from ! (length from - 1) = CHR ''='' then butlast to else to);
                  to = (if from ! (length from - 2) = CHR ''='' then butlast to else to)
              in Inr (True, butlast to)))"

definition DecodeBase64 :: "evp_block \<Rightarrow> string \<Rightarrow> string option result" where
  "DecodeBase64 EVP_DecodeBlock from =
     rbind (DecodeBase64_into EVP_DecodeBlock from [])
       (\<lambda>(ok, result). Inr (if ok then Some result else None))"

section \<open>The tables in closed form\<close>

text \<open>A run of updates at consecutive indices, as the table builders make them.\<close>

lemma length_fold_update [simp]:
  "length (fold (\<lambda>i r. r[g i := f i]) is r) = length r"
  by (induction "is" arbitrary: r) auto

lemma length_fold_update2 [simp]:
  "length (fold (\<lambda>i r. r[g i := f i, h i := k i]) is r) = length r"
  by (induction "is" arbitrary: r) auto

lemma nth_fold_update:
  assumes "n + c \<le> length r" and "m < length r"
  shows "fold (\<lambda>i r. r[i + c := f i]) [0..<n] r ! m =
           (if c \<le> m \<and> m < n + c then f (m - c) else r ! m)"
  using assms(1)
proof (induction n)
  case 0
  then show ?case by auto
next
  case (Suc n)
  then show ?case using assms(2) by (auto simp: nth_list_update less_Suc_eq)
qed

lemma nth_fold_update2:
  assumes "n + c \<le> length r" and "n + d \<le> c" and "m < length r"
  shows "fold (\<lambda>i r. r[i + c := f i, i + d := f i]) [0..<n] r ! m =
           (if c \<le> m \<and> m < n + c \<or> d \<le> m \<and> m < n + d
            then f (if c \<le> m then m - c else m - d) else r ! m)"
  using assms(1,2)
proof (induction n)
  case 0
  then show ?case by auto
next
  case (Suc n)
  then show ?case using assms(3) by (auto simp: nth_list_update less_Suc_eq)
qed

text \<open>The value of a hexadecimal digit, by ranges of character codes.\<close>

definition hexval :: "nat \<Rightarrow> int" where
  "hexval n = (if 97 \<le> n \<and> n < 103 then int n - 87
               else if 65 \<le> n \<and> n < 71 then int n - 55
               else if 48 \<le> n \<and> n < 58 then int n - 48 else -1)"

lemma kHexCharToDecimal_nth: "n < 256 \<Longrightarrow> kHexCharToDecimal ! n = hexval n"
  by (simp add: kHexCharToDecimal_def hexval_def nth_fold_update nth_fold_update2 of_nat_diff)

lemma of_char_less_256 [simp]: "of_char c < (256 :: nat)"
  by (cases c) (simp add: of_char_def horner_sum_simps of_bool_def)

lemma AsciiCode_hexval:
  "AsciiCodeFromHexCharPair x y =
     (if hexval (of_char x) = -1 \<or> hexval (of_char y) = -1 then -1
      else hexval (of_char x) * 16 + hexval (of_char y))"
  by (simp add: AsciiCodeFromHexCharPair_def kHexCharToDecimal_nth)

lemma hexval_bounds: "hexval n \<noteq> -1 \<Longrightarrow> 0 \<le> hexval n \<and> hexval n < 16"
  by (auto simp: hexval_def split: if_splits)

lemma hexval_digits:
  "list_all (\<lambda>i. hexval (of_char (''0123456789ABCDEF'' ! i)) = int i \<and>
     hexval (of_char (''0123456789abcdef'' ! i)) = int i) [0..<16]"
  by code_simp

lemma hexval_upper: "i < 16 \<Longrightarrow> hexval (of_char (''0123456789ABCDEF'' ! i)) = int i"
  using hexval_digits unfolding list_all_iff by simp

lemma hexval_lower: "i < 16 \<Longrightarrow> hexval (of_char (''0123456789abcdef'' ! i)) = int i"
  using hexval_digits unfolding list_all_iff by simp

lemma kHexCharsUppercase_nth:
  "n < 256 \<Longrightarrow> kHexCharsUppercase ! n =
     \<lparr>cp_a = ''0123456789ABCDEF'' ! (n div 16 mod 16), cp_b = ''0123456789ABCDEF'' ! (n mod 16)\<rparr>"
  unfolding kHexCharsUppercase_def Let_def by (simp del: nth_Cons_numeral nth_Cons' upt_Suc)

lemma kHexCharsLowercase_nth:
  "n < 256 \<Longrightarrow> kHexCharsLowercase ! n =
     \<lparr>cp_a = ''0123456789abcdef'' ! (n div 16 mod 16), cp_b = ''0123456789abcdef'' ! (n mod 16)\<rparr>"
  unfolding kHexCharsLowercase_def Let_def by (simp del: nth_Cons_numeral nth_Cons' upt_Suc)

lemma nibble_hi: "of_char c div 16 mod 16 = of_char c div (16 :: nat)"
  using of_char_less_256 [of c] by (intro mod_less less_mult_imp_div_less) simp

lemma nibbles: "int (n div 16) * 16 + int (n mod 16) = int n"
  by presburger

lemma AsciiCode_upper:
  assumes "p = kHexCharsUppercase ! of_char c"
  shows "AsciiCodeFromHexCharPair (cp_a p) (cp_b p) = int (of_char c)"
  unfolding assms AsciiCode_hexval
  using nibbles [of "of_char c"]
  by (simp add: kHexCharsUppercase_nth hexval_upper nibble_hi less_mult_imp_div_less del: of_nat_of_char)

lemma AsciiCode_lower:
  assumes "p = kHexCharsLowercase ! of_char c"
  shows "AsciiCodeFromHexCharPair (cp_a p) (cp_b p) = int (of_char c)"
  unfolding assms AsciiCode_hexval
  using nibbles [of "of_char c"]
  by (simp add: kHexCharsLowercase_nth hexval_lower nibble_hi less_mult_imp_div_less del: of_nat_of_char)

section \<open>Hexadecimal round trips\<close>

lemma EncodeHex_into_append: "EncodeHex_into s to u = to @ EncodeHex_into s [] u"
proof (induction s arbitrary: to)
  case (Cons e s)
  have "EncodeHex_into s (to @ [x, y]) u = to @ EncodeHex_into s [x, y] u" for x y
    using Cons.IH [of "to @ [x, y]"] Cons.IH [of "[x, y]"] by simp
  then show ?case by (cases u) (simp_all add: Let_def)
qed simp

lemma EncodeHex_Cons:
  "\<exists>x y. EncodeHex (e # s) u = x # y # EncodeHex s u \<and>
     AsciiCodeFromHexCharPair x y = int (of_char e)"
proof -
  define p where "p = (if u then kHexCharsUppercase ! of_char e else kHexCharsLowercase ! of_char e)"
  have "EncodeHex (e # s) u = EncodeHex_into s [cp_a p, cp_b p] u"
    by (simp add: EncodeHex_def p_def Let_def)
  also have "\<dots> = cp_a p # cp_b p # EncodeHex s u"
    using EncodeHex_into_append [of s "[cp_a p, cp_b p]" u] by (simp add: EncodeHex_def)
  finally have "EncodeHex (e # s) u = cp_a p # cp_b p # EncodeHex s u" .
  moreover have "AsciiCodeFromHexCharPair (cp_a p) (cp_b p) = int (of_char e)"
    using AsciiCode_upper AsciiCode_lower by (cases u) (simp_all only: p_def if_True if_False)
  ultimately show ?thesis by blast
qed

lemma EncodeHex_Nil [simp]: "EncodeHex [] u = []"
  by (simp add: EncodeHex_def)

lemma length_EncodeHex: "length (EncodeHex s u) = 2 * length s"
proof (induction s)
  case (Cons e s)
  then show ?case using EncodeHex_Cons [of e s u] by auto
qed simp

lemma DecodeHex_loop_EncodeHex: "DecodeHex_loop (EncodeHex s u) to = (True, to @ s)"
proof (induction s arbitrary: to)
  case (Cons e s)
  obtain x y where "EncodeHex (e # s) u = x # y # EncodeHex s u"
    and "AsciiCodeFromHexCharPair x y = int (of_char e)"
    using EncodeHex_Cons by blast
  then show ?case by (simp add: Cons.IH del: of_nat_of_char)
qed simp

lemma DecodeHex_into_EncodeHex: "DecodeHex_into (EncodeHex s u) to = (True, to @ s)"
  by (simp add: DecodeHex_into_def length_EncodeHex DecodeHex_loop_EncodeHex)

text \<open>Decoding is total on the two failures: odd length and a character that is no digit.\<close>

lemma DecodeHex_loop_length:
  "DecodeHex_loop s to = (True, r) \<Longrightarrow> even (length s) \<Longrightarrow> length r = length to + length s div 2"
  by (induction s to rule: DecodeHex_loop.induct) (auto simp: Let_def split: if_splits)

section \<open>Percent round trips\<close>

lemma length_GenerateUnescapedCharBitmap [simp]:
  "length (GenerateUnescapedCharBitmap cs) = 256"
  by (simp add: GenerateUnescapedCharBitmap_def Let_def)

lemma nth_mark: "n < length r \<Longrightarrow> r[k := True] ! n \<longleftrightarrow> r ! n \<or> k = n"
  by (cases "k = n") auto

lemma nth_fold_mark:
  "n < length r \<Longrightarrow> fold (\<lambda>e r. r[g e := True]) cs r ! n \<longleftrightarrow> r ! n \<or> n \<in> g ` set cs"
  by (induction cs arbitrary: r) (auto simp: nth_mark)

text \<open>A character is left alone exactly when it is listed or alphanumeric.\<close>

definition is_alnum :: "char \<Rightarrow> bool" where
  "is_alnum c \<longleftrightarrow> (let n = of_char c :: nat in
     48 \<le> n \<and> n < 58 \<or> 65 \<le> n \<and> n < 91 \<or> 97 \<le> n \<and> n < 123)"

lemma inj_of_char_nat: "of_char c = (of_char d :: nat) \<longleftrightarrow> c = d"
  by (metis char_of_char)

lemma GenerateUnescapedCharBitmap_nth:
  "GenerateUnescapedCharBitmap cs ! of_char c \<longleftrightarrow> c \<in> set cs \<or> is_alnum c"
  by (auto simp: GenerateUnescapedCharBitmap_def Let_def nth_fold_update2 nth_fold_update
      nth_fold_mark is_alnum_def inj_of_char_nat)

lemma EncodePercent_loop_append:
  "EncodePercent_loop un s to = to @ EncodePercent_loop un s []"
proof (induction s arbitrary: to)
  case (Cons e s)
  have "EncodePercent_loop un s (to @ t) = to @ EncodePercent_loop un s t" for t
    using Cons.IH [of "to @ t"] Cons.IH [of t] by simp
  then show ?case by (simp add: Let_def)
qed simp

lemma EncodePercent_loop_Cons:
  "EncodePercent_loop un (e # s) [] =
     (if un ! of_char e then [e]
      else [CHR ''%'', cp_a (kHexCharsUppercase ! of_char e), cp_b (kHexCharsUppercase ! of_char e)])
     @ EncodePercent_loop un s []"
  using EncodePercent_loop_append [of un s "[e]"]
    EncodePercent_loop_append [of un s "[CHR ''%'', cp_a (kHexCharsUppercase ! of_char e),
      cp_b (kHexCharsUppercase ! of_char e)]"]
  by (simp add: Let_def)

lemma DecodePercent_EncodePercent_loop:
  assumes "\<And>e. un ! of_char e \<Longrightarrow> e \<noteq> CHR ''%''"
    and "\<And>e. decode_plus \<Longrightarrow> un ! of_char e \<Longrightarrow> e \<noteq> CHR ''+''"
  shows "DecodePercent_into (EncodePercent_loop un s []) to decode_plus = (True, to @ s)"
proof (induction s arbitrary: to)
  case (Cons e s)
  show ?case
  proof (cases "un ! of_char e")
    case True
    with assms [of e] show ?thesis
      by (auto simp: EncodePercent_loop_Cons Cons.IH simp del: EncodePercent_loop.simps(2))
  next
    case False
    then show ?thesis
      by (simp add: EncodePercent_loop_Cons Cons.IH AsciiCode_upper [OF refl] Let_def
          del: of_nat_of_char EncodePercent_loop.simps(2))
  qed
qed simp

lemma percent_escaped: "kUnescapedChars style esc ! of_char e \<Longrightarrow> e \<noteq> CHR ''%''"
  by (cases style) (auto simp: GenerateUnescapedCharBitmap_nth is_alnum_def split: if_splits)

lemma plus_escaped:
  "style \<noteq> Rfc5987 \<Longrightarrow> kUnescapedChars style True ! of_char e \<Longrightarrow> e \<noteq> CHR ''+''"
  by (cases style) (auto simp: GenerateUnescapedCharBitmap_nth is_alnum_def split: if_splits)

lemma DecodePercent_EncodePercent:
  assumes "decode_plus \<longrightarrow> escape_reserved opts \<and> peo_style opts \<noteq> Rfc5987"
  shows "DecodePercent (EncodePercent s opts) decode_plus = Some s"
proof -
  have "DecodePercent_into (EncodePercent s opts) [] decode_plus = (True, [] @ s)"
    unfolding EncodePercent_def EncodePercent_into_def Let_def
    using assms by (intro DecodePercent_EncodePercent_loop) (auto dest: percent_escaped plus_escaped)
  then show ?thesis by (simp add: DecodePercent_def)
qed

section \<open>The codec contract\<close>

text \<open>
  Every codec of the directory promises that decoding undoes encoding; that the encoded
  text determines the original follows once and for all.
\<close>

locale text_codec =
  fixes enc :: "string \<Rightarrow> string" and dec :: "string \<Rightarrow> string option"
  assumes dec_enc: "dec (enc s) = Some s"
begin

lemma enc_inj: "enc s = enc t \<longleftrightarrow> s = t"
  by (metis dec_enc option.inject)

lemma dec_surj: "\<exists>t. dec t = Some s"
  using dec_enc by blast

end

definition hex_dec :: "string \<Rightarrow> string option" where
  "hex_dec s = (case DecodeHex_into s [] of (ok, r) \<Rightarrow> if ok then Some r else None)"

interpretation hex_codec: text_codec "\<lambda>s. EncodeHex s u" hex_dec for u
  by unfold_locales (simp add: hex_dec_def DecodeHex_into_EncodeHex)

interpretation percent_codec: text_codec "\<lambda>s. EncodePercent s opts" "\<lambda>s. DecodePercent s False" for opts
  by unfold_locales (simp add: DecodePercent_EncodePercent)

section \<open>Base64 round trip\<close>

text \<open>
  What OpenSSL documents of its block coders, for one input \<open>s\<close>: the encoder writes four
  characters for every three bytes begun and a terminating zero, with one \<^verbatim>\<open>=\<close> when one
  byte is missing from the last group and two when two are; the decoder writes three bytes for
  every four characters, the missing ones as zero. Both return the number of bytes written, the
  terminating zero not counted.
\<close>

definition evp_documented :: "evp_block \<Rightarrow> evp_block \<Rightarrow> string \<Rightarrow> bool" where
  "evp_documented E D s \<longleftrightarrow>
     (let g = (length s + 2) div 3; (rc, out) = E s; e = butlast out
      in rc = int (4 * g) \<and> length out = 4 * g + 1 \<and> last out = CHR 0x00 \<and>
         (0 < g \<longrightarrow> (e ! (4 * g - 1) = CHR ''='') = (length s mod 3 \<noteq> 0)) \<and>
         (0 < g \<longrightarrow> (e ! (4 * g - 2) = CHR ''='') = (length s mod 3 = 1)) \<and>
         D e = (int (3 * g), s @ replicate (3 * g - length s) (CHR 0x00)))"

lemma EncodeBase64_documented:
  assumes "evp_documented E D s" and "length s < 2 ^ 31 - 1"
  shows "EncodeBase64 E s = Inr (butlast (snd (E s)))"
proof -
  obtain rc out where E: "E s = (rc, out)" by force
  with assms(1) have "rc = int (4 * ((length s + 2) div 3))"
    and "length out = 4 * ((length s + 2) div 3) + 1"
    by (simp_all add: evp_documented_def Let_def)
  with E assms(2) show ?thesis
    by (simp add: EncodeBase64_def EncodeBase64_into_def resize_def overwrite_def)
qed

lemma butlast_zeros: "butlast (s @ replicate (Suc n) x) = s @ replicate n x"
  by (simp only: replicate_Suc replicate_append_same [symmetric] append_assoc [symmetric] butlast_snoc)

lemma groups_of_three:
  fixes n :: nat
  shows "3 * ((n + 2) div 3) = n + (if n mod 3 = 0 then 0 else 3 - n mod 3)"
  by presburger

lemma overwrite_zeros:
  "length s + k = n \<Longrightarrow>
   overwrite (resize [] (n + 1)) (s @ replicate k (CHR 0x00)) = s @ replicate (Suc k) (CHR 0x00)"
proof -
  assume "length s + k = n"
  then have "drop (length (s @ replicate k (CHR 0x00))) (replicate (n + 1) (CHR 0x00)) = [CHR 0x00]"
    by (simp del: replicate.simps) simp
  then show ?thesis by (simp add: overwrite_def resize_def replicate_append_same)
qed

lemma DecodeBase64_documented:
  assumes doc: "evp_documented E D s"
  shows "DecodeBase64 D (butlast (snd (E s))) = Inr (Some s)"
proof (cases "s = []")
  case True
  with doc have "length (snd (E s)) = 1" by (simp add: evp_documented_def Let_def split: prod.splits)
  then have "butlast (snd (E s)) = []" by (cases "snd (E s)") auto
  with True show ?thesis by (simp add: DecodeBase64_def DecodeBase64_into_def)
next
  case False
  define g where "g = (length s + 2) div 3"
  define e where "e = butlast (snd (E s))"
  define k where "k = (if length s mod 3 = 0 then 0 else 3 - length s mod 3)"
  have g3: "3 * g = length s + k" unfolding g_def k_def by (rule groups_of_three)
  with False have g: "0 < g" by (cases g) auto
  from doc g have len: "length e = 4 * g"
    and l1: "e ! (4 * g - 1) = CHR ''='' \<longleftrightarrow> length s mod 3 \<noteq> 0"
    and l2: "e ! (4 * g - 2) = CHR ''='' \<longleftrightarrow> length s mod 3 = 1"
    and D: "D e = (int (3 * g), s @ replicate (3 * g - length s) (CHR 0x00))"
    by (auto simp: evp_documented_def Let_def g_def e_def split: prod.splits)
  have D': "D e = (int (3 * g), s @ replicate k (CHR 0x00))" using D g3 by simp
  have size: "3 * length e div 4 = 3 * g" using len by simp
  have to: "overwrite (resize [] (Suc (3 * g))) (s @ replicate k (CHR 0x00))
      = s @ replicate (Suc k) (CHR 0x00)"
    using overwrite_zeros [of s k "3 * g"] g3 by simp
  have "length s mod 3 = 0 \<and> k = 0 \<or> length s mod 3 = 1 \<and> k = Suc (Suc 0) \<or> length s mod 3 = 2 \<and> k = Suc 0"
    unfolding k_def by (simp, presburger)
  moreover have "DecodeBase64_into D e [] =
      check (2 \<le> Suc (length s + k))
        (let to = s @ replicate (Suc k) (CHR 0x00);
             to = (if length s mod 3 \<noteq> 0 then butlast to else to);
             to = (if length s mod 3 = 1 then butlast to else to)
         in Inr (True, butlast to))"
    using g len l1 l2 by (simp add: DecodeBase64_into_def size D' to Let_def del: replicate.simps)
  ultimately have "DecodeBase64_into D e [] = Inr (True, s)"
    using g g3 by (elim disjE conjE) (simp_all add: butlast_zeros del: replicate.simps)
  then show ?thesis by (simp add: DecodeBase64_def e_def)
qed

section \<open>Properties\<close>

text \<open>
  Hexadecimal round trip. Decoding what \<^verbatim>\<open>EncodeHex\<close> produced, in either case,
  succeeds and appends exactly the original bytes to the output string; the encoded text has
  two characters per byte.
\<close>

theorem hex_round_trip:
  "DecodeHex_into (EncodeHex s uppercase) to = (True, to @ s) \<and>
   length (EncodeHex s uppercase) = 2 * length s"
  by (simp add: DecodeHex_into_EncodeHex length_EncodeHex)

text \<open>
  The optional-returning \<^verbatim>\<open>DecodeHex\<close> never reports failure. It drops the success flag,
  so malformed input (odd length, or a character that is no hexadecimal digit) yields the bytes
  decoded before the error instead of \<^verbatim>\<open>std::nullopt\<close>.
\<close>

theorem DecodeHex_never_fails:
  "DecodeHex s = Some (snd (DecodeHex_into s [])) \<and>
   DecodeHex_into ''4zff'' [] = (False, []) \<and> DecodeHex ''4zff'' = Some [] \<and>
   DecodeHex_into ''41zz'' [] = (False, ''A'') \<and> DecodeHex ''41zz'' = Some ''A''"
proof -
  have "char_of (65 :: nat) = CHR ''A''" by code_simp
  then show ?thesis
    by (simp add: DecodeHex_def DecodeHex_into_def AsciiCode_hexval hexval_def Let_def
        split: prod.splits)
qed

text \<open>
  Percent-encoding round trip. For every style and with or without reserved characters
  escaped, decoding gives back the original string; with the plus sign decoded as a space this
  needs the plus sign to be escaped, that is reserved characters escaped and a style other than
  RFC 5987.
\<close>

theorem percent_round_trip:
  "decode_plus \<longrightarrow> escape_reserved opts \<and> peo_style opts \<noteq> Rfc5987 \<Longrightarrow>
   DecodePercent (EncodePercent s opts) decode_plus = Some s"
  by (rule DecodePercent_EncodePercent)

theorem percent_round_trip_witness:
  "DecodePercent (EncodePercent ''a+b %'' default_PercentEncodingOptions) True = Some ''a+b %''"
  by (rule percent_round_trip) (simp add: default_PercentEncodingOptions_def)

text \<open>
  Base64 round trip over OpenSSL's block coders as documented: encoding succeeds, and
  decoding the text trims the padding bytes so that exactly the original bytes come back.
\<close>

theorem base64_round_trip:
  assumes "evp_documented EVP_EncodeBlock EVP_DecodeBlock s" and "length s < 2 ^ 31 - 1"
  shows "\<exists>e. EncodeBase64 EVP_EncodeBlock s = Inr e \<and>
             length e = 4 * ((length s + 2) div 3) \<and>
             DecodeBase64 EVP_DecodeBlock e = Inr (Some s)"
proof -
  have "length (butlast (snd (EVP_EncodeBlock s))) = 4 * ((length s + 2) div 3)"
    using assms(1) by (simp add: evp_documented_def Let_def split: prod.splits)
  then show ?thesis
    using EncodeBase64_documented [OF assms] DecodeBase64_documented [OF assms(1)] by blast
qed

text \<open>Reference block coders (RFC 4648) to instantiate the OpenSSL parameters.\<close>

definition b64_alphabet :: string where
  "b64_alphabet = ''ABCDEFGHIJKLMNOPQRSTUVWXYZabcdefghijklmnopqrstuvwxyz0123456789+/''"

fun b64_encode :: "nat list \<Rightarrow> string" where
  "b64_encode [] = []"
| "b64_encode [a] = [b64_alphabet ! (a div 4), b64_alphabet ! (a mod 4 * 16), CHR ''='', CHR ''='']"
| "b64_encode [a, b] =
     [b64_alphabet ! (a div 4), b64_alphabet ! (a mod 4 * 16 + b div 16),
      b64_alphabet ! (b mod 16 * 4), CHR ''='']"
| "b64_encode (a # b # c # r) =
     [b64_alphabet ! (a div 4), b64_alphabet ! (a mod 4 * 16 + b div 16),
      b64_alphabet ! (b mod 16 * 4 + c div 64), b64_alphabet ! (c mod 64)] @ b64_encode r"

definition b64_val :: "char \<Rightarrow> nat" where
  "b64_val c = length (takeWhile (\<lambda>x. x \<noteq> c) b64_alphabet) mod 64"

fun b64_decode :: "string \<Rightarrow> nat list" where
  "b64_decode (w # x # y # z # r) =
     [b64_val w * 4 + b64_val x div 16, b64_val x mod 16 * 16 + b64_val y div 4,
      b64_val y mod 4 * 64 + b64_val z] @ b64_decode r"
| "b64_decode _ = []"

definition ref_EncodeBlock :: evp_block where
  "ref_EncodeBlock s =
     (let e = b64_encode (map of_char s) in (int (length e), e @ [CHR 0x00]))"

definition ref_DecodeBlock :: evp_block where
  "ref_DecodeBlock s =
     (let d = b64_decode s in (int (length d), map char_of d))"

theorem base64_round_trip_witness:
  "\<exists>e. EncodeBase64 ref_EncodeBlock ''Flare'' = Inr e \<and> length e = 8 \<and>
       DecodeBase64 ref_DecodeBlock e = Inr (Some ''Flare'')"
proof -
  have "evp_documented ref_EncodeBlock ref_DecodeBlock ''Flare''"
    by code_simp
  from base64_round_trip [OF this] show ?thesis by simp
qed

end
