(* ===== verification/Endian.thy ===== *)
theory Endian
  imports Prelude
begin

text \<open>
  Byte order conversion, \<^verbatim>\<open>flare/base/endian.h\<close>. The byte order of the machine
  (\<^verbatim>\<open>std::endian::native\<close>) is a parameter, so the theorems hold on both kinds of machine. An
  integer of a type with \<open>w\<close> bits is a word of \<open>w\<close> bits; \<open>object_bytes\<close> is what
  \<^verbatim>\<open>memcpy\<close> from such an object yields. The network protocols use it for their headers.
\<close>

datatype endian = big | little

fun le_bytes :: "nat \<Rightarrow> nat \<Rightarrow> char list" where
  "le_bytes 0 v = []"
| "le_bytes (Suc n) v = char_of v # le_bytes n (v div 256)"

fun le_value :: "char list \<Rightarrow> nat" where
  "le_value [] = 0"
| "le_value (c # cs) = of_char c + 256 * le_value cs"

abbreviation wordsize :: "'a::len word \<Rightarrow> nat" where
  "wordsize v \<equiv> size v div 8"

definition object_bytes :: "endian \<Rightarrow> 'a::len word \<Rightarrow> char list" where
  "object_bytes native v =
     (let bytes = le_bytes (wordsize v) (unat v)
      in case native of little \<Rightarrow> bytes | big \<Rightarrow> rev bytes)"

definition of_object_bytes :: "endian \<Rightarrow> char list \<Rightarrow> 'a::len word" where
  "of_object_bytes native bs =
     of_nat (le_value (case native of little \<Rightarrow> bs | big \<Rightarrow> rev bs))"

section \<open>Operations\<close>

text \<open>\<^verbatim>\<open>__builtin_bswap{16,32,64}\<close>, and the identity on one byte: the bytes in reverse.\<close>

definition SwapEndian :: "'a::len word \<Rightarrow> 'a word" where
  "SwapEndian v = of_nat (le_value (rev (le_bytes (wordsize v) (unat v))))"

definition SwapForBigEndian :: "endian \<Rightarrow> 'a::len word \<Rightarrow> 'a word" where
  "SwapForBigEndian native v = (if native = big then v else SwapEndian v)"

definition SwapForLittleEndian :: "endian \<Rightarrow> 'a::len word \<Rightarrow> 'a word" where
  "SwapForLittleEndian native v = (if native = little then v else SwapEndian v)"

definition FromBigEndian :: "endian \<Rightarrow> 'a::len word \<Rightarrow> 'a word" where
  "FromBigEndian native v = SwapForBigEndian native v"

definition ToBigEndian :: "endian \<Rightarrow> 'a::len word \<Rightarrow> 'a word" where
  "ToBigEndian native v = SwapForBigEndian native v"

definition FromLittleEndian :: "endian \<Rightarrow> 'a::len word \<Rightarrow> 'a word" where
  "FromLittleEndian native v = SwapForLittleEndian native v"

definition ToLittleEndian :: "endian \<Rightarrow> 'a::len word \<Rightarrow> 'a word" where
  "ToLittleEndian native v = SwapForLittleEndian native v"

section \<open>Properties\<close>

lemma length_le_bytes [simp]: "length (le_bytes n v) = n"
  by (induction n arbitrary: v) auto

lemma le_value_le_bytes [simp]: "le_value (le_bytes n v) = v mod 256 ^ n"
proof (induction n arbitrary: v)
  case (Suc n)
  then show ?case by (simp add: mod_mult2_eq)
qed simp

lemma le_value_less: "le_value bs < 256 ^ length bs"
proof (induction bs)
  case (Cons c bs)
  have "a + 256 * v < 256 * p" if "a < 256" "v < p" for a v p :: nat using that by linarith
  from this [OF of_char_bound Cons] show ?case by simp
qed simp

lemma le_value_less_size: "length bs = n \<Longrightarrow> le_value bs < 256 ^ n"
  using le_value_less by blast

lemma le_bytes_le_value [simp]: "le_bytes (length bs) (le_value bs) = bs"
proof (induction bs)
  case (Cons c bs)
  have "(of_char c + 256 * le_value bs) div 256 = le_value bs"
    using of_char_bound [of c] by (simp only: div_mult_self2 div_less)
  with Cons show ?case by (simp add: char_of_add_256)
qed simp

lemma le_bytes_le_value_eq: "length bs = n \<Longrightarrow> le_bytes n (le_value bs) = bs"
  by auto

lemma two_power_size:
  assumes "8 dvd LENGTH('a::len)"
  shows "256 ^ (LENGTH('a) div 8) = (2 :: nat) ^ LENGTH('a)"
proof -
  obtain k where k: "LENGTH('a) = 8 * k" using assms by blast
  then show ?thesis using power_mult [of "2 :: nat" 8 k] by simp
qed

lemma unat_of_le_value:
  assumes "8 dvd LENGTH('a::len)" and "length bs = LENGTH('a) div 8"
  shows "unat (of_nat (le_value bs) :: 'a word) = le_value bs"
  using le_value_less [of bs] assms two_power_size [where 'a = 'a] by (simp add: unat_of_nat)

lemma unat_mod_size:
  "8 dvd LENGTH('a::len) \<Longrightarrow> unat (v :: 'a word) mod 256 ^ (LENGTH('a) div 8) = unat v"
  using two_power_size [where 'a = 'a] unsigned_less [of v] by simp

lemma bytes_SwapEndian:
  assumes "8 dvd LENGTH('a::len)"
  shows "le_bytes (LENGTH('a) div 8) (unat (SwapEndian (v :: 'a word))) =
           rev (le_bytes (LENGTH('a) div 8) (unat v))"
  by (simp add: SwapEndian_def unat_of_le_value [OF assms] le_bytes_le_value_eq word_size)

lemma SwapEndian_SwapEndian:
  assumes "8 dvd LENGTH('a::len)"
  shows "SwapEndian (SwapEndian v) = (v :: 'a word)"
proof -
  have "SwapEndian (SwapEndian v) =
      of_nat (le_value (rev (le_bytes (LENGTH('a) div 8) (unat (SwapEndian v)))))"
    by (simp add: SwapEndian_def [of "SwapEndian v"] word_size)
  also have "\<dots> = v" by (simp add: bytes_SwapEndian [OF assms] unat_mod_size [OF assms])
  finally show ?thesis .
qed

lemma object_bytes_ToBigEndian:
  assumes "8 dvd LENGTH('a::len)"
  shows "object_bytes native (ToBigEndian native (v :: 'a word)) = rev (le_bytes (wordsize v) (unat v))"
  by (cases native)
    (simp_all add: object_bytes_def ToBigEndian_def SwapForBigEndian_def word_size bytes_SwapEndian [OF assms])

lemma object_bytes_ToLittleEndian:
  assumes "8 dvd LENGTH('a::len)"
  shows "object_bytes native (ToLittleEndian native (v :: 'a word)) = le_bytes (wordsize v) (unat v)"
  by (cases native)
    (simp_all add: object_bytes_def ToLittleEndian_def SwapForLittleEndian_def word_size bytes_SwapEndian [OF assms])

lemma of_object_bytes:
  assumes "8 dvd LENGTH('a::len)"
  shows "of_object_bytes native (object_bytes native v) = (v :: 'a word)"
  by (cases native) (simp_all add: of_object_bytes_def object_bytes_def word_size unat_mod_size [OF assms])

lemma From_To_Endian:
  assumes "8 dvd LENGTH('a::len)"
  shows "FromBigEndian native (ToBigEndian native v) = (v :: 'a word)"
    and "FromLittleEndian native (ToLittleEndian native v) = (v :: 'a word)"
  by (simp_all add: FromBigEndian_def ToBigEndian_def SwapForBigEndian_def FromLittleEndian_def
      ToLittleEndian_def SwapForLittleEndian_def SwapEndian_SwapEndian [OF assms])

lemma endian_wire:
  fixes v :: "'a::len word"
  assumes "8 dvd LENGTH('a)"
  shows "object_bytes here (ToBigEndian here v) = rev (le_bytes (wordsize v) (unat v))"
    and "object_bytes here (ToLittleEndian here v) = le_bytes (wordsize v) (unat v)"
    and "FromBigEndian there (of_object_bytes there (object_bytes here (ToBigEndian here v))) = v"
    and "FromLittleEndian there (of_object_bytes there (object_bytes here (ToLittleEndian here v))) = v"
proof -
  note wire = object_bytes_ToBigEndian [OF assms] object_bytes_ToLittleEndian [OF assms]
  have same_big: "object_bytes here (ToBigEndian here v) = object_bytes there (ToBigEndian there v)"
    and same_little: "object_bytes here (ToLittleEndian here v) = object_bytes there (ToLittleEndian there v)"
    by (simp_all only: wire)
  show "object_bytes here (ToBigEndian here v) = rev (le_bytes (wordsize v) (unat v))"
    and "object_bytes here (ToLittleEndian here v) = le_bytes (wordsize v) (unat v)"
    by (fact wire)+
  show "FromBigEndian there (of_object_bytes there (object_bytes here (ToBigEndian here v))) = v"
    unfolding same_big of_object_bytes [OF assms] From_To_Endian [OF assms] ..
  show "FromLittleEndian there (of_object_bytes there (object_bytes here (ToLittleEndian here v))) = v"
    unfolding same_little of_object_bytes [OF assms] From_To_Endian [OF assms] ..
qed

text \<open>
  For every integer type of whole bytes and on either kind of machine, the object that
  \<^verbatim>\<open>ToBigEndian\<close> (\<^verbatim>\<open>ToLittleEndian\<close>) returns holds the value's bytes most (least) significant
  first, and copying those bytes into an object on another machine, of either byte order, and
  applying \<^verbatim>\<open>FromBigEndian\<close> (\<^verbatim>\<open>FromLittleEndian\<close>) there gives the value back.
\<close>

theorem endian_conversion_portable:
  fixes v :: "'a::len word"
  assumes "8 dvd LENGTH('a)"
  shows "object_bytes here (ToBigEndian here v) = rev (le_bytes (wordsize v) (unat v)) \<and>
    object_bytes here (ToLittleEndian here v) = le_bytes (wordsize v) (unat v) \<and>
    FromBigEndian there (of_object_bytes there (object_bytes here (ToBigEndian here v))) = v \<and>
    FromLittleEndian there (of_object_bytes there (object_bytes here (ToLittleEndian here v))) = v"
  using endian_wire [OF assms] by blast

theorem endian_conversion_portable_witness:
  "object_bytes little (ToBigEndian little (0x0102 :: 16 word)) = [CHR 0x01, CHR 0x02] \<and>
   FromBigEndian big (of_object_bytes big
     (object_bytes little (ToBigEndian little (0x0102 :: 16 word)))) = (0x0102 :: 16 word)"
proof -
  have "le_bytes 2 0x0102 = [CHR 0x02, CHR 0x01]" by code_simp
  then have bytes: "rev (le_bytes (wordsize (0x0102 :: 16 word)) (unat (0x0102 :: 16 word))) =
      [CHR 0x01, CHR 0x02]" by (simp add: word_size)
  have "8 dvd LENGTH(16)" by simp
  from endian_conversion_portable [OF this, of little "0x0102" big, unfolded bytes]
  show ?thesis by blast
qed

end
