(* ===== verification/Intrusive_List.thy ===== *)
theory Intrusive_List
  imports Prelude
begin

text \<open>
  What the users of the two intrusive lists of \<^verbatim>\<open>flare/base/internal\<close> rely on: nodes come out
  of \<^verbatim>\<open>pop_front\<close> in the order \<^verbatim>\<open>push_back\<close> put them in. The contract is the locale
  \<open>intrusive_list\<close>; the singly linked and the doubly linked list both interpret it, and the
  lemma about arbitrary sequences of operations is proved once, here.
\<close>

type_synonym addr = nat

datatype list_op = Push_back addr | Pop_front

text \<open>The specification: a sequence of nodes. \<open>None\<close> when an operation breaks its precondition.\<close>

fun spec_run :: "list_op list \<Rightarrow> addr list \<Rightarrow> (addr list \<times> addr list) option" where
  "spec_run [] xs = Some ([], xs)"
| "spec_run (Push_back a # ops) xs = (if a \<in> set xs then None else spec_run ops (xs @ [a]))"
| "spec_run (Pop_front # ops) [] = None"
| "spec_run (Pop_front # ops) (x # xs) = map_option (apfst ((#) x)) (spec_run ops xs)"

text \<open>
  The same sequence carried out by an implementation; a \<^verbatim>\<open>pop_front\<close> that returns \<^verbatim>\<open>nullptr\<close>
  contributes no node.
\<close>

fun list_run ::
    "(addr \<Rightarrow> 's \<Rightarrow> 's result) \<Rightarrow> ('s \<Rightarrow> (addr option \<times> 's) result) \<Rightarrow> list_op list \<Rightarrow> 's
       \<Rightarrow> (addr list \<times> 's) result" where
  "list_run push pop [] s = Inr ([], s)"
| "list_run push pop (Push_back a # ops) s = rbind (push a s) (list_run push pop ops)"
| "list_run push pop (Pop_front # ops) s =
     rbind (pop s) (\<lambda>(x, s'). rbind (list_run push pop ops s') (\<lambda>(out, s'').
       Inr ((case x of None \<Rightarrow> out | Some a \<Rightarrow> a # out), s'')))"

locale intrusive_list =
  fixes rep :: "'s \<Rightarrow> addr list \<Rightarrow> bool"
    and usable :: "'s \<Rightarrow> addr \<Rightarrow> bool"
    and push :: "addr \<Rightarrow> 's \<Rightarrow> 's result"
    and pop :: "'s \<Rightarrow> (addr option \<times> 's) result"
  assumes push_law: "rep s xs \<Longrightarrow> usable s a \<Longrightarrow> a \<notin> set xs \<Longrightarrow>
      \<exists>s'. push a s = Inr s' \<and> rep s' (xs @ [a]) \<and> usable s' = usable s"
    and pop_law: "rep s (x # xs) \<Longrightarrow>
      \<exists>s'. pop s = Inr (Some x, s') \<and> rep s' xs \<and> usable s' = usable s"
begin

lemma run_refines:
  "rep s xs \<Longrightarrow> \<forall>a. Push_back a \<in> set ops \<longrightarrow> usable s a \<Longrightarrow>
   spec_run ops xs = Some (out, ys) \<Longrightarrow>
   \<exists>s'. list_run push pop ops s = Inr (out, s') \<and> rep s' ys"
proof (induction ops xs arbitrary: s out rule: spec_run.induct)
  case (2 a ops xs)
  then have "a \<notin> set xs" by (auto split: if_splits)
  with 2 push_law [of s xs a] obtain s' where
    "push a s = Inr s'" "rep s' (xs @ [a])" "usable s' = usable s" by auto
  with 2 \<open>a \<notin> set xs\<close> show ?case by auto
next
  case (4 ops x xs)
  then obtain s' where s': "pop s = Inr (Some x, s')" "rep s' xs" "usable s' = usable s"
    using pop_law by blast
  from 4 obtain out' where "spec_run ops xs = Some (out', ys)" "out = x # out'" by auto
  with 4 s' show ?case by fastforce
qed auto

end

end
