(* ===== verification/Singly_Linked_List.thy ===== *)
theory Singly_Linked_List
  imports Intrusive_List
begin

text \<open>
  The intrusive list of \<^verbatim>\<open>flare/base/internal/singly_linked_list.h\<close>, over an explicit
  store: a node is an address, and the store gives the \<^verbatim>\<open>next\<close> field of its
  \<^verbatim>\<open>SinglyLinkedListEntry\<close> (\<open>None\<close> for \<^verbatim>\<open>nullptr\<close>). \<^verbatim>\<open>node_cast\<close> and
  \<^verbatim>\<open>object_cast\<close> convert between an object and the entry embedded in it; here both are the
  same address. The representation relation \<open>sll_rep\<close> ties a list object and the store to
  the sequence of nodes it holds, and every operation is shown to act on that sequence.
\<close>

section \<open>State and operations\<close>

type_synonym sll_heap = "addr \<Rightarrow> addr option"

record SinglyLinkedList =
  sll_size :: nat
  sll_next :: "addr option"
  sll_tail :: "addr option"

definition sll_new :: SinglyLinkedList where
  "sll_new = \<lparr>sll_size = 0, sll_next = None, sll_tail = None\<rparr>"

text \<open>\<^verbatim>\<open>empty()\<close>, with the consistency check it makes.\<close>

definition sll_empty :: "SinglyLinkedList \<Rightarrow> bool result" where
  "sll_empty l = dcheck ((sll_size l = 0) = (sll_next l = None)) (Inr (sll_size l = 0))"

text \<open>Dereferencing \<^verbatim>\<open>nullptr\<close> is undefined.\<close>

definition deref :: "addr option \<Rightarrow> addr result" where
  "deref p = (case p of None \<Rightarrow> Inl Undefined_behaviour | Some a \<Rightarrow> Inr a)"

definition sll_front :: "SinglyLinkedList \<Rightarrow> addr result" where
  "sll_front l = rbind (sll_empty l) (\<lambda>e. dcheck (\<not> e) (deref (sll_next l)))"

definition sll_back :: "SinglyLinkedList \<Rightarrow> addr result" where
  "sll_back l = rbind (sll_empty l) (\<lambda>e. dcheck (\<not> e) (deref (sll_tail l)))"

definition sll_pop_front :: "sll_heap \<Rightarrow> SinglyLinkedList \<Rightarrow> (addr \<times> SinglyLinkedList) result" where
  "sll_pop_front h l =
     rbind (sll_empty l) (\<lambda>e. dcheck (\<not> e)
       (rbind (deref (sll_next l)) (\<lambda>rc.
          let l = l\<lparr>sll_next := h rc\<rparr>;
              l = l\<lparr>sll_size := sll_size l - 1\<rparr>
          in if sll_size l = 0
             then let l = l\<lparr>sll_tail := None\<rparr> in dcheck (sll_next l = None) (Inr (rc, l))
             else Inr (rc, l))))"

definition sll_push_front ::
    "addr \<Rightarrow> sll_heap \<Rightarrow> SinglyLinkedList \<Rightarrow> sll_heap \<times> SinglyLinkedList" where
  "sll_push_front ptr h l =
     (let h = h(ptr := sll_next l);
          l = l\<lparr>sll_next := Some ptr\<rparr>;
          was = sll_size l;
          l = l\<lparr>sll_size := was + 1\<rparr>
      in if was = 0 then (h, l\<lparr>sll_tail := sll_next l\<rparr>) else (h, l))"

definition sll_push_back ::
    "addr \<Rightarrow> sll_heap \<Rightarrow> SinglyLinkedList \<Rightarrow> (sll_heap \<times> SinglyLinkedList) result" where
  "sll_push_back ptr h l =
     (let h = h(ptr := None);
          was = sll_size l;
          l = l\<lparr>sll_size := was + 1\<rparr>
      in if was \<noteq> 0
         then rbind (deref (sll_tail l)) (\<lambda>t. Inr (h(t := Some ptr), l\<lparr>sll_tail := Some ptr\<rparr>))
         else Inr (h, l\<lparr>sll_next := Some ptr, sll_tail := Some ptr\<rparr>))"

definition sll_swap ::
    "SinglyLinkedList \<Rightarrow> SinglyLinkedList \<Rightarrow> SinglyLinkedList \<times> SinglyLinkedList" where
  "sll_swap l other =
     (\<lparr>sll_size = sll_size other, sll_next = sll_next other, sll_tail = sll_tail other\<rparr>,
      \<lparr>sll_size = sll_size l, sll_next = sll_next l, sll_tail = sll_tail l\<rparr>)"

text \<open>\<^verbatim>\<open>splice(std::move(from))\<close>: the list, then \<^verbatim>\<open>from\<close>.\<close>

definition sll_splice ::
    "sll_heap \<Rightarrow> SinglyLinkedList \<Rightarrow> SinglyLinkedList
       \<Rightarrow> (sll_heap \<times> SinglyLinkedList \<times> SinglyLinkedList) result" where
  "sll_splice h l from =
     rbind (sll_empty l) (\<lambda>e.
       if e then (case sll_swap l from of (l', from') \<Rightarrow> Inr (h, l', from'))
       else rbind (sll_empty from) (\<lambda>fe.
         if fe then Inr (h, l, from)
         else rbind (deref (sll_tail l)) (\<lambda>t.
           Inr (h(t := sll_next from),
                l\<lparr>sll_tail := sll_tail from, sll_size := sll_size l + sll_size from\<rparr>,
                from\<lparr>sll_next := None, sll_tail := None, sll_size := 0\<rparr>))))"

text \<open>Move construction and move assignment.\<close>

definition sll_move_construct ::
    "SinglyLinkedList \<Rightarrow> SinglyLinkedList \<times> SinglyLinkedList" where
  "sll_move_construct other = sll_swap sll_new other"

definition sll_move_assign ::
    "SinglyLinkedList \<Rightarrow> SinglyLinkedList \<Rightarrow> (SinglyLinkedList \<times> SinglyLinkedList) result" where
  "sll_move_assign l other = rbind (sll_empty l) (\<lambda>e. check e (Inr (sll_swap l other)))"

text \<open>
  Iteration from \<^verbatim>\<open>begin()\<close> to \<^verbatim>\<open>end()\<close>: the nodes visited by following \<^verbatim>\<open>next\<close> until
  \<^verbatim>\<open>nullptr\<close>. The fuel bounds the number of increments; \<open>None\<close> means it ran out.
\<close>

fun sll_iterate :: "nat \<Rightarrow> sll_heap \<Rightarrow> addr option \<Rightarrow> addr list option" where
  "sll_iterate fuel h None = Some []"
| "sll_iterate 0 h (Some a) = None"
| "sll_iterate (Suc fuel) h (Some a) = map_option ((#) a) (sll_iterate fuel h (h a))"

section \<open>Representation\<close>

text \<open>\<open>path h p xs\<close>: following \<^verbatim>\<open>next\<close> from \<open>p\<close> visits exactly \<open>xs\<close> and ends at \<^verbatim>\<open>nullptr\<close>.\<close>

fun path :: "sll_heap \<Rightarrow> addr option \<Rightarrow> addr list \<Rightarrow> bool" where
  "path h p [] \<longleftrightarrow> p = None"
| "path h p (x # xs) \<longleftrightarrow> p = Some x \<and> path h (h x) xs"

definition sll_rep :: "sll_heap \<Rightarrow> SinglyLinkedList \<Rightarrow> addr list \<Rightarrow> bool" where
  "sll_rep h l xs \<longleftrightarrow>
     path h (sll_next l) xs \<and> distinct xs \<and> sll_size l = length xs \<and>
     sll_tail l = (if xs = [] then None else Some (last xs))"

lemma path_frame: "x \<notin> set xs \<Longrightarrow> path (h(x := v)) p xs = path h p xs"
  by (induction xs arbitrary: p) auto

lemma path_snoc:
  "path h p (xs @ [x]) \<Longrightarrow> x \<notin> set xs \<Longrightarrow> path h q ys \<Longrightarrow> x \<notin> set ys \<Longrightarrow>
   path (h(x := q)) p (xs @ x # ys)"
  by (induction xs arbitrary: p) (auto simp: path_frame)

lemma path_iterate: "path h p xs \<Longrightarrow> length xs \<le> fuel \<Longrightarrow> sll_iterate fuel h p = Some xs"
proof (induction xs arbitrary: p fuel)
  case (Cons x xs)
  then show ?case by (cases fuel) auto
qed (auto elim: sll_iterate.elims)

lemma sll_rep_emptyD: "sll_rep h l xs \<Longrightarrow> sll_empty l = Inr (xs = [])"
  by (cases xs) (auto simp: sll_rep_def sll_empty_def)

lemma sll_rep_new: "sll_rep h sll_new []"
  by (simp add: sll_rep_def sll_new_def)

lemma sll_rep_frame: "sll_rep h l xs \<Longrightarrow> x \<notin> set xs \<Longrightarrow> sll_rep (h(x := v)) l xs"
  by (simp add: sll_rep_def path_frame)

lemma sll_front_rep: "sll_rep h l (x # xs) \<Longrightarrow> sll_front l = Inr x"
  by (simp add: sll_front_def sll_rep_emptyD deref_def) (simp add: sll_rep_def)

lemma sll_back_rep: "sll_rep h l xs \<Longrightarrow> xs \<noteq> [] \<Longrightarrow> sll_back l = Inr (last xs)"
  by (simp add: sll_back_def sll_rep_emptyD deref_def) (simp add: sll_rep_def)

lemma sll_pop_front_rep:
  assumes "sll_rep h l (x # xs)"
  shows "\<exists>l'. sll_pop_front h l = Inr (x, l') \<and> sll_rep h l' xs"
proof -
  have "sll_next l = Some x" and "sll_size l = Suc (length xs)" and "path h (h x) xs"
    using assms by (auto simp: sll_rep_def)
  then show ?thesis
    using assms by (cases xs) (auto simp: sll_pop_front_def sll_rep_emptyD [OF assms] deref_def sll_rep_def)
qed

lemma sll_push_front_rep:
  assumes "sll_rep h l xs" and "a \<notin> set xs"
  shows "\<exists>h' l'. sll_push_front a h l = (h', l') \<and> sll_rep h' l' (a # xs)"
  using assms by (auto simp: sll_push_front_def sll_rep_def path_frame Let_def)

lemma sll_push_back_rep:
  assumes rep: "sll_rep h l xs" and a: "a \<notin> set xs"
  shows "\<exists>h' l'. sll_push_back a h l = Inr (h', l') \<and> sll_rep h' l' (xs @ [a]) \<and>
           (\<forall>b. b \<notin> insert a (set xs) \<longrightarrow> h' b = h b)"
proof (cases xs rule: rev_cases)
  case Nil
  with assms show ?thesis by (auto simp: sll_push_back_def sll_rep_def)
next
  case (snoc ys t)
  have "path (h(a := None)) (sll_next l) (ys @ [t])"
    using rep a snoc by (simp add: sll_rep_def path_frame)
  then have "path (h(a := None, t := Some a)) (sll_next l) (ys @ t # [a])"
    using rep a snoc by (intro path_snoc) (auto simp: sll_rep_def)
  then show ?thesis
    using rep a snoc by (simp add: sll_push_back_def sll_rep_def deref_def)
qed

lemma sll_splice_rep:
  assumes l: "sll_rep h l xs" and f: "sll_rep h f ys" and disj: "set xs \<inter> set ys = {}"
  shows "\<exists>h' l' f'. sll_splice h l f = Inr (h', l', f') \<and> sll_rep h' l' (xs @ ys) \<and>
           sll_rep h' f' [] \<and> (\<forall>b. b \<notin> set xs \<longrightarrow> h' b = h b)"
proof (cases xs rule: rev_cases)
  case Nil
  with l f show ?thesis
    by (auto simp: sll_splice_def sll_rep_emptyD [OF l] sll_swap_def sll_rep_def)
next
  case (snoc zs t)
  show ?thesis
  proof (cases "ys = []")
    case True
    with l f snoc show ?thesis
      by (auto simp: sll_splice_def sll_rep_emptyD [OF l] sll_rep_emptyD [OF f])
  next
    case False
    have "path (h(t := sll_next f)) (sll_next l) (zs @ t # ys)"
      using l f disj snoc by (intro path_snoc) (auto simp: sll_rep_def)
    then show ?thesis
      using l f disj snoc False
      by (auto simp: sll_splice_def sll_rep_emptyD [OF l] sll_rep_emptyD [OF f] deref_def sll_rep_def)
  qed
qed

lemma sll_swap_rep:
  "sll_rep h l xs \<Longrightarrow> sll_rep h other ys \<Longrightarrow>
   (case sll_swap l other of (l', other') \<Rightarrow> sll_rep h l' ys \<and> sll_rep h other' xs)"
  by (simp add: sll_swap_def sll_rep_def)

section \<open>The list as a queue\<close>

definition sll_push_op ::
    "addr \<Rightarrow> sll_heap \<times> SinglyLinkedList \<Rightarrow> (sll_heap \<times> SinglyLinkedList) result" where
  "sll_push_op a s = (case s of (h, l) \<Rightarrow> sll_push_back a h l)"

definition sll_pop_op ::
    "sll_heap \<times> SinglyLinkedList \<Rightarrow> (addr option \<times> sll_heap \<times> SinglyLinkedList) result" where
  "sll_pop_op s = (case s of (h, l) \<Rightarrow>
     rbind (sll_pop_front h l) (\<lambda>(x, l'). Inr (Some x, h, l')))"

interpretation sll: intrusive_list "\<lambda>(h, l) xs. sll_rep h l xs" "\<lambda>_ _. True"
    sll_push_op sll_pop_op
proof unfold_locales
  fix s :: "sll_heap \<times> SinglyLinkedList" and xs a
  assume "(case s of (h, l) \<Rightarrow> sll_rep h l) xs" "a \<notin> set xs"
  then show "\<exists>s'. sll_push_op a s = Inr s' \<and> (case s' of (h, l) \<Rightarrow> sll_rep h l) (xs @ [a]) \<and>
      (\<lambda>_ :: addr. True) = (\<lambda>_. True)"
    using sll_push_back_rep [of "fst s" "snd s" xs a] by (auto simp: sll_push_op_def split_beta)
next
  fix s :: "sll_heap \<times> SinglyLinkedList" and x xs
  assume "(case s of (h, l) \<Rightarrow> sll_rep h l) (x # xs)"
  then show "\<exists>s'. sll_pop_op s = Inr (Some x, s') \<and> (case s' of (h, l) \<Rightarrow> sll_rep h l) xs \<and>
      (\<lambda>_ :: addr. True) = (\<lambda>_. True)"
    using sll_pop_front_rep [of "fst s" "snd s" x xs] by (auto simp: sll_pop_op_def split_beta)
qed

lemma sll_rep_iterate: "sll_rep h l xs \<Longrightarrow> sll_iterate (sll_size l) h (sll_next l) = Some xs"
  by (simp add: sll_rep_def path_iterate)

text \<open>
  Whatever sequence of \<^verbatim>\<open>push_back\<close> and \<^verbatim>\<open>pop_front\<close> calls is run on a new list, as long
  as it never pushes a node that is linked and never pops an empty list, no check of the list
  fails, the nodes popped are those of a first-in-first-out queue, and iterating over what
  remains visits the remaining nodes of that queue in order.
\<close>

theorem sll_is_fifo:
  assumes "spec_run ops [] = Some (out, ys)"
  shows "\<exists>h' l'. list_run sll_push_op sll_pop_op ops (h, sll_new) = Inr (out, h', l') \<and>
           sll_size l' = length ys \<and> sll_iterate (length ys) h' (sll_next l') = Some ys"
proof -
  obtain h' l' where run: "list_run sll_push_op sll_pop_op ops (h, sll_new) = Inr (out, h', l')"
      and rep: "sll_rep h' l' ys"
    using sll.run_refines [of "(h, sll_new)" "[]" ops out ys] assms sll_rep_new by auto
  from rep have "sll_size l' = length ys" by (simp add: sll_rep_def)
  with sll_rep_iterate [OF rep] run show ?thesis by auto
qed

theorem sll_is_fifo_witness:
  "spec_run [Push_back 3, Push_back 5, Pop_front, Push_back 3] [] = Some ([3], [5, 3]) \<and>
   (\<exists>h' l'. list_run sll_push_op sll_pop_op [Push_back 3, Push_back 5, Pop_front, Push_back 3]
        (Map.empty, sll_new) = Inr ([3], h', l') \<and>
      sll_size l' = 2 \<and> sll_iterate 2 h' (sll_next l') = Some [5, 3])"
  using sll_is_fifo [of "[Push_back 3, Push_back 5, Pop_front, Push_back 3]" "[3]" "[5, 3]" Map.empty]
  by (simp add: numeral_2_eq_2)

text \<open>
  \<^verbatim>\<open>splice\<close> of two lists with no node in common never fails a check, appends the nodes of
  \<^verbatim>\<open>from\<close> in order, leaves \<^verbatim>\<open>from\<close> empty, and writes no \<^verbatim>\<open>next\<close> field other than those of the
  receiving list's own nodes.
\<close>

theorem sll_splice_appends:
  assumes "sll_rep h l xs" and "sll_rep h from ys" and "set xs \<inter> set ys = {}"
  shows "\<exists>h' l' from'. sll_splice h l from = Inr (h', l', from') \<and> sll_rep h' l' (xs @ ys) \<and>
           sll_empty from' = Inr True \<and> (\<forall>b. b \<notin> set xs \<longrightarrow> h' b = h b)"
  using sll_splice_rep [OF assms] sll_rep_emptyD by fastforce

theorem sll_splice_appends_witness:
  "let h = [1 \<mapsto> 2]; l = \<lparr>sll_size = 2, sll_next = Some 1, sll_tail = Some 2\<rparr>;
       from = \<lparr>sll_size = 1, sll_next = Some 7, sll_tail = Some 7\<rparr>
   in \<exists>h' l' from'. sll_splice h l from = Inr (h', l', from') \<and> sll_rep h' l' [1, 2, 7] \<and>
        sll_empty from' = Inr True"
  using sll_splice_appends [of "[1 \<mapsto> 2]" "\<lparr>sll_size = 2, sll_next = Some 1, sll_tail = Some 2\<rparr>"
      "[1, 2]" "\<lparr>sll_size = 1, sll_next = Some 7, sll_tail = Some 7\<rparr>" "[7]"]
  by (auto simp: sll_rep_def)

end
