(* ===== verification/Doubly_Linked_List.thy ===== *)
theory Doubly_Linked_List
  imports Intrusive_List
begin

text \<open>
  The intrusive list of \<^verbatim>\<open>flare/base/internal/doubly_linked_list.h\<close> over an explicit store of
  \<^verbatim>\<open>DoublyLinkedListEntry\<close> fields. The list object embeds a sentinel entry \<^verbatim>\<open>head_\<close>, given here
  by its address \<open>dll_head\<close>; its fields live in the store like those of any node. Assignments
  through chained pointers are written out in the order of the source, each reading the store
  the previous one left.
\<close>

section \<open>State and operations\<close>

record dll_heap =
  e_prev :: "addr \<Rightarrow> addr"
  e_next :: "addr \<Rightarrow> addr"

record DoublyLinkedList =
  dll_size :: nat
  dll_head :: addr

definition set_prev :: "addr \<Rightarrow> addr \<Rightarrow> dll_heap \<Rightarrow> dll_heap" where
  "set_prev a v h = h\<lparr>e_prev := (e_prev h)(a := v)\<rparr>"

definition set_next :: "addr \<Rightarrow> addr \<Rightarrow> dll_heap \<Rightarrow> dll_heap" where
  "set_next a v h = h\<lparr>e_next := (e_next h)(a := v)\<rparr>"

lemma set_prev_simps [simp]:
  "e_prev (set_prev a v h) = (e_prev h)(a := v)" "e_next (set_prev a v h) = e_next h"
  by (simp_all add: set_prev_def)

lemma set_next_simps [simp]:
  "e_next (set_next a v h) = (e_next h)(a := v)" "e_prev (set_next a v h) = e_prev h"
  by (simp_all add: set_next_def)

text \<open>Default construction: \<^verbatim>\<open>prev = this, next = this\<close>.\<close>

definition entry_init :: "addr \<Rightarrow> dll_heap \<Rightarrow> dll_heap" where
  "entry_init a h = set_next a a (set_prev a a h)"

definition dll_new :: "addr \<Rightarrow> dll_heap \<Rightarrow> dll_heap \<times> DoublyLinkedList" where
  "dll_new head h = (entry_init head h, \<lparr>dll_size = 0, dll_head = head\<rparr>)"

definition dll_empty :: "dll_heap \<Rightarrow> DoublyLinkedList \<Rightarrow> bool result" where
  "dll_empty h l =
     dcheck ((dll_size l = 0) = (e_prev h (dll_head l) = dll_head l)) (Inr (dll_size l = 0))"

definition dll_front :: "dll_heap \<Rightarrow> DoublyLinkedList \<Rightarrow> addr result" where
  "dll_front h l =
     dcheck (e_next h (dll_head l) \<noteq> dll_head l) (Inr (e_next h (dll_head l)))"

definition dll_back :: "dll_heap \<Rightarrow> DoublyLinkedList \<Rightarrow> addr result" where
  "dll_back h l =
     dcheck (e_prev h (dll_head l) \<noteq> dll_head l) (Inr (e_prev h (dll_head l)))"

text \<open>
  The three assignments that \<^verbatim>\<open>pop_front\<close>, \<^verbatim>\<open>pop_back\<close> and \<^verbatim>\<open>erase\<close> share:
  \<^verbatim>\<open>rc->prev->next = rc->next; rc->next->prev = rc->prev; rc->next = rc->prev = rc\<close>.
\<close>

definition unlink :: "addr \<Rightarrow> dll_heap \<Rightarrow> dll_heap" where
  "unlink rc h =
     (let h = set_next (e_prev h rc) (e_next h rc) h;
          h = set_prev (e_next h rc) (e_prev h rc) h
      in set_next rc rc (set_prev rc rc h))"

definition dll_pop_front ::
    "dll_heap \<Rightarrow> DoublyLinkedList \<Rightarrow> (addr option \<times> dll_heap \<times> DoublyLinkedList) result" where
  "dll_pop_front h l =
     (if e_prev h (dll_head l) = dll_head l
      then dcheck (e_prev h (dll_head l) = e_next h (dll_head l)) (Inr (None, h, l))
      else let rc = e_next h (dll_head l)
           in Inr (Some rc, unlink rc h, l\<lparr>dll_size := dll_size l - 1\<rparr>))"

definition dll_pop_back ::
    "dll_heap \<Rightarrow> DoublyLinkedList \<Rightarrow> (addr option \<times> dll_heap \<times> DoublyLinkedList) result" where
  "dll_pop_back h l =
     (if e_prev h (dll_head l) = dll_head l
      then dcheck (e_prev h (dll_head l) = e_next h (dll_head l)) (Inr (None, h, l))
      else let rc = e_prev h (dll_head l)
           in Inr (Some rc, unlink rc h, l\<lparr>dll_size := dll_size l - 1\<rparr>))"

definition dll_push_front ::
    "addr \<Rightarrow> dll_heap \<Rightarrow> DoublyLinkedList \<Rightarrow> dll_heap \<times> DoublyLinkedList" where
  "dll_push_front ptr h l =
     (let h = set_prev ptr (dll_head l) h;
          h = set_next ptr (e_next h (dll_head l)) h;
          h = set_next (e_prev h ptr) ptr h;
          h = set_prev (e_next h ptr) ptr h
      in (h, l\<lparr>dll_size := dll_size l + 1\<rparr>))"

definition dll_push_back ::
    "addr \<Rightarrow> dll_heap \<Rightarrow> DoublyLinkedList \<Rightarrow> dll_heap \<times> DoublyLinkedList" where
  "dll_push_back ptr h l =
     (let h = set_prev ptr (e_prev h (dll_head l)) h;
          h = set_next ptr (dll_head l) h;
          h = set_next (e_prev h ptr) ptr h;
          h = set_prev (e_next h ptr) ptr h
      in (h, l\<lparr>dll_size := dll_size l + 1\<rparr>))"

definition dll_erase ::
    "addr \<Rightarrow> dll_heap \<Rightarrow> DoublyLinkedList \<Rightarrow> (bool \<times> dll_heap \<times> DoublyLinkedList) result" where
  "dll_erase ptr h l =
     (if e_prev h ptr = ptr
      then dcheck (e_prev h ptr = e_next h ptr) (Inr (False, h, l))
      else Inr (True, unlink ptr h, l\<lparr>dll_size := dll_size l - 1\<rparr>))"

text \<open>
  In \<^verbatim>\<open>splice\<close>, \<^verbatim>\<open>other_front\<close> and \<^verbatim>\<open>other_back\<close> are references to the fields of
  \<^verbatim>\<open>from.head_\<close>, so each use reads the store at that point.
\<close>

definition dll_splice ::
    "dll_heap \<Rightarrow> DoublyLinkedList \<Rightarrow> DoublyLinkedList
       \<Rightarrow> (dll_heap \<times> DoublyLinkedList \<times> DoublyLinkedList) result" where
  "dll_splice h l from =
     rbind (dll_empty h from) (\<lambda>e.
       if e then Inr (h, l, from)
       else let p = dll_head l; q = dll_head from;
                h = set_prev (e_next h q) (e_prev h p) h;
                h = set_next (e_prev h p) (e_next h q) h;
                h = set_next (e_prev h q) p h;
                h = set_prev p (e_prev h q) h;
                l = l\<lparr>dll_size := dll_size l + dll_size from\<rparr>;
                from = from\<lparr>dll_size := 0\<rparr>;
                h = set_prev q q (set_next q q h)
            in Inr (h, l, from))"

text \<open>The tail of \<^verbatim>\<open>swap\<close> for one of the two lists: re-attach the sentinel at \<open>p\<close>.\<close>

definition reattach :: "addr \<Rightarrow> bool \<Rightarrow> dll_heap \<Rightarrow> dll_heap" where
  "reattach p was_empty h =
     (if \<not> was_empty
      then let h = set_next (e_prev h p) p h in set_prev (e_next h p) p h
      else set_prev p p (set_next p p h))"

definition dll_swap ::
    "dll_heap \<Rightarrow> DoublyLinkedList \<Rightarrow> DoublyLinkedList
       \<Rightarrow> (dll_heap \<times> DoublyLinkedList \<times> DoublyLinkedList) result" where
  "dll_swap h l other =
     rbind (dll_empty h l) (\<lambda>e1. rbind (dll_empty h other) (\<lambda>e2.
       let p = dll_head l; q = dll_head other;
           h = h\<lparr>e_prev := (e_prev h)(p := e_prev h q, q := e_prev h p),
                 e_next := (e_next h)(p := e_next h q, q := e_next h p)\<rparr>;
           l' = l\<lparr>dll_size := dll_size other\<rparr>;
           other' = other\<lparr>dll_size := dll_size l\<rparr>;
           h = reattach p e2 h;
           h = reattach q e1 h
       in Inr (h, l', other')))"

text \<open>Iteration from \<^verbatim>\<open>begin()\<close> until \<^verbatim>\<open>end()\<close>, the sentinel; \<open>None\<close> when the fuel runs out.\<close>

fun dll_iterate :: "nat \<Rightarrow> dll_heap \<Rightarrow> addr \<Rightarrow> addr \<Rightarrow> addr list option" where
  "dll_iterate 0 h current stop = (if current = stop then Some [] else None)"
| "dll_iterate (Suc n) h current stop =
     (if current = stop then Some []
      else map_option ((#) current) (dll_iterate n h (e_next h current) stop))"

section \<open>Representation\<close>

text \<open>\<open>linked h a xs b\<close>: from \<open>a\<close>, the nodes \<open>xs\<close> and then \<open>b\<close> are linked both ways.\<close>

fun linked :: "dll_heap \<Rightarrow> addr \<Rightarrow> addr list \<Rightarrow> addr \<Rightarrow> bool" where
  "linked h a [] b \<longleftrightarrow> e_next h a = b \<and> e_prev h b = a"
| "linked h a (x # xs) b \<longleftrightarrow> e_next h a = x \<and> e_prev h x = a \<and> linked h x xs b"

definition dll_rep :: "dll_heap \<Rightarrow> DoublyLinkedList \<Rightarrow> addr list \<Rightarrow> bool" where
  "dll_rep h l xs \<longleftrightarrow>
     linked h (dll_head l) xs (dll_head l) \<and> distinct (dll_head l # xs) \<and> dll_size l = length xs"

lemma linked_append:
  "linked h a (xs @ y # ys) b \<longleftrightarrow> linked h a xs y \<and> linked h y ys b"
  by (induction xs arbitrary: a) auto

text \<open>A segment survives any change of the store that spares its fields, and its end may move.\<close>

lemma linked_retarget:
  "linked h a xs b \<Longrightarrow>
   \<forall>y \<in> set (butlast (a # xs)). e_next h' y = e_next h y \<Longrightarrow>
   \<forall>y \<in> set xs. e_prev h' y = e_prev h y \<Longrightarrow>
   e_next h' (last (a # xs)) = c \<Longrightarrow> e_prev h' c = last (a # xs) \<Longrightarrow>
   linked h' a xs c"
  by (induction xs arbitrary: a) (auto split: if_splits)

lemma linked_cong:
  "linked h a xs b \<Longrightarrow> \<forall>y \<in> insert a (set xs). e_next h' y = e_next h y \<Longrightarrow>
   \<forall>y \<in> insert b (set xs). e_prev h' y = e_prev h y \<Longrightarrow> linked h' a xs b"
  by (induction xs arbitrary: a) auto

lemma linked_ends:
  assumes "linked h a xs b"
  shows "e_prev h b = last (a # xs)" "e_next h a = hd (xs @ [b])"
  using assms by (induction xs arbitrary: a) auto

lemma linked_iterate:
  "linked h a xs b \<Longrightarrow> distinct (b # xs) \<Longrightarrow> length xs \<le> fuel \<Longrightarrow>
   dll_iterate fuel h (e_next h a) b = Some xs"
proof (induction xs arbitrary: a fuel)
  case Nil
  then show ?case by (cases fuel) auto
next
  case (Cons x xs)
  then show ?case by (cases fuel) auto
qed

lemma notin_butlast: "x \<notin> set xs \<Longrightarrow> x \<notin> set (butlast xs)"
  by (auto dest: in_set_butlastD)

lemma last_notin_butlast: "distinct xs \<Longrightarrow> xs \<noteq> [] \<Longrightarrow> last xs \<notin> set (butlast xs)"
  by (induction xs rule: rev_induct) auto

lemma linked_unlink:
  assumes l: "linked h a ys x" "linked h x zs b"
    and dist: "distinct (ys @ x # zs)" "a \<notin> set (ys @ x # zs)" "b \<notin> set (ys @ x # zs)"
  shows "linked (unlink x h) a (ys @ zs) b"
    and "e_prev (unlink x h) x = x" and "e_next (unlink x h) x = x"
proof -
  have p: "e_prev h x = last (a # ys)" and n: "e_next h x = hd (zs @ [b])"
    using linked_ends l by blast+
  have neq: "last (a # ys) \<noteq> x" "hd (zs @ [b]) \<noteq> x"
    using dist last_in_set [of ys] hd_in_set [of zs] by (auto simp: hd_append)
  have nx: "e_next (unlink x h) = (e_next h)(last (a # ys) := hd (zs @ [b]), x := x)"
    and pv: "e_prev (unlink x h) = (e_prev h)(hd (zs @ [b]) := last (a # ys), x := x)"
    using neq p n by (simp_all add: unlink_def Let_def fun_upd_twist del: last.simps)
  show "e_prev (unlink x h) x = x" "e_next (unlink x h) x = x"
    by (simp_all add: nx pv)
  have fresh: "x \<notin> set (butlast (a # ys))" "last (a # ys) \<notin> set (butlast (a # ys))"
    using dist notin_butlast [of x "a # ys"] last_notin_butlast [of "a # ys"]
    by (simp_all del: butlast.simps last.simps)
  have "linked (unlink x h) a ys (hd (zs @ [b]))"
  proof (rule linked_retarget [OF l(1)])
    show "\<forall>y\<in>set (butlast (a # ys)). e_next (unlink x h) y = e_next h y"
      using fresh by (auto simp: nx simp del: butlast.simps last.simps)
    show "\<forall>y\<in>set ys. e_prev (unlink x h) y = e_prev h y"
      using dist by (auto simp: pv hd_append simp del: last.simps)
    show "e_next (unlink x h) (last (a # ys)) = hd (zs @ [b])"
      using neq by (simp add: nx del: last.simps)
    show "e_prev (unlink x h) (hd (zs @ [b])) = last (a # ys)"
      using neq by (simp add: pv del: last.simps)
  qed
  moreover have "linked (unlink x h) z zs' b" if "zs = z # zs'" for z zs'
  proof (rule linked_cong)
    show "linked h z zs' b" using l(2) that by simp
    have "last (a # ys) \<notin> set zs" using dist last_in_set [of "a # ys"] by auto
    then show "\<forall>y\<in>insert z (set zs'). e_next (unlink x h) y = e_next h y"
      using dist that by (auto simp: nx simp del: last.simps)
    show "\<forall>y\<in>insert b (set zs'). e_prev (unlink x h) y = e_prev h y"
      using dist that by (auto simp: pv simp del: last.simps)
  qed
  ultimately show "linked (unlink x h) a (ys @ zs) b"
    by (cases zs) (auto simp: linked_append)
qed

lemma last_neq: "a \<notin> set xs \<Longrightarrow> xs \<noteq> [] \<Longrightarrow> last xs \<noteq> a"
  using last_in_set by blast

lemma dll_rep_emptyD:
  assumes "dll_rep h l xs"
  shows "dll_empty h l = Inr (xs = [])"
proof -
  have "e_prev h (dll_head l) = last (dll_head l # xs)"
    using assms linked_ends by (simp add: dll_rep_def del: last.simps)
  with assms show ?thesis by (auto simp: dll_empty_def dll_rep_def last_neq)
qed

lemma dll_rep_new: "case dll_new a h of (h', l) \<Rightarrow> dll_rep h' l []"
  by (simp add: dll_new_def dll_rep_def entry_init_def)

lemma dll_rep_unlink:
  assumes "dll_rep h l (ys @ x # zs)"
  shows "dll_rep (unlink x h) (l\<lparr>dll_size := dll_size l - 1\<rparr>) (ys @ zs)"
    and "e_prev h x \<noteq> x" and "e_prev (unlink x h) x = x" and "e_next (unlink x h) x = x"
proof -
  note rep = assms [unfolded dll_rep_def linked_append]
  then show "dll_rep (unlink x h) (l\<lparr>dll_size := dll_size l - 1\<rparr>) (ys @ zs)"
    using linked_unlink(1) [of h "dll_head l" ys x zs "dll_head l"] by (simp add: dll_rep_def)
  show "e_prev (unlink x h) x = x" "e_next (unlink x h) x = x"
    using linked_unlink(2,3) [of h "dll_head l" ys x zs "dll_head l"] rep by simp_all
  show "e_prev h x \<noteq> x"
    using rep linked_ends(1) [of h "dll_head l" ys x] last_in_set [of ys] by (auto split: if_splits)
qed

lemma dll_front_rep: "dll_rep h l (x # xs) \<Longrightarrow> dll_front h l = Inr x"
  by (auto simp: dll_front_def dll_rep_def)

lemma dll_back_rep:
  assumes "dll_rep h l xs" "xs \<noteq> []"
  shows "dll_back h l = Inr (last xs)"
  using assms linked_ends(1) [of h "dll_head l" xs "dll_head l"]
  by (auto simp: dll_back_def dll_rep_def last_neq)

lemma dll_rep_prev_head:
  "dll_rep h l xs \<Longrightarrow> e_prev h (dll_head l) = last (dll_head l # xs)"
  "dll_rep h l xs \<Longrightarrow> e_next h (dll_head l) = hd (xs @ [dll_head l])"
  using linked_ends by (auto simp: dll_rep_def simp del: last.simps)

lemma dll_pop_front_rep:
  "dll_rep h l (x # xs) \<Longrightarrow>
   \<exists>h' l'. dll_pop_front h l = Inr (Some x, h', l') \<and> dll_rep h' l' xs \<and> dll_head l' = dll_head l"
  using dll_rep_unlink(1) [of h l "[]" x xs] dll_rep_prev_head [of h l "x # xs"]
  by (auto simp: dll_pop_front_def dll_rep_def last_neq split: if_splits)

lemma dll_pop_front_empty: "dll_rep h l [] \<Longrightarrow> dll_pop_front h l = Inr (None, h, l)"
  by (simp add: dll_pop_front_def dll_rep_def)

lemma dll_pop_back_rep:
  "dll_rep h l (xs @ [x]) \<Longrightarrow>
   \<exists>h' l'. dll_pop_back h l = Inr (Some x, h', l') \<and> dll_rep h' l' xs"
  using dll_rep_unlink(1) [of h l xs x "[]"] dll_rep_prev_head [of h l "xs @ [x]"]
  by (auto simp: dll_pop_back_def dll_rep_def split: if_splits)

lemma dll_erase_rep:
  "dll_rep h l (ys @ x # zs) \<Longrightarrow>
   \<exists>h' l'. dll_erase x h l = Inr (True, h', l') \<and> dll_rep h' l' (ys @ zs) \<and>
     dll_erase x h' l' = Inr (False, h', l')"
  using dll_rep_unlink [of h l ys x zs] by (auto simp: dll_erase_def)

lemma dll_push_front_rep:
  assumes rep: "dll_rep h l xs" and a: "a \<notin> set xs" "a \<noteq> dll_head l"
  shows "case dll_push_front a h l of (h', l') \<Rightarrow> dll_rep h' l' (a # xs)"
proof (cases xs)
  case Nil
  with assms show ?thesis by (simp add: dll_push_front_def dll_rep_def)
next
  case (Cons x ys)
  then have hx: "e_next h (dll_head l) = x" and tail: "linked h x ys (dll_head l)"
    using rep by (auto simp: dll_rep_def)
  define h' where "h' = fst (dll_push_front a h l)"
  have nx: "e_next h' = (e_next h)(a := x, dll_head l := a)"
    and pv: "e_prev h' = (e_prev h)(a := dll_head l, x := a)"
    using a hx by (simp_all add: h'_def dll_push_front_def Let_def fun_upd_twist)
  have "linked h' x ys (dll_head l)"
    using rep a Cons by (intro linked_cong [OF tail]) (auto simp: nx pv dll_rep_def)
  then have "linked h' (dll_head l) (a # xs) (dll_head l)"
    using rep a Cons by (simp add: nx pv dll_rep_def)
  with rep a show ?thesis by (simp add: dll_rep_def h'_def dll_push_front_def Let_def)
qed

lemma dll_push_back_rep:
  assumes rep: "dll_rep h l xs" and a: "a \<notin> set xs" "a \<noteq> dll_head l"
  shows "\<exists>h' l'. dll_push_back a h l = (h', l') \<and> dll_rep h' l' (xs @ [a]) \<and>
           dll_head l' = dll_head l"
proof -
  let ?p = "dll_head l" and ?t = "last (dll_head l # xs)"
  define h' where "h' = fst (dll_push_back a h l)"
  have t: "?t \<noteq> a" "?t \<in> insert ?p (set xs)"
    using a last_in_set [of "?p # xs"] by (auto split: if_splits)
  have nx: "e_next h' = (e_next h)(a := ?p, ?t := a)" and pv: "e_prev h' = (e_prev h)(a := ?t, ?p := a)"
    using a t(1) dll_rep_prev_head(1) [OF rep]
    by (simp_all add: h'_def dll_push_back_def Let_def fun_upd_twist del: last.simps)
  have fresh: "a \<notin> set (butlast (?p # xs))" "?t \<notin> set (butlast (?p # xs))"
    using rep a notin_butlast [of a "?p # xs"] last_notin_butlast [of "?p # xs"]
    by (simp_all add: dll_rep_def del: butlast.simps last.simps)
  have "linked h' ?p xs a"
  proof (rule linked_retarget [of h _ _ ?p])
    show "linked h ?p xs ?p" using rep by (simp add: dll_rep_def)
    show "\<forall>y\<in>set (butlast (?p # xs)). e_next h' y = e_next h y"
      using fresh by (auto simp: nx simp del: butlast.simps last.simps)
    show "\<forall>y\<in>set xs. e_prev h' y = e_prev h y"
      using rep a by (auto simp: pv dll_rep_def simp del: last.simps)
  qed (use a t in \<open>simp_all add: nx pv del: last.simps\<close>)
  moreover have "linked h' a [] ?p" using t(1) by (simp add: nx pv del: last.simps)
  ultimately show ?thesis
    using rep a by (simp add: dll_rep_def linked_append h'_def dll_push_back_def Let_def)
qed

lemma dll_splice_rep:
  assumes l: "dll_rep h l xs" and f: "dll_rep h f ys"
    and disj: "set (dll_head l # xs) \<inter> set (dll_head f # ys) = {}"
  shows "\<exists>h' l' f'. dll_splice h l f = Inr (h', l', f') \<and> dll_rep h' l' (xs @ ys) \<and> dll_rep h' f' []"
proof (cases ys)
  case Nil
  with l f show ?thesis by (simp add: dll_splice_def dll_rep_emptyD [OF f])
next
  case (Cons y zs)
  let ?p = "dll_head l" and ?q = "dll_head f"
  let ?t = "last (?p # xs)" and ?u = "last (y # zs)"
  define h' where "h' = fst (projr (dll_splice h l f))"
  have ends: "e_prev h ?p = ?t" "e_prev h ?q = ?u" "e_next h ?q = y"
    using dll_rep_prev_head [OF l] dll_rep_prev_head [OF f] Cons by simp_all
  have t: "?t \<in> insert ?p (set xs)" and u: "?u \<in> set ys"
    using last_in_set [of "?p # xs"] last_in_set [of "y # zs"] Cons by auto
  have neq: "?q \<noteq> ?p" "?q \<noteq> y" "?p \<noteq> y" "?t \<noteq> ?q" "?u \<noteq> ?q" "?t \<noteq> ?u" "?t \<notin> set ys" "?u \<notin> insert ?p (set xs)"
    using disj f Cons t u by (auto simp: dll_rep_def simp del: last.simps)
  have nx: "e_next h' = (e_next h)(?t := y, ?u := ?p, ?q := ?q)"
    and pv: "e_prev h' = (e_prev h)(y := ?t, ?p := ?u, ?q := ?q)"
    using neq ends Cons
    by (simp_all add: h'_def dll_splice_def dll_rep_emptyD [OF f] Let_def fun_upd_twist del: last.simps)
  have fresh: "?t \<notin> set (butlast (?p # xs))" "?u \<notin> set (butlast (?p # xs))" "?q \<notin> set (butlast (?p # xs))"
    using l disj neq notin_butlast [of ?u "?p # xs"] notin_butlast [of ?q "?p # xs"]
      last_notin_butlast [of "?p # xs"]
    by (auto simp: dll_rep_def simp del: butlast.simps last.simps)
  have fresh': "?t \<notin> set (butlast (y # zs))" "?u \<notin> set (butlast (y # zs))" "?q \<notin> set (butlast (y # zs))"
    using f disj neq Cons notin_butlast [of ?t "y # zs"] notin_butlast [of ?q "y # zs"]
      last_notin_butlast [of "y # zs"]
    by (auto simp: dll_rep_def simp del: butlast.simps last.simps)
  have "linked h' ?p xs y"
  proof (rule linked_retarget [of h _ _ ?p])
    show "linked h ?p xs ?p" using l by (simp add: dll_rep_def)
    show "\<forall>v\<in>set (butlast (?p # xs)). e_next h' v = e_next h v"
      using fresh by (auto simp: nx simp del: butlast.simps last.simps)
    show "\<forall>v\<in>set xs. e_prev h' v = e_prev h v"
      using l disj Cons by (auto simp: pv dll_rep_def simp del: last.simps)
  qed (use neq in \<open>simp_all add: nx pv del: last.simps\<close>)
  moreover have "linked h' y zs ?p"
  proof (rule linked_retarget [of h _ _ ?q])
    show "linked h y zs ?q" using f Cons by (simp add: dll_rep_def)
    show "\<forall>v\<in>set (butlast (y # zs)). e_next h' v = e_next h v"
      using fresh' by (auto simp: nx simp del: butlast.simps last.simps)
    show "\<forall>v\<in>set zs. e_prev h' v = e_prev h v"
      using f disj Cons by (auto simp: pv dll_rep_def simp del: last.simps)
  qed (use neq in \<open>simp_all add: nx pv del: last.simps\<close>)
  ultimately have "linked h' ?p (xs @ ys) ?p" using Cons by (simp add: linked_append)
  moreover have "linked h' ?q [] ?q" by (simp add: nx pv)
  ultimately show ?thesis
    using l f disj Cons
    by (auto simp: dll_rep_def h'_def dll_splice_def dll_rep_emptyD [OF f] Let_def)
qed

lemma linked_reattach:
  assumes "linked h q ys q" "distinct ys" "p \<notin> set ys"
    and g: "\<forall>y \<in> set ys. e_next g y = e_next h y \<and> e_prev g y = e_prev h y"
    and ends: "ys \<noteq> [] \<Longrightarrow> e_next g p = hd ys" "ys \<noteq> [] \<Longrightarrow> e_prev g p = last ys"
  shows "linked (reattach p (ys = []) g) p ys p"
proof (cases ys)
  case Nil
  then show ?thesis by (simp add: reattach_def)
next
  case (Cons y zs)
  define g' where "g' = reattach p False g"
  have neq: "last ys \<noteq> p" "hd ys \<noteq> p" and last: "last ys = last (y # zs)"
    using assms(3) Cons last_in_set [of ys] by auto
  have nx: "e_next g' = (e_next g)(last ys := p)" and pv: "e_prev g' = (e_prev g)(y := p)"
    using ends neq Cons by (simp_all add: g'_def reattach_def Let_def)
  have "linked g' y zs p"
  proof (rule linked_retarget [of h _ _ q])
    show "linked h y zs q" using assms(1) Cons by simp
    show "\<forall>v\<in>set (butlast (y # zs)). e_next g' v = e_next h v"
      using last_notin_butlast [of "y # zs"] assms(2) g Cons
      by (auto simp: nx dest: in_set_butlastD)
    show "\<forall>v\<in>set zs. e_prev g' v = e_prev h v" using assms(2) g Cons by (auto simp: pv)
  qed (use ends neq last in \<open>auto simp: nx pv Cons simp del: last.simps\<close>)
  then show ?thesis using ends neq Cons by (simp add: nx pv g'_def [symmetric])
qed

lemma reattach_frame:
  assumes "v \<noteq> p" "ys \<noteq> [] \<Longrightarrow> e_next g p = hd ys" "ys \<noteq> [] \<Longrightarrow> e_prev g p = last ys" "v \<notin> set ys" "p \<notin> set ys"
  shows "e_next (reattach p (ys = []) g) v = e_next g v" "e_prev (reattach p (ys = []) g) v = e_prev g v"
  using assms last_in_set [of ys] hd_in_set [of ys] by (auto simp: reattach_def Let_def)

lemma dll_swap_rep:
  assumes l: "dll_rep h l xs" and o: "dll_rep h other ys"
    and disj: "set (dll_head l # xs) \<inter> set (dll_head other # ys) = {}"
  shows "\<exists>h' l' other'. dll_swap h l other = Inr (h', l', other') \<and> dll_rep h' l' ys \<and>
           dll_rep h' other' xs \<and> dll_head l' = dll_head l \<and> dll_head other' = dll_head other"
proof -
  let ?p = "dll_head l" and ?q = "dll_head other"
  define g where "g = h\<lparr>e_prev := (e_prev h)(?p := e_prev h ?q, ?q := e_prev h ?p),
                 e_next := (e_next h)(?p := e_next h ?q, ?q := e_next h ?p)\<rparr>"
  define g1 where "g1 = reattach ?p (ys = []) g"
  define g2 where "g2 = reattach ?q (xs = []) g1"
  have lx: "linked h ?p xs ?p" and ly: "linked h ?q ys ?q"
    and dist: "distinct xs" "distinct ys" "?p \<noteq> ?q" "?p \<notin> set xs" "?p \<notin> set ys" "?q \<notin> set xs" "?q \<notin> set ys"
      "\<And>v. v \<in> set xs \<Longrightarrow> v \<notin> set ys"
    using l o disj by (auto simp: dll_rep_def)
  have gp: "ys \<noteq> [] \<Longrightarrow> e_next g ?p = hd ys" "ys \<noteq> [] \<Longrightarrow> e_prev g ?p = last ys"
    and gq: "xs \<noteq> [] \<Longrightarrow> e_next g ?q = hd xs" "xs \<noteq> [] \<Longrightarrow> e_prev g ?q = last xs"
    using dll_rep_prev_head [OF l] dll_rep_prev_head [OF o] dist(3) by (auto simp: g_def)
  have out: "\<And>v. v \<noteq> ?p \<Longrightarrow> v \<noteq> ?q \<Longrightarrow> e_next g v = e_next h v \<and> e_prev g v = e_prev h v"
    by (simp add: g_def)
  have l1: "linked g1 ?p ys ?p"
    unfolding g1_def
  proof (rule linked_reattach [OF ly])
    show "\<forall>y\<in>set ys. e_next g y = e_next h y \<and> e_prev g y = e_prev h y"
      using out dist by metis
  qed (use dist gp in auto)
  have f1: "e_next g1 v = e_next g v" "e_prev g1 v = e_prev g v" if "v \<noteq> ?p" "v \<notin> set ys" for v
    unfolding g1_def using reattach_frame [of v ?p ys g] that gp dist by auto
  have g1q: "xs \<noteq> [] \<Longrightarrow> e_next g1 ?q = hd xs" "xs \<noteq> [] \<Longrightarrow> e_prev g1 ?q = last xs"
    using f1 [of ?q] gq dist by auto
  have "linked g2 ?q xs ?q"
    unfolding g2_def
  proof (rule linked_reattach [OF lx])
    show "\<forall>y\<in>set xs. e_next g1 y = e_next h y \<and> e_prev g1 y = e_prev h y"
      using f1 out dist by metis
  qed (use dist g1q in auto)
  moreover have "linked g2 ?p ys ?p"
  proof (rule linked_cong [OF l1])
    have "v \<noteq> ?q \<and> v \<notin> set xs" if "v \<in> insert ?p (set ys)" for v using that dist by auto
    then show "\<forall>v\<in>insert ?p (set ys). e_next g2 v = e_next g1 v"
      and "\<forall>v\<in>insert ?p (set ys). e_prev g2 v = e_prev g1 v"
      unfolding g2_def using reattach_frame [of _ ?q xs g1] g1q dist(6) by blast+
  qed
  ultimately show ?thesis
    using l o dist by (simp add: dll_swap_def dll_rep_emptyD [OF l] dll_rep_emptyD [OF o] Let_def
        g_def [symmetric] g1_def [symmetric] g2_def [symmetric] dll_rep_def)
qed

section \<open>The list as a queue\<close>

definition dll_push_op ::
    "addr \<Rightarrow> dll_heap \<times> DoublyLinkedList \<Rightarrow> (dll_heap \<times> DoublyLinkedList) result" where
  "dll_push_op a s = (case s of (h, l) \<Rightarrow> Inr (dll_push_back a h l))"

definition dll_pop_op ::
    "dll_heap \<times> DoublyLinkedList \<Rightarrow> (addr option \<times> dll_heap \<times> DoublyLinkedList) result" where
  "dll_pop_op s = (case s of (h, l) \<Rightarrow> dll_pop_front h l)"

interpretation dll: intrusive_list "\<lambda>s xs. dll_rep (fst s) (snd s) xs" "\<lambda>s a. a \<noteq> dll_head (snd s)"
    dll_push_op dll_pop_op
proof unfold_locales
  fix s :: "dll_heap \<times> DoublyLinkedList" and xs a
  assume "dll_rep (fst s) (snd s) xs" "a \<noteq> dll_head (snd s)" "a \<notin> set xs"
  then show "\<exists>s'. dll_push_op a s = Inr s' \<and> dll_rep (fst s') (snd s') (xs @ [a]) \<and>
      (\<lambda>a. a \<noteq> dll_head (snd s')) = (\<lambda>a. a \<noteq> dll_head (snd s))"
    using dll_push_back_rep [of "fst s" "snd s" xs a] by (auto simp: dll_push_op_def split_beta)
next
  fix s :: "dll_heap \<times> DoublyLinkedList" and x xs
  assume "dll_rep (fst s) (snd s) (x # xs)"
  then show "\<exists>s'. dll_pop_op s = Inr (Some x, s') \<and> dll_rep (fst s') (snd s') xs \<and>
      (\<lambda>a. a \<noteq> dll_head (snd s')) = (\<lambda>a. a \<noteq> dll_head (snd s))"
    using dll_pop_front_rep [of "fst s" "snd s" x xs] by (fastforce simp: dll_pop_op_def split_beta)
qed

lemma dll_rep_iterate:
  "dll_rep h l xs \<Longrightarrow>
   dll_iterate (dll_size l) h (e_next h (dll_head l)) (dll_head l) = Some xs"
  by (simp add: dll_rep_def linked_iterate)

text \<open>
  Whatever sequence of \<^verbatim>\<open>push_back\<close> and \<^verbatim>\<open>pop_front\<close> calls is run on a new list, as long
  as it never pushes a node that is linked (or the list's own sentinel) and never pops an empty
  list, no check fails, the nodes popped are those of a first-in-first-out queue, and iterating
  over what remains visits the remaining nodes of that queue in order.
\<close>

theorem dll_is_fifo:
  assumes "spec_run ops [] = Some (out, ys)" and "\<forall>a. Push_back a \<in> set ops \<longrightarrow> a \<noteq> head"
  shows "\<exists>h' l'. list_run dll_push_op dll_pop_op ops (dll_new head h) = Inr (out, h', l') \<and>
           dll_size l' = length ys \<and>
           dll_iterate (length ys) h' (e_next h' (dll_head l')) (dll_head l') = Some ys"
proof -
  have "dll_rep (fst (dll_new head h)) (snd (dll_new head h)) []"
    using dll_rep_new [of head h] by (simp add: split_beta)
  moreover have "\<forall>a. Push_back a \<in> set ops \<longrightarrow> a \<noteq> dll_head (snd (dll_new head h))"
    using assms(2) by (simp add: dll_new_def)
  ultimately obtain h' l' where
      run: "list_run dll_push_op dll_pop_op ops (dll_new head h) = Inr (out, h', l')"
      and rep: "dll_rep h' l' ys"
    using dll.run_refines [of "dll_new head h" "[]" ops out ys] assms(1) by auto
  from rep have "dll_size l' = length ys" by (simp add: dll_rep_def)
  with dll_rep_iterate [OF rep] run show ?thesis by auto
qed

theorem dll_is_fifo_witness:
  "\<exists>h' l'. list_run dll_push_op dll_pop_op [Push_back 3, Push_back 5, Pop_front, Push_back 3]
      (dll_new 0 \<lparr>e_prev = id, e_next = id\<rparr>) = Inr ([3], h', l') \<and> dll_size l' = 2 \<and>
     dll_iterate 2 h' (e_next h' (dll_head l')) (dll_head l') = Some [5, 3]"
  using dll_is_fifo [of "[Push_back 3, Push_back 5, Pop_front, Push_back 3]" "[3]" "[5, 3]" 0
      "\<lparr>e_prev = id, e_next = id\<rparr>"]
  by (simp add: numeral_2_eq_2)

text \<open>
  C22. \<^verbatim>\<open>erase\<close> of a linked node takes exactly that node out of the list, keeping the order of
  the others, and marks it as removed: a second \<^verbatim>\<open>erase\<close> of the same node finds it unlinked,
  returns false and changes nothing.
\<close>

theorem dll_erase_removes:
  assumes "dll_rep h l xs" and "x \<in> set xs"
  shows "\<exists>h' l'. dll_erase x h l = Inr (True, h', l') \<and> dll_rep h' l' (remove1 x xs) \<and>
           dll_erase x h' l' = Inr (False, h', l')"
proof -
  obtain ys zs where xs: "xs = ys @ x # zs" using assms(2) by (meson split_list)
  then have "x \<notin> set ys" using assms(1) by (auto simp: dll_rep_def)
  then have "remove1 x xs = ys @ zs" by (simp add: xs remove1_append)
  with dll_erase_rep [of h l ys x zs] assms(1) xs show ?thesis by auto
qed

theorem dll_erase_removes_witness:
  "let h = \<lparr>e_prev = id(0 := 2, 1 := 0, 2 := 1), e_next = id(0 := 1, 1 := 2, 2 := 0)\<rparr>;
       l = \<lparr>dll_size = 2, dll_head = 0\<rparr>
   in \<exists>h' l'. dll_erase 1 h l = Inr (True, h', l') \<and> dll_rep h' l' [2] \<and>
        dll_erase 1 h' l' = Inr (False, h', l')"
  using dll_erase_removes [of
      "\<lparr>e_prev = id(0 := 2, 1 := 0, 2 := 1), e_next = id(0 := 1, 1 := 2, 2 := 0)\<rparr>"
      "\<lparr>dll_size = 2, dll_head = 0\<rparr>" "[1, 2]" 1]
  by (simp add: dll_rep_def)

text \<open>
  \<^verbatim>\<open>splice\<close> and \<^verbatim>\<open>swap\<close> on two lists with no node in common never fail a check:
  \<^verbatim>\<open>splice\<close> appends all nodes of the other list in order and empties it, \<^verbatim>\<open>swap\<close> exchanges the
  contents of the two lists, whether or not one of them is empty.
\<close>

theorem dll_splice_swap:
  assumes "dll_rep h l xs" and "dll_rep h other ys"
    and "set (dll_head l # xs) \<inter> set (dll_head other # ys) = {}"
  shows "(\<exists>h' l' other'. dll_splice h l other = Inr (h', l', other') \<and>
            dll_rep h' l' (xs @ ys) \<and> dll_rep h' other' []) \<and>
         (\<exists>h' l' other'. dll_swap h l other = Inr (h', l', other') \<and>
            dll_rep h' l' ys \<and> dll_rep h' other' xs)"
  using dll_splice_rep [OF assms] dll_swap_rep [OF assms] by blast

theorem dll_splice_swap_witness:
  "let h = \<lparr>e_prev = id(0 := 1, 1 := 0), e_next = id(0 := 1, 1 := 0)\<rparr>;
       l = \<lparr>dll_size = 1, dll_head = 0\<rparr>; other = \<lparr>dll_size = 0, dll_head = 9\<rparr>
   in \<exists>h' l' other'. dll_swap h l other = Inr (h', l', other') \<and>
        dll_rep h' l' [] \<and> dll_rep h' other' [1]"
  using dll_splice_swap [of "\<lparr>e_prev = id(0 := 1, 1 := 0), e_next = id(0 := 1, 1 := 0)\<rparr>"
      "\<lparr>dll_size = 1, dll_head = 0\<rparr>" "[1]" "\<lparr>dll_size = 0, dll_head = 9\<rparr>" "[]"]
  by (simp add: dll_rep_def)

end
