(* ===== verification/Buffer.thy ===== *)
theory Buffer
  imports Prelude
begin

text \<open>
  \<^verbatim>\<open>PolymorphicBuffer\<close> (\<^verbatim>\<open>flare/base/buffer/polymorphic_buffer.h\<close>) and
  \<^verbatim>\<open>NoncontiguousBuffer\<close> (\<^verbatim>\<open>flare/base/buffer.h\<close>, \<^verbatim>\<open>flare/base/buffer.cc\<close>): the chain
  of byte ranges in which every message of the framework travels. A \<^verbatim>\<open>PolymorphicBuffer\<close> is a
  window on an immutable block; the intrusive chain of windows is the sequence that the
  refinement of the singly linked list gives it. The specification of a buffer is the byte
  string \<open>nb_bytes\<close>; every operation is shown to act on it as \<open>take\<close>, \<open>drop\<close> and \<open>@\<close>.
\<close>

section \<open>PolymorphicBuffer\<close>

text \<open>
  \<open>pb_ref\<close> is the content of the block that \<^verbatim>\<open>ref_\<close> holds, and \<^verbatim>\<open>ptr_\<close> is the offset
  \<open>pb_ptr\<close> into it.
\<close>

record PolymorphicBuffer =
  pb_ref :: string
  pb_ptr :: nat
  pb_size :: nat

definition PB_new :: PolymorphicBuffer where
  "PB_new = \<lparr>pb_ref = [], pb_ptr = 0, pb_size = 0\<rparr>"

definition PB_make :: "string \<Rightarrow> nat \<Rightarrow> nat \<Rightarrow> PolymorphicBuffer" where
  "PB_make data start sz = \<lparr>pb_ref = data, pb_ptr = start, pb_size = sz\<rparr>"

definition PB_Skip :: "nat \<Rightarrow> PolymorphicBuffer \<Rightarrow> PolymorphicBuffer result" where
  "PB_Skip bytes b =
     dcheck (bytes < pb_size b)
       (Inr (b\<lparr>pb_size := pb_size b - bytes, pb_ptr := pb_ptr b + bytes\<rparr>))"

definition PB_set_size :: "nat \<Rightarrow> PolymorphicBuffer \<Rightarrow> PolymorphicBuffer result" where
  "PB_set_size sz b = dcheck (sz \<le> pb_size b) (Inr (b\<lparr>pb_size := sz\<rparr>))"

definition PB_Reset :: "string \<Rightarrow> nat \<Rightarrow> nat \<Rightarrow> PolymorphicBuffer \<Rightarrow> PolymorphicBuffer result" where
  "PB_Reset data start sz b =
     dcheck (start \<le> sz) (dcheck (sz \<le> length data)
       (Inr (b\<lparr>pb_ref := data, pb_ptr := start, pb_size := sz\<rparr>)))"

definition PB_Clear :: "PolymorphicBuffer \<Rightarrow> PolymorphicBuffer" where
  "PB_Clear b = b\<lparr>pb_ptr := 0, pb_size := 0, pb_ref := []\<rparr>"

text \<open>Move construction: the new object and what is left of the source.\<close>

definition PB_move :: "PolymorphicBuffer \<Rightarrow> PolymorphicBuffer \<times> PolymorphicBuffer" where
  "PB_move other =
     (\<lparr>pb_ref = pb_ref other, pb_ptr = pb_ptr other, pb_size = pb_size other\<rparr>, PB_Clear other)"

text \<open>The bytes a window shows, and that it lies within its block.\<close>

definition pb_bytes :: "PolymorphicBuffer \<Rightarrow> string" where
  "pb_bytes b = take (pb_size b) (drop (pb_ptr b) (pb_ref b))"

definition pb_ok :: "PolymorphicBuffer \<Rightarrow> bool" where
  "pb_ok b \<longleftrightarrow> pb_ptr b + pb_size b \<le> length (pb_ref b)"

lemma length_pb_bytes [simp]: "pb_ok b \<Longrightarrow> length (pb_bytes b) = pb_size b"
  by (simp add: pb_bytes_def pb_ok_def)

lemma PB_Skip_ok:
  "pb_ok b \<Longrightarrow> n < pb_size b \<Longrightarrow>
   \<exists>b'. PB_Skip n b = Inr b' \<and> pb_ok b' \<and> pb_bytes b' = drop n (pb_bytes b) \<and> pb_size b' = pb_size b - n"
  by (simp add: PB_Skip_def pb_bytes_def pb_ok_def drop_take add.commute)

lemma PB_set_size_ok:
  "pb_ok b \<Longrightarrow> n \<le> pb_size b \<Longrightarrow>
   \<exists>b'. PB_set_size n b = Inr b' \<and> pb_ok b' \<and> pb_bytes b' = take n (pb_bytes b) \<and> pb_size b' = n"
  by (simp add: PB_set_size_def pb_bytes_def pb_ok_def min_absorb1)

section \<open>NoncontiguousBuffer\<close>

record NoncontiguousBuffer =
  nb_byte_size :: nat
  nb_buffers :: "PolymorphicBuffer list"

definition NB_new :: NoncontiguousBuffer where
  "NB_new = \<lparr>nb_byte_size = 0, nb_buffers = []\<rparr>"

text \<open>\<^verbatim>\<open>buffers_.front()\<close>: the chain checks that it is not empty.\<close>

definition chain_front :: "PolymorphicBuffer list \<Rightarrow> PolymorphicBuffer result" where
  "chain_front bs = (case bs of [] \<Rightarrow> Inl Dcheck_failed | b # _ \<Rightarrow> Inr b)"

definition NB_ByteSize :: "NoncontiguousBuffer \<Rightarrow> nat" where
  "NB_ByteSize nb = nb_byte_size nb"

definition NB_Empty :: "NoncontiguousBuffer \<Rightarrow> bool result" where
  "NB_Empty nb = dcheck ((nb_buffers nb = []) = (nb_byte_size nb = 0)) (Inr (nb_byte_size nb = 0))"

definition NB_FirstContiguous :: "NoncontiguousBuffer \<Rightarrow> string result" where
  "NB_FirstContiguous nb =
     rbind (NB_Empty nb) (\<lambda>e. dcheck (\<not> e)
       (rbind (chain_front (nb_buffers nb)) (\<lambda>first. Inr (pb_bytes first))))"

text \<open>The loop of \<^verbatim>\<open>SkipSlow\<close> on the chain.\<close>

function SkipSlow_loop :: "nat \<Rightarrow> PolymorphicBuffer list \<Rightarrow> PolymorphicBuffer list result" where
  "SkipSlow_loop bytes bs =
     (if bytes = 0 then Inr bs
      else case bs of [] \<Rightarrow> Inl Dcheck_failed
        | first # rest \<Rightarrow>
            let os = min bytes (pb_size first)
            in if os = pb_size first then SkipSlow_loop (bytes - os) rest
               else dcheck (os < pb_size first)
                      (rbind (PB_Skip os first) (\<lambda>first'. SkipSlow_loop (bytes - os) (first' # rest))))"
  by pat_completeness auto
termination
  by (relation "measure (\<lambda>(n, bs). n + length bs)") auto

definition NB_SkipSlow :: "nat \<Rightarrow> NoncontiguousBuffer \<Rightarrow> NoncontiguousBuffer result" where
  "NB_SkipSlow bytes nb =
     rbind (SkipSlow_loop bytes (nb_buffers nb))
       (\<lambda>bs. Inr \<lparr>nb_byte_size = nb_byte_size nb - bytes, nb_buffers = bs\<rparr>)"

definition NB_Skip :: "nat \<Rightarrow> NoncontiguousBuffer \<Rightarrow> NoncontiguousBuffer result" where
  "NB_Skip bytes nb =
     dcheck (bytes \<le> NB_ByteSize nb)
       (if bytes = 0 then Inr nb
        else rbind (chain_front (nb_buffers nb)) (\<lambda>first.
          if bytes < pb_size first
          then rbind (PB_Skip bytes first) (\<lambda>first'.
                 Inr \<lparr>nb_byte_size = nb_byte_size nb - bytes,
                      nb_buffers = first' # tl (nb_buffers nb)\<rparr>)
          else NB_SkipSlow bytes nb))"

text \<open>
  The loop of \<^verbatim>\<open>Cut\<close>: whole windows move to the result while they fit in \<^verbatim>\<open>left\<close>. The result
  is \<^verbatim>\<open>left\<close>, what remains, and the windows moved.
\<close>

fun Cut_loop ::
    "nat \<Rightarrow> PolymorphicBuffer list \<Rightarrow> PolymorphicBuffer list
       \<Rightarrow> (nat \<times> PolymorphicBuffer list \<times> PolymorphicBuffer list) result" where
  "Cut_loop left [] rc = (if left = 0 then Inr (left, [], rc) else Inl Dcheck_failed)"
| "Cut_loop left (b # bs) rc =
     (if left \<noteq> 0 \<and> left \<ge> pb_size b then Cut_loop (left - pb_size b) bs (rc @ [b])
      else Inr (left, b # bs, rc))"

definition NB_Cut ::
    "nat \<Rightarrow> NoncontiguousBuffer \<Rightarrow> (NoncontiguousBuffer \<times> NoncontiguousBuffer) result" where
  "NB_Cut bytes nb =
     dcheck (bytes \<le> NB_ByteSize nb)
       (rbind (Cut_loop bytes (nb_buffers nb) []) (\<lambda>(left, bs, rc).
          rbind (if left = 0 then Inr (bs, rc)
                 else rbind (chain_front bs) (\<lambda>first.
                        rbind (PB_set_size left first) (\<lambda>ncb.
                          rbind (PB_Skip left first) (\<lambda>first'.
                            Inr (first' # tl bs, rc @ [ncb])))))
            (\<lambda>(bs, rc).
               Inr (\<lparr>nb_byte_size = bytes, nb_buffers = rc\<rparr>,
                    \<lparr>nb_byte_size = nb_byte_size nb - bytes, nb_buffers = bs\<rparr>))))"

definition NB_AppendPB :: "PolymorphicBuffer \<Rightarrow> NoncontiguousBuffer \<Rightarrow> NoncontiguousBuffer" where
  "NB_AppendPB buffer nb =
     (if pb_size buffer = 0 then nb
      else \<lparr>nb_byte_size = nb_byte_size nb + pb_size buffer,
            nb_buffers = nb_buffers nb @ [fst (PB_move buffer)]\<rparr>)"

definition NB_AppendNB :: "NoncontiguousBuffer \<Rightarrow> NoncontiguousBuffer \<Rightarrow> NoncontiguousBuffer" where
  "NB_AppendNB buffer nb =
     \<lparr>nb_byte_size = nb_byte_size nb + nb_byte_size buffer,
      nb_buffers = nb_buffers nb @ nb_buffers buffer\<rparr>"

definition NB_ClearSlow :: "NoncontiguousBuffer \<Rightarrow> NoncontiguousBuffer" where
  "NB_ClearSlow nb = nb\<lparr>nb_byte_size := 0, nb_buffers := []\<rparr>"

definition NB_Clear :: "NoncontiguousBuffer \<Rightarrow> NoncontiguousBuffer result" where
  "NB_Clear nb = rbind (NB_Empty nb) (\<lambda>e. Inr (if \<not> e then NB_ClearSlow nb else nb))"

text \<open>Copying shares the blocks: every window is copied, the bytes are not.\<close>

fun copy_chain :: "PolymorphicBuffer list \<Rightarrow> PolymorphicBuffer list \<Rightarrow> PolymorphicBuffer list" where
  "copy_chain [] to = to"
| "copy_chain (e # es) to = copy_chain es (to @ [e])"

definition NB_copy :: "NoncontiguousBuffer \<Rightarrow> NoncontiguousBuffer" where
  "NB_copy nb = \<lparr>nb_byte_size = nb_byte_size nb, nb_buffers = copy_chain (nb_buffers nb) []\<rparr>"

definition NB_assign :: "NoncontiguousBuffer \<Rightarrow> NoncontiguousBuffer \<Rightarrow> NoncontiguousBuffer result" where
  "NB_assign this nb =
     rbind (NB_Clear this) (\<lambda>this.
       Inr (this\<lparr>nb_byte_size := nb_byte_size nb,
                 nb_buffers := copy_chain (nb_buffers nb) (nb_buffers this)\<rparr>))"

text \<open>Move construction and assignment from another object: the target and the emptied source.\<close>

definition NB_move :: "NoncontiguousBuffer \<Rightarrow> NoncontiguousBuffer \<times> NoncontiguousBuffer" where
  "NB_move nb = (\<lparr>nb_byte_size = nb_byte_size nb, nb_buffers = nb_buffers nb\<rparr>,
                 nb\<lparr>nb_byte_size := 0, nb_buffers := []\<rparr>)"

definition NB_move_assign ::
    "NoncontiguousBuffer \<Rightarrow> NoncontiguousBuffer
       \<Rightarrow> (NoncontiguousBuffer \<times> NoncontiguousBuffer) result" where
  "NB_move_assign this nb =
     rbind (NB_Clear this) (\<lambda>this.
       check (nb_buffers this = [])
         (Inr (\<lparr>nb_byte_size = nb_byte_size nb, nb_buffers = nb_buffers nb\<rparr>,
               \<lparr>nb_byte_size = nb_byte_size this, nb_buffers = nb_buffers this\<rparr>)))"

section \<open>Flattening\<close>

fun FlattenSlow_loop :: "PolymorphicBuffer list \<Rightarrow> nat \<Rightarrow> string \<Rightarrow> string" where
  "FlattenSlow_loop [] left rc = rc"
| "FlattenSlow_loop (b # bs) left rc =
     (if left = 0 then rc
      else let len = min left (pb_size b)
           in FlattenSlow_loop bs (left - len) (rc @ take len (pb_bytes b)))"

definition FlattenSlow :: "NoncontiguousBuffer \<Rightarrow> nat \<Rightarrow> string" where
  "FlattenSlow nb max_bytes =
     (let max_bytes = min max_bytes (NB_ByteSize nb) in FlattenSlow_loop (nb_buffers nb) max_bytes [])"

text \<open>\<^verbatim>\<open>memcpy(dst + at, src, n)\<close> into an array; writing outside of it is undefined.\<close>

definition memcpy :: "string \<Rightarrow> nat \<Rightarrow> string \<Rightarrow> string result" where
  "memcpy dst at src =
     (if at + length src \<le> length dst
      then Inr (take at dst @ src @ drop (at + length src) dst)
      else Inl Undefined_behaviour)"

fun FlattenToSlowSlow_loop ::
    "PolymorphicBuffer list \<Rightarrow> string \<Rightarrow> nat \<Rightarrow> nat \<Rightarrow> string result" where
  "FlattenToSlowSlow_loop [] buffer sz copied = Inr buffer"
| "FlattenToSlowSlow_loop (b # bs) buffer sz copied =
     (if copied = sz then Inr buffer
      else let len = min (sz - copied) (pb_size b)
           in rbind (memcpy buffer copied (take len (pb_bytes b)))
                (\<lambda>buffer. FlattenToSlowSlow_loop bs buffer sz (copied + len)))"

definition FlattenToSlowSlow :: "NoncontiguousBuffer \<Rightarrow> string \<Rightarrow> nat \<Rightarrow> string result" where
  "FlattenToSlowSlow nb buffer sz =
     check (NB_ByteSize nb \<ge> sz) (FlattenToSlowSlow_loop (nb_buffers nb) buffer sz 0)"

definition FlattenToSlow :: "NoncontiguousBuffer \<Rightarrow> string \<Rightarrow> nat \<Rightarrow> string result" where
  "FlattenToSlow nb buffer sz =
     rbind (NB_FirstContiguous nb) (\<lambda>first.
       rbind (if sz \<le> length first then memcpy buffer 0 (take sz first) else Inr buffer)
         (\<lambda>buffer. FlattenToSlowSlow nb buffer sz))"

text \<open>
  The slow path of \<^verbatim>\<open>FlattenSlowUntil\<close>: append window by window, and look for the delimiter
  only from \<^verbatim>\<open>delim.size()\<close> bytes before the old end.
\<close>

fun FlattenSlowUntil_loop :: "string \<Rightarrow> nat \<Rightarrow> PolymorphicBuffer list \<Rightarrow> string \<Rightarrow> string" where
  "FlattenSlowUntil_loop delim max_bytes [] rc = rc"
| "FlattenSlowUntil_loop delim max_bytes (b # bs) rc =
     (if \<not> length rc < max_bytes then rc
      else let old_len = length rc;
               rc = rc @ pb_bytes b
           in case sv_find_from delim (old_len - min old_len (length delim)) rc of
                Some pos \<Rightarrow> take (pos + length delim) rc
              | None \<Rightarrow> FlattenSlowUntil_loop delim max_bytes bs rc)"

definition FlattenSlowUntil :: "NoncontiguousBuffer \<Rightarrow> string \<Rightarrow> nat \<Rightarrow> string result" where
  "FlattenSlowUntil nb delim max_bytes =
     rbind (NB_Empty nb) (\<lambda>e.
       if e then Inr []
       else rbind (NB_FirstContiguous nb) (\<lambda>current.
         case sv_find delim current of
           Some pos \<Rightarrow> Inr (take (min (pos + length delim) max_bytes) current)
         | None \<Rightarrow>
             let rc = FlattenSlowUntil_loop delim max_bytes (nb_buffers nb) []
             in Inr (if length rc > max_bytes then take max_bytes rc else rc)))"

section \<open>Blocks made from user data\<close>

definition MakeReferencingBuffer :: "string \<Rightarrow> nat \<Rightarrow> PolymorphicBuffer" where
  "MakeReferencingBuffer mem sz = PB_make mem 0 sz"

definition MakeForeignBuffer :: "string \<Rightarrow> PolymorphicBuffer" where
  "MakeForeignBuffer buffer = (let sz = length buffer in PB_make buffer 0 sz)"

text \<open>
  A vector of elements of \<open>sizeof_T\<close> bytes each, given by the bytes of its elements.
  \<open>OwningBufferBlock_size\<close> is what \<^verbatim>\<open>size()\<close> of the block then reports.
\<close>

definition MakeForeignBuffer_vector :: "nat \<Rightarrow> string list \<Rightarrow> PolymorphicBuffer" where
  "MakeForeignBuffer_vector sizeof_T buffer =
     (let sz = length buffer * sizeof_T in PB_make (concat buffer) 0 sz)"

definition OwningBufferBlock_size :: "'a list \<Rightarrow> nat" where
  "OwningBufferBlock_size storage = length storage"

section \<open>Correctness\<close>

definition nb_bytes :: "NoncontiguousBuffer \<Rightarrow> string" where
  "nb_bytes nb = concat (map pb_bytes (nb_buffers nb))"

definition chain_ok :: "PolymorphicBuffer list \<Rightarrow> bool" where
  "chain_ok bs \<longleftrightarrow> list_all (\<lambda>b. pb_ok b \<and> pb_size b > 0) bs"

text \<open>Every window lies in its block and is not empty, and the cached size is the total.\<close>

definition nb_invar :: "NoncontiguousBuffer \<Rightarrow> bool" where
  "nb_invar nb \<longleftrightarrow> chain_ok (nb_buffers nb) \<and> nb_byte_size nb = sum_list (map pb_size (nb_buffers nb))"

lemma chain_ok_simps [simp]:
  "chain_ok []" "chain_ok (b # bs) \<longleftrightarrow> pb_ok b \<and> pb_size b > 0 \<and> chain_ok bs"
  "chain_ok (bs @ cs) \<longleftrightarrow> chain_ok bs \<and> chain_ok cs"
  by (auto simp: chain_ok_def)

lemma length_concat_bytes:
  "chain_ok bs \<Longrightarrow> length (concat (map pb_bytes bs)) = sum_list (map pb_size bs)"
  by (induction bs) auto

lemma nb_invar_length: "nb_invar nb \<Longrightarrow> nb_byte_size nb = length (nb_bytes nb)"
  by (simp add: nb_invar_def nb_bytes_def length_concat_bytes)

lemma nb_invar_empty_iff: "nb_invar nb \<Longrightarrow> nb_buffers nb = [] \<longleftrightarrow> nb_byte_size nb = 0"
  by (cases "nb_buffers nb") (auto simp: nb_invar_def)

lemma NB_Empty_ok: "nb_invar nb \<Longrightarrow> NB_Empty nb = Inr (nb_bytes nb = [])"
  using nb_invar_length [of nb] by (simp add: NB_Empty_def nb_invar_empty_iff)

lemma NB_new_ok [simp]: "nb_invar NB_new" "nb_bytes NB_new = []"
  by (simp_all add: NB_new_def nb_invar_def nb_bytes_def)

lemma NB_FirstContiguous_ok:
  assumes "nb_invar nb" "nb_buffers nb = b # bs"
  shows "NB_FirstContiguous nb = Inr (pb_bytes b)"
proof -
  have "nb_bytes nb \<noteq> []"
    using assms nb_invar_length [OF assms(1)] by (auto simp: nb_invar_def)
  then show ?thesis
    using assms by (simp add: NB_FirstContiguous_def NB_Empty_ok chain_front_def)
qed

declare SkipSlow_loop.simps [simp del]

lemma SkipSlow_loop_ok:
  "chain_ok bs \<Longrightarrow> n \<le> sum_list (map pb_size bs) \<Longrightarrow>
   \<exists>bs'. SkipSlow_loop n bs = Inr bs' \<and> chain_ok bs' \<and>
     concat (map pb_bytes bs') = drop n (concat (map pb_bytes bs)) \<and>
     sum_list (map pb_size bs') = sum_list (map pb_size bs) - n"
proof (induction bs arbitrary: n)
  case Nil
  then show ?case by (simp add: SkipSlow_loop.simps)
next
  case (Cons b bs)
  show ?case
  proof (cases "n = 0 \<or> pb_size b \<le> n")
    case True
    have "n - pb_size b \<le> sum_list (map pb_size bs)" using Cons.prems by simp
    with True show ?thesis
      using Cons.IH [of "n - pb_size b"] Cons.prems
      by (auto simp: SkipSlow_loop.simps [of n] add.commute)
  next
    case False
    then obtain b' where "PB_Skip n b = Inr b'" "pb_ok b'" "pb_bytes b' = drop n (pb_bytes b)"
        "pb_size b' = pb_size b - n"
      using PB_Skip_ok [of b n] Cons.prems by auto
    with False Cons.prems show ?thesis
      by (auto simp: SkipSlow_loop.simps [of n] SkipSlow_loop.simps [of 0] min_def)
  qed
qed

lemma NB_Skip_ok:
  assumes inv: "nb_invar nb" and n: "n \<le> length (nb_bytes nb)"
  shows "\<exists>nb'. NB_Skip n nb = Inr nb' \<and> nb_invar nb' \<and> nb_bytes nb' = drop n (nb_bytes nb)"
proof (cases "n = 0")
  case True
  with inv show ?thesis by (simp add: NB_Skip_def)
next
  case False
  have n': "n \<le> nb_byte_size nb" using n nb_invar_length [OF inv] by simp
  then obtain b bs where bs: "nb_buffers nb = b # bs"
    using False inv by (cases "nb_buffers nb") (auto simp: nb_invar_def)
  show ?thesis
  proof (cases "n < pb_size b")
    case True
    with False inv bs PB_Skip_ok [of b n] n' show ?thesis
      by (auto simp: NB_Skip_def NB_ByteSize_def chain_front_def nb_invar_def nb_bytes_def)
  next
    case slow: False
    from SkipSlow_loop_ok [of "nb_buffers nb" n] slow False inv bs n' show ?thesis
      by (auto simp: NB_Skip_def NB_ByteSize_def chain_front_def NB_SkipSlow_def nb_invar_def nb_bytes_def)
  qed
qed

lemma Cut_loop_ok:
  "chain_ok bs \<Longrightarrow> chain_ok rc \<Longrightarrow> left \<le> sum_list (map pb_size bs) \<Longrightarrow>
   \<exists>m pre post. Cut_loop left bs rc = Inr (m, post, rc @ pre) \<and> bs = pre @ post \<and>
     left = sum_list (map pb_size pre) + m \<and> (m \<noteq> 0 \<longrightarrow> (\<exists>b bs'. post = b # bs' \<and> m < pb_size b))"
proof (induction left bs rc rule: Cut_loop.induct)
  case (2 left b bs rc)
  show ?case
  proof (cases "left \<noteq> 0 \<and> left \<ge> pb_size b")
    case True
    moreover from 2(4) have "left - pb_size b \<le> sum_list (map pb_size bs)" by simp
    ultimately obtain m pre post where
      "Cut_loop (left - pb_size b) bs (rc @ [b]) = Inr (m, post, (rc @ [b]) @ pre)" "bs = pre @ post"
      "left - pb_size b = sum_list (map pb_size pre) + m"
      "m \<noteq> 0 \<longrightarrow> (\<exists>b bs'. post = b # bs' \<and> m < pb_size b)" using 2 by force
    with True show ?thesis by (intro exI [of _ m] exI [of _ "b # pre"] exI [of _ post]) auto
  next
    case False
    then show ?thesis by (intro exI [of _ left] exI [of _ "[]"] exI [of _ "b # bs"]) auto
  qed
qed auto

lemma NB_Cut_ok:
  assumes inv: "nb_invar nb" and n: "n \<le> length (nb_bytes nb)"
  shows "\<exists>rc nb'. NB_Cut n nb = Inr (rc, nb') \<and> nb_invar rc \<and> nb_invar nb' \<and>
           nb_bytes rc = take n (nb_bytes nb) \<and> nb_bytes nb' = drop n (nb_bytes nb)"
proof -
  have len: "nb_byte_size nb = sum_list (map pb_size (nb_buffers nb))" "n \<le> nb_byte_size nb"
    and ok: "chain_ok (nb_buffers nb)"
    using inv n nb_invar_length [OF inv] by (auto simp: nb_invar_def)
  obtain m pre post where loop: "Cut_loop n (nb_buffers nb) [] = Inr (m, post, pre)"
      and bs: "nb_buffers nb = pre @ post" and sum: "n = sum_list (map pb_size pre) + m"
      and rest: "m \<noteq> 0 \<longrightarrow> (\<exists>b bs'. post = b # bs' \<and> m < pb_size b)"
    using Cut_loop_ok [OF ok chain_ok_simps(1), of n, unfolded append_Nil] len by (metis (no_types))
  have pre: "length (concat (map pb_bytes pre)) = sum_list (map pb_size pre)"
    using ok bs by (simp add: length_concat_bytes)
  show ?thesis
  proof (cases "m = 0")
    case True
    with loop bs sum len ok pre show ?thesis
      by (simp add: NB_Cut_def NB_ByteSize_def nb_invar_def nb_bytes_def)
  next
    case False
    with rest obtain b bs' where post: "post = b # bs'" and m: "m < pb_size b" by auto
    then obtain c d where "PB_set_size m b = Inr c" "pb_ok c" "pb_bytes c = take m (pb_bytes b)" "pb_size c = m"
        and "PB_Skip m b = Inr d" "pb_ok d" "pb_bytes d = drop m (pb_bytes b)" "pb_size d = pb_size b - m"
      using PB_set_size_ok [of b m] PB_Skip_ok [of b m] ok bs by auto
    with False post m loop bs sum len ok pre show ?thesis
      by (simp add: NB_Cut_def NB_ByteSize_def nb_invar_def nb_bytes_def chain_front_def)
  qed
qed

lemma NB_AppendPB_ok:
  "nb_invar nb \<Longrightarrow> pb_ok b \<Longrightarrow>
   nb_invar (NB_AppendPB b nb) \<and> nb_bytes (NB_AppendPB b nb) = nb_bytes nb @ pb_bytes b"
  by (auto simp: NB_AppendPB_def nb_invar_def nb_bytes_def PB_move_def pb_ok_def) 
     (auto simp: pb_bytes_def)

lemma NB_AppendNB_ok:
  "nb_invar nb \<Longrightarrow> nb_invar other \<Longrightarrow>
   nb_invar (NB_AppendNB other nb) \<and> nb_bytes (NB_AppendNB other nb) = nb_bytes nb @ nb_bytes other"
  by (auto simp: NB_AppendNB_def nb_invar_def nb_bytes_def)

lemma NB_Clear_ok: "nb_invar nb \<Longrightarrow> \<exists>nb'. NB_Clear nb = Inr nb' \<and> nb_invar nb' \<and> nb_buffers nb' = []"
  using nb_invar_empty_iff [of nb] nb_invar_length [of nb]
  by (auto simp: NB_Clear_def NB_Empty_ok NB_ClearSlow_def nb_invar_def)

lemma copy_chain_append [simp]: "copy_chain bs to = to @ bs"
  by (induction bs arbitrary: to) auto

lemma NB_copy_ok: "nb_invar nb \<Longrightarrow> nb_invar (NB_copy nb) \<and> nb_bytes (NB_copy nb) = nb_bytes nb"
  by (simp add: NB_copy_def nb_invar_def nb_bytes_def)

lemma NB_assign_ok:
  "nb_invar this \<Longrightarrow> nb_invar nb \<Longrightarrow>
   \<exists>r. NB_assign this nb = Inr r \<and> nb_invar r \<and> nb_bytes r = nb_bytes nb"
  using NB_Clear_ok [of this] by (auto simp: NB_assign_def nb_invar_def nb_bytes_def)

lemma NB_move_assign_ok:
  "nb_invar this \<Longrightarrow> nb_invar nb \<Longrightarrow>
   \<exists>r nb'. NB_move_assign this nb = Inr (r, nb') \<and> nb_invar r \<and> nb_bytes r = nb_bytes nb \<and>
     nb_invar nb' \<and> nb_bytes nb' = []"
  using NB_Clear_ok [of this] by (auto simp: NB_move_assign_def nb_invar_def nb_bytes_def)

lemma FlattenSlow_loop_ok:
  "chain_ok bs \<Longrightarrow> FlattenSlow_loop bs left rc = rc @ take left (concat (map pb_bytes bs))"
  by (induction bs left rc rule: FlattenSlow_loop.induct) (auto simp: Let_def min_def)

lemma FlattenSlow_ok: "nb_invar nb \<Longrightarrow> FlattenSlow nb n = take n (nb_bytes nb)"
  using nb_invar_length [of nb]
  by (simp add: FlattenSlow_def NB_ByteSize_def FlattenSlow_loop_ok nb_invar_def)
     (simp add: nb_bytes_def min_def)

lemma memcpy_ok:
  "at + length src \<le> length dst \<Longrightarrow>
   memcpy dst at src = Inr (take at dst @ src @ drop (at + length src) dst)"
  by (simp add: memcpy_def)

lemma FlattenToSlowSlow_loop_ok:
  "chain_ok bs \<Longrightarrow> copied \<le> sz \<Longrightarrow> sz \<le> length buffer \<Longrightarrow>
   sz - copied \<le> length (concat (map pb_bytes bs)) \<Longrightarrow>
   FlattenToSlowSlow_loop bs buffer sz copied =
     Inr (take copied buffer @ take (sz - copied) (concat (map pb_bytes bs)) @ drop sz buffer)"
proof (induction bs buffer sz copied rule: FlattenToSlowSlow_loop.induct)
  case (2 b bs buffer sz copied)
  show ?case
  proof (cases "copied = sz")
    case False
    define len where "len = min (sz - copied) (pb_size b)"
    define src where "src = take len (pb_bytes b)"
    have src: "length src = len" "copied + len \<le> sz" using 2 by (auto simp: src_def len_def)
    define buffer' where "buffer' = take copied buffer @ src @ drop (copied + len) buffer"
    have cp: "memcpy buffer copied src = Inr buffer'"
      using 2(4) src by (simp add: memcpy_ok buffer'_def)
    have step: "FlattenToSlowSlow_loop (b # bs) buffer sz copied =
        FlattenToSlowSlow_loop bs buffer' sz (copied + len)"
      using False cp by (simp add: len_def src_def)
    have "sz - (copied + len) \<le> length (concat (map pb_bytes bs))"
      using 2(2,5) by (simp add: len_def min_def) linarith
    moreover have "length buffer' = length buffer"
      using 2(4) src by (simp add: buffer'_def)
    ultimately have "FlattenToSlowSlow_loop bs buffer' sz (copied + len) =
        Inr (take (copied + len) buffer' @ take (sz - (copied + len)) (concat (map pb_bytes bs)) @ drop sz buffer')"
      using 2(1) [OF False len_def, of buffer'] 2(2,4) src by simp
    moreover have "take (copied + len) buffer' = take copied buffer @ src"
      using 2(4) src by (simp add: buffer'_def)
    moreover have "drop sz buffer' = drop sz buffer"
      using 2(4) src by (simp add: buffer'_def)
    moreover have "take (sz - copied) (concat (map pb_bytes (b # bs))) =
        src @ take (sz - (copied + len)) (concat (map pb_bytes bs))"
      using 2(2) by (auto simp: src_def len_def min_def)
    ultimately show ?thesis using step by simp
  qed auto
qed auto

lemma FlattenToSlow_ok:
  assumes inv: "nb_invar nb" and sz: "sz \<le> length (nb_bytes nb)" "sz \<le> length buffer" and ne: "nb_bytes nb \<noteq> []"
  shows "FlattenToSlow nb buffer sz = Inr (take sz (nb_bytes nb) @ drop sz buffer)"
proof -
  obtain b bs where bs: "nb_buffers nb = b # bs" using ne by (cases "nb_buffers nb") (auto simp: nb_bytes_def)
  note first = NB_FirstContiguous_ok [OF inv bs]
  have slow: "FlattenToSlowSlow nb buf sz = Inr (take sz (nb_bytes nb) @ drop sz buf)"
    if "length buf = length buffer" for buf
    using inv sz that FlattenToSlowSlow_loop_ok [of "nb_buffers nb" 0 sz buf] nb_invar_length [OF inv]
    by (simp add: FlattenToSlowSlow_def NB_ByteSize_def nb_invar_def nb_bytes_def)
  show ?thesis
  proof (cases "sz \<le> length (pb_bytes b)")
    case True
    with sz(2) have "memcpy buffer 0 (take sz (pb_bytes b)) = Inr (take sz (pb_bytes b) @ drop sz buffer)"
      by (simp add: memcpy_ok min_absorb2)
    with True sz(2) show ?thesis by (simp add: FlattenToSlow_def first slow)
  next
    case False
    then show ?thesis by (simp add: FlattenToSlow_def first slow)
  qed
qed

text \<open>The specification of \<^verbatim>\<open>FlattenSlowUntil\<close> on a byte string.\<close>

definition upto_delim :: "string \<Rightarrow> string \<Rightarrow> string" where
  "upto_delim delim s = (case sv_find delim s of None \<Rightarrow> s | Some p \<Rightarrow> take (p + length delim) s)"

lemma upto_delim_append:
  "sv_find d s = Some p \<Longrightarrow> upto_delim d (s @ t) = take (p + length d) s"
  using sv_find_append_Some [of d s p t] sv_find_length [of d s p] by (simp add: upto_delim_def)

lemma sv_find_late:
  assumes "sv_find d s = None" and "sv_find d (s @ t) = Some p"
  shows "length s < p + length d"
proof (rule ccontr)
  assume "\<not> ?thesis"
  then have le: "p + length d \<le> length s" by simp
  have "prefix d (drop p (s @ t))" using sv_find_SomeD [OF assms(2)] by blast
  then have "prefix d (drop p s)" unfolding prefix_drop_append [OF le] .
  with sv_find_NoneD [OF assms(1), of p] le show False by simp
qed

lemma take_upto_delim:
  assumes "sv_find d s = None" and "n \<le> length s"
  shows "take n (upto_delim d (s @ t)) = take n s"
proof (cases "sv_find d (s @ t)")
  case None
  with assms(2) show ?thesis by (simp add: upto_delim_def)
next
  case (Some p)
  from sv_find_late [OF assms(1) Some] assms(2) have "n \<le> p + length d" by simp
  with Some assms(2) show ?thesis by (simp add: upto_delim_def min_absorb1)
qed

lemma FlattenSlowUntil_loop_ok:
  "sv_find d rc = None \<Longrightarrow>
   take n (FlattenSlowUntil_loop d n bs rc) = take n (upto_delim d (rc @ concat (map pb_bytes bs)))"
proof (induction bs arbitrary: rc)
  case Nil
  then show ?case by (simp add: upto_delim_def)
next
  case (Cons b bs)
  note resume = sv_find_resume [OF Cons.prems, of "pb_bytes b"]
  show ?case
  proof (cases "length rc < n")
    case False
    with take_upto_delim [OF Cons.prems, of n "concat (map pb_bytes (b # bs))"] show ?thesis by simp
  next
    case True
    show ?thesis
    proof (cases "sv_find d (rc @ pb_bytes b)")
      case None
      from Cons.IH [OF None] show ?thesis using True by (simp add: resume None Let_def)
    next
      case (Some p)
      from upto_delim_append [OF Some, of "concat (map pb_bytes bs)"] show ?thesis
        using True by (simp add: resume Some Let_def)
    qed
  qed
qed

lemma FlattenSlowUntil_ok:
  assumes inv: "nb_invar nb"
  shows "FlattenSlowUntil nb delim n = Inr (take n (upto_delim delim (nb_bytes nb)))"
proof (cases "nb_buffers nb")
  case Nil
  then have "nb_bytes nb = []" by (simp add: nb_bytes_def)
  then show ?thesis by (simp add: FlattenSlowUntil_def NB_Empty_ok [OF inv] upto_delim_def)
next
  case (Cons b bs)
  have ne: "nb_bytes nb \<noteq> []"
    using Cons inv nb_invar_length [OF inv] by (auto simp: nb_invar_def)
  have bytes: "nb_bytes nb = pb_bytes b @ concat (map pb_bytes bs)" by (simp add: nb_bytes_def Cons)
  note unf = FlattenSlowUntil_def NB_Empty_ok [OF inv] NB_FirstContiguous_ok [OF inv Cons]
  show ?thesis
  proof (cases "sv_find delim (pb_bytes b)")
    case (Some p)
    then show ?thesis
      using upto_delim_append [OF Some, of "concat (map pb_bytes bs)"] ne
      by (simp add: unf bytes min.commute)
  next
    case None
    then have "delim \<noteq> []" by auto
    then have "sv_find delim [] = None" by simp
    from FlattenSlowUntil_loop_ok [OF this, of n "nb_buffers nb"]
    have loop: "take n (FlattenSlowUntil_loop delim n (nb_buffers nb) []) = take n (upto_delim delim (nb_bytes nb))"
      by (simp add: nb_bytes_def)
    show ?thesis by (auto simp: unf Let_def ne None loop [symmetric])
  qed
qed

section \<open>The buffer as a byte sequence\<close>

text \<open>
  What the protocols rely on when they frame a byte stream: cutting pieces off the front and
  appending at the back keep every byte, in order.
\<close>

fun cut_many :: "(nat \<Rightarrow> 's \<Rightarrow> ('s \<times> 's) result) \<Rightarrow> nat list \<Rightarrow> 's \<Rightarrow> ('s list \<times> 's) result" where
  "cut_many cutf [] s = Inr ([], s)"
| "cut_many cutf (n # ns) s =
     rbind (cutf n s) (\<lambda>(p, s'). rbind (cut_many cutf ns s') (\<lambda>(ps, s''). Inr (p # ps, s'')))"

locale byte_sequence =
  fixes invar :: "'s \<Rightarrow> bool" and bytes :: "'s \<Rightarrow> string"
    and cut :: "nat \<Rightarrow> 's \<Rightarrow> ('s \<times> 's) result" and append :: "'s \<Rightarrow> 's \<Rightarrow> 's"
  assumes cut_law: "invar s \<Longrightarrow> n \<le> length (bytes s) \<Longrightarrow>
      \<exists>p s'. cut n s = Inr (p, s') \<and> invar p \<and> invar s' \<and>
        bytes p = take n (bytes s) \<and> bytes s' = drop n (bytes s)"
    and append_law: "invar s \<Longrightarrow> invar t \<Longrightarrow>
      invar (append t s) \<and> bytes (append t s) = bytes s @ bytes t"
begin

lemma cut_many_ok:
  "invar s \<Longrightarrow> sum_list ns \<le> length (bytes s) \<Longrightarrow>
   \<exists>ps s'. cut_many cut ns s = Inr (ps, s') \<and> invar s' \<and> list_all invar ps \<and>
     map (\<lambda>p. length (bytes p)) ps = ns \<and> concat (map bytes ps) @ bytes s' = bytes s"
proof (induction ns arbitrary: s)
  case (Cons n ns)
  obtain p s' where c: "cut n s = Inr (p, s')" "invar p" "invar s'"
      "bytes p = take n (bytes s)" "bytes s' = drop n (bytes s)"
    using cut_law [of s n] Cons.prems by auto
  moreover obtain ps s'' where "cut_many cut ns s' = Inr (ps, s'')" "invar s''" "list_all invar ps"
      "map (\<lambda>p. length (bytes p)) ps = ns" "concat (map bytes ps) @ bytes s'' = bytes s'"
    using Cons.IH [of s'] Cons.prems c by (auto simp: le_diff_conv2 add.commute)
  moreover have "length (take n (bytes s)) = n" using Cons.prems by simp
  ultimately show ?case by auto
qed simp

lemma cut_append_inverse:
  assumes "invar s" "invar t"
  shows "\<exists>p q. cut (length (bytes s)) (append t s) = Inr (p, q) \<and> bytes p = bytes s \<and> bytes q = bytes t"
  using cut_law [of "append t s" "length (bytes s)"] append_law [OF assms] by auto

end

interpretation nb: byte_sequence nb_invar nb_bytes NB_Cut NB_AppendNB
  using NB_Cut_ok NB_AppendNB_ok by unfold_locales blast+

text \<open>
  C23. \<^verbatim>\<open>FlattenSlowUntil\<close> returns what a search on the whole byte string would: everything up to
  and including the first occurrence of the delimiter (all of it when there is none), cut off
  at \<^verbatim>\<open>max_bytes\<close>. It does so although it looks at one block at a time, resumes the search
  close to the old end, and stops early, wherever the delimiter lies across block boundaries.
\<close>

theorem FlattenSlowUntil_correct:
  assumes "nb_invar nb"
  shows "FlattenSlowUntil nb delim max_bytes = Inr (take max_bytes (upto_delim delim (nb_bytes nb)))"
  by (rule FlattenSlowUntil_ok [OF assms])

theorem FlattenSlowUntil_correct_witness:
  "let nb = NB_AppendPB (MakeForeignBuffer ''c-d'') (NB_AppendPB (MakeForeignBuffer ''ab-'') NB_new)
   in nb_invar nb \<and> FlattenSlowUntil nb ''-c'' 100 = Inr ''ab-c''"
proof -
  let ?nb = "NB_AppendPB (MakeForeignBuffer ''c-d'') (NB_AppendPB (MakeForeignBuffer ''ab-'') NB_new)"
  have inv: "nb_invar ?nb"
    by (simp add: NB_AppendPB_def MakeForeignBuffer_def PB_make_def PB_move_def NB_new_def nb_invar_def pb_ok_def)
  have "take 100 (upto_delim ''-c'' (nb_bytes ?nb)) = ''ab-c''" by code_simp
  with FlattenSlowUntil_correct [OF inv, of "''-c''" 100] inv show ?thesis by simp
qed

text \<open>
  C24. \<^verbatim>\<open>Cut\<close> of at most \<^verbatim>\<open>ByteSize()\<close> bytes never fails a check, returns exactly the first
  \<^verbatim>\<open>bytes\<close> bytes, leaves exactly the others, and keeps the representation invariant of both
  buffers, whether or not the cut falls inside a block; \<^verbatim>\<open>Skip\<close> leaves the same bytes as
  \<^verbatim>\<open>Cut\<close> does.
\<close>

theorem NB_Cut_Skip_correct:
  assumes "nb_invar nb" and "n \<le> NB_ByteSize nb"
  shows "\<exists>rc nb' nb''. NB_Cut n nb = Inr (rc, nb') \<and> nb_bytes rc = take n (nb_bytes nb) \<and>
           nb_bytes nb' = drop n (nb_bytes nb) \<and> nb_invar rc \<and> nb_invar nb' \<and>
           NB_Skip n nb = Inr nb'' \<and> nb_bytes nb'' = nb_bytes nb' \<and> nb_invar nb''"
proof -
  have "n \<le> length (nb_bytes nb)" using assms nb_invar_length by (simp add: NB_ByteSize_def)
  with NB_Cut_ok [OF assms(1)] NB_Skip_ok [OF assms(1)] show ?thesis by metis
qed

theorem NB_Cut_Skip_correct_witness:
  "\<exists>rc nb' nb''. NB_Cut 2 (NB_AppendPB (MakeForeignBuffer ''abc'') NB_new) = Inr (rc, nb') \<and>
     nb_bytes rc = ''ab'' \<and> nb_bytes nb' = ''c'' \<and>
     NB_Skip 2 (NB_AppendPB (MakeForeignBuffer ''abc'') NB_new) = Inr nb'' \<and> nb_bytes nb'' = ''c''"
proof -
  let ?nb = "NB_AppendPB (MakeForeignBuffer ''abc'') NB_new"
  have "nb_invar ?nb" "2 \<le> NB_ByteSize ?nb" "nb_bytes ?nb = ''abc''"
    by (simp_all add: NB_AppendPB_def MakeForeignBuffer_def PB_make_def PB_move_def NB_new_def nb_invar_def
        pb_ok_def NB_ByteSize_def nb_bytes_def pb_bytes_def)
  with NB_Cut_Skip_correct [of ?nb 2] show ?thesis by auto
qed

text \<open>
  Framing: cutting any sequence of pieces whose lengths add up to at most the size of the
  buffer yields pieces of exactly those lengths, whose bytes followed by the bytes left over
  are the original bytes; no byte is lost, duplicated or reordered.
\<close>

theorem NB_framing_lossless:
  assumes "nb_invar nb" and "sum_list ns \<le> NB_ByteSize nb"
  shows "\<exists>ps nb'. cut_many NB_Cut ns nb = Inr (ps, nb') \<and> map (\<lambda>p. length (nb_bytes p)) ps = ns \<and>
           concat (map nb_bytes ps) @ nb_bytes nb' = nb_bytes nb"
  using nb.cut_many_ok [OF assms(1), of ns] assms nb_invar_length [OF assms(1)]
  by (auto simp: NB_ByteSize_def)

theorem NB_framing_lossless_witness:
  "\<exists>ps nb'. cut_many NB_Cut [1, 2] (NB_AppendPB (MakeForeignBuffer ''abcd'') NB_new) = Inr (ps, nb') \<and>
     map (\<lambda>p. length (nb_bytes p)) ps = [1, 2] \<and> concat (map nb_bytes ps) @ nb_bytes nb' = ''abcd''"
proof -
  let ?nb = "NB_AppendPB (MakeForeignBuffer ''abcd'') NB_new"
  have "nb_invar ?nb" "sum_list [1, 2] \<le> NB_ByteSize ?nb" "nb_bytes ?nb = ''abcd''"
    by (simp_all add: NB_AppendPB_def MakeForeignBuffer_def PB_make_def PB_move_def NB_new_def nb_invar_def
        pb_ok_def NB_ByteSize_def nb_bytes_def pb_bytes_def)
  with NB_framing_lossless [of ?nb "[1, 2]"] show ?thesis by auto
qed

text \<open>
  \<^verbatim>\<open>FlattenToSlow\<close> on a buffer that is not empty fills exactly the first \<^verbatim>\<open>size\<close> bytes of the
  destination with the first \<^verbatim>\<open>size\<close> bytes of the buffer, and leaves the rest of it as it was.
  On an empty buffer it fails a debug check even for \<^verbatim>\<open>size\<close> 0, which its contract allows.
\<close>

theorem FlattenToSlow_correct:
  assumes "nb_invar nb" and "sz \<le> NB_ByteSize nb" and "sz \<le> length buffer"
  shows "FlattenToSlow nb buffer sz =
           (if nb_bytes nb = [] then Inl Dcheck_failed
            else Inr (take sz (nb_bytes nb) @ drop sz buffer))"
  using assms nb_invar_length [OF assms(1)] FlattenToSlow_ok [OF assms(1), of sz buffer]
  by (auto simp: NB_ByteSize_def FlattenToSlow_def NB_FirstContiguous_def NB_Empty_ok)

theorem FlattenToSlow_correct_witness:
  "FlattenToSlow NB_new ''xyz'' 0 = Inl Dcheck_failed \<and>
   FlattenToSlow (NB_AppendPB (MakeForeignBuffer ''abcd'') NB_new) ''xyz'' 2 = Inr ''abz''"
proof -
  let ?nb = "NB_AppendPB (MakeForeignBuffer ''abcd'') NB_new"
  have "nb_invar ?nb" "2 \<le> NB_ByteSize ?nb" "nb_bytes ?nb = ''abcd''"
    by (simp_all add: NB_AppendPB_def MakeForeignBuffer_def PB_make_def PB_move_def NB_new_def nb_invar_def
        pb_ok_def NB_ByteSize_def nb_bytes_def pb_bytes_def)
  with FlattenToSlow_correct [of ?nb 2 "''xyz''"] FlattenToSlow_correct [of NB_new 0 "''xyz''"]
  show ?thesis by simp
qed

text \<open>The block of a foreign vector reports its element count, not its byte size.\<close>

lemma OwningBufferBlock_size_too_small:
  "buffer \<noteq> [] \<Longrightarrow> 1 < sizeof_T \<Longrightarrow>
   OwningBufferBlock_size buffer < pb_size (MakeForeignBuffer_vector sizeof_T buffer)"
  by (simp add: OwningBufferBlock_size_def MakeForeignBuffer_vector_def PB_make_def)

end
