(* ===== verification/Buffer_Builder.thy ===== *)
theory Buffer_Builder
  imports Buffer
begin

text \<open>
  \<^verbatim>\<open>NoncontiguousBufferBuilder\<close> (\<^verbatim>\<open>flare/base/buffer.h\<close>, \<^verbatim>\<open>flare/base/buffer.cc\<close>) and the
  native blocks it fills (\<^verbatim>\<open>flare/base/buffer/builtin_buffer_block.cc\<close>). The object pool hands
  out blocks with arbitrary old content: it is the parameter \<open>pool\<close>, the content of the
  \<open>n\<close>-th block handed out, of which the code relies on nothing but its size. The theorems say
  that a builder holds the concatenation of everything appended to it, through whichever
  overload and however the pieces fall on block boundaries.
\<close>

section \<open>Native blocks\<close>

text \<open>
  \<open>sizeof_block\<close> is \<^verbatim>\<open>sizeof(NativeBufferBlock)\<close>, which depends on the platform.
\<close>

definition FixedNativeBufferBlock_kBufferSize :: "nat \<Rightarrow> nat \<Rightarrow> nat" where
  "FixedNativeBufferBlock_kBufferSize sizeof_block kSize = kSize - sizeof_block"

definition InitializeMakeNativeBufferBlock :: "nat \<Rightarrow> string \<Rightarrow> nat result" where
  "InitializeMakeNativeBufferBlock sizeof_block flag =
     (let kMakers = [(''4K'', 4096), (''64K'', 65536), (''1M'', 1048576)]
      in case map_of kMakers flag of
           Some kSize \<Rightarrow> Inr (FixedNativeBufferBlock_kBufferSize sizeof_block kSize)
         | None \<Rightarrow> Inl Check_failed)"

type_synonym pool = "nat \<Rightarrow> string"

text \<open>All blocks have the same size, and it is not zero.\<close>

definition pool_ok :: "nat \<Rightarrow> pool \<Rightarrow> bool" where
  "pool_ok block_size pool \<longleftrightarrow> 0 < block_size \<and> (\<forall>n. length (pool n) = block_size)"

section \<open>The builder\<close>

text \<open>\<open>nbb_count\<close> counts the blocks taken from the pool so far.\<close>

record NoncontiguousBufferBuilder =
  nbb_nb :: NoncontiguousBuffer
  nbb_used :: nat
  nbb_current :: "string option"
  nbb_count :: nat

definition deref_current :: "NoncontiguousBufferBuilder \<Rightarrow> string result" where
  "deref_current b = (case nbb_current b of None \<Rightarrow> Inl Undefined_behaviour | Some c \<Rightarrow> Inr c)"

definition NBB_SizeAvailable :: "NoncontiguousBufferBuilder \<Rightarrow> nat result" where
  "NBB_SizeAvailable b = rbind (deref_current b) (\<lambda>c. Inr (length c - nbb_used b))"

definition NBB_InitializeNextBlock ::
    "pool \<Rightarrow> NoncontiguousBufferBuilder \<Rightarrow> NoncontiguousBufferBuilder result" where
  "NBB_InitializeNextBlock pool b =
     (case nbb_current b of
        Some _ \<Rightarrow> rbind (NBB_SizeAvailable b) (\<lambda>avail. check (avail \<noteq> 0) (Inr b))
      | None \<Rightarrow> Inr (b\<lparr>nbb_current := Some (pool (nbb_count b)), nbb_count := nbb_count b + 1,
                        nbb_used := 0\<rparr>))"

definition NBB_FlushCurrentBlock ::
    "NoncontiguousBufferBuilder \<Rightarrow> NoncontiguousBufferBuilder result" where
  "NBB_FlushCurrentBlock b =
     (if nbb_used b = 0 then Inr b
      else rbind (deref_current b) (\<lambda>c.
        Inr (b\<lparr>nbb_nb := NB_AppendPB (PB_make c 0 (nbb_used b)) (nbb_nb b),
               nbb_current := None, nbb_used := 0\<rparr>)))"

definition NBB_new :: "pool \<Rightarrow> NoncontiguousBufferBuilder result" where
  "NBB_new pool =
     NBB_InitializeNextBlock pool \<lparr>nbb_nb = NB_new, nbb_used = 0, nbb_current = None, nbb_count = 0\<rparr>"

definition NBB_MarkWritten ::
    "pool \<Rightarrow> nat \<Rightarrow> NoncontiguousBufferBuilder \<Rightarrow> NoncontiguousBufferBuilder result" where
  "NBB_MarkWritten pool bytes b =
     rbind (NBB_SizeAvailable b) (\<lambda>avail. dcheck (bytes \<le> avail)
       (let b = b\<lparr>nbb_used := nbb_used b + bytes\<rparr>
        in rbind (NBB_SizeAvailable b) (\<lambda>avail.
             if avail = 0
             then rbind (NBB_FlushCurrentBlock b) (NBB_InitializeNextBlock pool)
             else Inr b)))"

text \<open>\<^verbatim>\<open>memcpy(data() + at - used_, src, length)\<close>: write \<open>src\<close> at offset \<open>at\<close> of the current block.\<close>

definition NBB_write ::
    "nat \<Rightarrow> string \<Rightarrow> NoncontiguousBufferBuilder \<Rightarrow> NoncontiguousBufferBuilder result" where
  "NBB_write at src b =
     rbind (deref_current b) (\<lambda>c. rbind (memcpy c at src) (\<lambda>c'. Inr (b\<lparr>nbb_current := Some c'\<rparr>)))"

text \<open>
  \<^verbatim>\<open>Reserve\<close>: the pointer it returns is the pair of the builder's current block (by its number
  in the pool) and the offset in it.
\<close>

definition NBB_Reserve ::
    "pool \<Rightarrow> nat \<Rightarrow> NoncontiguousBufferBuilder
       \<Rightarrow> ((nat \<times> nat) \<times> NoncontiguousBufferBuilder) result" where
  "NBB_Reserve pool bytes b =
     (let kMaxBytes = 1024
      in check (bytes \<le> kMaxBytes)
        (rbind (NBB_SizeAvailable b) (\<lambda>avail.
           rbind (if avail < bytes
                  then rbind (NBB_FlushCurrentBlock b) (NBB_InitializeNextBlock pool)
                  else Inr b) (\<lambda>b.
             rbind (deref_current b) (\<lambda>_.
               let ptr = (nbb_count b - 1, nbb_used b)
               in rbind (NBB_MarkWritten pool bytes b) (\<lambda>b. Inr (ptr, b)))))))"

definition NBB_ByteSize :: "NoncontiguousBufferBuilder \<Rightarrow> nat" where
  "NBB_ByteSize b = NB_ByteSize (nbb_nb b) + nbb_used b"

definition NBB_DestructiveGet ::
    "NoncontiguousBufferBuilder \<Rightarrow> NoncontiguousBuffer result" where
  "NBB_DestructiveGet b = rbind (NBB_FlushCurrentBlock b) (\<lambda>b. Inr (fst (NB_move (nbb_nb b))))"

fun NBB_AppendSlow ::
    "pool \<Rightarrow> nat \<Rightarrow> string \<Rightarrow> NoncontiguousBufferBuilder \<Rightarrow> NoncontiguousBufferBuilder result" where
  "NBB_AppendSlow pool fuel [] b = Inr b"
| "NBB_AppendSlow pool 0 (c # s) b = Inl Out_of_fuel"
| "NBB_AppendSlow pool (Suc fuel) (c # s) b =
     rbind (NBB_SizeAvailable b) (\<lambda>avail.
       let copying = min (length (c # s)) avail
       in rbind (NBB_write (nbb_used b) (take copying (c # s)) b) (\<lambda>b.
            rbind (NBB_MarkWritten pool copying b)
              (NBB_AppendSlow pool fuel (drop copying (c # s)))))"

text \<open>\<^verbatim>\<open>Append(ptr, length)\<close> and \<^verbatim>\<open>Append(std::string_view)\<close>.\<close>

definition NBB_Append ::
    "pool \<Rightarrow> string \<Rightarrow> NoncontiguousBufferBuilder \<Rightarrow> NoncontiguousBufferBuilder result" where
  "NBB_Append pool s b =
     rbind (deref_current b) (\<lambda>c.
       let current = nbb_used b;
           used = nbb_used b + length s
       in if used < length c
          then NBB_write current s (b\<lparr>nbb_used := used\<rparr>)
          else NBB_AppendSlow pool (length s) s b)"

fun NBB_AppendCopy_loop ::
    "pool \<Rightarrow> PolymorphicBuffer list \<Rightarrow> NoncontiguousBufferBuilder
       \<Rightarrow> NoncontiguousBufferBuilder result" where
  "NBB_AppendCopy_loop pool [] b = Inr b"
| "NBB_AppendCopy_loop pool (e # es) b =
     rbind (NBB_Append pool (pb_bytes e) b) (NBB_AppendCopy_loop pool es)"

definition NBB_AppendCopy ::
    "pool \<Rightarrow> NoncontiguousBuffer \<Rightarrow> NoncontiguousBufferBuilder
       \<Rightarrow> NoncontiguousBufferBuilder result" where
  "NBB_AppendCopy pool buffer b = NBB_AppendCopy_loop pool (nb_buffers buffer) b"

definition kAppendViaCopyThreshold :: nat where
  "kAppendViaCopyThreshold = 128"

definition NBB_AppendPB ::
    "pool \<Rightarrow> PolymorphicBuffer \<Rightarrow> NoncontiguousBufferBuilder
       \<Rightarrow> NoncontiguousBufferBuilder result" where
  "NBB_AppendPB pool buffer b =
     rbind (deref_current b) (\<lambda>c.
       if pb_size buffer < kAppendViaCopyThreshold \<and> length c - nbb_used b \<ge> pb_size buffer
       then NBB_Append pool (pb_bytes buffer) b
       else rbind (if nbb_used b \<noteq> 0
                   then rbind (NBB_FlushCurrentBlock b) (NBB_InitializeNextBlock pool)
                   else Inr b)
              (\<lambda>b. Inr (b\<lparr>nbb_nb := NB_AppendPB buffer (nbb_nb b)\<rparr>)))"

definition NBB_AppendNB ::
    "pool \<Rightarrow> NoncontiguousBuffer \<Rightarrow> NoncontiguousBufferBuilder
       \<Rightarrow> NoncontiguousBufferBuilder result" where
  "NBB_AppendNB pool buffer b =
     rbind (deref_current b) (\<lambda>c.
       if NB_ByteSize buffer < kAppendViaCopyThreshold \<and>
          length c - nbb_used b \<ge> NB_ByteSize buffer
       then NBB_AppendCopy pool buffer b
       else rbind (if nbb_used b \<noteq> 0
                   then rbind (NBB_FlushCurrentBlock b) (NBB_InitializeNextBlock pool)
                   else Inr b)
              (\<lambda>b. Inr (b\<lparr>nbb_nb := NB_AppendNB buffer (nbb_nb b)\<rparr>)))"

definition NBB_AppendChar ::
    "pool \<Rightarrow> char \<Rightarrow> NoncontiguousBufferBuilder \<Rightarrow> NoncontiguousBufferBuilder result" where
  "NBB_AppendChar pool c b =
     rbind (NBB_SizeAvailable b) (\<lambda>avail. dcheck (avail \<noteq> 0)
       (rbind (NBB_write (nbb_used b) [c] b) (NBB_MarkWritten pool 1)))"

fun NBB_UncheckedAppend ::
    "nat \<Rightarrow> string list \<Rightarrow> NoncontiguousBufferBuilder \<Rightarrow> NoncontiguousBufferBuilder result" where
  "NBB_UncheckedAppend ptr [] b = Inr b"
| "NBB_UncheckedAppend ptr (sv # svs) b =
     rbind (NBB_write ptr sv b) (NBB_UncheckedAppend (ptr + length sv) svs)"

text \<open>The piecewise fallback of the variadic overload.\<close>

fun append_all ::
    "(string \<Rightarrow> 'b \<Rightarrow> 'b result) \<Rightarrow> string list \<Rightarrow> 'b \<Rightarrow> 'b result" where
  "append_all put [] b = Inr b"
| "append_all put (s # ss) b = rbind (put s b) (append_all put ss)"

definition NBB_AppendMany ::
    "pool \<Rightarrow> string list \<Rightarrow> NoncontiguousBufferBuilder \<Rightarrow> NoncontiguousBufferBuilder result" where
  "NBB_AppendMany pool buffers b =
     rbind (deref_current b) (\<lambda>c.
       let current = nbb_used b;
           total = sum_list (map length buffers);
           used = nbb_used b + total
       in if used < length c
          then NBB_UncheckedAppend current buffers (b\<lparr>nbb_used := used\<rparr>)
          else append_all (NBB_Append pool) buffers b)"

definition CreateBufferSlow :: "pool \<Rightarrow> string \<Rightarrow> NoncontiguousBuffer result" where
  "CreateBufferSlow pool s =
     rbind (NBB_new pool) (\<lambda>nbb. rbind (NBB_Append pool s nbb) NBB_DestructiveGet)"

section \<open>Correctness\<close>

text \<open>The bytes appended so far, and the invariant between operations: the block is never full.\<close>

definition nbb_bytes :: "NoncontiguousBufferBuilder \<Rightarrow> string" where
  "nbb_bytes b = nb_bytes (nbb_nb b) @
     (case nbb_current b of None \<Rightarrow> [] | Some c \<Rightarrow> take (nbb_used b) c)"

definition nbb_invar :: "nat \<Rightarrow> NoncontiguousBufferBuilder \<Rightarrow> bool" where
  "nbb_invar block_size b \<longleftrightarrow> nb_invar (nbb_nb b) \<and> nbb_used b < block_size \<and>
     (case nbb_current b of None \<Rightarrow> False | Some c \<Rightarrow> length c = block_size)"

lemma nbb_invarE:
  assumes "nbb_invar bs b"
  obtains c where "nbb_current b = Some c" "nbb_used b < length c" "nb_invar (nbb_nb b)" "length c = bs"
  using assms by (auto simp: nbb_invar_def split: option.splits)

lemma NBB_new_ok:
  "pool_ok bs pool \<Longrightarrow> \<exists>b. NBB_new pool = Inr b \<and> nbb_invar bs b \<and> nbb_bytes b = []"
  by (simp add: NBB_new_def NBB_InitializeNextBlock_def nbb_invar_def nbb_bytes_def pool_ok_def)

lemma flush_init_ok:
  assumes "pool_ok bs pool" "nb_invar (nbb_nb b)" "nbb_current b = Some c" "nbb_used b \<le> length c" "length c = bs"
  shows "\<exists>b'. rbind (NBB_FlushCurrentBlock b) (NBB_InitializeNextBlock pool) = Inr b' \<and>
           nbb_invar bs b' \<and> nbb_bytes b' = nbb_bytes b \<and> nbb_used b' = 0"
proof (cases "nbb_used b = 0")
  case True
  with assms show ?thesis
    by (simp add: NBB_FlushCurrentBlock_def NBB_InitializeNextBlock_def NBB_SizeAvailable_def
        deref_current_def nbb_invar_def pool_ok_def)
next
  case False
  let ?pb = "PB_make c 0 (nbb_used b)"
  have "pb_ok ?pb" "pb_bytes ?pb = take (nbb_used b) c"
    using assms(4) by (simp_all add: pb_ok_def PB_make_def pb_bytes_def)
  with NB_AppendPB_ok [OF assms(2), of ?pb] assms False show ?thesis
    by (simp add: NBB_FlushCurrentBlock_def NBB_InitializeNextBlock_def deref_current_def
        nbb_invar_def nbb_bytes_def pool_ok_def)
qed

lemma NBB_write_ok:
  assumes "nbb_current b = Some c" "at + length s \<le> length c"
  shows "NBB_write at s b = Inr (b\<lparr>nbb_current := Some (take at c @ s @ drop (at + length s) c)\<rparr>)"
  using assms by (simp add: NBB_write_def deref_current_def memcpy_ok)

lemma NBB_MarkWritten_ok:
  assumes "pool_ok bs pool" "nb_invar (nbb_nb b)" "nbb_current b = Some c" "nbb_used b + n \<le> length c" "length c = bs"
  shows "\<exists>b'. NBB_MarkWritten pool n b = Inr b' \<and> nbb_invar bs b' \<and>
           nbb_bytes b' = nb_bytes (nbb_nb b) @ take (nbb_used b + n) c"
proof -
  let ?b = "b\<lparr>nbb_used := nbb_used b + n\<rparr>"
  have eq: "NBB_MarkWritten pool n b =
      (if length c \<le> nbb_used b + n then rbind (NBB_FlushCurrentBlock ?b) (NBB_InitializeNextBlock pool)
       else Inr ?b)"
    using assms(3,4) by (auto simp: NBB_MarkWritten_def NBB_SizeAvailable_def deref_current_def dcheck_def)
  show ?thesis
  proof (cases "length c \<le> nbb_used b + n")
    case True
    then show ?thesis
      using flush_init_ok [of bs pool ?b c] assms unfolding eq by (auto simp: nbb_bytes_def)
  next
    case False
    then show ?thesis using assms unfolding eq by (simp add: nbb_invar_def nbb_bytes_def)
  qed
qed

lemma write_mark_ok:
  assumes pool: "pool_ok bs pool" and inv: "nbb_invar bs b" and cur: "nbb_current b = Some c"
    and len: "nbb_used b + length s \<le> length c"
  shows "\<exists>b'. rbind (NBB_write (nbb_used b) s b) (NBB_MarkWritten pool (length s)) = Inr b' \<and>
           nbb_invar bs b' \<and> nbb_bytes b' = nbb_bytes b @ s"
proof -
  let ?c = "take (nbb_used b) c @ s @ drop (nbb_used b + length s) c"
  have "\<exists>b'. NBB_MarkWritten pool (length s) (b\<lparr>nbb_current := Some ?c\<rparr>) = Inr b' \<and> nbb_invar bs b' \<and>
      nbb_bytes b' = nb_bytes (nbb_nb b) @ take (nbb_used b + length s) ?c"
    using NBB_MarkWritten_ok [OF pool, of "b\<lparr>nbb_current := Some ?c\<rparr>" ?c "length s"] inv cur len
    by (auto simp: nbb_invar_def)
  moreover have "nb_bytes (nbb_nb b) @ take (nbb_used b + length s) ?c = nbb_bytes b @ s"
    using len cur by (simp add: nbb_bytes_def)
  ultimately show ?thesis by (simp only: NBB_write_ok [OF cur len] rbind_Inr)
qed

lemma NBB_AppendSlow_ok:
  "pool_ok bs pool \<Longrightarrow> nbb_invar bs b \<Longrightarrow> length s \<le> fuel \<Longrightarrow>
   \<exists>b'. NBB_AppendSlow pool fuel s b = Inr b' \<and> nbb_invar bs b' \<and> nbb_bytes b' = nbb_bytes b @ s"
proof (induction fuel arbitrary: s b)
  case (Suc fuel)
  show ?case
  proof (cases s)
    case (Cons x xs)
    from Suc.prems(2) obtain c where cur: "nbb_current b = Some c" "nbb_used b < length c"
      by (rule nbb_invarE)
    define n where "n = min (length s) (length c - nbb_used b)"
    have n: "0 < n" "length (take n s) = n" "nbb_used b + n \<le> length c"
      using cur Cons by (auto simp: n_def)
    obtain b' where b': "rbind (NBB_write (nbb_used b) (take n s) b) (NBB_MarkWritten pool n) = Inr b'"
        "nbb_invar bs b'" "nbb_bytes b' = nbb_bytes b @ take n s"
      using write_mark_ok [OF Suc.prems(1,2) cur(1), of "take n s"] n by auto
    have "NBB_AppendSlow pool (Suc fuel) s b = NBB_AppendSlow pool fuel (drop n s) b'"
      using b'(1) cur Cons
      by (auto simp: NBB_SizeAvailable_def deref_current_def n_def rbind_eq_Inr_iff)
    moreover have "length (drop n s) \<le> fuel" using Suc.prems(3) n(1) by simp
    ultimately show ?thesis using Suc.IH [OF Suc.prems(1) b'(2), of "drop n s"] b'(3) by simp
  qed (use Suc.prems in simp)
qed simp

lemma NBB_Append_ok:
  assumes "pool_ok bs pool" "nbb_invar bs b"
  shows "\<exists>b'. NBB_Append pool s b = Inr b' \<and> nbb_invar bs b' \<and> nbb_bytes b' = nbb_bytes b @ s"
proof -
  from assms(2) obtain c where cur: "nbb_current b = Some c" "nbb_used b < length c" by (rule nbb_invarE)
  show ?thesis
  proof (cases "nbb_used b + length s < length c")
    case True
    then show ?thesis
      using cur assms(2)
        NBB_write_ok [of "b\<lparr>nbb_used := nbb_used b + length s\<rparr>" c "nbb_used b" s]
      by (simp add: NBB_Append_def deref_current_def nbb_invar_def nbb_bytes_def Let_def)
  next
    case False
    with NBB_AppendSlow_ok [OF assms order_refl, of s] cur show ?thesis
      by (simp add: NBB_Append_def deref_current_def)
  qed
qed

lemma NBB_AppendChar_ok:
  assumes "pool_ok bs pool" "nbb_invar bs b"
  shows "\<exists>b'. NBB_AppendChar pool x b = Inr b' \<and> nbb_invar bs b' \<and> nbb_bytes b' = nbb_bytes b @ [x]"
proof -
  from assms(2) obtain c where cur: "nbb_current b = Some c" "nbb_used b < length c" by (rule nbb_invarE)
  with write_mark_ok [OF assms cur(1), of "[x]"] show ?thesis
    by (simp add: NBB_AppendChar_def NBB_SizeAvailable_def deref_current_def)
qed

text \<open>A sink of bytes: what a serialiser needs of the object it writes to.\<close>

locale byte_sink =
  fixes invar :: "'b \<Rightarrow> bool" and bytes :: "'b \<Rightarrow> string" and put :: "string \<Rightarrow> 'b \<Rightarrow> 'b result"
  assumes put_law: "invar b \<Longrightarrow> \<exists>b'. put s b = Inr b' \<and> invar b' \<and> bytes b' = bytes b @ s"
begin

lemma append_all_ok:
  "invar b \<Longrightarrow> \<exists>b'. append_all put ss b = Inr b' \<and> invar b' \<and> bytes b' = bytes b @ concat ss"
proof (induction ss arbitrary: b)
  case (Cons s ss)
  from put_law [OF Cons.prems, of s] obtain b' where
    "put s b = Inr b'" "invar b'" "bytes b' = bytes b @ s" by blast
  with Cons.IH [of b'] show ?case by auto
qed simp

end

text \<open>
  The builder is such a sink for every pool; the pool is part of the invariant so that the
  contract can be interpreted for all of them at once.
\<close>

interpretation nbb: byte_sink "\<lambda>b. nbb_invar bs b \<and> pool_ok bs pool" nbb_bytes "NBB_Append pool" for bs pool
  using NBB_Append_ok by unfold_locales blast

lemma NBB_AppendCopy_loop_eq:
  "NBB_AppendCopy_loop pool es b = append_all (NBB_Append pool) (map pb_bytes es) b"
  by (induction es arbitrary: b) (simp_all add: rbind_def split: sum.split)

lemma NBB_AppendCopy_ok:
  assumes "pool_ok bs pool" "nbb_invar bs b"
  shows "\<exists>b'. NBB_AppendCopy pool nb b = Inr b' \<and> nbb_invar bs b' \<and> nbb_bytes b' = nbb_bytes b @ nb_bytes nb"
  using nbb.append_all_ok [of bs b pool "map pb_bytes (nb_buffers nb)"] assms
  by (auto simp: NBB_AppendCopy_def NBB_AppendCopy_loop_eq nb_bytes_def)

lemma flush_if_used_ok:
  assumes "pool_ok bs pool" "nbb_invar bs b"
  shows "\<exists>b'. (if nbb_used b \<noteq> 0 then rbind (NBB_FlushCurrentBlock b) (NBB_InitializeNextBlock pool)
             else Inr b) = Inr b' \<and> nbb_invar bs b' \<and> nbb_used b' = 0 \<and> nbb_bytes b' = nbb_bytes b"
proof -
  from assms(2) obtain c where "nbb_current b = Some c" "nbb_used b < length c" "nb_invar (nbb_nb b)" "length c = bs"
    by (rule nbb_invarE)
  with flush_init_ok [OF assms(1), of b c] assms show ?thesis by auto
qed

lemma nbb_bytes_clean: "nbb_used b = 0 \<Longrightarrow> nbb_bytes b = nb_bytes (nbb_nb b)"
  by (simp add: nbb_bytes_def split: option.splits)

lemma NBB_AppendPB_ok:
  assumes "pool_ok bs pool" "nbb_invar bs b" "pb_ok pb"
  shows "\<exists>b'. NBB_AppendPB pool pb b = Inr b' \<and> nbb_invar bs b' \<and> nbb_bytes b' = nbb_bytes b @ pb_bytes pb"
proof -
  from assms(2) obtain c where cur: "nbb_current b = Some c" by (rule nbb_invarE)
  obtain b' where b': "(if nbb_used b \<noteq> 0 then rbind (NBB_FlushCurrentBlock b) (NBB_InitializeNextBlock pool)
      else Inr b) = Inr b'" and inv: "nbb_invar bs b'" and used: "nbb_used b' = 0" and bytes: "nbb_bytes b' = nbb_bytes b"
    using flush_if_used_ok [OF assms(1,2)] by blast
  let ?b = "b'\<lparr>nbb_nb := NB_AppendPB pb (nbb_nb b')\<rparr>"
  have "nbb_invar bs ?b" "nbb_bytes ?b = nbb_bytes b @ pb_bytes pb"
    using inv used bytes NB_AppendPB_ok [of "nbb_nb b'" pb] assms(3)
    by (auto simp: nbb_invar_def nbb_bytes_clean split: option.splits)
  with NBB_Append_ok [OF assms(1,2), of "pb_bytes pb"] b' show ?thesis
    by (simp add: NBB_AppendPB_def deref_current_def cur)
qed

lemma NBB_AppendNB_ok:
  assumes "pool_ok bs pool" "nbb_invar bs b" "nb_invar nb"
  shows "\<exists>b'. NBB_AppendNB pool nb b = Inr b' \<and> nbb_invar bs b' \<and> nbb_bytes b' = nbb_bytes b @ nb_bytes nb"
proof -
  from assms(2) obtain c where cur: "nbb_current b = Some c" by (rule nbb_invarE)
  obtain b' where b': "(if nbb_used b \<noteq> 0 then rbind (NBB_FlushCurrentBlock b) (NBB_InitializeNextBlock pool)
      else Inr b) = Inr b'" and inv: "nbb_invar bs b'" and used: "nbb_used b' = 0" and bytes: "nbb_bytes b' = nbb_bytes b"
    using flush_if_used_ok [OF assms(1,2)] by blast
  let ?b = "b'\<lparr>nbb_nb := NB_AppendNB nb (nbb_nb b')\<rparr>"
  have "nbb_invar bs ?b" "nbb_bytes ?b = nbb_bytes b @ nb_bytes nb"
    using inv used bytes NB_AppendNB_ok [of "nbb_nb b'" nb] assms(3)
    by (auto simp: nbb_invar_def nbb_bytes_clean split: option.splits)
  with NBB_AppendCopy_ok [OF assms(1,2), of nb] b' show ?thesis
    by (simp add: NBB_AppendNB_def deref_current_def cur)
qed

lemma NBB_UncheckedAppend_ok:
  "nbb_current b = Some c \<Longrightarrow> ptr + length (concat ss) \<le> length c \<Longrightarrow>
   NBB_UncheckedAppend ptr ss b =
     Inr (b\<lparr>nbb_current := Some (take ptr c @ concat ss @ drop (ptr + length (concat ss)) c)\<rparr>)"
proof (induction ss arbitrary: ptr b c)
  case (Cons s ss)
  let ?c = "take ptr c @ s @ drop (ptr + length s) c"
  have "NBB_write ptr s b = Inr (b\<lparr>nbb_current := Some ?c\<rparr>)"
    using Cons.prems by (intro NBB_write_ok) auto
  with Cons.IH [of "b\<lparr>nbb_current := Some ?c\<rparr>" ?c "ptr + length s"] Cons.prems show ?case
    by (simp add: ac_simps)
qed simp

lemma NBB_AppendMany_ok:
  assumes "pool_ok bs pool" "nbb_invar bs b"
  shows "\<exists>b'. NBB_AppendMany pool ss b = Inr b' \<and> nbb_invar bs b' \<and> nbb_bytes b' = nbb_bytes b @ concat ss"
proof -
  from assms(2) obtain c where cur: "nbb_current b = Some c" "nbb_used b < length c" by (rule nbb_invarE)
  show ?thesis
  proof (cases "nbb_used b + length (concat ss) < length c")
    case True
    then show ?thesis
      using cur assms(2)
        NBB_UncheckedAppend_ok [of "b\<lparr>nbb_used := nbb_used b + length (concat ss)\<rparr>" c "nbb_used b" ss]
      by (simp add: NBB_AppendMany_def deref_current_def nbb_invar_def nbb_bytes_def Let_def
          length_concat)
  next
    case False
    with nbb.append_all_ok [of bs b pool ss] assms cur show ?thesis
      by (simp add: NBB_AppendMany_def deref_current_def length_concat)
  qed
qed

lemma NBB_Reserve_ok:
  assumes pool: "pool_ok bs pool" "1024 \<le> bs" and inv: "nbb_invar bs b" and n: "n \<le> 1024"
  shows "\<exists>ptr b' junk. NBB_Reserve pool n b = Inr (ptr, b') \<and> nbb_invar bs b' \<and>
           length junk = n \<and> nbb_bytes b' = nbb_bytes b @ junk"
proof -
  from inv obtain c where cur: "nbb_current b = Some c" "nbb_used b < length c" "nb_invar (nbb_nb b)" "length c = bs"
    by (rule nbb_invarE)
  define m where "m = (if length c - nbb_used b < n
      then rbind (NBB_FlushCurrentBlock b) (NBB_InitializeNextBlock pool) else Inr b)"
  obtain b1 where b1: "m = Inr b1" "nbb_invar bs b1" "nbb_bytes b1 = nbb_bytes b" "nbb_used b1 + n \<le> bs"
  proof (cases "length c - nbb_used b < n")
    case True
    obtain b' where "rbind (NBB_FlushCurrentBlock b) (NBB_InitializeNextBlock pool) = Inr b'"
        "nbb_invar bs b'" "nbb_bytes b' = nbb_bytes b" "nbb_used b' = 0"
      using flush_init_ok [OF pool(1) cur(3,1) less_imp_le [OF cur(2)] cur(4)] by blast
    with True that [of b'] pool(2) n show ?thesis by (simp add: m_def)
  next
    case False
    with that [of b] inv cur show ?thesis by (simp add: m_def)
  qed
  from b1(2) obtain d where d: "nbb_current b1 = Some d" "nbb_used b1 < length d" "nb_invar (nbb_nb b1)" "length d = bs"
    by (rule nbb_invarE)
  obtain b2 where b2: "NBB_MarkWritten pool n b1 = Inr b2" "nbb_invar bs b2"
      "nbb_bytes b2 = nb_bytes (nbb_nb b1) @ take (nbb_used b1 + n) d"
    using NBB_MarkWritten_ok [OF pool(1) d(3,1), of n] d(4) b1(4) by auto
  have "take (nbb_used b1 + n) d = take (nbb_used b1) d @ take n (drop (nbb_used b1) d)" by (simp add: take_add)
  then have "nbb_bytes b2 = nbb_bytes b @ take n (drop (nbb_used b1) d)"
    using b2(3) b1(3) d(1) by (simp add: nbb_bytes_def)
  moreover have "length (take n (drop (nbb_used b1) d)) = n" using b1(4) d(4) by simp
  moreover have "NBB_Reserve pool n b = Inr ((nbb_count b1 - 1, nbb_used b1), b2)"
    using n cur(1) b1(1) b2(1) d(1)
    by (simp add: NBB_Reserve_def NBB_SizeAvailable_def deref_current_def m_def [symmetric])
  ultimately show ?thesis using b2(2) by blast
qed

lemma NBB_DestructiveGet_ok:
  assumes "nbb_invar bs b"
  shows "\<exists>nb. NBB_DestructiveGet b = Inr nb \<and> nb_invar nb \<and> nb_bytes nb = nbb_bytes b"
proof -
  from assms obtain c where cur: "nbb_current b = Some c" "nbb_used b < length c" "nb_invar (nbb_nb b)" "length c = bs"
    by (rule nbb_invarE)
  let ?pb = "PB_make c 0 (nbb_used b)"
  have "pb_ok ?pb" "pb_bytes ?pb = take (nbb_used b) c"
    using cur by (simp_all add: pb_ok_def PB_make_def pb_bytes_def)
  with NB_AppendPB_ok [OF cur(3), of ?pb] cur show ?thesis
    by (auto simp: NBB_DestructiveGet_def NBB_FlushCurrentBlock_def deref_current_def NB_move_def
        nbb_bytes_def nb_invar_def nb_bytes_def)
qed

lemma CreateBufferSlow_ok:
  assumes "pool_ok bs pool"
  shows "\<exists>nb. CreateBufferSlow pool s = Inr nb \<and> nb_invar nb \<and> nb_bytes nb = s"
proof -
  obtain b where b: "NBB_new pool = Inr b" "nbb_invar bs b" "nbb_bytes b = []"
    using NBB_new_ok [OF assms] by blast
  obtain b' where b': "NBB_Append pool s b = Inr b'" "nbb_invar bs b'" "nbb_bytes b' = s"
    using NBB_Append_ok [OF assms b(2), of s] b(3) by auto
  from NBB_DestructiveGet_ok [OF b'(2)] b b' show ?thesis by (auto simp: CreateBufferSlow_def)
qed

section \<open>Everything appended, in order\<close>

datatype append_arg =
    Bytes string
  | Byte char
  | Window PolymorphicBuffer
  | Chain NoncontiguousBuffer
  | Pieces "string list"

fun append_one ::
    "pool \<Rightarrow> append_arg \<Rightarrow> NoncontiguousBufferBuilder \<Rightarrow> NoncontiguousBufferBuilder result" where
  "append_one pool (Bytes s) = NBB_Append pool s"
| "append_one pool (Byte c) = NBB_AppendChar pool c"
| "append_one pool (Window pb) = NBB_AppendPB pool pb"
| "append_one pool (Chain nb) = NBB_AppendNB pool nb"
| "append_one pool (Pieces ss) = NBB_AppendMany pool ss"

fun build_loop ::
    "pool \<Rightarrow> append_arg list \<Rightarrow> NoncontiguousBufferBuilder \<Rightarrow> NoncontiguousBufferBuilder result" where
  "build_loop pool [] b = Inr b"
| "build_loop pool (a # args) b = rbind (append_one pool a b) (build_loop pool args)"

definition build :: "pool \<Rightarrow> append_arg list \<Rightarrow> NoncontiguousBuffer result" where
  "build pool args =
     rbind (NBB_new pool) (\<lambda>b. rbind (build_loop pool args b) NBB_DestructiveGet)"

fun arg_bytes :: "append_arg \<Rightarrow> string" where
  "arg_bytes (Bytes s) = s"
| "arg_bytes (Byte c) = [c]"
| "arg_bytes (Window pb) = pb_bytes pb"
| "arg_bytes (Chain nb) = nb_bytes nb"
| "arg_bytes (Pieces ss) = concat ss"

fun arg_ok :: "append_arg \<Rightarrow> bool" where
  "arg_ok (Window pb) = pb_ok pb"
| "arg_ok (Chain nb) = nb_invar nb"
| "arg_ok _ = True"

lemma append_one_ok:
  assumes "pool_ok bs pool" "nbb_invar bs b" "arg_ok a"
  shows "\<exists>b'. append_one pool a b = Inr b' \<and> nbb_invar bs b' \<and> nbb_bytes b' = nbb_bytes b @ arg_bytes a"
  using assms NBB_Append_ok NBB_AppendChar_ok NBB_AppendPB_ok NBB_AppendNB_ok NBB_AppendMany_ok
  by (cases a) auto

lemma build_loop_ok:
  "pool_ok bs pool \<Longrightarrow> nbb_invar bs b \<Longrightarrow> list_all arg_ok args \<Longrightarrow>
   \<exists>b'. build_loop pool args b = Inr b' \<and> nbb_invar bs b' \<and>
     nbb_bytes b' = nbb_bytes b @ concat (map arg_bytes args)"
proof (induction args arbitrary: b)
  case (Cons a args)
  then obtain b' where "append_one pool a b = Inr b'" "nbb_invar bs b'" "nbb_bytes b' = nbb_bytes b @ arg_bytes a"
    using append_one_ok [of bs pool b a] by auto
  with Cons.IH [of b'] Cons.prems show ?case by auto
qed simp

lemma build_ok:
  assumes pool: "pool_ok bs pool" and args: "list_all arg_ok args"
  shows "\<exists>nb. build pool args = Inr nb \<and> nb_invar nb \<and> nb_bytes nb = concat (map arg_bytes args)"
proof -
  obtain b where b: "NBB_new pool = Inr b" "nbb_invar bs b" "nbb_bytes b = []"
    using NBB_new_ok [OF pool] by blast
  obtain b' where "build_loop pool args b = Inr b'" "nbb_invar bs b'" "nbb_bytes b' = concat (map arg_bytes args)"
    using build_loop_ok [OF pool b(2) args] b(3) by auto
  with b NBB_DestructiveGet_ok [of bs b'] show ?thesis by (auto simp: build_def)
qed

text \<open>
  Whatever sequence of \<^verbatim>\<open>Append\<close> calls is made on a new builder, with bytes, single
  characters, windows, whole buffers or several pieces at once, and whatever the size and old
  content of the blocks the pool hands out, no check fails, no byte is written outside of a
  block, and \<^verbatim>\<open>DestructiveGet\<close> returns a well-formed buffer that holds exactly the appended
  bytes in order.
\<close>

theorem builder_concatenates:
  assumes "pool_ok block_size pool" and "list_all arg_ok args"
  shows "\<exists>nb. build pool args = Inr nb \<and> nb_invar nb \<and> nb_bytes nb = concat (map arg_bytes args)"
  by (rule build_ok [OF assms])

theorem builder_concatenates_witness:
  "\<exists>nb. build (\<lambda>_. ''??'') [Bytes ''abc'', Byte (CHR ''-''), Window (MakeForeignBuffer ''xyz''),
       Pieces [''1'', ''2'']] = Inr nb \<and> nb_invar nb \<and> nb_bytes nb = ''abc-xyz12''"
  using builder_concatenates [of 2 "\<lambda>_. ''??''" "[Bytes ''abc'', Byte (CHR ''-''),
      Window (MakeForeignBuffer ''xyz''), Pieces [''1'', ''2'']]"]
  by (simp add: pool_ok_def MakeForeignBuffer_def PB_make_def pb_ok_def pb_bytes_def)

text \<open>
  With every block size the flag admits (\<^verbatim>\<open>4K\<close>, \<^verbatim>\<open>64K\<close>, \<^verbatim>\<open>1M\<close>) and a block header of
  at most 3072 bytes, \<^verbatim>\<open>Reserve\<close> of up to 1024 bytes always succeeds and appends exactly that
  many contiguous bytes to what the builder holds.
\<close>

theorem Reserve_succeeds:
  assumes "InitializeMakeNativeBufferBlock sizeof_block flag = Inr block_size" and "sizeof_block \<le> 3072"
    and "\<forall>n. length (pool n) = block_size" and "nbb_invar block_size b" and "bytes \<le> 1024"
  shows "\<exists>ptr b' reserved. NBB_Reserve pool bytes b = Inr (ptr, b') \<and> nbb_invar block_size b' \<and>
           length reserved = bytes \<and> nbb_bytes b' = nbb_bytes b @ reserved"
proof -
  have "1024 \<le> block_size"
    using assms(1,2)
    by (auto simp: InitializeMakeNativeBufferBlock_def FixedNativeBufferBlock_kBufferSize_def
        split: if_splits)
  moreover from this assms(3) have "pool_ok block_size pool" by (simp add: pool_ok_def)
  ultimately show ?thesis using NBB_Reserve_ok assms(4,5) by blast
qed

theorem Reserve_succeeds_witness:
  "let pool = \<lambda>_ :: nat. replicate 4032 (CHR ''?'');
       b = \<lparr>nbb_nb = NB_new, nbb_used = 4000, nbb_current = Some (pool 0), nbb_count = 1\<rparr>
   in \<exists>ptr b' reserved. NBB_Reserve pool 100 b = Inr (ptr, b') \<and> nbb_invar 4032 b' \<and>
        length reserved = 100 \<and> nbb_bytes b' = nbb_bytes b @ reserved"
  using Reserve_succeeds [of 64 "''4K''" 4032 "\<lambda>_ :: nat. replicate 4032 (CHR ''?'')"
      "\<lparr>nbb_nb = NB_new, nbb_used = 4000, nbb_current = Some (replicate 4032 (CHR ''?'')), nbb_count = 1\<rparr>" 100]
  by (simp add: InitializeMakeNativeBufferBlock_def FixedNativeBufferBlock_kBufferSize_def nbb_invar_def)

end
