(* ===== verification/Buffer_Packing.thy ===== *)
theory Buffer_Packing
  imports Buffer_Builder Endian
begin

text \<open>
  Packing several buffers into one, \<^verbatim>\<open>flare/base/buffer/packing.cc\<close>: a 32-bit little-endian
  header length, a serialized \<^verbatim>\<open>PackHeader\<close> with the sizes (and, in the keyed form, the names),
  and the bodies one after another. The Protocol Buffers serializer and parser of
  \<^verbatim>\<open>PackHeader\<close> are generated code: they are parameters, and what the code relies on is that
  parsing undoes serializing.
\<close>

section \<open>Operations\<close>

record PackHeader =
  ph_names :: "string list"
  ph_sizes :: "64 word list"

type_synonym serializer = "PackHeader \<Rightarrow> string"
type_synonym parser = "string \<Rightarrow> PackHeader option"

definition WriteHeader ::
    "endian \<Rightarrow> serializer \<Rightarrow> pool \<Rightarrow> PackHeader \<Rightarrow> NoncontiguousBufferBuilder
       \<Rightarrow> NoncontiguousBufferBuilder result" where
  "WriteHeader native SerializeAsString pool header builder =
     (let serialized = SerializeAsString header;
          sz = (of_nat (length serialized) :: 32 word);
          sz = ToLittleEndian native sz
      in rbind (NBB_Append pool (object_bytes native sz) builder) (NBB_Append pool serialized))"

text \<open>
  \<^verbatim>\<open>VerifyAndParseHeader\<close> returns the header, if it accepts it, and the buffer without it.
  \<^verbatim>\<open>size\<close> is an uninitialised object of four bytes, \<open>junk\<close>, that \<^verbatim>\<open>FlattenToSlow\<close> fills.
  \<^verbatim>\<open>body_size\<close> is a \<^verbatim>\<open>std::size_t\<close>, here a 64-bit word, whose sum wraps around.
\<close>

definition VerifyAndParseHeader ::
    "endian \<Rightarrow> parser \<Rightarrow> string \<Rightarrow> NoncontiguousBuffer \<Rightarrow> bool
       \<Rightarrow> (PackHeader option \<times> NoncontiguousBuffer) result" where
  "VerifyAndParseHeader native ParseFromString junk buffer name_expected =
     (if NB_ByteSize buffer < 4 then Inr (None, buffer)
      else rbind (FlattenToSlow buffer junk 4) (\<lambda>bytes.
        let sz = FromLittleEndian native (of_object_bytes native bytes :: 32 word)
        in rbind (NB_Skip 4 buffer) (\<lambda>buffer.
          if NB_ByteSize buffer < unat sz then Inr (None, buffer)
          else
            let flatten = FlattenSlow buffer (unat sz)
            in rbind (NB_Skip (unat sz) buffer) (\<lambda>buffer.
              case ParseFromString flatten of
                None \<Rightarrow> Inr (None, buffer)
              | Some header \<Rightarrow>
                  if \<not> name_expected \<and> ph_names header \<noteq> [] then Inr (None, buffer)
                  else if name_expected \<and> length (ph_names header) \<noteq> length (ph_sizes header)
                  then Inr (None, buffer)
                  else
                    let body_size = sum_list (ph_sizes header)
                    in if NB_ByteSize buffer \<noteq> unat body_size then Inr (None, buffer)
                       else Inr (Some header, buffer)))))"

fun append_buffers ::
    "pool \<Rightarrow> NoncontiguousBuffer list \<Rightarrow> NoncontiguousBufferBuilder
       \<Rightarrow> NoncontiguousBufferBuilder result" where
  "append_buffers pool [] builder = Inr builder"
| "append_buffers pool (v # vs) builder =
     rbind (NBB_AppendNB pool (NB_copy v) builder) (append_buffers pool vs)"

definition size_word :: "NoncontiguousBuffer \<Rightarrow> 64 word" where
  "size_word v = of_nat (NB_ByteSize v)"

definition WriteKeyedNoncontiguousBuffers_to ::
    "endian \<Rightarrow> serializer \<Rightarrow> pool \<Rightarrow> (string \<times> NoncontiguousBuffer) list
       \<Rightarrow> NoncontiguousBufferBuilder \<Rightarrow> NoncontiguousBufferBuilder result" where
  "WriteKeyedNoncontiguousBuffers_to native ser pool kvs builder =
     (let header = \<lparr>ph_names = map fst kvs, ph_sizes = map (size_word \<circ> snd) kvs\<rparr>
      in rbind (WriteHeader native ser pool header builder) (append_buffers pool (map snd kvs)))"

definition WriteKeyedNoncontiguousBuffers ::
    "endian \<Rightarrow> serializer \<Rightarrow> pool \<Rightarrow> (string \<times> NoncontiguousBuffer) list
       \<Rightarrow> NoncontiguousBuffer result" where
  "WriteKeyedNoncontiguousBuffers native ser pool kvs =
     rbind (NBB_new pool) (\<lambda>builder.
       rbind (WriteKeyedNoncontiguousBuffers_to native ser pool kvs builder) NBB_DestructiveGet)"

fun parse_keyed_loop ::
    "string list \<Rightarrow> 64 word list \<Rightarrow> NoncontiguousBuffer
       \<Rightarrow> (string \<times> NoncontiguousBuffer) list result" where
  "parse_keyed_loop names [] buffer = Inr []"
| "parse_keyed_loop [] (sz # sizes) buffer = Inl Check_failed"
| "parse_keyed_loop (name # names) (sz # sizes) buffer =
     rbind (NB_Cut (unat sz) buffer) (\<lambda>(piece, buffer).
       rbind (parse_keyed_loop names sizes buffer) (\<lambda>result. Inr ((name, piece) # result)))"

definition TryParseKeyedNoncontiguousBuffers ::
    "endian \<Rightarrow> parser \<Rightarrow> string \<Rightarrow> NoncontiguousBuffer
       \<Rightarrow> (string \<times> NoncontiguousBuffer) list option result" where
  "TryParseKeyedNoncontiguousBuffers native parse junk buffer =
     rbind (VerifyAndParseHeader native parse junk buffer True) (\<lambda>(header, buffer).
       case header of
         None \<Rightarrow> Inr None
       | Some header \<Rightarrow>
           if length (ph_sizes header) \<noteq> length (ph_names header) then Inr None
           else rbind (parse_keyed_loop (ph_names header) (ph_sizes header) buffer)
                  (\<lambda>result. Inr (Some result)))"

definition WriteNoncontiguousBufferArray_to ::
    "endian \<Rightarrow> serializer \<Rightarrow> pool \<Rightarrow> NoncontiguousBuffer list
       \<Rightarrow> NoncontiguousBufferBuilder \<Rightarrow> NoncontiguousBufferBuilder result" where
  "WriteNoncontiguousBufferArray_to native ser pool buffers builder =
     (let header = \<lparr>ph_names = [], ph_sizes = map size_word buffers\<rparr>
      in rbind (WriteHeader native ser pool header builder) (append_buffers pool buffers))"

definition WriteNoncontiguousBufferArray ::
    "endian \<Rightarrow> serializer \<Rightarrow> pool \<Rightarrow> NoncontiguousBuffer list \<Rightarrow> NoncontiguousBuffer result" where
  "WriteNoncontiguousBufferArray native ser pool buffers =
     rbind (NBB_new pool) (\<lambda>builder.
       rbind (WriteNoncontiguousBufferArray_to native ser pool buffers builder) NBB_DestructiveGet)"

fun parse_array_loop ::
    "64 word list \<Rightarrow> NoncontiguousBuffer \<Rightarrow> NoncontiguousBuffer list result" where
  "parse_array_loop [] buffer = Inr []"
| "parse_array_loop (sz # sizes) buffer =
     rbind (NB_Cut (unat sz) buffer) (\<lambda>(piece, buffer).
       rbind (parse_array_loop sizes buffer) (\<lambda>result. Inr (piece # result)))"

definition TryParseNoncontiguousBufferArray ::
    "endian \<Rightarrow> parser \<Rightarrow> string \<Rightarrow> NoncontiguousBuffer
       \<Rightarrow> NoncontiguousBuffer list option result" where
  "TryParseNoncontiguousBufferArray native parse junk buffer =
     rbind (VerifyAndParseHeader native parse junk buffer False) (\<lambda>(header, buffer).
       case header of
         None \<Rightarrow> Inr None
       | Some header \<Rightarrow>
           if ph_names header \<noteq> [] then Inr None
           else rbind (parse_array_loop (ph_sizes header) buffer) (\<lambda>result. Inr (Some result)))"

section \<open>Writing\<close>

definition header_bytes :: "string \<Rightarrow> string" where
  "header_bytes serialized = le_bytes 4 (length serialized mod 2 ^ 32) @ serialized"

lemma word32_bytes: "8 dvd LENGTH(32)"
  by simp

lemma object_bytes_size:
  "object_bytes native (ToLittleEndian native (of_nat n :: 32 word)) = le_bytes 4 (n mod 2 ^ 32)"
  unfolding object_bytes_ToLittleEndian [OF word32_bytes]
  by (simp add: word_size unat_of_nat take_bit_eq_mod)

lemma WriteHeader_ok:
  assumes "pool_ok bs pool" "nbb_invar bs b"
  shows "\<exists>b'. WriteHeader native ser pool header b = Inr b' \<and> nbb_invar bs b' \<and>
           nbb_bytes b' = nbb_bytes b @ header_bytes (ser header)"
proof -
  have "\<exists>b'. append_all (NBB_Append pool) [le_bytes 4 (length (ser header) mod 2 ^ 32), ser header] b = Inr b' \<and>
      nbb_invar bs b' \<and> nbb_bytes b' = nbb_bytes b @ header_bytes (ser header)"
    using nbb.append_all_ok [of bs b pool "[le_bytes 4 (length (ser header) mod 2 ^ 32), ser header]"] assms
    by (simp add: header_bytes_def)
  then show ?thesis
    by (simp add: WriteHeader_def object_bytes_size Let_def rbind_def split: sum.splits)
qed

lemma append_buffers_ok:
  "pool_ok bs pool \<Longrightarrow> nbb_invar bs b \<Longrightarrow> list_all nb_invar vs \<Longrightarrow>
   \<exists>b'. append_buffers pool vs b = Inr b' \<and> nbb_invar bs b' \<and>
     nbb_bytes b' = nbb_bytes b @ concat (map nb_bytes vs)"
proof (induction vs arbitrary: b)
  case (Cons v vs)
  then have "nb_invar (NB_copy v)" "nb_bytes (NB_copy v) = nb_bytes v" using NB_copy_ok by auto
  with NBB_AppendNB_ok [OF Cons.prems(1,2), of "NB_copy v"] obtain b' where
    "NBB_AppendNB pool (NB_copy v) b = Inr b'" "nbb_invar bs b'" "nbb_bytes b' = nbb_bytes b @ nb_bytes v" by auto
  with Cons.IH [of b'] Cons.prems show ?case by auto
qed simp

lemma write_ok:
  assumes pool: "pool_ok bs pool" and vs: "list_all nb_invar vs"
  shows "\<exists>nb. rbind (NBB_new pool) (\<lambda>b. rbind (rbind (WriteHeader native ser pool header b)
             (append_buffers pool vs)) NBB_DestructiveGet) = Inr nb \<and>
           nb_invar nb \<and> nb_bytes nb = header_bytes (ser header) @ concat (map nb_bytes vs)"
proof -
  obtain b where b: "NBB_new pool = Inr b" "nbb_invar bs b" "nbb_bytes b = []"
    using NBB_new_ok [OF pool] by blast
  obtain b' where b': "WriteHeader native ser pool header b = Inr b'" "nbb_invar bs b'"
      "nbb_bytes b' = header_bytes (ser header)"
    using WriteHeader_ok [OF pool b(2), of native ser header] b(3) by auto
  obtain b'' where b'': "append_buffers pool vs b' = Inr b''" "nbb_invar bs b''"
      "nbb_bytes b'' = header_bytes (ser header) @ concat (map nb_bytes vs)"
    using append_buffers_ok [OF pool b'(2) vs] b'(3) by auto
  from NBB_DestructiveGet_ok [OF b''(2)] b(1) b'(1) b''(1,3) show ?thesis by auto
qed

section \<open>Reading\<close>

lemma VerifyAndParseHeader_ok:
  assumes inv: "nb_invar nb" and junk: "length junk = 4"
    and bytes: "nb_bytes nb = header_bytes h @ body" and len: "length h < 2 ^ 32"
    and parse: "parse h = Some header"
    and names: "if named then length (ph_names header) = length (ph_sizes header) else ph_names header = []"
    and body: "unat (sum_list (ph_sizes header)) = length body"
  shows "\<exists>nb'. VerifyAndParseHeader native parse junk nb named = Inr (Some header, nb') \<and>
           nb_invar nb' \<and> nb_bytes nb' = body"
proof -
  have all: "nb_bytes nb = le_bytes 4 (length h) @ h @ body" using bytes len by (simp add: header_bytes_def)
  have size4: "NB_ByteSize nb = 4 + length h + length body"
    using nb_invar_length [OF inv] all by (simp add: NB_ByteSize_def)
  have "length (nb_bytes nb) = 4 + length h + length body" by (simp add: all)
  then have "nb_bytes nb \<noteq> []" "4 \<le> length (nb_bytes nb)" by auto
  then have flat: "FlattenToSlow nb junk 4 = Inr (le_bytes 4 (length h))"
    using FlattenToSlow_ok [OF inv, of 4 junk] junk by (simp add: all)
  have sz: "FromLittleEndian native (of_object_bytes native (le_bytes 4 (length h))) = (of_nat (length h) :: 32 word)"
    using From_To_Endian(2) [OF word32_bytes, of native "of_nat (length h)"]
      of_object_bytes [OF word32_bytes, of native "ToLittleEndian native (of_nat (length h))"]
      object_bytes_size [of native "length h"] len
    by simp
  have unat: "unat (of_nat (length h) :: 32 word) = length h" using len by (simp add: unat_of_nat take_bit_eq_mod)
  obtain nb1 where nb1: "NB_Skip 4 nb = Inr nb1" "nb_invar nb1" "nb_bytes nb1 = h @ body"
    using NB_Skip_ok [OF inv, of 4] all by auto
  have size1: "NB_ByteSize nb1 = length h + length body"
    using nb_invar_length [OF nb1(2)] nb1(3) by (simp add: NB_ByteSize_def)
  obtain nb2 where nb2: "NB_Skip (length h) nb1 = Inr nb2" "nb_invar nb2" "nb_bytes nb2 = body"
    using NB_Skip_ok [OF nb1(2), of "length h"] nb1(3) by auto
  have size2: "NB_ByteSize nb2 = length body"
    using nb_invar_length [OF nb2(2)] nb2(3) by (simp add: NB_ByteSize_def)
  have "VerifyAndParseHeader native parse junk nb named = Inr (Some header, nb2)"
    using parse names body
    by (auto simp: VerifyAndParseHeader_def size4 flat sz unat nb1 size1 FlattenSlow_ok nb2 size2 Let_def
        split: if_splits)
  with nb2 show ?thesis by simp
qed

lemma parse_array_loop_ok:
  "nb_invar nb \<Longrightarrow> sum_list (map unat sizes) \<le> length (nb_bytes nb) \<Longrightarrow>
   \<exists>ps. parse_array_loop sizes nb = Inr ps \<and> list_all nb_invar ps \<and>
     map (\<lambda>p. length (nb_bytes p)) ps = map unat sizes \<and>
     concat (map nb_bytes ps) = take (sum_list (map unat sizes)) (nb_bytes nb)"
proof (induction sizes arbitrary: nb)
  case (Cons sz sizes)
  obtain p nb' where c: "NB_Cut (unat sz) nb = Inr (p, nb')" "nb_invar p" "nb_invar nb'"
      "nb_bytes p = take (unat sz) (nb_bytes nb)" "nb_bytes nb' = drop (unat sz) (nb_bytes nb)"
    using NB_Cut_ok [OF Cons.prems(1), of "unat sz"] Cons.prems(2) by auto
  have "sum_list (map unat sizes) \<le> length (nb_bytes nb')" using Cons.prems(2) c(5) by simp
  from Cons.IH [OF c(3) this] obtain ps where "parse_array_loop sizes nb' = Inr ps" "list_all nb_invar ps"
    "map (\<lambda>p. length (nb_bytes p)) ps = map unat sizes"
    "concat (map nb_bytes ps) = take (sum_list (map unat sizes)) (nb_bytes nb')" by blast
  with c Cons.prems(2) show ?case by (simp add: take_add)
qed simp

lemma parse_keyed_loop_array:
  "length names = length sizes \<Longrightarrow>
   parse_keyed_loop names sizes nb = rbind (parse_array_loop sizes nb) (\<lambda>ps. Inr (zip names ps))"
proof (induction names sizes nb rule: parse_keyed_loop.induct)
  case (3 name names sz sizes buffer)
  then show ?case by (cases "NB_Cut (unat sz) buffer") (auto simp: rbind_def split: sum.split)
qed auto

lemma concat_inj_lengths:
  "map length xs = map length ys \<Longrightarrow> concat xs = concat ys \<Longrightarrow> xs = ys"
proof (induction xs arbitrary: ys)
  case (Cons x xs)
  then show ?case by (cases ys) auto
qed simp

lemma parse_array_loop_exact:
  assumes "nb_invar nb" "nb_bytes nb = concat (map nb_bytes vs)" "map unat sizes = map (\<lambda>p. length (nb_bytes p)) vs"
  shows "\<exists>ps. parse_array_loop sizes nb = Inr ps \<and> map nb_bytes ps = map nb_bytes vs"
proof -
  have sum: "sum_list (map unat sizes) = length (nb_bytes nb)"
    unfolding assms(2,3) by (simp add: length_concat comp_def)
  with parse_array_loop_ok [OF assms(1), of sizes] obtain ps where ps: "parse_array_loop sizes nb = Inr ps"
      "map (\<lambda>p. length (nb_bytes p)) ps = map unat sizes" "concat (map nb_bytes ps) = nb_bytes nb" by auto
  have "map nb_bytes ps = map nb_bytes vs"
    by (rule concat_inj_lengths) (use ps assms in \<open>simp_all add: comp_def\<close>)
  with ps(1) show ?thesis by blast
qed

lemma size_words_ok:
  assumes "list_all nb_invar vs" "length (concat (map nb_bytes vs)) < 2 ^ 64"
  shows "map unat (map size_word vs) = map (\<lambda>p. length (nb_bytes p)) vs"
    and "unat (sum_list (map size_word vs)) = length (concat (map nb_bytes vs))"
proof -
  have "map unat (map size_word vs) = map (\<lambda>p. length (nb_bytes p)) vs \<and>
      sum_list (map size_word vs) = of_nat (length (concat (map nb_bytes vs)))"
    using assms
  proof (induction vs)
    case (Cons v vs)
    then have "NB_ByteSize v = length (nb_bytes v)" "length (nb_bytes v) < 2 ^ 64"
      using nb_invar_length [of v] by (auto simp: NB_ByteSize_def)
    then have "unat (size_word v) = length (nb_bytes v)" "size_word v = of_nat (length (nb_bytes v))"
      by (simp_all add: size_word_def unat_of_nat take_bit_eq_mod)
    with Cons show ?case by simp
  qed simp
  with assms(2) show "map unat (map size_word vs) = map (\<lambda>p. length (nb_bytes p)) vs"
    and "unat (sum_list (map size_word vs)) = length (concat (map nb_bytes vs))"
    by (simp_all add: unat_of_nat take_bit_eq_mod)
qed

lemma array_round_trip:
  assumes pool: "pool_ok bs pool" and vs: "list_all nb_invar vs" and junk: "length junk = 4"
    and codec: "\<And>h. parse (ser h) = Some h"
    and small: "\<And>h. length (ph_sizes h) = length vs \<Longrightarrow> length (ser h) < 2 ^ 32"
      "length (concat (map nb_bytes vs)) < 2 ^ 64"
  shows "\<exists>nb ps. WriteNoncontiguousBufferArray native ser pool vs = Inr nb \<and>
           TryParseNoncontiguousBufferArray native' parse junk nb = Inr (Some ps) \<and>
           map nb_bytes ps = map nb_bytes vs"
proof -
  let ?h = "\<lparr>ph_names = [], ph_sizes = map size_word vs\<rparr>"
  obtain nb where nb: "WriteNoncontiguousBufferArray native ser pool vs = Inr nb" "nb_invar nb"
      "nb_bytes nb = header_bytes (ser ?h) @ concat (map nb_bytes vs)"
    using write_ok [OF pool vs, of native ser ?h]
    by (auto simp: WriteNoncontiguousBufferArray_def WriteNoncontiguousBufferArray_to_def Let_def)
  obtain nb' where "VerifyAndParseHeader native' parse junk nb False = Inr (Some ?h, nb')" "nb_invar nb'"
      "nb_bytes nb' = concat (map nb_bytes vs)"
    using VerifyAndParseHeader_ok [OF nb(2) junk nb(3), of parse ?h False native'] codec small(1) [of ?h]
      size_words_ok(2) [OF vs small(2)] by auto
  moreover from this obtain ps where "parse_array_loop (map size_word vs) nb' = Inr ps"
      "map nb_bytes ps = map nb_bytes vs"
    using parse_array_loop_exact [OF _ _ size_words_ok(1) [OF vs small(2)]] by blast
  ultimately show ?thesis using nb(1) by (simp add: TryParseNoncontiguousBufferArray_def)
qed

lemma keyed_round_trip:
  assumes pool: "pool_ok bs pool" and vs: "list_all nb_invar (map snd kvs)" and junk: "length junk = 4"
    and codec: "\<And>h. ph_names h = map fst kvs \<Longrightarrow> length (ph_sizes h) = length kvs \<Longrightarrow> parse (ser h) = Some h"
    and small: "\<And>h. ph_names h = map fst kvs \<Longrightarrow> length (ph_sizes h) = length kvs \<Longrightarrow> length (ser h) < 2 ^ 32"
      "length (concat (map (nb_bytes \<circ> snd) kvs)) < 2 ^ 64"
  shows "\<exists>nb ps. WriteKeyedNoncontiguousBuffers native ser pool kvs = Inr nb \<and>
           TryParseKeyedNoncontiguousBuffers native' parse junk nb = Inr (Some ps) \<and>
           map (apsnd nb_bytes) ps = map (apsnd nb_bytes) kvs"
proof -
  let ?vs = "map snd kvs"
  let ?h = "\<lparr>ph_names = map fst kvs, ph_sizes = map size_word ?vs\<rparr>"
  have small2: "length (concat (map nb_bytes ?vs)) < 2 ^ 64" using small(2) by simp
  obtain nb where nb: "WriteKeyedNoncontiguousBuffers native ser pool kvs = Inr nb" "nb_invar nb"
      "nb_bytes nb = header_bytes (ser ?h) @ concat (map nb_bytes ?vs)"
    using write_ok [OF pool vs, of native ser ?h]
    by (auto simp: WriteKeyedNoncontiguousBuffers_def WriteKeyedNoncontiguousBuffers_to_def Let_def)
  obtain nb' where nb': "VerifyAndParseHeader native' parse junk nb True = Inr (Some ?h, nb')" "nb_invar nb'"
      "nb_bytes nb' = concat (map nb_bytes ?vs)"
    using VerifyAndParseHeader_ok [OF nb(2) junk nb(3), of parse ?h True native'] codec small(1) [of ?h]
      size_words_ok(2) [OF vs small2] by auto
  from this obtain ps where ps: "parse_array_loop (map size_word ?vs) nb' = Inr ps"
      "map nb_bytes ps = map nb_bytes ?vs"
    using parse_array_loop_exact [OF _ _ size_words_ok(1) [OF vs small2]] by blast
  have "map (apsnd nb_bytes) (zip (map fst kvs) ps) = zip (map fst kvs) (map nb_bytes ps)"
    by (simp add: zip_map2 apsnd_def map_prod_def split_beta)
  also have "\<dots> = map (apsnd nb_bytes) kvs"
    unfolding ps(2) by (simp add: zip_map_map zip_same_conv_map apsnd_def map_prod_def split_beta)
  finally show ?thesis
    using nb(1) nb'(1) ps(1) by (simp add: TryParseKeyedNoncontiguousBuffers_def parse_keyed_loop_array)
qed

lemma VerifyAndParseHeader_total:
  assumes inv: "nb_invar nb" and junk: "length junk = 4"
  shows "\<exists>r nb'. VerifyAndParseHeader native parse junk nb named = Inr (r, nb') \<and> nb_invar nb' \<and>
           (\<forall>header. r = Some header \<longrightarrow> (\<exists>s. parse s = Some header) \<and>
              unat (sum_list (ph_sizes header)) = length (nb_bytes nb') \<and>
              (if named then length (ph_names header) = length (ph_sizes header) else ph_names header = []))"
proof (cases "NB_ByteSize nb < 4")
  case True
  with inv show ?thesis by (simp add: VerifyAndParseHeader_def)
next
  case False
  then have len: "4 \<le> length (nb_bytes nb)" using nb_invar_length [OF inv] by (simp add: NB_ByteSize_def)
  then have "nb_bytes nb \<noteq> []" by auto
  then obtain bytes where flat: "FlattenToSlow nb junk 4 = Inr bytes"
    using FlattenToSlow_ok [OF inv len] junk by simp
  define sz where "sz = unat (FromLittleEndian native (of_object_bytes native bytes :: 32 word))"
  obtain nb1 where nb1: "NB_Skip 4 nb = Inr nb1" "nb_invar nb1" using NB_Skip_ok [OF inv len] by blast
  note unf = VerifyAndParseHeader_def flat nb1 sz_def [symmetric] Let_def
  show ?thesis
  proof (cases "NB_ByteSize nb1 < sz")
    case True
    with False nb1(2) show ?thesis by (simp add: unf)
  next
    case ge: False
    then have "sz \<le> length (nb_bytes nb1)" using nb_invar_length [OF nb1(2)] by (simp add: NB_ByteSize_def)
    then obtain nb2 where nb2: "NB_Skip sz nb1 = Inr nb2" "nb_invar nb2" using NB_Skip_ok [OF nb1(2)] by blast
    have "NB_ByteSize nb2 = length (nb_bytes nb2)" using nb_invar_length [OF nb2(2)] by (simp add: NB_ByteSize_def)
    then show ?thesis
      using False ge nb2 by (auto simp: unf split: option.splits if_splits)
  qed
qed

lemma unat64_less: "unat (w :: 64 word) < 18446744073709551616"
proof -
  have "unat w < 2 ^ LENGTH(64)" by (rule unsigned_less)
  then show ?thesis by simp
qed

lemma sum_list_word64:
  assumes "sum_list (map unat ws) < 2 ^ 64"
  shows "unat (sum_list ws :: 64 word) = sum_list (map unat ws)"
proof -
  have "sum_list ws = of_nat (sum_list (map unat ws))" by (induction ws) simp_all
  then have "unat (sum_list ws) = sum_list (map unat ws) mod 2 ^ 64"
    by (simp add: unat_of_nat take_bit_eq_mod)
  with assms show ?thesis by simp
qed

lemma parse_total:
  assumes inv: "nb_invar nb" and junk: "length junk = 4"
    and sane: "\<forall>s header. parse s = Some header \<longrightarrow> sum_list (map unat (ph_sizes header)) < 2 ^ 64"
  shows "\<exists>r. TryParseNoncontiguousBufferArray native parse junk nb = Inr r"
    and "\<exists>r. TryParseKeyedNoncontiguousBuffers native parse junk nb = Inr r"
proof -
  have *: "\<exists>ps. parse_array_loop (ph_sizes header) nb' = Inr ps"
    if "nb_invar nb'" "parse s = Some header" "unat (sum_list (ph_sizes header)) = length (nb_bytes nb')"
    for nb' s header
    using parse_array_loop_ok [OF that(1), of "ph_sizes header"] sum_list_word64 [of "ph_sizes header"]
      sane that(2,3) by fastforce
  show "\<exists>r. TryParseNoncontiguousBufferArray native parse junk nb = Inr r"
    using VerifyAndParseHeader_total [OF inv junk, of native parse False] *
    by (fastforce simp: TryParseNoncontiguousBufferArray_def split: option.split)
  show "\<exists>r. TryParseKeyedNoncontiguousBuffers native parse junk nb = Inr r"
    using VerifyAndParseHeader_total [OF inv junk, of native parse True] *
    by (fastforce simp: TryParseKeyedNoncontiguousBuffers_def parse_keyed_loop_array split: option.split)
qed

lemma size_overflow:
  assumes "nb_invar nb" and "length junk = 4" and "nb_bytes nb = header_bytes h" and "length h < 2 ^ 32"
    and "parse h = Some \<lparr>ph_names = [], ph_sizes = [2 ^ 64 - 1, 1]\<rparr>"
  shows "TryParseNoncontiguousBufferArray native parse junk nb = Inl Dcheck_failed"
proof -
  obtain nb' where nb': "VerifyAndParseHeader native parse junk nb False =
      Inr (Some \<lparr>ph_names = [], ph_sizes = [2 ^ 64 - 1, 1]\<rparr>, nb')" "nb_invar nb'" "nb_bytes nb' = []"
    using VerifyAndParseHeader_ok [of nb junk h "[]" parse _ False native] assms by auto
  have "nb_byte_size nb' = 0" using nb_invar_length [OF nb'(2)] nb'(3) by simp
  then have "NB_Cut 18446744073709551615 nb' = Inl Dcheck_failed"
    by (simp add: NB_Cut_def NB_ByteSize_def)
  then show ?thesis by (simp add: TryParseNoncontiguousBufferArray_def nb'(1))
qed

section \<open>Properties\<close>

text \<open>
  C26. Packing and unpacking named buffers: on any machine, whatever the block size, a packed
  list of named buffers parses, on any other machine, to the same names in the same order with
  the same bytes; provided the parser of the header undoes its serializer, the serialized
  header is shorter than 4 GiB and the bodies together are smaller than \<^verbatim>\<open>2^64\<close> bytes.
\<close>

theorem keyed_packing_round_trip:
  assumes "pool_ok block_size pool" and "list_all nb_invar (map snd kvs)" and "length junk = 4"
    and "\<forall>h. ph_names h = map fst kvs \<longrightarrow> length (ph_sizes h) = length kvs \<longrightarrow>
           parse (ser h) = Some h \<and> length (ser h) < 2 ^ 32"
    and "length (concat (map (nb_bytes \<circ> snd) kvs)) < 2 ^ 64"
  shows "\<exists>nb ps. WriteKeyedNoncontiguousBuffers here ser pool kvs = Inr nb \<and>
           TryParseKeyedNoncontiguousBuffers there parse junk nb = Inr (Some ps) \<and>
           map (apsnd nb_bytes) ps = map (apsnd nb_bytes) kvs"
  using keyed_round_trip [OF assms(1-3), of parse ser here there] assms(4,5) by blast

definition demo_serialize :: serializer where
  "demo_serialize h = le_bytes 8 (unat (hd (ph_sizes h)))"

definition demo_parse :: parser where
  "demo_parse s = Some \<lparr>ph_names = [''k''], ph_sizes = [of_nat (le_value s)]\<rparr>"

lemma demo_codec:
  assumes "ph_names h = [''k'']" "length (ph_sizes h) = 1"
  shows "demo_parse (demo_serialize h) = Some h"
proof -
  obtain w where w: "ph_sizes h = [w]" using assms(2) by (cases "ph_sizes h") auto
  have "unat w mod 256 ^ 8 = unat w" using unat64_less [of w] by simp
  with assms(1) w show ?thesis by (simp add: demo_parse_def demo_serialize_def)
qed

theorem keyed_packing_round_trip_witness:
  "\<exists>nb ps. WriteKeyedNoncontiguousBuffers little demo_serialize (\<lambda>_. ''????'')
       [(''k'', NB_AppendPB (MakeForeignBuffer ''abc'') NB_new)] = Inr nb \<and>
     TryParseKeyedNoncontiguousBuffers big demo_parse ''0000'' nb = Inr (Some ps) \<and>
     map (apsnd nb_bytes) ps = [(''k'', ''abc'')]"
proof -
  let ?nb = "NB_AppendPB (MakeForeignBuffer ''abc'') NB_new"
  have nb: "nb_invar ?nb" "nb_bytes ?nb = ''abc''"
    by (simp_all add: NB_AppendPB_def MakeForeignBuffer_def PB_make_def PB_move_def NB_new_def nb_invar_def
        pb_ok_def nb_bytes_def pb_bytes_def)
  have "demo_parse (demo_serialize h) = Some h \<and> length (demo_serialize h) < 2 ^ 32"
    if "ph_names h = [''k'']" "length (ph_sizes h) = 1" for h
    using demo_codec [OF that] by (simp add: demo_serialize_def)
  with nb keyed_packing_round_trip [of 4 "\<lambda>_. ''????''" "[(''k'', ?nb)]" "''0000''" demo_parse demo_serialize little big]
  show ?thesis by (simp add: pool_ok_def)
qed

text \<open>
  Both unpacking functions return (a value or \<^verbatim>\<open>nullopt\<close>) on arbitrary bytes, without a
  failed check or an access out of bounds, as long as the sizes that the header parser yields do
  not add up to \<^verbatim>\<open>2^64\<close> or more.
\<close>

theorem unpacking_total:
  assumes "nb_invar nb" and "length junk = 4"
    and "\<forall>s header. parse s = Some header \<longrightarrow> sum_list (map unat (ph_sizes header)) < 2 ^ 64"
  shows "(\<exists>r. TryParseNoncontiguousBufferArray native parse junk nb = Inr r) \<and>
         (\<exists>r. TryParseKeyedNoncontiguousBuffers native parse junk nb = Inr r)"
  using parse_total [OF assms] by blast

theorem unpacking_total_witness:
  "\<exists>r. TryParseKeyedNoncontiguousBuffers little demo_parse ''0000''
         (NB_AppendPB (MakeForeignBuffer ''garbage'') NB_new) = Inr r"
proof -
  let ?nb = "NB_AppendPB (MakeForeignBuffer ''garbage'') NB_new"
  have "nb_invar ?nb"
    by (simp add: NB_AppendPB_def MakeForeignBuffer_def PB_make_def PB_move_def NB_new_def nb_invar_def pb_ok_def)
  moreover have "\<forall>s header. demo_parse s = Some header \<longrightarrow> sum_list (map unat (ph_sizes header)) < 2 ^ 64"
    using unat64_less by (auto simp: demo_parse_def)
  ultimately show ?thesis using unpacking_total [of ?nb "''0000''" demo_parse little] by simp
qed

text \<open>
  C28. The sizes of the header are added up in 64 bits without a check for overflow. A header with
  the sizes \<^verbatim>\<open>2^64 - 1\<close> and 1 and no body passes the verification, and the first \<^verbatim>\<open>Cut\<close> then
  asks for more bytes than there are: a failed debug check, undefined behaviour without it.
\<close>

theorem unpacking_size_overflow:
  assumes "nb_invar nb" and "length junk = 4" and "nb_bytes nb = header_bytes h" and "length h < 2 ^ 32"
    and "parse h = Some \<lparr>ph_names = [], ph_sizes = [2 ^ 64 - 1, 1]\<rparr>"
  shows "TryParseNoncontiguousBufferArray native parse junk nb = Inl Dcheck_failed"
  using size_overflow [of nb junk h parse native] assms by blast

theorem unpacking_size_overflow_witness:
  "TryParseNoncontiguousBufferArray little
     (\<lambda>s. if s = ''hh'' then Some \<lparr>ph_names = [], ph_sizes = [2 ^ 64 - 1, 1]\<rparr> else None) ''0000''
     (NB_AppendPB (MakeForeignBuffer (header_bytes ''hh'')) NB_new) = Inl Dcheck_failed"
proof -
  let ?nb = "NB_AppendPB (MakeForeignBuffer (header_bytes ''hh'')) NB_new"
  have "nb_invar ?nb" "nb_bytes ?nb = header_bytes ''hh''"
    by (simp_all add: NB_AppendPB_def MakeForeignBuffer_def PB_make_def PB_move_def NB_new_def nb_invar_def
        pb_ok_def nb_bytes_def pb_bytes_def header_bytes_def)
  then show ?thesis using unpacking_size_overflow [of ?nb "''0000''" "''hh''"] by simp
qed

end
