(* ===== verification/Buffer_Streams.thy ===== *)
theory Buffer_Streams
  imports Buffer_Builder
begin

text \<open>
  The zero-copy streams of \<^verbatim>\<open>flare/base/buffer/zero_copy_stream.cc\<close>, through which Protocol
  Buffers reads from a \<^verbatim>\<open>NoncontiguousBuffer\<close> and writes into a builder. What Protocol Buffers
  does with a stream is any interleaving of the calls of the interface: it is an inductive
  relation here, and the theorems hold in every state it reaches. Sizes that the interface
  passes as \<^verbatim>\<open>int\<close> are natural numbers.
\<close>

section \<open>NoncontiguousBufferInputStream\<close>

record InputStream =
  is_skip_before_read :: nat
  is_read :: nat
  is_buffer :: NoncontiguousBuffer

definition NBIS_new :: "NoncontiguousBuffer \<Rightarrow> InputStream" where
  "NBIS_new ref = \<lparr>is_skip_before_read = 0, is_read = 0, is_buffer = ref\<rparr>"

definition NBIS_PerformPendingSkips :: "InputStream \<Rightarrow> InputStream result" where
  "NBIS_PerformPendingSkips s =
     (if is_skip_before_read s \<noteq> 0
      then rbind (NB_Skip (is_skip_before_read s) (is_buffer s))
             (\<lambda>buffer. Inr (s\<lparr>is_buffer := buffer, is_skip_before_read := 0\<rparr>))
      else Inr s)"

definition NBIS_Flush :: "InputStream \<Rightarrow> InputStream result" where
  "NBIS_Flush s = NBIS_PerformPendingSkips s"

text \<open>\<^verbatim>\<open>Next\<close>: \<open>None\<close> for false, otherwise the bytes between \<^verbatim>\<open>*data\<close> and \<^verbatim>\<open>*data + *size\<close>.\<close>

definition NBIS_Next :: "InputStream \<Rightarrow> (string option \<times> InputStream) result" where
  "NBIS_Next s =
     rbind (NBIS_PerformPendingSkips s) (\<lambda>s.
       rbind (NB_Empty (is_buffer s)) (\<lambda>e.
         if e then Inr (None, s)
         else rbind (NB_FirstContiguous (is_buffer s)) (\<lambda>fc.
           Inr (Some fc, s\<lparr>is_skip_before_read := length fc, is_read := is_read s + length fc\<rparr>))))"

definition NBIS_BackUp :: "nat \<Rightarrow> InputStream \<Rightarrow> InputStream result" where
  "NBIS_BackUp count s =
     check (is_skip_before_read s \<ge> count)
       (Inr (s\<lparr>is_skip_before_read := is_skip_before_read s - count, is_read := is_read s - count\<rparr>))"

definition NBIS_Skip :: "nat \<Rightarrow> InputStream \<Rightarrow> (bool \<times> InputStream) result" where
  "NBIS_Skip count s =
     rbind (NBIS_PerformPendingSkips s) (\<lambda>s.
       if NB_ByteSize (is_buffer s) < count then Inr (False, s)
       else rbind (NB_Skip count (is_buffer s)) (\<lambda>buffer.
         Inr (True, s\<lparr>is_read := is_read s + count, is_buffer := buffer\<rparr>)))"

definition NBIS_ByteCount :: "InputStream \<Rightarrow> nat" where
  "NBIS_ByteCount s = is_read s"

text \<open>
  \<open>nbis_run s consumed\<close>: after some calls on a stream over the buffer \<open>nb\<close>, the state is \<open>s\<close>
  and the caller holds (or skipped) the bytes \<open>consumed\<close>. \<^verbatim>\<open>BackUp\<close> may return at most what the
  last \<^verbatim>\<open>Next\<close> gave and was not returned yet.
\<close>

inductive nbis_run :: "NoncontiguousBuffer \<Rightarrow> InputStream \<Rightarrow> string \<Rightarrow> bool" for nb where
  start: "nbis_run nb (NBIS_new nb) []"
| next_data: "nbis_run nb s consumed \<Longrightarrow> NBIS_Next s = Inr (Some chunk, s') \<Longrightarrow>
    nbis_run nb s' (consumed @ chunk)"
| next_eof: "nbis_run nb s consumed \<Longrightarrow> NBIS_Next s = Inr (None, s') \<Longrightarrow> nbis_run nb s' consumed"
| back_up: "nbis_run nb s consumed \<Longrightarrow> count \<le> is_skip_before_read s \<Longrightarrow> NBIS_BackUp count s = Inr s' \<Longrightarrow>
    nbis_run nb s' (take (length consumed - count) consumed)"
| skip: "nbis_run nb s consumed \<Longrightarrow> NBIS_Skip count s = Inr (True, s') \<Longrightarrow>
    nbis_run nb s' (consumed @ take count (drop (length consumed) (nb_bytes nb)))"
| skip_eof: "nbis_run nb s consumed \<Longrightarrow> NBIS_Skip count s = Inr (False, s') \<Longrightarrow> nbis_run nb s' consumed"
| flush: "nbis_run nb s consumed \<Longrightarrow> NBIS_Flush s = Inr s' \<Longrightarrow> nbis_run nb s' consumed"

text \<open>
  What holds between calls: the bytes consumed are a prefix of the stream, and the buffer still
  holds the last \<^verbatim>\<open>skip_before_read_\<close> of them in front of the rest.
\<close>

definition is_invar :: "NoncontiguousBuffer \<Rightarrow> InputStream \<Rightarrow> string \<Rightarrow> bool" where
  "is_invar nb s consumed \<longleftrightarrow>
     nb_invar (is_buffer s) \<and> is_read s = length consumed \<and>
     is_skip_before_read s \<le> length consumed \<and> prefix consumed (nb_bytes nb) \<and>
     nb_bytes (is_buffer s) = drop (length consumed - is_skip_before_read s) (nb_bytes nb)"

lemma prefix_take_drop: "prefix c s \<Longrightarrow> c @ take n (drop (length c) s) = take (length c + n) s"
  by (auto simp: prefix_def take_add)

lemma NBIS_PerformPendingSkips_ok:
  assumes inv: "is_invar nb s consumed"
  shows "\<exists>s'. NBIS_PerformPendingSkips s = Inr s' \<and> is_invar nb s' consumed \<and> is_skip_before_read s' = 0"
proof (cases "is_skip_before_read s = 0")
  case True
  with inv show ?thesis by (simp add: NBIS_PerformPendingSkips_def)
next
  case False
  have len: "is_skip_before_read s \<le> length (nb_bytes (is_buffer s))"
    using inv prefix_length_le [of consumed "nb_bytes nb"] by (auto simp: is_invar_def)
  from NB_Skip_ok [OF _ len] inv obtain buffer where
    "NB_Skip (is_skip_before_read s) (is_buffer s) = Inr buffer" "nb_invar buffer"
    "nb_bytes buffer = drop (is_skip_before_read s) (nb_bytes (is_buffer s))" by (auto simp: is_invar_def)
  with False inv show ?thesis by (simp add: NBIS_PerformPendingSkips_def is_invar_def)
qed

lemma NBIS_Next_ok:
  assumes inv: "is_invar nb s consumed"
  shows "\<exists>r s'. NBIS_Next s = Inr (r, s') \<and>
     (case r of None \<Rightarrow> consumed = nb_bytes nb \<and> is_invar nb s' consumed
      | Some chunk \<Rightarrow> chunk \<noteq> [] \<and> is_invar nb s' (consumed @ chunk))"
proof -
  obtain s1 where s1: "NBIS_PerformPendingSkips s = Inr s1" "is_invar nb s1 consumed" "is_skip_before_read s1 = 0"
    using NBIS_PerformPendingSkips_ok [OF inv] by blast
  have inv1: "nb_invar (is_buffer s1)" and pre: "prefix consumed (nb_bytes nb)"
    and rest: "nb_bytes (is_buffer s1) = drop (length consumed) (nb_bytes nb)" and read: "is_read s1 = length consumed"
    using s1 by (auto simp: is_invar_def)
  show ?thesis
  proof (cases "nb_buffers (is_buffer s1)")
    case Nil
    then have "nb_bytes (is_buffer s1) = []" by (simp add: nb_bytes_def)
    moreover from this have "consumed = nb_bytes nb" using rest pre by (auto simp: prefix_def)
    ultimately show ?thesis using s1 inv1 by (simp add: NBIS_Next_def NB_Empty_ok)
  next
    case (Cons b bs)
    have "length (pb_bytes b) > 0" using inv1 Cons by (simp add: nb_invar_def)
    then have b: "pb_bytes b \<noteq> []" by simp
    have bytes: "nb_bytes (is_buffer s1) = pb_bytes b @ concat (map pb_bytes bs)"
      by (simp add: nb_bytes_def Cons)
    have "prefix (consumed @ pb_bytes b) (nb_bytes nb)"
      using pre rest bytes by (auto simp: prefix_def)
    then have "is_invar nb (s1\<lparr>is_skip_before_read := length (pb_bytes b),
        is_read := is_read s1 + length (pb_bytes b)\<rparr>) (consumed @ pb_bytes b)"
      using inv1 rest read by (simp add: is_invar_def)
    then show ?thesis
      using s1 b bytes by (simp add: NBIS_Next_def NB_Empty_ok [OF inv1] NB_FirstContiguous_ok [OF inv1 Cons])
  qed
qed

lemma NBIS_BackUp_ok:
  assumes "is_invar nb s consumed" "count \<le> is_skip_before_read s"
  shows "\<exists>s'. NBIS_BackUp count s = Inr s' \<and> is_invar nb s' (take (length consumed - count) consumed)"
proof -
  have "prefix (take (length consumed - count) consumed) (nb_bytes nb)"
    using assms(1) prefix_order.trans [OF take_is_prefix, of consumed "nb_bytes nb"]
    unfolding is_invar_def by blast
  moreover have "length consumed - count - (is_skip_before_read s - count) = length consumed - is_skip_before_read s"
    using assms(2) by simp
  ultimately show ?thesis using assms by (simp add: NBIS_BackUp_def is_invar_def diff_le_mono)
qed

lemma NBIS_Skip_ok:
  assumes inv: "is_invar nb s consumed"
  shows "\<exists>r s'. NBIS_Skip count s = Inr (r, s') \<and>
     is_invar nb s' (if r then consumed @ take count (drop (length consumed) (nb_bytes nb)) else consumed) \<and>
     (r \<longleftrightarrow> length consumed + count \<le> length (nb_bytes nb))"
proof -
  obtain s1 where s1: "NBIS_PerformPendingSkips s = Inr s1" "is_invar nb s1 consumed" "is_skip_before_read s1 = 0"
    using NBIS_PerformPendingSkips_ok [OF inv] by blast
  have inv1: "nb_invar (is_buffer s1)" and pre: "prefix consumed (nb_bytes nb)"
    and rest: "nb_bytes (is_buffer s1) = drop (length consumed) (nb_bytes nb)" and read: "is_read s1 = length consumed"
    using s1 by (auto simp: is_invar_def)
  have size: "NB_ByteSize (is_buffer s1) = length (nb_bytes nb) - length consumed"
    using nb_invar_length [OF inv1] rest by (simp add: NB_ByteSize_def)
  have le: "length consumed \<le> length (nb_bytes nb)" using pre by (rule prefix_length_le)
  show ?thesis
  proof (cases "NB_ByteSize (is_buffer s1) < count")
    case True
    with s1 size le show ?thesis by (simp add: NBIS_Skip_def)
  next
    case False
    then have "count \<le> length (nb_bytes (is_buffer s1))" using rest size by simp
    from NB_Skip_ok [OF inv1 this] obtain buffer where "NB_Skip count (is_buffer s1) = Inr buffer"
      "nb_invar buffer" "nb_bytes buffer = drop count (nb_bytes (is_buffer s1))" by blast
    moreover have "prefix (take (length consumed + count) (nb_bytes nb)) (nb_bytes nb)" by (rule take_is_prefix)
    ultimately show ?thesis
      using False s1 rest read size le
      by (simp add: NBIS_Skip_def is_invar_def prefix_take_drop [OF pre] add.commute)
  qed
qed

lemma nbis_run_invar:
  assumes "nb_invar nb" "nbis_run nb s consumed"
  shows "is_invar nb s consumed"
  using assms(2)
proof induction
  case start
  with assms(1) show ?case by (simp add: NBIS_new_def is_invar_def)
next
  case (next_data s consumed chunk s')
  with NBIS_Next_ok [OF next_data.IH] show ?case by auto
next
  case (next_eof s consumed s')
  with NBIS_Next_ok [OF next_eof.IH] show ?case by auto
next
  case (back_up s consumed count s')
  with NBIS_BackUp_ok [OF back_up.IH, of count] show ?case by auto
next
  case (skip s consumed count s')
  with NBIS_Skip_ok [OF skip.IH, of count] show ?case by auto
next
  case (skip_eof s consumed count s')
  with NBIS_Skip_ok [OF skip_eof.IH, of count] show ?case by auto
next
  case (flush s consumed s')
  with NBIS_PerformPendingSkips_ok [OF flush.IH] show ?case by (auto simp: NBIS_Flush_def)
qed

section \<open>NoncontiguousBufferOutputStream\<close>

record OutputStream =
  os_using_bytes :: nat
  os_builder :: NoncontiguousBufferBuilder

definition NBOS_new :: "NoncontiguousBufferBuilder \<Rightarrow> OutputStream" where
  "NBOS_new builder = \<lparr>os_using_bytes = 0, os_builder = builder\<rparr>"

definition NBOS_Flush :: "pool \<Rightarrow> OutputStream \<Rightarrow> OutputStream result" where
  "NBOS_Flush pool s =
     (if os_using_bytes s \<noteq> 0
      then rbind (NBB_MarkWritten pool (os_using_bytes s) (os_builder s))
             (\<lambda>b. Inr (s\<lparr>os_builder := b, os_using_bytes := 0\<rparr>))
      else Inr s)"

text \<open>
  \<^verbatim>\<open>Next\<close> hands out the free part of the current block: the offset at which it starts and its
  size.
\<close>

definition NBOS_Next :: "pool \<Rightarrow> OutputStream \<Rightarrow> ((nat \<times> nat) \<times> OutputStream) result" where
  "NBOS_Next pool s =
     rbind (if os_using_bytes s \<noteq> 0
            then NBB_MarkWritten pool (os_using_bytes s) (os_builder s) else Inr (os_builder s)) (\<lambda>b.
       rbind (NBB_SizeAvailable b) (\<lambda>sz.
         check (sz \<noteq> 0)
           (Inr ((nbb_used b, sz), s\<lparr>os_builder := b, os_using_bytes := sz\<rparr>))))"

definition NBOS_BackUp :: "nat \<Rightarrow> OutputStream \<Rightarrow> OutputStream" where
  "NBOS_BackUp count s = s\<lparr>os_using_bytes := os_using_bytes s - count\<rparr>"

definition NBOS_ByteCount :: "OutputStream \<Rightarrow> nat" where
  "NBOS_ByteCount s = NBB_ByteSize (os_builder s)"

text \<open>
  \<open>nbos_run b s out\<close>: starting from the builder \<open>b\<close>, the caller asked for regions, filled each
  of them with bytes of its own and gave unused bytes at the end of the last region back;
  \<open>out\<close> is what it has written.
\<close>

inductive nbos_run ::
    "pool \<Rightarrow> NoncontiguousBufferBuilder \<Rightarrow> OutputStream \<Rightarrow> string \<Rightarrow> bool" for pool b where
  start: "nbos_run pool b (NBOS_new b) []"
| next_fill: "nbos_run pool b s out \<Longrightarrow> NBOS_Next pool s = Inr ((at, sz), s') \<Longrightarrow> length fill = sz \<Longrightarrow>
    NBB_write at fill (os_builder s') = Inr b' \<Longrightarrow>
    nbos_run pool b (s'\<lparr>os_builder := b'\<rparr>) (out @ fill)"
| back_up: "nbos_run pool b s out \<Longrightarrow> count \<le> os_using_bytes s \<Longrightarrow>
    nbos_run pool b (NBOS_BackUp count s) (take (length out - count) out)"
| flush: "nbos_run pool b s out \<Longrightarrow> NBOS_Flush pool s = Inr s' \<Longrightarrow> nbos_run pool b s' out"

definition os_invar ::
    "nat \<Rightarrow> NoncontiguousBufferBuilder \<Rightarrow> OutputStream \<Rightarrow> string \<Rightarrow> bool" where
  "os_invar bs b s out \<longleftrightarrow>
     nbb_invar bs (os_builder s) \<and> nbb_used (os_builder s) + os_using_bytes s \<le> bs \<and>
     os_using_bytes s \<le> length out \<and>
     nb_bytes (nbb_nb (os_builder s)) @
       take (nbb_used (os_builder s) + os_using_bytes s) (the (nbb_current (os_builder s))) = nbb_bytes b @ out"

lemma NBOS_mark_ok:
  assumes pool: "pool_ok bs pool" and inv: "os_invar bs b s out"
  shows "\<exists>b'. (if os_using_bytes s \<noteq> 0 then NBB_MarkWritten pool (os_using_bytes s) (os_builder s)
             else Inr (os_builder s)) = Inr b' \<and> nbb_invar bs b' \<and> nbb_bytes b' = nbb_bytes b @ out"
proof -
  from inv have "nbb_invar bs (os_builder s)" by (simp add: os_invar_def)
  then obtain c where c: "nbb_current (os_builder s) = Some c" "nb_invar (nbb_nb (os_builder s))" "length c = bs"
    by (rule nbb_invarE)
  have len: "nbb_used (os_builder s) + os_using_bytes s \<le> length c" using inv c by (simp add: os_invar_def)
  from NBB_MarkWritten_ok [OF pool c(2,1) len c(3)] inv c show ?thesis
    by (auto simp: os_invar_def nbb_bytes_def)
qed

lemma NBOS_Flush_ok:
  assumes "pool_ok bs pool" "os_invar bs b s out"
  shows "\<exists>s'. NBOS_Flush pool s = Inr s' \<and> os_invar bs b s' out \<and> nbb_bytes (os_builder s') = nbb_bytes b @ out"
proof -
  obtain b' where b': "(if os_using_bytes s \<noteq> 0 then NBB_MarkWritten pool (os_using_bytes s) (os_builder s)
      else Inr (os_builder s)) = Inr b'" "nbb_invar bs b'" "nbb_bytes b' = nbb_bytes b @ out"
    using NBOS_mark_ok [OF assms] by blast
  have "NBOS_Flush pool s = Inr (s\<lparr>os_builder := b', os_using_bytes := 0\<rparr>)"
    using b'(1) by (auto simp: NBOS_Flush_def split: if_splits)
  moreover have "os_invar bs b (s\<lparr>os_builder := b', os_using_bytes := 0\<rparr>) out"
    using b'(2,3) by (auto simp: os_invar_def nbb_invar_def nbb_bytes_def split: option.splits)
  ultimately show ?thesis using b'(3) by simp
qed

lemma NBOS_Next_ok:
  assumes pool: "pool_ok bs pool" and inv: "os_invar bs b s out"
  shows "\<exists>at sz s'. NBOS_Next pool s = Inr ((at, sz), s') \<and> 0 < sz \<and>
     (\<forall>fill. length fill = sz \<longrightarrow>
        (\<exists>b'. NBB_write at fill (os_builder s') = Inr b' \<and> os_invar bs b (s'\<lparr>os_builder := b'\<rparr>) (out @ fill)))"
proof -
  obtain b1 where b1: "(if os_using_bytes s \<noteq> 0 then NBB_MarkWritten pool (os_using_bytes s) (os_builder s)
      else Inr (os_builder s)) = Inr b1" "nbb_invar bs b1" "nbb_bytes b1 = nbb_bytes b @ out"
    using NBOS_mark_ok [OF pool inv] by blast
  from b1(2) obtain c where c: "nbb_current b1 = Some c" "nbb_used b1 < length c" "nb_invar (nbb_nb b1)" "length c = bs"
    by (rule nbb_invarE)
  let ?sz = "length c - nbb_used b1"
  let ?s = "s\<lparr>os_builder := b1, os_using_bytes := ?sz\<rparr>"
  have next_eq: "NBOS_Next pool s = Inr ((nbb_used b1, ?sz), ?s)"
    using c unfolding NBOS_Next_def b1(1) by (simp add: NBB_SizeAvailable_def deref_current_def)
  have "\<exists>b'. NBB_write (nbb_used b1) fill b1 = Inr b' \<and> os_invar bs b (?s\<lparr>os_builder := b'\<rparr>) (out @ fill)"
    if "length fill = ?sz" for fill
    using NBB_write_ok [OF c(1), of "nbb_used b1" fill] that c b1(2,3)
    by (simp add: os_invar_def nbb_invar_def nbb_bytes_def)
  with next_eq c(2) show ?thesis by auto
qed

lemma NBOS_BackUp_ok:
  assumes inv: "os_invar bs b s out" and count: "count \<le> os_using_bytes s"
  shows "os_invar bs b (NBOS_BackUp count s) (take (length out - count) out)"
proof -
  let ?b = "os_builder s"
  from inv have "nbb_invar bs ?b" by (simp add: os_invar_def)
  then obtain c where c: "nbb_current ?b = Some c" "length c = bs" by (rule nbb_invarE)
  let ?k = "nbb_used ?b + os_using_bytes s"
  have eq: "nb_bytes (nbb_nb ?b) @ take ?k c = nbb_bytes b @ out" and k: "?k \<le> length c" "os_using_bytes s \<le> length out"
    using inv c by (simp_all add: os_invar_def)
  have "length (nb_bytes (nbb_nb ?b) @ take ?k c) = length (nbb_bytes b @ out)" by (simp only: eq)
  then have total: "length (nb_bytes (nbb_nb ?b)) + ?k = length (nbb_bytes b) + length out"
    using k(1) by (simp add: min_absorb2)
  have "take (length (nb_bytes (nbb_nb ?b)) + (?k - count)) (nb_bytes (nbb_nb ?b) @ take ?k c) =
      take (length (nbb_bytes b) + (length out - count)) (nbb_bytes b @ out)"
    using total count k(2) unfolding eq by simp
  then have "nb_bytes (nbb_nb ?b) @ take (?k - count) c = nbb_bytes b @ take (length out - count) out"
    by (simp add: min_def)
  then show ?thesis
    using inv count c by (simp add: os_invar_def NBOS_BackUp_def diff_le_mono) linarith
qed

lemma nbos_run_invar:
  assumes "pool_ok bs pool" "nbb_invar bs b" "nbos_run pool b s out"
  shows "os_invar bs b s out"
  using assms(3)
proof induction
  case start
  from assms(2) show ?case
    by (auto simp: os_invar_def NBOS_new_def nbb_invar_def nbb_bytes_def split: option.splits)
next
  case (next_fill s out at sz s' fill b')
  with NBOS_Next_ok [OF assms(1) next_fill.IH] show ?case by auto
next
  case (back_up s out count)
  then show ?case by (simp add: NBOS_BackUp_ok)
next
  case (flush s out s')
  with NBOS_Flush_ok [OF assms(1) flush.IH] show ?case by auto
qed

section \<open>Properties\<close>



text \<open>
  Whatever regions Protocol Buffers asks an output stream for, whatever it writes into them
  and however much of the last region it gives back, no check fails, and after a \<^verbatim>\<open>Flush\<close> the
  builder holds what it held before followed by exactly the bytes written; the next region is
  never empty.
\<close>

theorem output_stream_exact:
  assumes "pool_ok block_size pool" and "nbb_invar block_size b" and "nbos_run pool b s out"
  shows "\<exists>s'. NBOS_Flush pool s = Inr s' \<and> nbb_invar block_size (os_builder s') \<and>
           nbb_bytes (os_builder s') = nbb_bytes b @ out \<and>
           (\<exists>at sz s''. NBOS_Next pool s = Inr ((at, sz), s'') \<and> 0 < sz)"
  using NBOS_Flush_ok [OF assms(1) nbos_run_invar [OF assms]]
    NBOS_Next_ok [OF assms(1) nbos_run_invar [OF assms]]
  by (auto simp: os_invar_def)

theorem output_stream_exact_witness:
  "let pool = \<lambda>_ :: nat. ''??'';
       b = \<lambda>c. \<lparr>nbb_nb = NB_new, nbb_used = 0, nbb_current = Some c, nbb_count = 1\<rparr>;
       s = \<lparr>os_using_bytes = 1, os_builder = b ''xy''\<rparr>
   in nbos_run pool (b ''??'') s ''x'' \<and>
      (\<exists>s'. NBOS_Flush pool s = Inr s' \<and> nbb_bytes (os_builder s') = nbb_bytes (b ''??'') @ ''x'')"
proof -
  let ?pool = "\<lambda>_ :: nat. ''??''"
  let ?b = "\<lambda>c. \<lparr>nbb_nb = NB_new, nbb_used = 0, nbb_current = Some c, nbb_count = 1\<rparr>"
  let ?s = "\<lambda>n c. \<lparr>os_using_bytes = n, os_builder = ?b c\<rparr>"
  have "NBOS_Next ?pool (NBOS_new (?b ''??'')) = Inr ((0, 2), ?s 2 ''??'')"
    by (simp add: NBOS_Next_def NBOS_new_def NBB_SizeAvailable_def deref_current_def)
  from nbos_run.next_fill [OF nbos_run.start this, of "''xy''" "?b ''xy''"]
  have "nbos_run ?pool (?b ''??'') (?s 2 ''xy'') ''xy''"
    by (simp add: NBB_write_def deref_current_def memcpy_def)
  from nbos_run.back_up [OF this, of 1] have run: "nbos_run ?pool (?b ''??'') (?s 1 ''xy'') ''x''"
    by (simp add: NBOS_BackUp_def)
  have "pool_ok 2 ?pool" "nbb_invar 2 (?b ''??'')" by (simp_all add: pool_ok_def nbb_invar_def)
  from output_stream_exact [OF this run] run show ?thesis by (auto simp: Let_def)
qed

end
