(* ===== verification/Buffer_View.thy ===== *)
theory Buffer_View
  imports Buffer
begin

text \<open>
  The byte-wise views of a buffer, \<^verbatim>\<open>flare/base/buffer/view.h\<close> and
  \<^verbatim>\<open>flare/base/buffer/view.cc\<close>. An iterator into the chain of windows is the part of the chain
  that starts at it; \<^verbatim>\<open>end()\<close> is the empty chain. The specification of both views is the byte
  string \<open>nb_bytes\<close>.
\<close>

section \<open>NoncontiguousBufferForwardView\<close>

record forward_iterator =
  fi_current :: "PolymorphicBuffer list"
  fi_byte_offset :: nat

definition FV_begin :: "NoncontiguousBuffer \<Rightarrow> forward_iterator" where
  "FV_begin buffer = \<lparr>fi_current = nb_buffers buffer, fi_byte_offset = 0\<rparr>"

definition FV_end :: "NoncontiguousBuffer \<Rightarrow> forward_iterator" where
  "FV_end buffer = \<lparr>fi_current = [], fi_byte_offset = 0\<rparr>"

text \<open>\<^verbatim>\<open>*(data() + offset)\<close>; reading past the block is undefined.\<close>

definition read_at :: "PolymorphicBuffer \<Rightarrow> nat \<Rightarrow> char result" where
  "read_at b offset =
     (if pb_ptr b + offset < length (pb_ref b) then Inr (pb_ref b ! (pb_ptr b + offset))
      else Inl Undefined_behaviour)"

definition FI_deref :: "forward_iterator \<Rightarrow> char result" where
  "FI_deref it =
     (case fi_current it of [] \<Rightarrow> Inl Dcheck_failed
      | b # _ \<Rightarrow> dcheck (fi_byte_offset it < pb_size b) (read_at b (fi_byte_offset it)))"

definition FI_incr :: "forward_iterator \<Rightarrow> forward_iterator result" where
  "FI_incr it =
     (case fi_current it of [] \<Rightarrow> Inl Dcheck_failed
      | b # bs \<Rightarrow> dcheck (fi_byte_offset it < pb_size b)
          (let it = it\<lparr>fi_byte_offset := fi_byte_offset it + 1\<rparr>
           in if fi_byte_offset it = pb_size b
              then Inr (it\<lparr>fi_byte_offset := 0, fi_current := bs\<rparr>)
              else Inr it))"

definition FI_eq :: "forward_iterator \<Rightarrow> forward_iterator \<Rightarrow> bool" where
  "FI_eq i j \<longleftrightarrow> fi_current i = fi_current j \<and> fi_byte_offset i = fi_byte_offset j"

text \<open>A loop over a range of iterators, as the algorithms of the standard library perform it.\<close>

fun FI_collect :: "nat \<Rightarrow> forward_iterator \<Rightarrow> forward_iterator \<Rightarrow> string result" where
  "FI_collect fuel it stop =
     (if FI_eq it stop then Inr []
      else case fuel of 0 \<Rightarrow> Inl Out_of_fuel
        | Suc n \<Rightarrow> rbind (FI_deref it) (\<lambda>c. rbind (FI_incr it) (\<lambda>it.
            rbind (FI_collect n it stop) (\<lambda>cs. Inr (c # cs)))))"

section \<open>NoncontiguousBufferRandomView\<close>

record RandomView =
  rv_byte_size :: nat
  rv_offsets :: "(nat \<times> PolymorphicBuffer list) list"

text \<open>
  \<^verbatim>\<open>auto offset = 0\<close> declares an \<^verbatim>\<open>int\<close>; the additions to it wrap at 32 bits, and it is converted
  to \<^verbatim>\<open>std::size_t\<close> for every entry.
\<close>

fun RV_offsets_loop ::
    "32 word \<Rightarrow> PolymorphicBuffer list \<Rightarrow> (nat \<times> PolymorphicBuffer list) list \<times> 32 word" where
  "RV_offsets_loop offset [] = ([(as_size_t offset, [])], offset)"
| "RV_offsets_loop offset (b # bs) =
     (case RV_offsets_loop (offset + of_nat (pb_size b)) bs of
        (offsets, offset') \<Rightarrow> ((as_size_t offset, b # bs) # offsets, offset'))"

definition RV_new :: "NoncontiguousBuffer \<Rightarrow> RandomView result" where
  "RV_new buffer =
     (case RV_offsets_loop 0 (nb_buffers buffer) of
        (offsets, offset) \<Rightarrow>
          check (as_size_t offset = NB_ByteSize buffer)
            (Inr \<lparr>rv_byte_size = NB_ByteSize buffer, rv_offsets = offsets\<rparr>))"

text \<open>\<^verbatim>\<open>std::upper_bound\<close>: the position of the first entry that \<open>value\<close> is less than.\<close>

definition upper_bound :: "(nat \<times> 'a) list \<Rightarrow> nat \<Rightarrow> nat" where
  "upper_bound es value = length (takeWhile (\<lambda>e. \<not> value < fst e) es)"

definition RV_FindSegmentMustSucceed ::
    "RandomView \<Rightarrow> nat \<Rightarrow> (nat \<times> PolymorphicBuffer list) result" where
  "RV_FindSegmentMustSucceed v offset =
     check (offset \<le> rv_byte_size v)
       (let iter = upper_bound (rv_offsets v) offset
        in check (iter \<noteq> 0)
          (let iter = iter - 1;
               entry = rv_offsets v ! iter
           in check (fst entry \<le> offset)
             (if iter \<noteq> length (rv_offsets v) - 1
              then case snd entry of
                     [] \<Rightarrow> Inl Undefined_behaviour
                   | b # _ \<Rightarrow> check (offset < fst entry + pb_size b) (Inr entry)
              else Inr entry)))"

definition RV_index :: "RandomView \<Rightarrow> nat \<Rightarrow> char result" where
  "RV_index v offset =
     dcheck (offset < rv_byte_size v)
       (rbind (RV_FindSegmentMustSucceed v offset) (\<lambda>(off, iter).
          case iter of [] \<Rightarrow> Inl Undefined_behaviour | b # _ \<Rightarrow> read_at b (offset - off)))"

record random_iterator =
  ri_byte_offset :: nat
  ri_current :: "PolymorphicBuffer list"
  ri_seg_offset :: nat

definition RV_begin :: "RandomView \<Rightarrow> random_iterator" where
  "RV_begin v = \<lparr>ri_byte_offset = 0, ri_current = snd (hd (rv_offsets v)), ri_seg_offset = 0\<rparr>"

definition RI_SeekTo :: "RandomView \<Rightarrow> nat \<Rightarrow> random_iterator \<Rightarrow> random_iterator result" where
  "RI_SeekTo v offset it =
     check (offset \<le> rv_byte_size v)
       (rbind (RV_FindSegmentMustSucceed v offset) (\<lambda>(off, iter).
          Inr (it\<lparr>ri_byte_offset := offset, ri_seg_offset := offset - off, ri_current := iter\<rparr>)))"

definition RV_end :: "RandomView \<Rightarrow> random_iterator result" where
  "RV_end v = RI_SeekTo v (rv_byte_size v) (RV_begin v)"

definition RI_plus_assign :: "RandomView \<Rightarrow> nat \<Rightarrow> random_iterator \<Rightarrow> random_iterator result" where
  "RI_plus_assign v offset it = RI_SeekTo v offset it"

definition RI_plus :: "RandomView \<Rightarrow> nat \<Rightarrow> random_iterator \<Rightarrow> random_iterator result" where
  "RI_plus v offset it = (let copy = it in RI_plus_assign v offset copy)"

definition RI_minus :: "random_iterator \<Rightarrow> random_iterator \<Rightarrow> int" where
  "RI_minus it other = int (ri_byte_offset it) - int (ri_byte_offset other)"

definition RI_deref :: "random_iterator \<Rightarrow> char result" where
  "RI_deref it =
     (case ri_current it of [] \<Rightarrow> Inl Dcheck_failed
      | b # _ \<Rightarrow> dcheck (ri_seg_offset it < pb_size b) (read_at b (ri_seg_offset it)))"

definition RI_incr :: "random_iterator \<Rightarrow> random_iterator result" where
  "RI_incr it =
     (case ri_current it of [] \<Rightarrow> Inl Dcheck_failed
      | b # bs \<Rightarrow> dcheck (ri_seg_offset it < pb_size b)
          (let it = it\<lparr>ri_seg_offset := ri_seg_offset it + 1\<rparr>;
               it = (if ri_seg_offset it = pb_size b
                     then it\<lparr>ri_seg_offset := 0, ri_current := bs\<rparr> else it)
           in Inr (it\<lparr>ri_byte_offset := ri_byte_offset it + 1\<rparr>)))"

definition RI_eq :: "random_iterator \<Rightarrow> random_iterator \<Rightarrow> bool" where
  "RI_eq i j \<longleftrightarrow> ri_byte_offset i = ri_byte_offset j"

section \<open>The forward view yields the bytes\<close>

lemma read_at_ok: "pb_ok b \<Longrightarrow> i < pb_size b \<Longrightarrow> read_at b i = Inr (pb_bytes b ! i)"
  by (simp add: read_at_def pb_ok_def pb_bytes_def)

declare FI_collect.simps [simp del]

lemma FI_collect_ok:
  "chain_ok bs \<Longrightarrow> (bs \<noteq> [] \<Longrightarrow> i < pb_size (hd bs)) \<Longrightarrow> (bs = [] \<Longrightarrow> i = 0) \<Longrightarrow>
   n = length (drop i (concat (map pb_bytes bs))) \<Longrightarrow>
   FI_collect n \<lparr>fi_current = bs, fi_byte_offset = i\<rparr> \<lparr>fi_current = [], fi_byte_offset = 0\<rparr> =
     Inr (drop i (concat (map pb_bytes bs)))"
proof (induction n arbitrary: bs i)
  case 0
  then show ?case
    by (cases bs) (auto simp: FI_collect.simps FI_eq_def length_concat_bytes)
next
  case (Suc n)
  then obtain b cs where bs: "bs = b # cs" by (cases bs) auto
  then have b: "pb_ok b" "i < pb_size b" "0 < pb_size b" "chain_ok cs" using Suc.prems by auto
  let ?it = "if i + 1 = pb_size b then \<lparr>fi_current = cs, fi_byte_offset = 0\<rparr>
    else \<lparr>fi_current = b # cs, fi_byte_offset = i + 1\<rparr>"
  have drop_eq: "drop i (concat (map pb_bytes bs)) =
      pb_bytes b ! i # drop (i + 1) (pb_bytes b @ concat (map pb_bytes cs))"
    using b bs by (simp add: Cons_nth_drop_Suc [symmetric])
  have "FI_collect n ?it \<lparr>fi_current = [], fi_byte_offset = 0\<rparr> =
      Inr (drop (i + 1) (pb_bytes b @ concat (map pb_bytes cs)))"
  proof (cases "i + 1 = pb_size b")
    case True
    have "FI_collect n \<lparr>fi_current = cs, fi_byte_offset = 0\<rparr> \<lparr>fi_current = [], fi_byte_offset = 0\<rparr> =
        Inr (drop 0 (concat (map pb_bytes cs)))"
      using Suc.prems(4) b bs True by (intro Suc.IH) (auto simp: neq_Nil_conv)
    with True b show ?thesis by simp
  next
    case False
    have "FI_collect n \<lparr>fi_current = bs, fi_byte_offset = i + 1\<rparr> \<lparr>fi_current = [], fi_byte_offset = 0\<rparr> =
        Inr (drop (i + 1) (concat (map pb_bytes bs)))"
      using Suc.prems b bs False by (intro Suc.IH) auto
    with False bs show ?thesis by simp
  qed
  then show ?case
    unfolding drop_eq using b bs
    by (cases "i + 1 = pb_size b")
      (simp_all add: FI_collect.simps [of "Suc n"] FI_eq_def FI_deref_def FI_incr_def read_at_ok Let_def)
qed

section \<open>The random view indexes the bytes\<close>

text \<open>The offsets without the width of \<^verbatim>\<open>int\<close>.\<close>

fun segments :: "nat \<Rightarrow> PolymorphicBuffer list \<Rightarrow> (nat \<times> PolymorphicBuffer list) list" where
  "segments off [] = [(off, [])]"
| "segments off (b # bs) = (off, b # bs) # segments (off + pb_size b) bs"

lemma RV_offsets_loop_snd:
  "snd (RV_offsets_loop offset bs) = offset + of_nat (sum_list (map pb_size bs))"
  by (induction bs arbitrary: offset) (auto simp: split_beta)

lemma RV_offsets_loop_fst:
  "off + sum_list (map pb_size bs) < 2 ^ 31 \<Longrightarrow> fst (RV_offsets_loop (of_nat off) bs) = segments off bs"
proof (induction bs arbitrary: off)
  case Nil
  then show ?case by (simp add: as_size_t_of_nat)
next
  case (Cons b bs)
  have "fst (RV_offsets_loop (of_nat (off + pb_size b)) bs) = segments (off + pb_size b) bs"
    using Cons.prems by (intro Cons.IH) simp
  with Cons.prems show ?case by (simp add: as_size_t_of_nat split_beta)
qed

lemma RV_new_ok:
  assumes "nb_invar nb" "NB_ByteSize nb < 2 ^ 31"
  shows "RV_new nb = Inr \<lparr>rv_byte_size = NB_ByteSize nb, rv_offsets = segments 0 (nb_buffers nb)\<rparr>"
proof -
  have size: "NB_ByteSize nb = sum_list (map pb_size (nb_buffers nb))"
    using assms(1) by (simp add: NB_ByteSize_def nb_invar_def)
  have "fst (RV_offsets_loop (of_nat 0) (nb_buffers nb)) = segments 0 (nb_buffers nb)"
    using assms(2) size by (intro RV_offsets_loop_fst) simp
  moreover have "as_size_t (snd (RV_offsets_loop 0 (nb_buffers nb))) = NB_ByteSize nb"
    using assms(2) size as_size_t_of_nat [of "NB_ByteSize nb"] by (simp add: RV_offsets_loop_snd)
  ultimately show ?thesis by (auto simp: RV_new_def split: prod.splits)
qed

lemma RV_new_too_large:
  assumes "2 ^ 31 \<le> NB_ByteSize nb" "NB_ByteSize nb < 2 ^ 63"
  shows "RV_new nb = Inl Check_failed"
proof -
  have "as_size_t (snd (RV_offsets_loop 0 (nb_buffers nb))) \<noteq> NB_ByteSize nb"
    using as_size_t_gap [of "snd (RV_offsets_loop 0 (nb_buffers nb))"] assms by linarith
  then show ?thesis by (simp add: RV_new_def split_beta)
qed

lemma segments_hd: "\<exists>es. segments off bs = (off, bs) # es"
  by (cases bs) auto

text \<open>Where the binary search ends: the segment that holds position \<open>k\<close>, or the end entry.\<close>

lemma segments_find:
  "chain_ok bs \<Longrightarrow> off \<le> k \<Longrightarrow> k \<le> off + sum_list (map pb_size bs) \<Longrightarrow>
   \<exists>j start cs. upper_bound (segments off bs) k = Suc j \<and> j < length (segments off bs) \<and>
     segments off bs ! j = (start, cs) \<and> start \<le> k \<and> chain_ok cs \<and>
     (if j = length (segments off bs) - 1 then cs = [] \<and> k = start
      else \<exists>b ds. cs = b # ds \<and> k < start + pb_size b) \<and>
     drop (k - off) (concat (map pb_bytes bs)) = drop (k - start) (concat (map pb_bytes cs))"
proof (induction bs arbitrary: off)
  case Nil
  then show ?case by (simp add: upper_bound_def)
next
  case (Cons b bs)
  obtain es where es: "segments (off + pb_size b) bs = (off + pb_size b, bs) # es"
    using segments_hd by blast
  show ?case
  proof (cases "k < off + pb_size b")
    case True
    then show ?thesis
      using Cons.prems es
      by (intro exI [of _ 0] exI [of _ off] exI [of _ "b # bs"]) (simp add: upper_bound_def)
  next
    case False
    with Cons.prems Cons.IH [of "off + pb_size b"] obtain j start cs where
      IH: "upper_bound (segments (off + pb_size b) bs) k = Suc j" "j < length (segments (off + pb_size b) bs)"
      "segments (off + pb_size b) bs ! j = (start, cs)" "start \<le> k" "chain_ok cs"
      "if j = length (segments (off + pb_size b) bs) - 1 then cs = [] \<and> k = start
       else \<exists>b ds. cs = b # ds \<and> k < start + pb_size b"
      "drop (k - (off + pb_size b)) (concat (map pb_bytes bs)) = drop (k - start) (concat (map pb_bytes cs))"
      by (auto simp: add.assoc)
    have "upper_bound (segments off (b # bs)) k = Suc (Suc j)"
      using IH(1) Cons.prems(2) by (simp add: upper_bound_def)
    moreover have "drop (k - off) (concat (map pb_bytes (b # bs))) = drop (k - start) (concat (map pb_bytes cs))"
      using IH(7) False Cons.prems(1) by (simp add: diff_diff_left)
    moreover have "(Suc j = length (segments off (b # bs)) - 1) = (j = length (segments (off + pb_size b) bs) - 1)"
      using es by auto
    ultimately show ?thesis using IH
      by (intro exI [of _ "Suc j"] exI [of _ start] exI [of _ cs]) simp
  qed
qed

definition rv_of :: "NoncontiguousBuffer \<Rightarrow> RandomView" where
  "rv_of nb = \<lparr>rv_byte_size = NB_ByteSize nb, rv_offsets = segments 0 (nb_buffers nb)\<rparr>"

text \<open>An iterator at position \<open>k\<close>: its windows, from its offset on, show the bytes from \<open>k\<close> on.\<close>

definition ri_at :: "NoncontiguousBuffer \<Rightarrow> nat \<Rightarrow> random_iterator \<Rightarrow> bool" where
  "ri_at nb k it \<longleftrightarrow> ri_byte_offset it = k \<and> chain_ok (ri_current it) \<and>
     (case ri_current it of [] \<Rightarrow> ri_seg_offset it = 0 | b # _ \<Rightarrow> ri_seg_offset it < pb_size b) \<and>
     drop k (nb_bytes nb) = drop (ri_seg_offset it) (concat (map pb_bytes (ri_current it)))"

lemma FindSegment_ok:
  assumes inv: "nb_invar nb" and k: "k \<le> NB_ByteSize nb"
  shows "\<exists>start cs. RV_FindSegmentMustSucceed (rv_of nb) k = Inr (start, cs) \<and> start \<le> k \<and> chain_ok cs \<and>
     (case cs of [] \<Rightarrow> k = start | b # _ \<Rightarrow> k - start < pb_size b) \<and>
     drop k (nb_bytes nb) = drop (k - start) (concat (map pb_bytes cs))"
proof -
  have "chain_ok (nb_buffers nb)" "k \<le> 0 + sum_list (map pb_size (nb_buffers nb))"
    using inv k by (auto simp: nb_invar_def NB_ByteSize_def)
  from segments_find [OF this(1) _ this(2)] obtain j start cs where
    f: "upper_bound (segments 0 (nb_buffers nb)) k = Suc j" "j < length (segments 0 (nb_buffers nb))"
    "segments 0 (nb_buffers nb) ! j = (start, cs)" "start \<le> k" "chain_ok cs"
    "if j = length (segments 0 (nb_buffers nb)) - 1 then cs = [] \<and> k = start
     else \<exists>b ds. cs = b # ds \<and> k < start + pb_size b"
    "drop (k - 0) (concat (map pb_bytes (nb_buffers nb))) = drop (k - start) (concat (map pb_bytes cs))"
    by blast
  show ?thesis
  proof (cases "j = length (segments 0 (nb_buffers nb)) - 1")
    case True
    with f k have "RV_FindSegmentMustSucceed (rv_of nb) k = Inr (start, cs)"
      by (simp add: RV_FindSegmentMustSucceed_def rv_of_def Let_def)
    with f True show ?thesis by (auto simp: nb_bytes_def)
  next
    case False
    with f(6) obtain b ds where cs: "cs = b # ds" "k < start + pb_size b" by auto
    with f False k have "RV_FindSegmentMustSucceed (rv_of nb) k = Inr (start, cs)"
      by (simp add: RV_FindSegmentMustSucceed_def rv_of_def Let_def)
    with f cs show ?thesis by (auto simp: nb_bytes_def)
  qed
qed

lemma RI_SeekTo_ok:
  assumes "nb_invar nb" "k \<le> NB_ByteSize nb"
  shows "\<exists>it'. RI_SeekTo (rv_of nb) k it = Inr it' \<and> ri_at nb k it'"
proof -
  obtain start cs where "RV_FindSegmentMustSucceed (rv_of nb) k = Inr (start, cs)" "start \<le> k" "chain_ok cs"
      "case cs of [] \<Rightarrow> k = start | b # _ \<Rightarrow> k - start < pb_size b"
      "drop k (nb_bytes nb) = drop (k - start) (concat (map pb_bytes cs))"
    using FindSegment_ok [OF assms] by blast
  moreover have "rv_byte_size (rv_of nb) = NB_ByteSize nb" by (simp add: rv_of_def)
  ultimately show ?thesis using assms(2)
    by (auto simp: RI_SeekTo_def ri_at_def split: list.splits)
qed

lemma RI_begin_ok:
  assumes "nb_invar nb"
  shows "ri_at nb 0 (RV_begin (rv_of nb))"
proof -
  obtain es where "segments 0 (nb_buffers nb) = (0, nb_buffers nb) # es" using segments_hd by blast
  with assms show ?thesis
    by (auto simp: RV_begin_def rv_of_def ri_at_def nb_invar_def nb_bytes_def split: list.splits)
qed

lemma RI_deref_ok:
  assumes at: "ri_at nb k it" and k: "k < length (nb_bytes nb)"
  shows "RI_deref it = Inr (nb_bytes nb ! k)"
proof (cases "ri_current it")
  case Nil
  with at k show ?thesis by (simp add: ri_at_def)
next
  case (Cons b bs)
  with at have b: "pb_ok b" "ri_seg_offset it < pb_size b" by (auto simp: ri_at_def)
  have "nb_bytes nb ! k = drop k (nb_bytes nb) ! 0" using k by simp
  also have "\<dots> = pb_bytes b ! ri_seg_offset it"
    using at b Cons by (simp add: ri_at_def nth_append)
  finally show ?thesis using b Cons by (simp add: RI_deref_def read_at_ok)
qed

lemma RI_incr_ok:
  assumes at: "ri_at nb k it" and k: "k < length (nb_bytes nb)"
  shows "\<exists>it'. RI_incr it = Inr it' \<and> ri_at nb (k + 1) it'"
proof (cases "ri_current it")
  case Nil
  with at k show ?thesis by (simp add: ri_at_def)
next
  case (Cons b bs)
  with at have b: "pb_ok b" "ri_seg_offset it < pb_size b" "chain_ok bs" by (auto simp: ri_at_def)
  have "drop (k + 1) (nb_bytes nb) = drop 1 (drop k (nb_bytes nb))" by simp
  also have "\<dots> = drop (ri_seg_offset it + 1) (pb_bytes b @ concat (map pb_bytes bs))"
    using at Cons by (simp add: ri_at_def)
  finally show ?thesis
    using at b Cons by (auto simp: RI_incr_def Let_def ri_at_def split: list.splits)
qed

lemma RV_index_ok:
  assumes inv: "nb_invar nb" and k: "k < length (nb_bytes nb)"
  shows "RV_index (rv_of nb) k = Inr (nb_bytes nb ! k)"
proof -
  have size: "NB_ByteSize nb = length (nb_bytes nb)" using nb_invar_length [OF inv] by (simp add: NB_ByteSize_def)
  obtain start cs where f: "RV_FindSegmentMustSucceed (rv_of nb) k = Inr (start, cs)" "start \<le> k" "chain_ok cs"
      "case cs of [] \<Rightarrow> k = start | b # _ \<Rightarrow> k - start < pb_size b"
      "drop k (nb_bytes nb) = drop (k - start) (concat (map pb_bytes cs))"
    using FindSegment_ok [OF inv, of k] k size by auto
  with k obtain b ds where cs: "cs = b # ds" "pb_ok b" "k - start < pb_size b"
    by (cases cs) auto
  have "nb_bytes nb ! k = drop k (nb_bytes nb) ! 0" using k by simp
  also have "\<dots> = pb_bytes b ! (k - start)" using f(5) cs by (simp add: nth_append)
  finally show ?thesis
    using f(1) cs k size by (simp add: RV_index_def read_at_ok rv_of_def)
qed

section \<open>Properties\<close>

text \<open>
  Iterating over the forward view from \<^verbatim>\<open>begin()\<close> to \<^verbatim>\<open>end()\<close> passes every check, ends after
  \<^verbatim>\<open>ByteSize()\<close> increments and yields the bytes of the buffer in order.
\<close>

theorem forward_view_yields_bytes:
  assumes "nb_invar nb"
  shows "FI_collect (NB_ByteSize nb) (FV_begin nb) (FV_end nb) = Inr (nb_bytes nb)"
proof -
  have "chain_ok (nb_buffers nb)" using assms by (simp add: nb_invar_def)
  moreover from this have "nb_buffers nb \<noteq> [] \<Longrightarrow> 0 < pb_size (hd (nb_buffers nb))"
    by (auto simp: neq_Nil_conv)
  ultimately show ?thesis
    using FI_collect_ok [of "nb_buffers nb" 0 "NB_ByteSize nb"] nb_invar_length [OF assms]
    by (simp add: FV_begin_def FV_end_def NB_ByteSize_def nb_bytes_def)
qed

theorem forward_view_yields_bytes_witness:
  "let nb = NB_AppendPB (MakeForeignBuffer ''cd'') (NB_AppendPB (MakeForeignBuffer ''ab'') NB_new)
   in FI_collect (NB_ByteSize nb) (FV_begin nb) (FV_end nb) = Inr ''abcd''"
proof -
  let ?nb = "NB_AppendPB (MakeForeignBuffer ''cd'') (NB_AppendPB (MakeForeignBuffer ''ab'') NB_new)"
  have "nb_invar ?nb" "nb_bytes ?nb = ''abcd''"
    by (simp_all add: NB_AppendPB_def MakeForeignBuffer_def PB_make_def PB_move_def NB_new_def nb_invar_def
        pb_ok_def nb_bytes_def pb_bytes_def)
  with forward_view_yields_bytes [of ?nb] show ?thesis by simp
qed

text \<open>
  On a buffer of less than 2 GiB the random view is built without a failed check,
  \<^verbatim>\<open>operator[]\<close> returns the byte at each position, and \<^verbatim>\<open>begin() + k\<close> is at distance \<open>k\<close> from
  \<^verbatim>\<open>begin()\<close> and dereferences to the byte at position \<open>k\<close>.
\<close>

theorem random_view_indexes_bytes:
  assumes "nb_invar nb" and "NB_ByteSize nb < 2 ^ 31" and "k < NB_ByteSize nb"
  shows "\<exists>v it. RV_new nb = Inr v \<and> RV_index v k = Inr (nb_bytes nb ! k) \<and>
           RI_plus v k (RV_begin v) = Inr it \<and> RI_minus it (RV_begin v) = int k \<and>
           RI_deref it = Inr (nb_bytes nb ! k)"
proof -
  have len: "k < length (nb_bytes nb)" using assms(3) nb_invar_length [OF assms(1)] by (simp add: NB_ByteSize_def)
  have new: "RV_new nb = Inr (rv_of nb)" using RV_new_ok [OF assms(1,2)] by (simp add: rv_of_def)
  obtain it where it: "RI_SeekTo (rv_of nb) k (RV_begin (rv_of nb)) = Inr it" "ri_at nb k it"
    using RI_SeekTo_ok [OF assms(1), of k] assms(3) by auto
  then have "RI_minus it (RV_begin (rv_of nb)) = int k" by (simp add: RI_minus_def RV_begin_def ri_at_def)
  with new it RI_deref_ok [OF it(2) len] RV_index_ok [OF assms(1) len] show ?thesis
    by (simp add: RI_plus_def RI_plus_assign_def)
qed

theorem random_view_indexes_bytes_witness:
  "let nb = NB_AppendPB (MakeForeignBuffer ''cd'') (NB_AppendPB (MakeForeignBuffer ''ab'') NB_new)
   in \<exists>v it. RV_new nb = Inr v \<and> RV_index v 2 = Inr (CHR ''c'') \<and>
        RI_plus v 2 (RV_begin v) = Inr it \<and> RI_minus it (RV_begin v) = 2 \<and> RI_deref it = Inr (CHR ''c'')"
proof -
  let ?nb = "NB_AppendPB (MakeForeignBuffer ''cd'') (NB_AppendPB (MakeForeignBuffer ''ab'') NB_new)"
  have "nb_invar ?nb" "nb_bytes ?nb = ''abcd''" "NB_ByteSize ?nb = 4"
    by (simp_all add: NB_AppendPB_def MakeForeignBuffer_def PB_make_def PB_move_def NB_new_def nb_invar_def
        pb_ok_def nb_bytes_def pb_bytes_def NB_ByteSize_def)
  with random_view_indexes_bytes [of ?nb 2] show ?thesis by simp
qed

text \<open>
  \<^verbatim>\<open>operator+=\<close> and \<^verbatim>\<open>operator+\<close> of the random iterator seek to an absolute position: from an
  iterator at position \<open>p\<close>, adding \<open>k\<close> leads to position \<open>k\<close>, so that the distance moved is
  \<open>k - p\<close>, which is \<open>k\<close> only when the iterator was at the beginning.
\<close>

theorem random_iterator_plus_is_absolute:
  assumes "nb_invar nb" and "NB_ByteSize nb < 2 ^ 31" and "RV_new nb = Inr v" and "k \<le> NB_ByteSize nb"
  shows "\<exists>it'. RI_plus v k it = Inr it' \<and> RI_plus_assign v k it = Inr it' \<and>
           RI_minus it' it = int k - int (ri_byte_offset it) \<and>
           (RI_minus it' it = int k \<longleftrightarrow> ri_byte_offset it = 0)"
proof -
  have v: "v = rv_of nb" using RV_new_ok [OF assms(1,2)] assms(3) by (simp add: rv_of_def)
  obtain it' where "RI_SeekTo v k it = Inr it'" "ri_at nb k it'" using RI_SeekTo_ok [OF assms(1,4)] v by blast
  then show ?thesis by (auto simp: RI_plus_def RI_plus_assign_def RI_minus_def ri_at_def)
qed

theorem random_iterator_plus_is_absolute_witness:
  "let nb = NB_AppendPB (MakeForeignBuffer ''abcd'') NB_new; v = rv_of nb;
       it = \<lparr>ri_byte_offset = 2, ri_current = nb_buffers nb, ri_seg_offset = 2\<rparr>
   in \<exists>it'. RI_plus v 1 it = Inr it' \<and> RI_minus it' it = - 1"
proof -
  let ?nb = "NB_AppendPB (MakeForeignBuffer ''abcd'') NB_new"
  have "nb_invar ?nb" "NB_ByteSize ?nb = 4"
    by (simp_all add: NB_AppendPB_def MakeForeignBuffer_def PB_make_def PB_move_def NB_new_def nb_invar_def
        pb_ok_def NB_ByteSize_def)
  with random_iterator_plus_is_absolute [of ?nb "rv_of ?nb" 1
      "\<lparr>ri_byte_offset = 2, ri_current = nb_buffers ?nb, ri_seg_offset = 2\<rparr>"]
    RV_new_ok [of ?nb]
  show ?thesis by (auto simp: rv_of_def Let_def)
qed

text \<open>
  The constructor of the random view keeps the running offset in an \<^verbatim>\<open>int\<close>: for every buffer
  of 2 GiB or more its final check fails and the process aborts.
\<close>

theorem random_view_aborts_at_2GiB:
  assumes "2 ^ 31 \<le> NB_ByteSize nb" and "NB_ByteSize nb < 2 ^ 63"
  shows "RV_new nb = Inl Check_failed"
  by (rule RV_new_too_large [OF assms])

theorem random_view_aborts_at_2GiB_witness:
  "RV_new \<lparr>nb_byte_size = 2 ^ 31, nb_buffers = [MakeForeignBuffer (replicate (2 ^ 31) (CHR ''x''))]\<rparr> = Inl Check_failed"
  by (rule random_view_aborts_at_2GiB) (simp_all add: NB_ByteSize_def)

end
