(* ===== verification/Strings.thy ===== *)
theory Strings
  imports Prelude
begin

text \<open>
  The string helpers of \<^verbatim>\<open>flare/base/string.cc\<close>: searching, replacing, trimming, splitting and
  joining, case conversion and the parsing of integers and booleans. Parsing of floating-point
  numbers relies on \<^verbatim>\<open>strtod\<close> and is not modelled.
\<close>

section \<open>Searching and replacing\<close>

definition StartsWith :: "string \<Rightarrow> string \<Rightarrow> bool" where
  "StartsWith s pre \<longleftrightarrow> length s \<ge> length pre \<and> take (length pre) s = pre"

definition EndsWith :: "string \<Rightarrow> string \<Rightarrow> bool" where
  "EndsWith s suf \<longleftrightarrow> length s \<ge> length suf \<and> drop (length s - length suf) s = suf"

fun Replace_loop :: "string \<Rightarrow> string \<Rightarrow> string \<Rightarrow> nat option \<Rightarrow> nat \<Rightarrow> string" where
  "Replace_loop from to str None count = str"
| "Replace_loop from to str (Some p) 0 = str"
| "Replace_loop from to str (Some p) (Suc count) =
     (let str = take p str @ to @ drop (p + length from) str
      in Replace_loop from to str (sv_find_from from (p + length to) str) count)"

definition Replace_into :: "string \<Rightarrow> string \<Rightarrow> string \<Rightarrow> nat \<Rightarrow> string result" where
  "Replace_into from to str count =
     check (from \<noteq> []) (Inr (Replace_loop from to str (sv_find from str) count))"

definition Replace :: "string \<Rightarrow> string \<Rightarrow> string \<Rightarrow> nat \<Rightarrow> string result" where
  "Replace str from to count = (let cp = str in Replace_into from to cp count)"

section \<open>Trimming\<close>

text \<open>\<^verbatim>\<open>find_first_not_of\<close> and \<^verbatim>\<open>find_last_not_of\<close> a character.\<close>

definition find_first_not_of :: "string \<Rightarrow> char \<Rightarrow> nat option" where
  "find_first_not_of s c = find (\<lambda>i. s ! i \<noteq> c) [0..<length s]"

definition find_last_not_of :: "string \<Rightarrow> char \<Rightarrow> nat option" where
  "find_last_not_of s c = find (\<lambda>i. s ! i \<noteq> c) (rev [0..<length s])"

definition substr :: "string \<Rightarrow> nat \<Rightarrow> nat \<Rightarrow> string" where
  "substr s pos count = take count (drop pos s)"

definition Trim :: "string \<Rightarrow> string" where
  "Trim str =
     (if str = [] then []
      else case (if hd str = CHR '' '' then find_first_not_of str (CHR '' '') else Some 0) of
             None \<Rightarrow> []
           | Some s \<Rightarrow>
               let e = (if last str = CHR '' ''
                        then case find_last_not_of str (CHR '' '') of Some e \<Rightarrow> e | None \<Rightarrow> 2 ^ 64 - 1
                        else length str)
               in substr str s (e - s + 1))"

section \<open>Splitting and joining\<close>

text \<open>
  One iteration of the loop of \<^verbatim>\<open>Split\<close> per call. The check that the delimiter is not empty
  stands before the loop in the source.
\<close>

function Split_loop :: "string \<Rightarrow> string \<Rightarrow> bool \<Rightarrow> string list result" where
  "Split_loop current delim keep_empty =
     (if delim = [] then Inl Check_failed
      else case sv_find delim current of
          None \<Rightarrow> Inr [current]
        | Some pos \<Rightarrow>
            let part = (if pos \<noteq> 0 \<or> keep_empty then [take pos current] else []);
                rest = drop (pos + length delim) current
            in if rest = [] then Inr (part @ (if keep_empty then [[]] else []))
               else rbind (Split_loop rest delim keep_empty) (\<lambda>parts. Inr (part @ parts)))"
  by pat_completeness auto
termination
  by (relation "measure (\<lambda>(current, _, _). length current)") (auto intro!: diff_less)

declare Split_loop.simps [simp del]

definition Split :: "string \<Rightarrow> string \<Rightarrow> bool \<Rightarrow> string list result" where
  "Split s delim keep_empty = (if s = [] then Inr [] else Split_loop s delim keep_empty)"

definition Split_char :: "string \<Rightarrow> char \<Rightarrow> bool \<Rightarrow> string list result" where
  "Split_char s delim keep_empty = Split s [delim] keep_empty"

text \<open>
  \<^verbatim>\<open>JoinImpl\<close> adds the sizes up in an \<^verbatim>\<open>int\<close>. \<^verbatim>\<open>reserve\<close> throws when the sum, converted to
  \<^verbatim>\<open>std::size_t\<close>, is larger than any string can be.
\<close>

fun JoinImpl_loop :: "bool \<Rightarrow> string list \<Rightarrow> string \<Rightarrow> string \<Rightarrow> string" where
  "JoinImpl_loop first [] delim result = result"
| "JoinImpl_loop first (part # parts) delim result =
     JoinImpl_loop False parts delim ((if first then result else result @ delim) @ part)"

definition JoinImpl :: "string list \<Rightarrow> string \<Rightarrow> string result" where
  "JoinImpl parts delim =
     (let sz = (of_nat (sum_list (map (\<lambda>e. length e + length delim) parts)) :: 32 word)
      in if sz = 0 then Inr []
         else let sz = sz - of_nat (length delim)
              in if as_size_t sz \<ge> 2 ^ 63 then Inl Std_exception
                 else Inr (JoinImpl_loop True parts delim []))"

definition Join :: "string list \<Rightarrow> string \<Rightarrow> string result" where
  "Join parts delim = JoinImpl parts delim"

section \<open>Case conversion\<close>

definition kLowerChars :: "char list" where
  "kLowerChars =
     map (\<lambda>index. if index \<ge> 65 \<and> index \<le> 90 then char_of (index - 65 + 97) else char_of index)
       [0 :: nat..<256]"

definition kUpperChars :: "char list" where
  "kUpperChars =
     map (\<lambda>index. if index \<ge> 97 \<and> index \<le> 122 then char_of (index - 97 + 65) else char_of index)
       [0 :: nat..<256]"

text \<open>
  The tables are indexed by a \<^verbatim>\<open>char\<close>. Where \<^verbatim>\<open>char\<close> is signed, a byte from 128 on is negative
  and, converted to \<^verbatim>\<open>std::size_t\<close>, far outside of the table.
\<close>

definition char_index :: "bool \<Rightarrow> char \<Rightarrow> nat" where
  "char_index char_is_signed c =
     (let v = of_char c in if char_is_signed \<and> v \<ge> 128 then 2 ^ 64 - (256 - v) else v)"

definition array_at :: "'a list \<Rightarrow> nat \<Rightarrow> 'a result" where
  "array_at a i = (if i < length a then Inr (a ! i) else Inl Undefined_behaviour)"

definition ToUpper_char :: "bool \<Rightarrow> char \<Rightarrow> char result" where
  "ToUpper_char char_is_signed c = array_at kUpperChars (char_index char_is_signed c)"

definition ToLower_char :: "bool \<Rightarrow> char \<Rightarrow> char result" where
  "ToLower_char char_is_signed c = array_at kLowerChars (char_index char_is_signed c)"

fun map_result :: "('a \<Rightarrow> 'b result) \<Rightarrow> 'a list \<Rightarrow> 'b list result" where
  "map_result f [] = Inr []"
| "map_result f (x # xs) = rbind (f x) (\<lambda>y. rbind (map_result f xs) (\<lambda>ys. Inr (y # ys)))"

definition ToUpper :: "bool \<Rightarrow> string \<Rightarrow> string result" where
  "ToUpper char_is_signed s = map_result (ToUpper_char char_is_signed) s"

definition ToLower :: "bool \<Rightarrow> string \<Rightarrow> string result" where
  "ToLower char_is_signed s = map_result (ToLower_char char_is_signed) s"

fun IEquals_loop :: "bool \<Rightarrow> string \<Rightarrow> string \<Rightarrow> bool result" where
  "IEquals_loop char_is_signed (x # xs) (y # ys) =
     rbind (ToLower_char char_is_signed x) (\<lambda>a. rbind (ToLower_char char_is_signed y) (\<lambda>b.
       if a \<noteq> b then Inr False else IEquals_loop char_is_signed xs ys))"
| "IEquals_loop char_is_signed _ _ = Inr True"

definition IEquals :: "bool \<Rightarrow> string \<Rightarrow> string \<Rightarrow> bool result" where
  "IEquals char_is_signed first second =
     (if length first \<noteq> length second then Inr False
      else IEquals_loop char_is_signed first second)"

section \<open>Parsing\<close>

text \<open>
  \<^verbatim>\<open>std::from_chars\<close> for an integral type with the values from \<open>lo\<close> to \<open>hi\<close>: an optional minus
  sign (for signed types only), then as many digits of the base as there are. The result is the
  value, or \<open>None\<close> for an error code, and the rest of the input.
\<close>

definition digit_value :: "char \<Rightarrow> nat option" where
  "digit_value c =
     (let v = of_char c :: nat
      in if 48 \<le> v \<and> v \<le> 57 then Some (v - 48)
         else if 97 \<le> v \<and> v \<le> 122 then Some (v - 97 + 10)
         else if 65 \<le> v \<and> v \<le> 90 then Some (v - 65 + 10) else None)"

definition is_digit :: "nat \<Rightarrow> char \<Rightarrow> bool" where
  "is_digit base c = (case digit_value c of None \<Rightarrow> False | Some d \<Rightarrow> d < base)"

definition digits_value :: "nat \<Rightarrow> string \<Rightarrow> nat" where
  "digits_value base ds = foldl (\<lambda>acc c. acc * base + the (digit_value c)) 0 ds"

definition from_chars :: "int \<Rightarrow> int \<Rightarrow> nat \<Rightarrow> string \<Rightarrow> int option \<times> string" where
  "from_chars lo hi base s =
     (let neg = (lo < 0 \<and> s \<noteq> [] \<and> hd s = CHR ''-'');
          t = (if neg then tl s else s);
          ds = takeWhile (is_digit base) t;
          v = (if neg then - int (digits_value base ds) else int (digits_value base ds))
      in if ds = [] then (None, s)
         else (if lo \<le> v \<and> v \<le> hi then Some v else None, drop (length ds) t))"

definition TryParse_integral :: "int \<Rightarrow> int \<Rightarrow> nat \<Rightarrow> string \<Rightarrow> int option" where
  "TryParse_integral lo hi base s =
     (case from_chars lo hi base s of
        (value, ptr) \<Rightarrow> if value = None \<or> ptr \<noteq> [] then None else value)"

fun any_IEquals :: "bool \<Rightarrow> string \<Rightarrow> string list \<Rightarrow> bool result" where
  "any_IEquals char_is_signed s [] = Inr False"
| "any_IEquals char_is_signed s (t # ts) =
     rbind (IEquals char_is_signed s t) (\<lambda>e. if e then Inr True else any_IEquals char_is_signed s ts)"

definition TryParse_bool :: "bool \<Rightarrow> string \<Rightarrow> bool \<Rightarrow> bool \<Rightarrow> bool option result" where
  "TryParse_bool char_is_signed s recognizes_alphabet_symbol ignore_case =
     (case TryParse_integral (- (2 ^ 31)) (2 ^ 31 - 1) 10 s of
        Some num \<Rightarrow> if num = 0 then Inr (Some False) else if num = 1 then Inr (Some True) else Inr None
      | None \<Rightarrow>
          rbind (any_IEquals char_is_signed s [''y'', ''yes'', ''true'']) (\<lambda>t.
            if t then Inr (Some True)
            else rbind (any_IEquals char_is_signed s [''n'', ''no'', ''false'']) (\<lambda>f.
              Inr (if f then Some False else None))))"

section \<open>Correctness\<close>

lemma StartsWith_prefix: "StartsWith s p \<longleftrightarrow> prefix p s"
  by (auto simp: StartsWith_def prefix_conv_take prefix_length_le dest: arg_cong [of _ _ length])

lemma EndsWith_suffix: "EndsWith s p \<longleftrightarrow> suffix p s"
  by (auto simp: EndsWith_def suffix_def) (metis append_take_drop_id)

text \<open>Joining as a specification, and replacement that never looks at the text it put in.\<close>

fun join_ref :: "string \<Rightarrow> string list \<Rightarrow> string" where
  "join_ref d [] = []"
| "join_ref d [p] = p"
| "join_ref d (p # q # ps) = p @ d @ join_ref d (q # ps)"

fun replace_ref :: "string \<Rightarrow> string \<Rightarrow> nat \<Rightarrow> string \<Rightarrow> string" where
  "replace_ref from to 0 s = s"
| "replace_ref from to (Suc count) s =
     (case sv_find from s of None \<Rightarrow> s
      | Some p \<Rightarrow> take p s @ to @ replace_ref from to count (drop (p + length from) s))"

lemma Replace_loop_ref:
  "Replace_loop d t (pre @ s) (map_option ((+) (length pre)) (sv_find d s)) count =
     pre @ replace_ref d t count s"
proof (induction count arbitrary: pre s)
  case 0
  then show ?case by (cases "sv_find d s") auto
next
  case (Suc count)
  show ?case
  proof (cases "sv_find d s")
    case (Some p)
    let ?pre = "pre @ take p s @ t" and ?s = "drop (p + length d) s"
    have len: "p \<le> length s" using sv_find_length [OF Some] by simp
    have lp: "length ?pre = length pre + p + length t" using len by simp
    have "sv_find_from d (length a) (a @ b) = map_option ((+) (length a)) (sv_find d b)" for a b
      by (simp add: sv_find_from_def)
    note this [of ?pre ?s]
    from Suc.IH [of ?pre ?s, folded this, unfolded lp] show ?thesis
      using Some len by (simp add: add.assoc)
  qed simp
qed

lemma Replace_ref: "d \<noteq> [] \<Longrightarrow> Replace s d t count = Inr (replace_ref d t count s)"
  using Replace_loop_ref [of d t "[]" s count]
  by (cases "sv_find d s") (simp_all add: Replace_def Replace_into_def)

lemma JoinImpl_loop_ref:
  "JoinImpl_loop False parts d r = r @ concat (map (\<lambda>p. d @ p) parts)"
  by (induction parts arbitrary: r) auto

lemma join_ref_Cons: "join_ref d (p # ps) = p @ concat (map (\<lambda>p. d @ p) ps)"
  by (induction ps arbitrary: p) auto

lemma Join_ref:
  assumes "sum_list (map (\<lambda>e. length e + length d) parts) < 2 ^ 31"
  shows "Join parts d = Inr (join_ref d parts)"
proof -
  let ?n = "sum_list (map (\<lambda>e. length e + length d) parts)"
  have n: "unat (of_nat ?n :: 32 word) = ?n" using assms by (simp add: unat_of_nat take_bit_eq_mod)
  show ?thesis
  proof (cases "?n = 0")
    case True
    then have "join_ref d parts = []" by (cases parts) (auto simp: join_ref_Cons)
    then show ?thesis unfolding Join_def JoinImpl_def True by simp
  next
    case False
    then obtain p ps where ps: "parts = p # ps" by (cases parts) auto
    have "(of_nat ?n :: 32 word) \<noteq> 0" using n False by (metis unsigned_0)
    moreover have "(of_nat ?n :: 32 word) - of_nat (length d) = of_nat (?n - length d)"
      using ps by (simp add: of_nat_diff)
    moreover have "as_size_t (of_nat (?n - length d)) < 2 ^ 63"
      using assms by (subst as_size_t_of_nat) auto
    ultimately show ?thesis
      by (simp add: Join_def JoinImpl_def ps JoinImpl_loop_ref join_ref_Cons Let_def not_le)
  qed
qed

lemma sv_find_take: "sv_find d s = Some p \<Longrightarrow> d \<noteq> [] \<Longrightarrow> sv_find d (take p s) = None"
proof -
  assume f: "sv_find d s = Some p" and d: "d \<noteq> []"
  have "\<not> prefix d (drop j (take p s))" if "j \<le> length (take p s)" for j
  proof
    assume pre: "prefix d (drop j (take p s))"
    then have "length d \<le> p - j" using prefix_length_le by fastforce
    moreover have "0 < length d" using d by simp
    ultimately have "j < p" by linarith
    have "prefix d (drop j s)"
      using pre prefix_order.trans [OF _ take_is_prefix] by (metis drop_take)
    with sv_find_Some_least [OF f \<open>j < p\<close>] show False by simp
  qed
  then show ?thesis by (simp add: sv_find_None_iff)
qed

lemma join_ref_snoc: "ps \<noteq> [] \<Longrightarrow> join_ref d (p # ps) = p @ d @ join_ref d ps"
  by (cases ps) auto

lemma Split_loop_ok:
  "d \<noteq> [] \<Longrightarrow> s \<noteq> [] \<Longrightarrow>
   \<exists>ps. Split_loop s d True = Inr ps \<and> ps \<noteq> [] \<and> join_ref d ps = s \<and>
     (\<forall>p \<in> set ps. sv_find d p = None) \<and>
     Split_loop s d False = Inr (filter (\<lambda>p. p \<noteq> []) ps) \<and>
     (\<forall>t count. length s \<le> count \<longrightarrow> replace_ref d t count s = join_ref t ps)"
proof (induction s rule: length_induct)
  case (1 s)
  show ?case
  proof (cases "sv_find d s")
    case None
    then have "replace_ref d t count s = s" for t count by (cases count) auto
    with None 1(2,3) show ?thesis by (simp add: Split_loop.simps [of s])
  next
    case (Some p)
    define rest where "rest = drop (p + length d) s"
    have split: "s = take p s @ d @ rest" using sv_find_split [OF Some] by (simp add: rest_def)
    have step: "replace_ref d t count s = take p s @ t @ replace_ref d t (count - 1) rest"
      if "length s \<le> count" for t count
      using that Some 1(3) by (cases count) (auto simp: rest_def)
    note part = sv_find_take [OF Some 1(2)]
    show ?thesis
    proof (cases "rest = []")
      case True
      have "replace_ref d t n [] = []" for t n using 1(2) by (cases n) auto
      with True step split part Some 1(2,3) show ?thesis
        by (auto simp: Split_loop.simps [of s] rest_def [symmetric])
    next
      case False
      have "0 < length d" "0 < length s" using 1(2,3) by simp_all
      then have "length rest < length s" by (simp only: rest_def length_drop diff_less add_pos_nonneg trans_less_add2)
      with 1 False obtain ps where ps: "Split_loop rest d True = Inr ps" "ps \<noteq> []" "join_ref d ps = rest"
          "\<forall>p \<in> set ps. sv_find d p = None" "Split_loop rest d False = Inr (filter (\<lambda>p. p \<noteq> []) ps)"
          "\<forall>t count. length rest \<le> count \<longrightarrow> replace_ref d t count rest = join_ref t ps" by blast
      have "replace_ref d t count s = join_ref t (take p s # ps)" if "length s \<le> count" for t count
        using step [OF that, of t] ps(2,6) that \<open>length rest < length s\<close> by (simp add: join_ref_snoc)
      moreover have "join_ref d (take p s # ps) = s" using ps(2,3) split by (simp add: join_ref_snoc)
      moreover have "Split_loop s d True = Inr (take p s # ps)"
        using ps(1) Some 1(2) False by (simp add: Split_loop.simps [of s] rest_def [symmetric])
      moreover have "Split_loop s d False = Inr (filter (\<lambda>p. p \<noteq> []) (take p s # ps))"
        using ps(5) Some 1(2,3) False by (auto simp: Split_loop.simps [of s] rest_def [symmetric])
      ultimately show ?thesis using ps(4) part by auto
    qed
  qed
qed

lemma Split_ok:
  assumes "d \<noteq> []"
  shows "\<exists>ps. Split s d True = Inr ps \<and> join_ref d ps = s \<and> (\<forall>p \<in> set ps. sv_find d p = None) \<and>
     Split s d False = Inr (filter (\<lambda>p. p \<noteq> []) ps) \<and>
     (\<forall>t count. length s \<le> count \<longrightarrow> Replace s d t count = Inr (join_ref t ps))"
proof (cases "s = []")
  case True
  have "replace_ref d t n [] = []" for t n using assms by (cases n) auto
  with True assms show ?thesis by (simp add: Split_def Replace_ref)
next
  case False
  from Split_loop_ok [OF assms False] False assms show ?thesis by (auto simp: Split_def Replace_ref)
qed

text \<open>Trimming removes exactly the spaces at both ends.\<close>

lemma find_first_not_of_ok:
  assumes "m \<noteq> []" "hd m \<noteq> c"
  shows "find_first_not_of (replicate a c @ m) c = Some a"
proof -
  have "(replicate a c @ m) ! a \<noteq> c" using assms by (cases m) (auto simp: nth_append)
  moreover have "\<forall>j<a. (replicate a c @ m) ! j = c" by (simp add: nth_append)
  ultimately show ?thesis
    unfolding find_first_not_of_def find_Some_iff using assms(1) by (intro exI [of _ a]) auto
qed

lemma find_last_not_of_ok:
  assumes "m \<noteq> []" "last m \<noteq> c"
  shows "find_last_not_of (m @ replicate b c) c = Some (length m - 1)"
proof -
  let ?s = "m @ replicate b c"
  have idx: "rev [0..<length ?s] ! j = length ?s - 1 - j" if "j < length ?s" for j
    using that by (simp add: rev_nth)
  have "?s ! (length ?s - 1 - b) \<noteq> c" using assms by (simp add: nth_append last_conv_nth)
  moreover have "\<forall>j<b. ?s ! (length ?s - 1 - j) = c" by (auto simp: nth_append)
  ultimately show ?thesis
    unfolding find_last_not_of_def find_Some_iff using assms(1) idx
    by (intro exI [of _ b]) (auto simp: neq_Nil_conv)
qed

lemma Trim_ok:
  assumes "m \<noteq> []" "hd m \<noteq> CHR '' ''" "last m \<noteq> CHR '' ''"
  shows "Trim (replicate a (CHR '' '') @ m @ replicate b (CHR '' '')) = m"
proof -
  let ?sp = "CHR '' ''"
  let ?s = "replicate a ?sp @ m @ replicate b ?sp"
  have first: "(if hd ?s = ?sp then find_first_not_of ?s ?sp else Some 0) = Some a"
    using find_first_not_of_ok [of "m @ replicate b ?sp" ?sp a] assms
    by (cases a) (auto simp: hd_append)
  have last: "(if last ?s = ?sp then case find_last_not_of ?s ?sp of Some e \<Rightarrow> e | None \<Rightarrow> 2 ^ 64 - 1
      else length ?s) = (if b = 0 then length ?s else a + length m - 1)"
    using find_last_not_of_ok [of "replicate a ?sp @ m" ?sp b] assms
    by (cases b) (auto simp: last_append)
  have "?s \<noteq> []" using assms(1) by simp
  then have "Trim ?s = substr ?s a ((if b = 0 then length ?s else a + length m - 1) - a + 1)"
    using assms(1) unfolding Trim_def first last by simp
  also have "\<dots> = m"
  proof (cases b)
    case 0
    then show ?thesis by (simp add: substr_def)
  next
    case (Suc b')
    have "a + length m - 1 - a + 1 = length m" using assms(1) by (cases m) auto
    with Suc show ?thesis by (simp add: substr_def)
  qed
  finally show ?thesis .
qed

lemma Trim_blank: "Trim (replicate a (CHR '' '')) = []"
proof (cases a)
  case (Suc n)
  have "find_first_not_of (replicate a (CHR '' '')) (CHR '' '') = None"
    by (auto simp: find_first_not_of_def find_None_iff)
  with Suc show ?thesis by (simp add: Trim_def)
qed (simp add: Trim_def)

text \<open>Case conversion is defined on every byte only where \<^verbatim>\<open>char\<close> is unsigned.\<close>

lemma ToUpper_char_faults:
  "ToUpper_char char_is_signed c = Inl Undefined_behaviour \<longleftrightarrow> char_is_signed \<and> of_char c \<ge> (128 :: nat)"
  using of_char_bound [of c] by (auto simp: ToUpper_char_def array_at_def char_index_def kUpperChars_def Let_def)

lemma ToLower_char_faults:
  "ToLower_char char_is_signed c = Inl Undefined_behaviour \<longleftrightarrow> char_is_signed \<and> of_char c \<ge> (128 :: nat)"
  using of_char_bound [of c] by (auto simp: ToLower_char_def array_at_def char_index_def kLowerChars_def Let_def)

text \<open>Printing in decimal, as the reference for the parser.\<close>

fun print_nat :: "nat \<Rightarrow> string" where
  "print_nat n = (if n < 10 then [char_of (48 + n)] else print_nat (n div 10) @ [char_of (48 + n mod 10)])"

declare print_nat.simps [simp del]

definition print_int :: "int \<Rightarrow> string" where
  "print_int z = (if z < 0 then CHR ''-'' # print_nat (nat (- z)) else print_nat (nat z))"

lemma digit_value_char: "d < 10 \<Longrightarrow> digit_value (char_of (48 + d)) = Some d"
  by (simp add: digit_value_def)

lemma print_nat_digits: "list_all (is_digit 10) (print_nat n) \<and> print_nat n \<noteq> []"
proof (induction n rule: print_nat.induct)
  case (1 n)
  have "is_digit 10 (char_of (48 + d))" if "d < 10" for d :: nat
    using that by (simp add: is_digit_def digit_value_char)
  with 1 show ?case by (simp add: print_nat.simps [of n])
qed

lemma digits_value_snoc: "digits_value b (ds @ [c]) = digits_value b ds * b + the (digit_value c)"
  by (simp add: digits_value_def)

lemma digits_value_print: "digits_value 10 (print_nat n) = n"
proof (induction n rule: print_nat.induct)
  case (1 n)
  show ?case
  proof (cases "n < 10")
    case True
    then show ?thesis by (simp add: print_nat.simps [of n] digits_value_def digit_value_char)
  next
    case False
    with 1 show ?thesis by (simp add: print_nat.simps [of n] digits_value_snoc digit_value_char)
  qed
qed

lemma takeWhile_digits: "takeWhile (is_digit 10) (print_nat n) = print_nat n"
  using print_nat_digits [of n] by (simp add: takeWhile_eq_all_conv list_all_iff)

lemma print_nat_no_sign: "hd (print_nat n) \<noteq> CHR ''-''"
proof -
  have "is_digit 10 (hd (print_nat n))" using print_nat_digits [of n] by (cases "print_nat n") auto
  moreover have "\<not> is_digit 10 (CHR ''-'')" by code_simp
  ultimately show ?thesis by metis
qed

lemma TryParse_print:
  assumes "lo \<le> 0" "0 \<le> hi"
  shows "TryParse_integral lo hi 10 (print_int z) = (if lo \<le> z \<and> z \<le> hi then Some z else None)"
proof (cases "z < 0")
  case True
  have "\<not> is_digit 10 (CHR ''-'')" by code_simp
  with True assms print_nat_digits [of "nat (- z)"] show ?thesis
    by (auto simp: TryParse_integral_def from_chars_def print_int_def Let_def takeWhile_digits digits_value_print)
next
  case False
  with assms print_nat_digits [of "nat z"] print_nat_no_sign [of "nat z"] show ?thesis
    by (auto simp: TryParse_integral_def from_chars_def print_int_def Let_def takeWhile_digits digits_value_print)
qed

section \<open>Properties\<close>

text \<open>
  Splitting, joining and replacing agree. With a non-empty delimiter, \<^verbatim>\<open>Split\<close> with
  \<^verbatim>\<open>keep_empty\<close> returns parts that do not contain the delimiter and that \<^verbatim>\<open>Join\<close> puts back
  together to the original string (while the sizes stay below 2 GiB); without \<^verbatim>\<open>keep_empty\<close> it
  returns the same parts without the empty ones; and \<^verbatim>\<open>Replace\<close> without a binding limit is
  joining these parts with the replacement, so that replaced text is never scanned again.
\<close>

theorem split_join_replace:
  assumes "delim \<noteq> []"
  shows "\<exists>parts. Split s delim True = Inr parts \<and> (\<forall>p \<in> set parts. sv_find delim p = None) \<and>
     Split s delim False = Inr (filter (\<lambda>p. p \<noteq> []) parts) \<and>
     (sum_list (map (\<lambda>e. length e + length delim) parts) < 2 ^ 31 \<longrightarrow> Join parts delim = Inr s) \<and>
     (\<forall>to count. length s \<le> count \<longrightarrow>
        sum_list (map (\<lambda>e. length e + length to) parts) < 2 ^ 31 \<longrightarrow>
        Replace s delim to count = Join parts to)"
  using Split_ok [OF assms, of s] by (auto simp: Join_ref)

theorem split_join_replace_witness:
  "\<exists>parts. Split ''a,,b'' '','' True = Inr parts \<and> (\<forall>p \<in> set parts. sv_find '','' p = None) \<and>
     Split ''a,,b'' '','' False = Inr (filter (\<lambda>p. p \<noteq> []) parts)"
  using split_join_replace [of "'',''" "''a,,b''"] by auto

text \<open>
  \<^verbatim>\<open>TryParse\<close> for an integral type reads back every decimal number in the range of the type
  and rejects every decimal number outside of it.
\<close>

theorem TryParse_decimal:
  assumes "lo \<le> 0" and "0 \<le> hi"
  shows "TryParse_integral lo hi 10 (print_int z) = (if lo \<le> z \<and> z \<le> hi then Some z else None)"
  by (rule TryParse_print [OF assms])

theorem TryParse_decimal_witness:
  "TryParse_integral (- 128) 127 10 (print_int (- 128)) = Some (- 128) \<and>
   TryParse_integral (- 128) 127 10 (print_int 128) = None"
  using TryParse_decimal [of "- 128" 127 "- 128"] TryParse_decimal [of "- 128" 127 128] by simp

text \<open>
  \<^verbatim>\<open>Trim\<close> removes exactly the spaces at both ends: it returns the part of the string from its
  first to its last character that is not a space, and the empty string when there is none.
\<close>

theorem Trim_removes_spaces:
  assumes "m \<noteq> [] \<longrightarrow> hd m \<noteq> CHR '' '' \<and> last m \<noteq> CHR '' ''"
  shows "Trim (replicate a (CHR '' '') @ m @ replicate b (CHR '' '')) = m"
  using Trim_ok [of m a b] Trim_blank [of "a + b"] assms by (cases "m = []") (auto simp: replicate_add)

theorem Trim_removes_spaces_witness: "Trim ''  a b '' = ''a b''"
  using Trim_removes_spaces [of "''a b''" 2 1] by (simp add: numeral_2_eq_2)

text \<open>
  Where \<^verbatim>\<open>char\<close> is a signed type, \<^verbatim>\<open>ToUpper\<close> and \<^verbatim>\<open>ToLower\<close> of any byte from 128 on index their
  tables out of bounds; on all other bytes, and on every byte where \<^verbatim>\<open>char\<close> is unsigned, they
  are defined.
\<close>

theorem case_conversion_out_of_bounds:
  "(ToUpper_char char_is_signed c = Inl Undefined_behaviour \<longleftrightarrow> char_is_signed \<and> of_char c \<ge> (128 :: nat)) \<and>
   (ToLower_char char_is_signed c = Inl Undefined_behaviour \<longleftrightarrow> char_is_signed \<and> of_char c \<ge> (128 :: nat))"
  by (simp add: ToUpper_char_faults ToLower_char_faults)

end
