(* ===== verification/Circular_Buffer.thy ===== *)
theory Circular_Buffer
  imports Prelude
begin

text \<open>
  The bounded single-producer single-consumer queue of
  \<^verbatim>\<open>flare/base/internal/circular_buffer.h\<close>. A slot is \<open>None\<close> while it is uninitialised storage.
  The sequential operations come first; the producer and the consumer then run concurrently as
  a step relation with one step per access to shared memory, and the theorems hold for every
  interleaving of them.
\<close>

section \<open>Operations\<close>

record 'a CircularBuffer =
  cb_capacity :: nat
  cb_objects :: "'a option list"
  cb_head :: nat
  cb_tail :: nat

definition CB_new :: "nat \<Rightarrow> 'a CircularBuffer" where
  "CB_new capacity =
     \<lparr>cb_capacity = capacity + 1, cb_objects = replicate (capacity + 1) None, cb_head = 0, cb_tail = 0\<rparr>"

definition NormalizeIndex :: "nat \<Rightarrow> nat \<Rightarrow> nat" where
  "NormalizeIndex capacity x = (if x < capacity then x else x - capacity)"

text \<open>\<^verbatim>\<open>Initialize\<close> constructs an object in a slot; one that still holds an object would leak it.\<close>

definition Initialize :: "nat \<Rightarrow> 'a \<Rightarrow> 'a option list \<Rightarrow> 'a option list result" where
  "Initialize i v objects =
     (if i < length objects \<and> objects ! i = None then Inr (objects[i := Some v])
      else Inl Undefined_behaviour)"

text \<open>Moving the object out of a slot and destroying it.\<close>

definition Take :: "nat \<Rightarrow> 'a option list \<Rightarrow> ('a \<times> 'a option list) result" where
  "Take i objects =
     (if i < length objects then
        (case objects ! i of None \<Rightarrow> Inl Undefined_behaviour | Some v \<Rightarrow> Inr (v, objects[i := None]))
      else Inl Undefined_behaviour)"

definition CB_Emplace :: "'a \<Rightarrow> 'a CircularBuffer \<Rightarrow> (bool \<times> 'a CircularBuffer) result" where
  "CB_Emplace v b =
     (let head = cb_head b; nxt = NormalizeIndex (cb_capacity b) (head + 1)
      in if nxt = cb_tail b then Inr (False, b)
         else rbind (Initialize head v (cb_objects b)) (\<lambda>objects.
                Inr (True, b\<lparr>cb_objects := objects, cb_head := nxt\<rparr>)))"

fun CB_Pop_loop ::
    "nat \<Rightarrow> nat \<Rightarrow> nat \<Rightarrow> nat \<Rightarrow> 'a option list \<Rightarrow> 'a list
       \<Rightarrow> (nat \<times> 'a option list \<times> 'a list) result" where
  "CB_Pop_loop fuel capacity current up_to slots objects =
     (if current = up_to then Inr (current, slots, objects)
      else case fuel of 0 \<Rightarrow> Inl Out_of_fuel
        | Suc n \<Rightarrow> rbind (Take current slots) (\<lambda>(v, slots).
            CB_Pop_loop n capacity (NormalizeIndex capacity (current + 1)) up_to slots (objects @ [v])))"

declare CB_Pop_loop.simps [simp del]

definition CB_Pop :: "'a list \<Rightarrow> 'a CircularBuffer \<Rightarrow> ('a list \<times> 'a CircularBuffer) result" where
  "CB_Pop objects b =
     (let up_to = cb_head b; current = cb_tail b
      in rbind (CB_Pop_loop (cb_capacity b) (cb_capacity b) current up_to (cb_objects b) objects)
           (\<lambda>(current, slots, objects).
              Inr (objects, b\<lparr>cb_objects := slots, cb_tail := current\<rparr>)))"

section \<open>Producer and consumer\<close>

text \<open>
  The program counters. The producer is between calls or has initialised the slot and not yet
  stored \<^verbatim>\<open>head_\<close>; the consumer is between calls or in the loop of \<^verbatim>\<open>Pop\<close>.
\<close>

datatype producer = P_idle | P_store nat
datatype consumer = C_idle | C_loop nat nat

text \<open>
  \<open>pushed\<close> and \<open>popped\<close> record the objects whose \<^verbatim>\<open>Emplace\<close> began writing and those moved out.
\<close>

record 'a spsc =
  q_buf :: "'a CircularBuffer"
  q_prod :: producer
  q_cons :: consumer
  q_pushed :: "'a list"
  q_popped :: "'a list"

definition spsc_init :: "nat \<Rightarrow> 'a spsc" where
  "spsc_init capacity =
     \<lparr>q_buf = CB_new capacity, q_prod = P_idle, q_cons = C_idle, q_pushed = [], q_popped = []\<rparr>"

inductive spsc_step :: "'a spsc \<Rightarrow> 'a spsc \<Rightarrow> bool" where
  emplace_full: "q_prod s = P_idle \<Longrightarrow>
    NormalizeIndex (cb_capacity (q_buf s)) (cb_head (q_buf s) + 1) = cb_tail (q_buf s) \<Longrightarrow> spsc_step s s"
| emplace_write: "q_prod s = P_idle \<Longrightarrow>
    nxt = NormalizeIndex (cb_capacity (q_buf s)) (cb_head (q_buf s) + 1) \<Longrightarrow> nxt \<noteq> cb_tail (q_buf s) \<Longrightarrow>
    Initialize (cb_head (q_buf s)) v (cb_objects (q_buf s)) = Inr objects \<Longrightarrow>
    spsc_step s (s\<lparr>q_buf := (q_buf s)\<lparr>cb_objects := objects\<rparr>, q_prod := P_store nxt, q_pushed := q_pushed s @ [v]\<rparr>)"
| emplace_store: "q_prod s = P_store nxt \<Longrightarrow>
    spsc_step s (s\<lparr>q_buf := (q_buf s)\<lparr>cb_head := nxt\<rparr>, q_prod := P_idle\<rparr>)"
| pop_begin: "q_cons s = C_idle \<Longrightarrow>
    spsc_step s (s\<lparr>q_cons := C_loop (cb_head (q_buf s)) (cb_tail (q_buf s))\<rparr>)"
| pop_move: "q_cons s = C_loop up_to current \<Longrightarrow> current \<noteq> up_to \<Longrightarrow>
    Take current (cb_objects (q_buf s)) = Inr (v, objects) \<Longrightarrow>
    spsc_step s (s\<lparr>q_buf := (q_buf s)\<lparr>cb_objects := objects\<rparr>,
      q_cons := C_loop up_to (NormalizeIndex (cb_capacity (q_buf s)) (current + 1)), q_popped := q_popped s @ [v]\<rparr>)"
| pop_end: "q_cons s = C_loop up_to up_to \<Longrightarrow>
    spsc_step s (s\<lparr>q_buf := (q_buf s)\<lparr>cb_tail := up_to\<rparr>, q_cons := C_idle\<rparr>)"

inductive spsc_reach :: "nat \<Rightarrow> 'a spsc \<Rightarrow> bool" for capacity where
  init: "spsc_reach capacity (spsc_init capacity)"
| step: "spsc_reach capacity s \<Longrightarrow> spsc_step s t \<Longrightarrow> spsc_reach capacity t"

section \<open>Invariant\<close>

text \<open>
  Positions are counted from the beginning of time: \<open>h\<close> objects are published, \<open>k\<close> are moved
  out, \<open>t\<close> of these are acknowledged in \<^verbatim>\<open>tail_\<close>, and a running \<^verbatim>\<open>Pop\<close> goes up to \<open>u\<close>.
\<close>

definition slots_ok :: "nat \<Rightarrow> 'a option list \<Rightarrow> 'a list \<Rightarrow> nat \<Rightarrow> bool" where
  "slots_ok n objects pushed k \<longleftrightarrow>
     length objects = n \<and> k \<le> length pushed \<and> length pushed \<le> k + n \<and>
     (\<forall>i. k \<le> i \<and> i < length pushed \<longrightarrow> objects ! (i mod n) = Some (pushed ! i)) \<and>
     (\<forall>i. length pushed \<le> i \<and> i < k + n \<longrightarrow> objects ! (i mod n) = None)"

definition spsc_inv :: "nat \<Rightarrow> nat \<Rightarrow> nat \<Rightarrow> nat \<Rightarrow> 'a spsc \<Rightarrow> bool" where
  "spsc_inv capacity t u h s \<longleftrightarrow>
     (let n = capacity + 1; k = length (q_popped s)
      in cb_capacity (q_buf s) = n \<and> cb_head (q_buf s) = h mod n \<and> cb_tail (q_buf s) = t mod n \<and>
         slots_ok n (cb_objects (q_buf s)) (q_pushed s) k \<and> q_popped s = take k (q_pushed s) \<and>
         t \<le> k \<and> k \<le> u \<and> u \<le> h \<and> length (q_pushed s) < t + n \<and>
         (case q_prod s of P_idle \<Rightarrow> length (q_pushed s) = h
          | P_store nxt \<Rightarrow> length (q_pushed s) = h + 1 \<and> nxt = (h + 1) mod n) \<and>
         (case q_cons s of C_idle \<Rightarrow> k = t
          | C_loop up_to current \<Rightarrow> up_to = u mod n \<and> current = k mod n))"

lemma NormalizeIndex_mod: "0 < n \<Longrightarrow> NormalizeIndex n (i mod n + 1) = (i + 1) mod n"
proof -
  assume n: "0 < n"
  then have "i mod n < n" by simp
  then consider "i mod n + 1 < n" | "i mod n + 1 = n" by linarith
  then show ?thesis
  proof cases
    case 1
    then have "(i mod n + 1) mod n = i mod n + 1" by simp
    with 1 show ?thesis by (simp add: NormalizeIndex_def mod_Suc_eq)
  next
    case 2
    then have "(i + 1) mod n = 0" by (simp add: mod_Suc)
    with 2 show ?thesis by (simp add: NormalizeIndex_def)
  qed
qed

lemma mod_window_inj:
  assumes "i mod n = j mod n" "a \<le> i" "i < a + n" "a \<le> j" "j < a + (n :: nat)"
  shows "i = j"
proof -
  have "n dvd (max i j - min i j)"
    using assms(1) by (metis max_def min_def mod_eq_dvd_iff_nat nle_le)
  moreover have "max i j - min i j < n" using assms by (auto simp: max_def min_def)
  ultimately have "max i j - min i j = 0" by (auto dest: dvd_imp_le)
  then show ?thesis by (auto simp: max_def min_def split: if_splits)
qed

lemma slots_ok_push:
  assumes ok: "slots_ok n objects pushed k" and room: "length pushed < k + n"
  shows "Initialize (length pushed mod n) v objects = Inr (objects[length pushed mod n := Some v])"
    and "slots_ok n (objects[length pushed mod n := Some v]) (pushed @ [v]) k"
proof -
  let ?p = "length pushed"
  have n: "0 < n" "length objects = n" "k \<le> ?p" using ok room by (auto simp: slots_ok_def)
  have "objects ! (?p mod n) = None" using ok room by (simp add: slots_ok_def)
  with n show "Initialize (?p mod n) v objects = Inr (objects[?p mod n := Some v])"
    by (simp add: Initialize_def)
  have other: "objects[?p mod n := Some v] ! (i mod n) = objects ! (i mod n)"
    if "k \<le> i" "i < k + n" "i \<noteq> ?p" for i
    using mod_window_inj [of i n ?p k] that n room by (metis nth_list_update_neq)
  show "slots_ok n (objects[?p mod n := Some v]) (pushed @ [v]) k"
    unfolding slots_ok_def
  proof (intro conjI allI impI)
    fix i assume i: "k \<le> i \<and> i < length (pushed @ [v])"
    show "objects[?p mod n := Some v] ! (i mod n) = Some ((pushed @ [v]) ! i)"
    proof (cases "i = ?p")
      case True
      with n show ?thesis by simp
    next
      case False
      with i have "i < ?p" by simp
      with ok i room other [of i] show ?thesis by (simp add: slots_ok_def nth_append)
    qed
  next
    fix i assume "length (pushed @ [v]) \<le> i \<and> i < k + n"
    with ok other [of i] n show "objects[?p mod n := Some v] ! (i mod n) = None"
      by (simp add: slots_ok_def)
  qed (use n room in auto)
qed

lemma slots_ok_pop:
  assumes ok: "slots_ok n objects pushed k" and more: "k < length pushed" and n: "0 < n"
  shows "Take (k mod n) objects = Inr (pushed ! k, objects[k mod n := None])"
    and "slots_ok n (objects[k mod n := None]) pushed (k + 1)"
proof -
  have len: "length objects = n" using ok by (simp add: slots_ok_def)
  have "objects ! (k mod n) = Some (pushed ! k)" using ok more by (simp add: slots_ok_def)
  with len n show "Take (k mod n) objects = Inr (pushed ! k, objects[k mod n := None])"
    by (simp add: Take_def)
  have other: "objects[k mod n := None] ! (i mod n) = objects ! (i mod n)"
    if "k < i" "i < k + n" for i
    using mod_window_inj [of i n k k] that by (metis less_add_same_cancel1 less_imp_le nat_neq_iff nth_list_update_neq order_refl n)
  show "slots_ok n (objects[k mod n := None]) pushed (k + 1)"
    unfolding slots_ok_def
  proof (intro conjI allI impI)
    fix i assume i: "k + 1 \<le> i \<and> i < length pushed"
    moreover have "length pushed \<le> k + n" using ok by (simp add: slots_ok_def)
    ultimately show "objects[k mod n := None] ! (i mod n) = Some (pushed ! i)"
      using ok other [of i] by (simp add: slots_ok_def)
  next
    fix i assume i: "length pushed \<le> i \<and> i < k + 1 + n"
    show "objects[k mod n := None] ! (i mod n) = None"
    proof (cases "i = k + n")
      case True
      with len n show ?thesis by simp
    next
      case False
      with i more ok other [of i] show ?thesis by (simp add: slots_ok_def)
    qed
  qed (use ok more len in \<open>auto simp: slots_ok_def\<close>)
qed

lemma spsc_init_inv: "spsc_inv capacity 0 0 0 (spsc_init capacity)"
  by (simp add: spsc_inv_def spsc_init_def CB_new_def slots_ok_def del: replicate.simps replicate_Suc)

lemma not_full:
  assumes "t \<le> h" "h < t + n" "(h + 1) mod n \<noteq> t mod n"
  shows "h + 1 < t + (n :: nat)"
proof (rule ccontr)
  assume "\<not> ?thesis"
  then have "h + 1 = t + n" using assms(2) by simp
  then have "(h + 1) mod n = t mod n" by simp
  with assms(3) show False by simp
qed

lemma full:
  assumes "t \<le> h" "h < t + n" "(h + 1) mod n = t mod n" "0 < (n :: nat)"
  shows "h + 1 = t + n"
proof (rule ccontr)
  assume "h + 1 \<noteq> t + n"
  then have "h + 1 = t" using mod_window_inj [OF assms(3), of t] assms by simp
  with assms(1) show False by simp
qed

lemma spsc_step_inv:
  assumes "spsc_step s s'" "spsc_inv capacity t u h s"
  shows "\<exists>t u h. spsc_inv capacity t u h s'"
  using assms
proof cases
  case emplace_full
  with assms(2) show ?thesis by blast
next
  case (emplace_write nxt v objects)
  let ?n = "capacity + 1"
  have inv: "h mod ?n = cb_head (q_buf s)" "slots_ok ?n (cb_objects (q_buf s)) (q_pushed s) (length (q_popped s))"
      "length (q_pushed s) = h" "t \<le> h" "h < t + ?n" "t \<le> length (q_popped s)"
    using assms(2) emplace_write(2) by (auto simp: spsc_inv_def Let_def)
  have nxt: "nxt = (h + 1) mod ?n" "(h + 1) mod ?n \<noteq> t mod ?n"
    using emplace_write(3,4) assms(2) NormalizeIndex_mod [of ?n h] by (auto simp: spsc_inv_def Let_def)
  have room: "h + 1 < t + ?n" using not_full [OF inv(4,5) nxt(2)] .
  have "length (q_pushed s) < length (q_popped s) + ?n" using room inv(3,6) by simp
  from slots_ok_push [OF inv(2) this, of v] have
    "objects = (cb_objects (q_buf s))[h mod ?n := Some v]"
    "slots_ok ?n objects (q_pushed s @ [v]) (length (q_popped s))"
    using emplace_write(5) inv(1,3) by auto
  with assms(2) emplace_write(1,2) nxt room inv(3) have "spsc_inv capacity t u h s'"
    by (simp add: spsc_inv_def Let_def)
  then show ?thesis by blast
next
  case (emplace_store nxt)
  with assms(2) have "spsc_inv capacity t u (h + 1) s'" by (simp add: spsc_inv_def Let_def)
  then show ?thesis by blast
next
  case pop_begin
  with assms(2) have "spsc_inv capacity t h h s'"
    by (auto simp: spsc_inv_def Let_def split: producer.splits)
  then show ?thesis by blast
next
  case (pop_move up_to current v objects)
  let ?n = "capacity + 1" and ?k = "length (q_popped s)"
  have inv: "slots_ok ?n (cb_objects (q_buf s)) (q_pushed s) ?k" "up_to = u mod ?n" "current = ?k mod ?n"
      "?k \<le> u" "u \<le> h" "h \<le> length (q_pushed s)" "q_popped s = take ?k (q_pushed s)"
    using assms(2) pop_move(2) by (auto simp: spsc_inv_def Let_def split: producer.splits)
  have "?k < u" using pop_move(3) inv(2-4) by (metis le_neq_implies_less)
  then have "?k < length (q_pushed s)" using inv(5,6) by simp
  note slots = slots_ok_pop [OF inv(1) this]
  have v: "v = q_pushed s ! ?k" "slots_ok ?n objects (q_pushed s) (?k + 1)"
    using slots pop_move(4) inv(3) by auto
  have "q_popped s @ [v] = take (?k + 1) (q_pushed s)"
    using v(1) \<open>?k < length (q_pushed s)\<close> inv(7) by (simp add: take_Suc_conv_app_nth)
  with assms(2) pop_move(1,2) v(2) inv \<open>?k < u\<close> have "spsc_inv capacity t u h s'"
    using NormalizeIndex_mod [of ?n ?k]
    by (auto simp: spsc_inv_def Let_def split: producer.splits)
  then show ?thesis by blast
next
  case (pop_end up_to)
  let ?n = "capacity + 1" and ?k = "length (q_popped s)"
  have inv: "up_to = u mod ?n" "up_to = ?k mod ?n" "?k \<le> u" "u \<le> h" "h < t + ?n" "t \<le> ?k"
    using assms(2) pop_end(2) by (auto simp: spsc_inv_def Let_def split: producer.splits)
  have "u = ?k" by (rule mod_window_inj [of u ?n ?k ?k]) (use inv in auto)
  with assms(2) pop_end inv have "spsc_inv capacity ?k u h s'"
    by (auto simp: spsc_inv_def Let_def split: producer.splits)
  then show ?thesis by blast
qed

lemma spsc_reach_inv: "spsc_reach capacity s \<Longrightarrow> \<exists>t u h. spsc_inv capacity t u h s"
proof (induction rule: spsc_reach.induct)
  case init
  then show ?case using spsc_init_inv by blast
next
  case (step s t)
  then show ?case using spsc_step_inv by blast
qed

lemma spsc_safe:
  assumes inv: "spsc_inv capacity t u h s"
  shows "q_prod s = P_idle \<Longrightarrow>
      NormalizeIndex (cb_capacity (q_buf s)) (cb_head (q_buf s) + 1) \<noteq> cb_tail (q_buf s) \<Longrightarrow>
      \<exists>objects. Initialize (cb_head (q_buf s)) v (cb_objects (q_buf s)) = Inr objects"
    and "q_cons s = C_loop up_to current \<Longrightarrow> current \<noteq> up_to \<Longrightarrow>
      \<exists>objects. Take current (cb_objects (q_buf s)) = Inr (q_pushed s ! length (q_popped s), objects)"
proof -
  let ?n = "capacity + 1" and ?k = "length (q_popped s)"
  have ok: "slots_ok ?n (cb_objects (q_buf s)) (q_pushed s) ?k" and le: "?k \<le> u" "u \<le> h" "t \<le> ?k" "h < t + ?n"
    using inv by (auto simp: spsc_inv_def Let_def split: producer.splits)
  show "\<exists>objects. Initialize (cb_head (q_buf s)) v (cb_objects (q_buf s)) = Inr objects"
    if "q_prod s = P_idle" "NormalizeIndex (cb_capacity (q_buf s)) (cb_head (q_buf s) + 1) \<noteq> cb_tail (q_buf s)"
  proof -
    have h: "length (q_pushed s) = h" "cb_head (q_buf s) = h mod ?n"
      using inv that(1) by (auto simp: spsc_inv_def Let_def)
    have "(h + 1) mod ?n \<noteq> t mod ?n"
      using inv that(2) NormalizeIndex_mod [of ?n h] by (auto simp: spsc_inv_def Let_def)
    then have "h < ?k + ?n" using le by simp
    with slots_ok_push(1) [OF ok, of v] h show ?thesis by simp
  qed
  show "\<exists>objects. Take current (cb_objects (q_buf s)) = Inr (q_pushed s ! ?k, objects)"
    if "q_cons s = C_loop up_to current" "current \<noteq> up_to"
  proof -
    have eqs: "up_to = u mod ?n" "current = ?k mod ?n" and "h \<le> length (q_pushed s)"
      using inv that(1) by (auto simp: spsc_inv_def Let_def split: producer.splits)
    moreover have "?k \<noteq> u" using that(2) unfolding eqs by (rule contrapos_nn) simp
    ultimately have "?k < length (q_pushed s)" using le by linarith
    from slots_ok_pop(1) [OF ok this] \<open>current = ?k mod ?n\<close> show ?thesis by auto
  qed
qed

section \<open>Used by one thread\<close>

text \<open>The buffer holds \<open>xs\<close>: the part from position \<open>k\<close> on of all objects ever put in.\<close>

definition cb_rep :: "nat \<Rightarrow> 'a CircularBuffer \<Rightarrow> 'a list \<Rightarrow> bool" where
  "cb_rep capacity b xs \<longleftrightarrow>
     (\<exists>all k. cb_capacity b = capacity + 1 \<and> xs = drop k all \<and> k \<le> length all \<and> length xs \<le> capacity \<and>
        cb_head b = length all mod (capacity + 1) \<and> cb_tail b = k mod (capacity + 1) \<and>
        slots_ok (capacity + 1) (cb_objects b) all k)"

lemma CB_new_rep: "cb_rep capacity (CB_new capacity) []"
  unfolding cb_rep_def
  by (rule exI [of _ "[]"]) (simp add: CB_new_def slots_ok_def del: replicate.simps replicate_Suc)

lemma CB_Emplace_rep:
  assumes "cb_rep capacity b xs"
  shows "if length xs = capacity then CB_Emplace v b = Inr (False, b)
         else \<exists>b'. CB_Emplace v b = Inr (True, b') \<and> cb_rep capacity b' (xs @ [v])"
proof -
  let ?n = "capacity + 1"
  obtain all k where b: "cb_capacity b = ?n" "xs = drop k all" "k \<le> length all" "length xs \<le> capacity"
      "cb_head b = length all mod ?n" "cb_tail b = k mod ?n" "slots_ok ?n (cb_objects b) all k"
    using assms by (auto simp: cb_rep_def)
  have len: "k \<le> length all" "length all < k + ?n" using b by auto
  have nxt: "NormalizeIndex ?n (length all mod ?n + 1) = (length all + 1) mod ?n" by (rule NormalizeIndex_mod) simp
  have full_iff: "(length all + 1) mod ?n = k mod ?n \<longleftrightarrow> length xs = capacity"
  proof
    assume "(length all + 1) mod ?n = k mod ?n"
    from full [OF len this] show "length xs = capacity" using b(2) by simp
  next
    assume "length xs = capacity"
    then have "length all + 1 = k + ?n" using b(2,3) by simp
    then show "(length all + 1) mod ?n = k mod ?n" by (simp only: mod_add_self2)
  qed
  show ?thesis
  proof (cases "length xs = capacity")
    case True
    with full_iff nxt b show ?thesis by (simp add: CB_Emplace_def)
  next
    case False
    let ?b = "b\<lparr>cb_objects := (cb_objects b)[length all mod ?n := Some v], cb_head := (length all + 1) mod ?n\<rparr>"
    note push = slots_ok_push [OF b(7) len(2), of v]
    have "CB_Emplace v b = Inr (True, ?b)"
      using False full_iff nxt b push(1) by (simp add: CB_Emplace_def)
    moreover have "cb_rep capacity ?b (xs @ [v])"
      unfolding cb_rep_def using b False push(2) by (intro exI [of _ "all @ [v]"] exI [of _ k]) auto
    ultimately show ?thesis using False by auto
  qed
qed

lemma CB_Pop_loop_ok:
  "slots_ok n slots all k \<Longrightarrow> 0 < n \<Longrightarrow> length all - k \<le> fuel \<Longrightarrow> length all < k + n \<Longrightarrow>
   \<exists>slots'. CB_Pop_loop fuel n (k mod n) (length all mod n) slots objects =
     Inr (length all mod n, slots', objects @ drop k all) \<and> slots_ok n slots' all (length all)"
proof (induction fuel arbitrary: k slots objects)
  case 0
  then have "k = length all" by (simp add: slots_ok_def)
  with 0 show ?case by (auto simp: CB_Pop_loop.simps [of 0])
next
  case (Suc fuel)
  show ?case
  proof (cases "k = length all")
    case False
    with Suc.prems have k: "k < length all" by (simp add: slots_ok_def)
    have "k mod n \<noteq> length all mod n"
      using mod_window_inj [of k n "length all" k] k Suc.prems(4) by auto
    with Suc.prems slots_ok_pop [OF Suc.prems(1) k Suc.prems(2)] k
      Suc.IH [of "slots[k mod n := None]" "k + 1" "objects @ [all ! k]"] NormalizeIndex_mod [of n k]
    show ?thesis by (auto simp: Cons_nth_drop_Suc CB_Pop_loop.simps [of "Suc fuel"])
  qed (use Suc.prems in \<open>auto simp: CB_Pop_loop.simps [of "Suc fuel"]\<close>)
qed

lemma CB_Pop_rep:
  assumes "cb_rep capacity b xs"
  shows "\<exists>b'. CB_Pop objects b = Inr (objects @ xs, b') \<and> cb_rep capacity b' []"
proof -
  let ?n = "capacity + 1"
  obtain all k where b: "cb_capacity b = ?n" "xs = drop k all" "k \<le> length all" "length xs \<le> capacity"
      "cb_head b = length all mod ?n" "cb_tail b = k mod ?n" "slots_ok ?n (cb_objects b) all k"
    using assms by (auto simp: cb_rep_def)
  have "length all < k + ?n" "length all - k \<le> ?n" using b(2-4) by auto
  then obtain slots where loop: "CB_Pop_loop ?n ?n (k mod ?n) (length all mod ?n) (cb_objects b) objects =
      Inr (length all mod ?n, slots, objects @ drop k all)" "slots_ok ?n slots all (length all)"
    using CB_Pop_loop_ok [OF b(7), of ?n objects] by auto
  let ?b = "b\<lparr>cb_objects := slots, cb_tail := length all mod ?n\<rparr>"
  have "CB_Pop objects b = Inr (objects @ xs, ?b)" using b loop(1) by (simp add: CB_Pop_def)
  moreover have "cb_rep capacity ?b []"
    unfolding cb_rep_def using b loop(2) by (intro exI [of _ all] exI [of _ "length all"]) auto
  ultimately show ?thesis by blast
qed

section \<open>Properties\<close>



end
