(* ===== verification/Id_Alloc.thy ===== *)
theory Id_Alloc
  imports Prelude
begin

text \<open>
  The two allocators of numbers: \<^verbatim>\<open>IndexAlloc\<close> (\<^verbatim>\<open>flare/base/internal/index_alloc.cc\<close>), which
  reuses freed indices under a lock, and \<^verbatim>\<open>id_alloc\<close> (\<^verbatim>\<open>flare/base/id_alloc.h\<close>), which hands out
  batches of identifiers from an atomic counter to thread-local caches. Fiber identifiers and
  the correlation identifiers of RPCs come from the latter.
\<close>

section \<open>IndexAlloc\<close>

record IndexAlloc =
  ia_current :: nat
  ia_recycled :: "nat list"

definition IA_new :: IndexAlloc where
  "IA_new = \<lparr>ia_current = 0, ia_recycled = []\<rparr>"

definition IA_Next :: "IndexAlloc \<Rightarrow> nat \<times> IndexAlloc" where
  "IA_Next a =
     (if ia_recycled a \<noteq> []
      then (last (ia_recycled a), a\<lparr>ia_recycled := butlast (ia_recycled a)\<rparr>)
      else (ia_current a, a\<lparr>ia_current := ia_current a + 1\<rparr>))"

definition IA_Free :: "nat \<Rightarrow> IndexAlloc \<Rightarrow> IndexAlloc" where
  "IA_Free index a = a\<lparr>ia_recycled := ia_recycled a @ [index]\<rparr>"

text \<open>The callers free only indices they hold. \<open>live\<close> is the set of indices in use.\<close>

inductive ia_reach :: "IndexAlloc \<Rightarrow> nat set \<Rightarrow> bool" where
  start: "ia_reach IA_new {}"
| next_index: "ia_reach a live \<Longrightarrow> IA_Next a = (i, a') \<Longrightarrow> ia_reach a' (insert i live)"
| free_index: "ia_reach a live \<Longrightarrow> i \<in> live \<Longrightarrow> ia_reach (IA_Free i a) (live - {i})"

definition ia_inv :: "IndexAlloc \<Rightarrow> nat set \<Rightarrow> bool" where
  "ia_inv a live \<longleftrightarrow> distinct (ia_recycled a) \<and> live \<inter> set (ia_recycled a) = {} \<and>
     live \<union> set (ia_recycled a) = {..<ia_current a}"

lemma IA_Next_fresh:
  assumes "ia_inv a live" "IA_Next a = (i, a')"
  shows "i \<notin> live" "ia_inv a' (insert i live)"
proof -
  have "i \<notin> live \<and> ia_inv a' (insert i live)"
  proof (cases "ia_recycled a" rule: rev_cases)
    case Nil
    then have "i = ia_current a" "a' = a\<lparr>ia_current := ia_current a + 1\<rparr>" "live = {..<ia_current a}"
      using assms by (auto simp: ia_inv_def IA_Next_def)
    with Nil show ?thesis by (simp add: ia_inv_def lessThan_Suc)
  next
    case (snoc xs x)
    then have i: "i = x" "a' = a\<lparr>ia_recycled := xs\<rparr>" using assms(2) by (simp_all add: IA_Next_def)
    have "distinct (xs @ [x])" "live \<inter> set (xs @ [x]) = {}" "live \<union> set (xs @ [x]) = {..<ia_current a}"
      using assms(1) snoc by (simp_all only: ia_inv_def)
    then show ?thesis unfolding ia_inv_def i by simp
  qed
  then show "i \<notin> live" "ia_inv a' (insert i live)" by blast+
qed

lemma ia_reach_inv: "ia_reach a live \<Longrightarrow> ia_inv a live"
proof (induction rule: ia_reach.induct)
  case start
  then show ?case by (simp add: ia_inv_def IA_new_def)
next
  case (next_index a live i a')
  then show ?case using IA_Next_fresh by blast
next
  case (free_index a live i)
  have "insert i (live - {i} \<union> set (ia_recycled a)) = live \<union> set (ia_recycled a)"
    using free_index(2) by blast
  with free_index show ?case unfolding ia_inv_def IA_Free_def by simp blast
qed

section \<open>id\_alloc\<close>

record IdTraits =
  kMin :: nat
  kMax :: nat
  kBatchSize :: nat

text \<open>What the \<^verbatim>\<open>static_assert\<close>s demand of the traits.\<close>

definition traits_ok :: "IdTraits \<Rightarrow> bool" where
  "traits_ok T \<longleftrightarrow> kMin T < kMax T \<and> 1 < kBatchSize T \<and> kMin T + kBatchSize T < kMax T"

record IdCache =
  id_current :: nat
  id_max :: nat

text \<open>
  \<^verbatim>\<open>SlowNext\<close> up to the retry: the iteration of the loop whose \<^verbatim>\<open>compare_exchange\<close> succeeds, which
  reads the value of the global counter and replaces it in one step; what earlier iterations
  wrote to the thread-local variables it overwrites. The result is the new cache and counter.
\<close>

definition SlowNext_refill :: "IdTraits \<Rightarrow> nat \<Rightarrow> (IdCache \<times> nat) result" where
  "SlowNext_refill T read =
     check (read \<ge> kMin T) (check (read \<le> kMax T)
       (let current = read;
            (nxt, mx) = (if read > kMax T - kBatchSize T then (kMin T, kMax T)
                         else (read + kBatchSize T, read + kBatchSize T))
        in check (mx \<ge> kMin T) (check (mx \<le> kMax T) (check (current < mx)
             (check (current \<ge> kMin T) (check (current \<le> kMax T)
               (Inr (\<lparr>id_current = current, id_max = mx\<rparr>, nxt))))))))"

text \<open>
  \<^verbatim>\<open>Next\<close> of one thread: the identifier, the new cache and the new counter. After a refill
  \<^verbatim>\<open>current < max\<close> holds, so that the second call of \<^verbatim>\<open>Next\<close> does not refill again.
\<close>

definition IdNext :: "IdTraits \<Rightarrow> IdCache \<Rightarrow> nat \<Rightarrow> (nat \<times> IdCache \<times> nat) result" where
  "IdNext T c global =
     (if id_current c < id_max c
      then Inr (id_current c, c\<lparr>id_current := id_current c + 1\<rparr>, global)
      else rbind (SlowNext_refill T global) (\<lambda>(c, global).
             if id_current c < id_max c
             then Inr (id_current c, c\<lparr>id_current := id_current c + 1\<rparr>, global)
             else Inl Out_of_fuel))"

text \<open>
  Threads calling \<^verbatim>\<open>Next\<close> in any order. \<open>wrapped\<close> says whether the counter has started over at
  \<^verbatim>\<open>kMin\<close>; \<open>issued\<close> are the identifiers handed out, the latest first.
\<close>

record id_state =
  ids_global :: nat
  ids_caches :: "nat \<Rightarrow> IdCache"
  ids_issued :: "nat list"
  ids_wrapped :: bool

definition id_init :: "IdTraits \<Rightarrow> id_state" where
  "id_init T = \<lparr>ids_global = kMin T, ids_caches = (\<lambda>_. \<lparr>id_current = 0, id_max = 0\<rparr>),
                ids_issued = [], ids_wrapped = False\<rparr>"

inductive id_step :: "IdTraits \<Rightarrow> id_state \<Rightarrow> id_state \<Rightarrow> bool" for T where
  "IdNext T (ids_caches s thread) (ids_global s) = Inr (i, c, g) \<Longrightarrow>
   id_step T s \<lparr>ids_global = g, ids_caches = (ids_caches s)(thread := c), ids_issued = i # ids_issued s,
                ids_wrapped = (ids_wrapped s \<or> g < ids_global s)\<rparr>"

inductive id_reach :: "IdTraits \<Rightarrow> id_state \<Rightarrow> bool" for T where
  init: "id_reach T (id_init T)"
| step: "id_reach T s \<Longrightarrow> id_step T s s' \<Longrightarrow> id_reach T s'"

definition cached :: "IdCache \<Rightarrow> nat set" where
  "cached c = {id_current c..<id_max c}"

text \<open>
  Before the counter wraps, what is issued and what is cached by any thread are disjoint parts
  of the range below the counter. \<open>K\<close> gives the cached identifiers of each thread.
\<close>

definition id_unique :: "nat \<Rightarrow> (nat \<Rightarrow> nat set) \<Rightarrow> nat list \<Rightarrow> bool" where
  "id_unique g K issued \<longleftrightarrow>
     distinct issued \<and> set issued \<subseteq> {..<g} \<and> (\<forall>th. K th \<subseteq> {..<g}) \<and>
     (\<forall>th. K th \<inter> set issued = {}) \<and> (\<forall>th th'. th \<noteq> th' \<longrightarrow> K th \<inter> K th' = {})"

definition id_range :: "IdTraits \<Rightarrow> nat \<Rightarrow> (nat \<Rightarrow> nat set) \<Rightarrow> nat list \<Rightarrow> bool" where
  "id_range T g K issued \<longleftrightarrow>
     kMin T \<le> g \<and> g \<le> kMax T \<and> kBatchSize T dvd (g - kMin T) \<and>
     set issued \<subseteq> {kMin T..<kMax T} \<and> (\<forall>th. K th \<subseteq> {kMin T..<kMax T})"

definition id_inv :: "IdTraits \<Rightarrow> id_state \<Rightarrow> bool" where
  "id_inv T s \<longleftrightarrow>
     id_range T (ids_global s) (cached \<circ> ids_caches s) (ids_issued s) \<and>
     (\<not> ids_wrapped s \<longrightarrow> id_unique (ids_global s) (cached \<circ> ids_caches s) (ids_issued s))"

lemma id_unique_take:
  assumes "id_unique g K issued" "K th = insert i k" "i \<notin> k"
  shows "id_unique g (K(th := k)) (i # issued)"
proof -
  have i: "i < g" "i \<notin> set issued" "\<And>th'. th' \<noteq> th \<Longrightarrow> i \<notin> K th'" and k: "k \<subseteq> K th"
    using assms unfolding id_unique_def by blast+
  have sub: "(K(th := k)) th' \<subseteq> K th'" for th' using k by simp
  have "distinct (i # issued)" "set (i # issued) \<subseteq> {..<g}"
    using assms(1) i(1,2) by (simp_all add: id_unique_def)
  moreover have "(K(th := k)) th' \<subseteq> {..<g}" for th'
    using sub [of th'] assms(1) unfolding id_unique_def by blast
  moreover have "(K(th := k)) th' \<inter> set (i # issued) = {}" for th'
  proof -
    have "i \<notin> (K(th := k)) th'" using i(3) assms(3) by simp
    with sub [of th'] assms(1) show ?thesis unfolding id_unique_def by (simp only: list.set) blast
  qed
  moreover have "(K(th := k)) t \<inter> (K(th := k)) t' = {}" if "t \<noteq> t'" for t t'
    using sub [of t] sub [of t'] assms(1) that unfolding id_unique_def by blast
  ultimately show ?thesis unfolding id_unique_def by blast
qed

lemma id_unique_batch:
  assumes u: "id_unique g K issued" and k: "insert i k = {g..<g + b}" "i \<notin> k"
  shows "id_unique (g + b) (K(th := k)) (i # issued)"
proof -
  have i: "g \<le> i" "i < g + b" and kr: "\<And>x. x \<in> k \<Longrightarrow> g \<le> x \<and> x < g + b" using k(1) by auto
  have old: "\<And>x. x \<in> set issued \<Longrightarrow> x < g" "\<And>th x. x \<in> K th \<Longrightarrow> x < g"
    using u unfolding id_unique_def by blast+
  have "distinct (i # issued)" "set (i # issued) \<subseteq> {..<g + b}"
    using u i old(1) by (force simp: id_unique_def)+
  moreover have "(K(th := k)) th' \<subseteq> {..<g + b}" for th'
  proof
    fix x assume "x \<in> (K(th := k)) th'"
    with kr [of x] old(2) [of x th'] show "x \<in> {..<g + b}" by (simp split: if_splits)
  qed
  moreover have "(K(th := k)) th' \<inter> set (i # issued) = {}" for th'
  proof (cases "th' = th")
    case True
    with kr old(1) k(2) show ?thesis by force
  next
    case False
    have "K th' \<inter> set issued = {}" using u by (simp add: id_unique_def)
    with False i old(2) [of i th'] show ?thesis by auto
  qed
  moreover have "(K(th := k)) t \<inter> (K(th := k)) t' = {}" if "t \<noteq> t'" for t t'
  proof -
    have "K t \<inter> K t' = {}" using u that by (simp add: id_unique_def)
    moreover have "k \<inter> K x = {}" for x using kr old(2) [of _ x] by force
    ultimately show ?thesis using that by (auto simp: disjoint_iff)
  qed
  ultimately show ?thesis unfolding id_unique_def by blast
qed

lemma SlowNext_refill_ok:
  assumes T: "traits_ok T" and g: "kMin T \<le> g" "g \<le> kMax T"
  shows "SlowNext_refill T g =
     (if g = kMax T then Inl Check_failed
      else if g > kMax T - kBatchSize T then Inr (\<lparr>id_current = g, id_max = kMax T\<rparr>, kMin T)
      else Inr (\<lparr>id_current = g, id_max = g + kBatchSize T\<rparr>, g + kBatchSize T))"
  using assms by (auto simp: SlowNext_refill_def traits_ok_def check_def)

text \<open>The two ways \<^verbatim>\<open>Next\<close> can go, and what it does to the set of cached identifiers.\<close>

lemma IdNext_cases:
  assumes T: "traits_ok T" and g: "kMin T \<le> g" "g \<le> kMax T" and r: "IdNext T c g = Inr (i, c', g')"
  obtains (cache) "cached c = insert i (cached c')" "i \<notin> cached c'" "g' = g"
    | (batch) "cached c = {}" "insert i (cached c') = {g..<g + kBatchSize T}" "i \<notin> cached c'"
        "g' = g + kBatchSize T" "g' \<le> kMax T"
    | (wrap) "cached c = {}" "insert i (cached c') = {g..<kMax T}" "g' = kMin T" "kMin T < g"
proof (cases "id_current c < id_max c")
  case True
  with r have "i = id_current c" "c' = c\<lparr>id_current := id_current c + 1\<rparr>" "g' = g"
    by (auto simp: IdNext_def)
  with True show ?thesis by (intro cache) (auto simp: cached_def)
next
  case False
  then have empty: "cached c = {}" by (simp add: cached_def)
  from r False have "g \<noteq> kMax T"
    using SlowNext_refill_ok [OF T g] by (auto simp: IdNext_def)
  show ?thesis
  proof (cases "g > kMax T - kBatchSize T")
    case True
    then have "i = g" "c' = \<lparr>id_current = g + 1, id_max = kMax T\<rparr>" "g' = kMin T"
      using r False SlowNext_refill_ok [OF T g] \<open>g \<noteq> kMax T\<close> g by (auto simp: IdNext_def split: if_splits)
    moreover have "kMin T < g" using T True by (auto simp: traits_ok_def)
    ultimately show ?thesis using \<open>g \<noteq> kMax T\<close> g empty by (intro wrap) (auto simp: cached_def)
  next
    case slow: False
    have b: "0 < kBatchSize T" using T by (simp add: traits_ok_def)
    then have "i = g" "c' = \<lparr>id_current = g + 1, id_max = g + kBatchSize T\<rparr>" "g' = g + kBatchSize T"
      using r False slow SlowNext_refill_ok [OF T g] \<open>g \<noteq> kMax T\<close> g by (auto simp: IdNext_def split: if_splits)
    moreover have "g + kBatchSize T \<le> kMax T" using slow T by (auto simp: traits_ok_def)
    ultimately show ?thesis using b empty by (intro batch) (auto simp: cached_def)
  qed
qed

lemma id_step_inv:
  assumes T: "traits_ok T" and inv: "id_inv T s" and step: "id_step T s s'"
  shows "id_inv T s'"
  using step
proof cases
  case (1 thread i c g)
  let ?K = "cached \<circ> ids_caches s" and ?g = "ids_global s"
  have K': "cached \<circ> ids_caches s' = ?K(thread := cached c)" using 1(1) by (auto simp: fun_eq_iff)
  have range: "id_range T ?g ?K (ids_issued s)"
    and uniq: "\<not> ids_wrapped s \<Longrightarrow> id_unique ?g ?K (ids_issued s)"
    using inv by (simp_all add: id_inv_def)
  then have g: "kMin T \<le> ?g" "?g \<le> kMax T" by (simp_all add: id_range_def)
  show ?thesis
  proof (rule IdNext_cases [OF T g 1(2)], goal_cases cache batch wrap)
    case cache
    then have "id_range T g (?K(thread := cached c)) (i # ids_issued s)"
      using range unfolding id_range_def by (simp add: subset_iff) blast
    moreover have "id_unique g (?K(thread := cached c)) (i # ids_issued s)" if "\<not> ids_wrapped s"
      using id_unique_take [OF uniq [OF that], of thread i "cached c"] cache by simp
    ultimately show ?thesis using 1(1) K' cache(3) by (simp add: id_inv_def)
  next
    case batch
    have in_range: "insert i (cached c) \<subseteq> {kMin T..<kMax T}" using batch(2,4,5) g(1) by auto
    have "kBatchSize T dvd (?g - kMin T)" using range by (simp add: id_range_def)
    then have "kBatchSize T dvd (g - kMin T)" using batch(4) g(1) by (metis Nat.diff_add_assoc2 dvd_add dvd_refl)
    then have "id_range T g (?K(thread := cached c)) (i # ids_issued s)"
      using range in_range batch(4,5) g(1) unfolding id_range_def by simp
    moreover have "id_unique g (?K(thread := cached c)) (i # ids_issued s)" if "\<not> ids_wrapped s"
      using id_unique_batch [OF uniq [OF that] batch(2,3)] batch(4) by simp
    ultimately show ?thesis using 1(1) K' by (simp add: id_inv_def)
  next
    case wrap
    have in_range: "insert i (cached c) \<subseteq> {kMin T..<kMax T}" using wrap(2) g(1) by auto
    have "id_range T g (?K(thread := cached c)) (i # ids_issued s)"
      using range in_range wrap(3) T unfolding id_range_def traits_ok_def by simp
    moreover have "ids_wrapped s'" using 1(1) wrap(3,4) by simp
    ultimately show ?thesis using 1(1) K' by (simp add: id_inv_def)
  qed
qed

lemma id_reach_inv:
  assumes "traits_ok T" "id_reach T s"
  shows "id_inv T s"
  using assms(2)
proof induction
  case init
  with assms(1) show ?case
    by (simp add: id_inv_def id_range_def id_unique_def id_init_def cached_def traits_ok_def)
next
  case (step s s')
  then show ?case using id_step_inv [OF assms(1)] by blast
qed

text \<open>Successive refills, by whichever threads, starting from a value of the counter.\<close>

fun refills :: "IdTraits \<Rightarrow> nat \<Rightarrow> nat \<Rightarrow> nat result" where
  "refills T 0 g = Inr g"
| "refills T (Suc n) g = rbind (SlowNext_refill T g) (\<lambda>(_, g'). refills T n g')"

lemma refills_exact:
  assumes T: "traits_ok T"
  shows "kMin T \<le> g \<Longrightarrow> g + n * kBatchSize T \<le> kMax T \<Longrightarrow> refills T n g = Inr (g + n * kBatchSize T)"
proof (induction n arbitrary: g)
  case (Suc n)
  have "0 < kBatchSize T" using T by (simp add: traits_ok_def)
  with Suc.prems have "\<not> g > kMax T - kBatchSize T" "g \<noteq> kMax T" "g \<le> kMax T" by auto
  with Suc.prems SlowNext_refill_ok [OF T, of g] Suc.IH [of "g + kBatchSize T"] show ?case
    by (simp add: add.assoc)
qed simp

lemma refills_total:
  assumes T: "traits_ok T" and nd: "\<not> kBatchSize T dvd (kMax T - kMin T)"
  shows "kMin T \<le> g \<Longrightarrow> g \<le> kMax T \<Longrightarrow> kBatchSize T dvd (g - kMin T) \<Longrightarrow> \<exists>g'. refills T n g = Inr g'"
proof (induction n arbitrary: g)
  case (Suc n)
  have "g \<noteq> kMax T" using Suc.prems(3) nd by auto
  show ?case
  proof (cases "g > kMax T - kBatchSize T")
    case True
    with Suc.prems SlowNext_refill_ok [OF T, of g] \<open>g \<noteq> kMax T\<close> Suc.IH [of "kMin T"] T
    show ?thesis by (simp add: traits_ok_def)
  next
    case False
    have "kBatchSize T dvd (g + kBatchSize T - kMin T)"
      using Suc.prems(1,3) by (metis Nat.diff_add_assoc2 dvd_add dvd_refl)
    moreover have "g + kBatchSize T \<le> kMax T" using False T by (auto simp: traits_ok_def)
    ultimately show ?thesis
      using False Suc.prems SlowNext_refill_ok [OF T, of g] \<open>g \<noteq> kMax T\<close> Suc.IH [of "g + kBatchSize T"] by simp
  qed
qed simp

section \<open>Properties\<close>

text \<open>
  C27. However many threads call \<^verbatim>\<open>id_alloc::Next\<close> in whatever order, every identifier lies between
  \<^verbatim>\<open>kMin\<close> and \<^verbatim>\<open>kMax - 1\<close>, and no identifier is handed out twice until the global counter has
  started over at \<^verbatim>\<open>kMin\<close>.
\<close>

theorem id_alloc_unique:
  assumes "traits_ok T" and "id_reach T s"
  shows "set (ids_issued s) \<subseteq> {kMin T..<kMax T} \<and> (\<not> ids_wrapped s \<longrightarrow> distinct (ids_issued s))"
  using id_reach_inv [OF assms] by (simp add: id_inv_def id_range_def id_unique_def)

theorem id_alloc_unique_witness:
  "\<exists>s. id_reach \<lparr>kMin = 1, kMax = 1000, kBatchSize = 10\<rparr> s \<and> ids_issued s = [1] \<and>
     set (ids_issued s) \<subseteq> {1..<1000} \<and> distinct (ids_issued s)"
proof -
  let ?T = "\<lparr>kMin = 1, kMax = 1000, kBatchSize = 10\<rparr>"
  have T: "traits_ok ?T" by (simp add: traits_ok_def)
  have "IdNext ?T (ids_caches (id_init ?T) 0) (ids_global (id_init ?T)) =
      Inr (1, \<lparr>id_current = 2, id_max = 11\<rparr>, 11)"
    by (simp add: IdNext_def id_init_def SlowNext_refill_def)
  from id_reach.step [OF id_reach.init id_step.intros [OF this]]
  obtain s where "id_reach ?T s" "ids_issued s = [1]" "\<not> ids_wrapped s" by (auto simp: id_init_def)
  with id_alloc_unique [OF T, of s] show ?thesis by auto
qed

text \<open>
  Refilling the cache never fails a check if \<^verbatim>\<open>kBatchSize\<close> does not divide \<^verbatim>\<open>kMax - kMin\<close>. If it
  does, which the static assertions allow, the counter reaches \<^verbatim>\<open>kMax\<close> after exactly
  \<^verbatim>\<open>(kMax - kMin) / kBatchSize\<close> refills, and the next refill aborts the process.
\<close>

theorem id_alloc_refill_abort:
  assumes "traits_ok T"
  shows "if kBatchSize T dvd (kMax T - kMin T)
         then refills T ((kMax T - kMin T) div kBatchSize T) (kMin T) = Inr (kMax T) \<and>
              SlowNext_refill T (kMax T) = Inl Check_failed
         else \<forall>n. \<exists>g. refills T n (kMin T) = Inr g"
proof (cases "kBatchSize T dvd (kMax T - kMin T)")
  case True
  let ?n = "(kMax T - kMin T) div kBatchSize T"
  have "kMin T + ?n * kBatchSize T = kMax T" using True assms by (simp add: traits_ok_def)
  with True refills_exact [OF assms, of "kMin T" ?n] SlowNext_refill_ok [OF assms, of "kMax T"] assms
  show ?thesis by (simp add: traits_ok_def)
next
  case False
  with refills_total [OF assms, of "kMin T"] assms show ?thesis by (simp add: traits_ok_def)
qed

theorem id_alloc_refill_abort_witness:
  "refills \<lparr>kMin = 0, kMax = 100, kBatchSize = 10\<rparr> 10 0 = Inr 100 \<and>
   SlowNext_refill \<lparr>kMin = 0, kMax = 100, kBatchSize = 10\<rparr> 100 = Inl Check_failed"
  using id_alloc_refill_abort [of "\<lparr>kMin = 0, kMax = 100, kBatchSize = 10\<rparr>"] by (simp add: traits_ok_def)

text \<open>
  \<^verbatim>\<open>IndexAlloc::Next\<close> never returns an index that is in use, and all indices ever returned are
  below the largest number of indices that were handed out or waiting for reuse at once.
\<close>

theorem index_alloc_fresh:
  assumes "ia_reach a live" and "IA_Next a = (i, a')"
  shows "i \<notin> live \<and> live \<union> set (ia_recycled a) = {..<ia_current a} \<and> i \<le> ia_current a"
proof -
  note inv = ia_reach_inv [OF assms(1)]
  have "i \<le> ia_current a"
  proof (cases "ia_recycled a" rule: rev_cases)
    case Nil
    with assms(2) show ?thesis by (simp add: IA_Next_def)
  next
    case (snoc xs x)
    then have "i \<in> set (ia_recycled a)" using assms(2) by (simp add: IA_Next_def)
    then have "i \<in> {..<ia_current a}" using inv unfolding ia_inv_def by blast
    then show ?thesis by simp
  qed
  with IA_Next_fresh(1) [OF inv assms(2)] inv show ?thesis by (simp add: ia_inv_def)
qed

theorem index_alloc_fresh_witness:
  "ia_reach \<lparr>ia_current = 1, ia_recycled = []\<rparr> {0} \<and> fst (IA_Next \<lparr>ia_current = 1, ia_recycled = []\<rparr>) \<notin> {0}"
proof -
  have "ia_reach \<lparr>ia_current = 1, ia_recycled = []\<rparr> (insert 0 {})"
    by (rule ia_reach.next_index [OF ia_reach.start]) (simp add: IA_Next_def IA_new_def)
  then have reach: "ia_reach \<lparr>ia_current = 1, ia_recycled = []\<rparr> {0}" by simp
  with index_alloc_fresh [OF reach, of 1 "\<lparr>ia_current = 2, ia_recycled = []\<rparr>"] show ?thesis
    by (simp add: IA_Next_def)
qed

end
