(* ===== verification/Rate_Limiter.thy ===== *)
theory Rate_Limiter
  imports Prelude Strings
begin

text \<open>
  Bandwidth limiting (\<^verbatim>\<open>flare/io/util/rate_limiter.{h,cc}\<close>): the token bucket, the wrapper that
  shares a limiter between threads, the layered limiter and the limiters made from the command line
  flags. The clock is an argument of the operations that read it, in ticks. \<^verbatim>\<open>curr_quota_\<close> is a
  64-bit signed integer, and its arithmetic is written out with its wrap-around.

  The locale \<open>rate_limiter\<close> is the contract of \<^verbatim>\<open>RateLimiter\<close>: a budget that grows at a fixed
  rate, from which quotas are granted and consumed bytes are subtracted. What several clients of a
  shared limiter can consume in total is proved from this contract alone.
\<close>

section \<open>Limiters\<close>

definition int64 :: "int \<Rightarrow> int" where
  "int64 z = signed_take_bit 63 z"

record TokenBucket =
  max_quota :: nat
  quota_per_tick :: nat
  over_consumption_allowed :: bool
  last_refill :: nat
  curr_quota :: int

definition TB_new :: "nat \<Rightarrow> nat \<Rightarrow> bool \<Rightarrow> nat \<Rightarrow> TokenBucket result" where
  "TB_new burst_quota per_tick over now =
     check (burst_quota > 0) (check (per_tick > 0)
       (Inr \<lparr>max_quota = burst_quota, quota_per_tick = per_tick, over_consumption_allowed = over,
             last_refill = now, curr_quota = int64 (int burst_quota)\<rparr>))"

definition TB_GetQuota :: "TokenBucket \<Rightarrow> nat \<Rightarrow> nat \<times> TokenBucket" where
  "TB_GetQuota b now =
     (let curr = int64 (curr_quota b + int (quota_per_tick b) * (int now - int (last_refill b)));
          b = b\<lparr>last_refill := now, curr_quota := curr\<rparr>
      in if curr > 0
         then let curr = min (nat curr) (max_quota b) in (curr, b\<lparr>curr_quota := int curr\<rparr>)
         else (0, b))"

text \<open>
  The comparison in the check converts \<^verbatim>\<open>curr_quota_\<close> to an unsigned integer.
\<close>

definition TB_ConsumeBytes :: "TokenBucket \<Rightarrow> nat \<Rightarrow> TokenBucket result" where
  "TB_ConsumeBytes b consumed =
     check (over_consumption_allowed b \<or> int consumed \<le> curr_quota b mod 2 ^ 64)
       (Inr (b\<lparr>curr_quota := int64 (curr_quota b - int consumed)\<rparr>))"

definition Null_GetQuota :: "unit \<Rightarrow> nat \<Rightarrow> nat \<times> unit" where
  "Null_GetQuota u now = (2 ^ 64 - 1, u)"

definition Null_ConsumeBytes :: "unit \<Rightarrow> nat \<Rightarrow> unit result" where
  "Null_ConsumeBytes u consumed = Inr u"

text \<open>
  The wrappers call their limiters through virtual functions, so that they take the operations of
  the limiters they wrap as arguments. What is done under the lock is one step.
\<close>

record 's ThreadSafe =
  burst_limit :: nat
  ts_impl :: 's

definition TS_new :: "'s \<Rightarrow> nat \<Rightarrow> 's ThreadSafe result" where
  "TS_new limiter limit = check (limit > 0) (Inr \<lparr>burst_limit = limit, ts_impl = limiter\<rparr>)"

definition TS_GetQuota :: "('s \<Rightarrow> nat \<Rightarrow> nat \<times> 's) \<Rightarrow> 's ThreadSafe \<Rightarrow> nat \<Rightarrow> nat \<times> 's ThreadSafe" where
  "TS_GetQuota getq l now =
     (let (q, impl) = getq (ts_impl l) now in (min (burst_limit l) q, l\<lparr>ts_impl := impl\<rparr>))"

definition TS_ConsumeBytes :: "('s \<Rightarrow> nat \<Rightarrow> 's result) \<Rightarrow> 's ThreadSafe \<Rightarrow> nat \<Rightarrow> 's ThreadSafe result" where
  "TS_ConsumeBytes cons l consumed = rbind (cons (ts_impl l) consumed) (\<lambda>impl. Inr (l\<lparr>ts_impl := impl\<rparr>))"

record ('u, 'o) Layered =
  upper :: 'u
  ours :: 'o

definition LR_GetQuota ::
  "('u \<Rightarrow> nat \<Rightarrow> nat \<times> 'u) \<Rightarrow> ('o \<Rightarrow> nat \<Rightarrow> nat \<times> 'o) \<Rightarrow> ('u, 'o) Layered \<Rightarrow> nat \<Rightarrow> nat \<times> ('u, 'o) Layered" where
  "LR_GetQuota getq_upper getq_ours l now =
     (let (qu, u) = getq_upper (upper l) now; (qo, ou) = getq_ours (ours l) now
      in (min qu qo, \<lparr>upper = u, ours = ou\<rparr>))"

definition LR_ConsumeBytes ::
  "('u \<Rightarrow> nat \<Rightarrow> 'u result) \<Rightarrow> ('o \<Rightarrow> nat \<Rightarrow> 'o result) \<Rightarrow> ('u, 'o) Layered \<Rightarrow> nat \<Rightarrow> ('u, 'o) Layered result" where
  "LR_ConsumeBytes cons_upper cons_ours l consumed =
     rbind (cons_upper (upper l) consumed) (\<lambda>u.
       rbind (cons_ours (ours l) consumed) (\<lambda>ou. Inr \<lparr>upper = u, ours = ou\<rparr>))"

section \<open>The limiters of the flags\<close>

definition kScales :: "char \<Rightarrow> nat option" where
  "kScales c = (if c = CHR ''K'' then Some 1000
                else if c = CHR ''M'' then Some (1000 * 1000)
                else if c = CHR ''G'' then Some (1000 * 1000 * 1000) else None)"

definition ParseToBps :: "string \<Rightarrow> nat result" where
  "ParseToBps s =
     check (s \<noteq> [])
       (let (scale, s) = (case kScales (last s) of Some k \<Rightarrow> (k, butlast s) | None \<Rightarrow> (1, s))
        in case TryParse_integral 0 (2 ^ 64 - 1) 10 s of
             None \<Rightarrow> Inl Check_failed
           | Some v \<Rightarrow>
               let base = nat v; product = base * scale mod 2 ^ 64
               in check (product div scale = base) (Inr (product div 8)))"

datatype RateLimiter = NullLimiter | ThreadSafeRateLimiter "TokenBucket ThreadSafe"

definition GetRateLimiterOf :: "nat \<Rightarrow> nat \<Rightarrow> RateLimiter result" where
  "GetRateLimiterOf bps now =
     (if bps = 0 then Inr NullLimiter
      else rbind (TB_new bps (bps div 1000) True now) (\<lambda>b.
             rbind (TS_new b (bps div 10)) (\<lambda>l. Inr (ThreadSafeRateLimiter l))))"

definition GetDefaultRateLimiter :: "string \<Rightarrow> nat \<Rightarrow> RateLimiter result" where
  "GetDefaultRateLimiter flag now = rbind (ParseToBps flag) (\<lambda>bps. GetRateLimiterOf bps now)"

section \<open>Clients of a limiter\<close>

text \<open>
  A number of clients share a limiter. Each asks for a quota, of which it means to use all or a
  part, and consumes at most that; in between any other client may do either. \<open>cl_granted\<close> is the rest of the last grant
  of each client, \<open>cl_total\<close> what all of them have consumed.
\<close>

record 's clients =
  cl_limiter :: 's
  cl_now :: nat
  cl_granted :: "nat list"
  cl_total :: nat

inductive client_step ::
  "('s \<Rightarrow> nat \<Rightarrow> nat \<times> 's) \<Rightarrow> ('s \<Rightarrow> nat \<Rightarrow> 's result) \<Rightarrow> 's clients \<Rightarrow> 's clients \<Rightarrow> bool" for getq cons where
  tick: "cl_now c \<le> t \<Longrightarrow> client_step getq cons c (c\<lparr>cl_now := t\<rparr>)"
| quota: "i < length (cl_granted c) \<Longrightarrow> getq (cl_limiter c) (cl_now c) = (q, l) \<Longrightarrow> g \<le> q \<Longrightarrow>
    client_step getq cons c (c\<lparr>cl_limiter := l, cl_granted := (cl_granted c)[i := g]\<rparr>)"
| consume: "i < length (cl_granted c) \<Longrightarrow> n \<le> cl_granted c ! i \<Longrightarrow> cons (cl_limiter c) n = Inr l \<Longrightarrow>
    client_step getq cons c
      (c\<lparr>cl_limiter := l, cl_granted := (cl_granted c)[i := cl_granted c ! i - n], cl_total := cl_total c + n\<rparr>)"

inductive client_run ::
  "('s \<Rightarrow> nat \<Rightarrow> nat \<times> 's) \<Rightarrow> ('s \<Rightarrow> nat \<Rightarrow> 's result) \<Rightarrow> 's clients \<Rightarrow> 's clients \<Rightarrow> bool" for getq cons c where
  refl: "client_run getq cons c c"
| step: "client_run getq cons c c' \<Longrightarrow> client_step getq cons c' c'' \<Longrightarrow> client_run getq cons c c''"

lemma sum_list_update_int:
  "i < length xs \<Longrightarrow> int (sum_list (xs[i := x])) = int (sum_list xs) - int (xs ! i) + int x"
  by (induction xs arbitrary: i) (auto split: nat.split)

lemma client_step_now: "client_step getq cons c c' \<Longrightarrow> cl_now c \<le> cl_now c'"
  by (cases rule: client_step.cases) auto

lemma client_run_now: "client_run getq cons c c' \<Longrightarrow> cl_now c \<le> cl_now c'"
  by (induction rule: client_run.induct) (auto dest: client_step_now)

section \<open>The contract of a limiter\<close>

locale rate_limiter =
  fixes getq :: "'s \<Rightarrow> nat \<Rightarrow> nat \<times> 's"
    and cons :: "'s \<Rightarrow> nat \<Rightarrow> 's result"
    and ok :: "'s \<Rightarrow> nat \<Rightarrow> bool"
    and budget :: "'s \<Rightarrow> nat \<Rightarrow> int"
    and rate :: nat and burst :: nat and horizon :: nat and slack :: nat
  assumes later: "ok s t \<Longrightarrow> t \<le> t' \<Longrightarrow> t' \<le> horizon \<Longrightarrow>
        ok s t' \<and> budget s t' = budget s t + int rate * (int t' - int t)"
    and grant: "ok s t \<Longrightarrow> getq s t = (q, s') \<Longrightarrow>
        ok s' t \<and> budget s' t \<le> budget s t \<and> q \<le> burst \<and>
        (if budget s' t > 0 then int q \<le> budget s' t else q = 0 \<and> budget s' t = budget s t)"
    and charge: "ok s t \<Longrightarrow> int n \<le> budget s t + int slack \<Longrightarrow>
        \<exists>s'. cons s n = Inr s' \<and> ok s' t \<and> budget s' t = budget s t - int n"
begin

definition granted_ok :: "'s clients \<Rightarrow> bool" where
  "granted_ok c \<longleftrightarrow>
     ok (cl_limiter c) (cl_now c) \<and> (\<forall>q \<in> set (cl_granted c). q \<le> burst) \<and>
     int (sum_list (cl_granted c)) \<le>
       budget (cl_limiter c) (cl_now c) + int (length (cl_granted c) - 1) * int burst"

lemma sum_others:
  assumes "i < length gs" "\<forall>q \<in> set gs. q \<le> burst"
  shows "int (sum_list gs) - int (gs ! i) \<le> int (length gs - 1) * int burst"
  using assms
proof (induction gs arbitrary: i)
  case (Cons g gs)
  show ?case
  proof (cases i)
    case 0
    have "sum_list gs \<le> length gs * burst" using Cons.prems(2) by (induction gs) auto
    then show ?thesis using 0 by (simp flip: of_nat_mult)
  next
    case (Suc j)
    then have "gs \<noteq> []" "j < length gs" using Cons.prems(1) by auto
    with Cons.IH [of j] Cons.prems(2) Suc show ?thesis
      by (cases gs) (auto simp: algebra_simps)
  qed
qed simp

text \<open>No step fails, and every step keeps the grants within the budget.\<close>

lemma step_granted:
  assumes step: "client_step getq cons c c'" and ok: "granted_ok c" and bound: "cl_now c' \<le> horizon"
    and clients: "(length (cl_granted c) - 1) * burst \<le> slack"
  shows "granted_ok c' \<and>
     budget (cl_limiter c') (cl_now c') + int (cl_total c') \<le>
       budget (cl_limiter c) (cl_now c) + int (cl_total c) + int rate * (int (cl_now c') - int (cl_now c))"
  using step
proof cases
  case (tick t)
  have "ok (cl_limiter c) t" "budget (cl_limiter c) t = budget (cl_limiter c) (cl_now c) + int rate * (int t - int (cl_now c))"
    using later [of "cl_limiter c" "cl_now c" t] ok tick bound by (auto simp: granted_ok_def)
  moreover have "0 \<le> int rate * (int t - int (cl_now c))" using tick by simp
  ultimately show ?thesis using ok tick(1) by (auto simp: granted_ok_def)
next
  case (quota i q l g)
  let ?gs = "cl_granted c"
  have c': "cl_limiter c' = l" "cl_now c' = cl_now c" "cl_granted c' = ?gs[i := g]" "cl_total c' = cl_total c"
    using quota(1) by simp_all
  note gr = grant [of "cl_limiter c" "cl_now c", OF _ quota(3)]
  have ok1: "ok (cl_limiter c) (cl_now c)" "\<forall>q \<in> set ?gs. q \<le> burst"
    using ok by (simp_all add: granted_ok_def)
  have le: "g \<le> q" by (rule quota(4))
  have bnd: "\<forall>q \<in> set (?gs[i := g]). q \<le> burst"
    using ok1(2) gr [OF ok1(1)] le by (auto dest!: set_update_subset_insert [THEN subsetD])
  have "int (sum_list (?gs[i := g])) \<le> budget l (cl_now c) + int (length ?gs - 1) * int burst"
  proof (cases "budget l (cl_now c) > 0")
    case True
    with le gr [OF ok1(1)] sum_others [OF quota(2) ok1(2)] sum_list_update_int [OF quota(2), of g] show ?thesis by simp
  next
    case False
    with le gr [OF ok1(1)] ok sum_list_update_int [OF quota(2), of g] show ?thesis by (simp add: granted_ok_def)
  qed
  with bnd gr [OF ok1(1)] show ?thesis by (simp add: granted_ok_def c')
next
  case (consume i n l)
  let ?gs = "cl_granted c" and ?b = "budget (cl_limiter c) (cl_now c)"
  have c': "cl_limiter c' = l" "cl_now c' = cl_now c" "cl_granted c' = ?gs[i := ?gs ! i - n]"
      "cl_total c' = cl_total c + n"
    using consume(1) by simp_all
  have bnd: "\<forall>q \<in> set (?gs[i := ?gs ! i - n]). q \<le> burst"
    using ok consume(2) unfolding granted_ok_def
    by (auto dest!: set_update_subset_insert [THEN subsetD] nth_mem)
  have "n \<le> sum_list ?gs" using consume(2,3) by (meson elem_le_sum_list le_trans)
  moreover have "int (length ?gs - 1) * int burst \<le> int slack" using clients by (simp flip: of_nat_mult)
  ultimately have "int n \<le> ?b + int slack" using ok by (simp add: granted_ok_def)
  then obtain "ok l (cl_now c)" "budget l (cl_now c) = ?b - int n"
    using charge [of "cl_limiter c" "cl_now c" n] ok consume(4) by (auto simp: granted_ok_def)
  with bnd ok sum_list_update_int [OF consume(2), of "?gs ! i - n"] consume(3) show ?thesis
    by (simp add: granted_ok_def c' of_nat_diff)
qed

lemma run_granted:
  assumes "client_run getq cons c c'" "granted_ok c" "cl_now c' \<le> horizon"
    "(length (cl_granted c) - 1) * burst \<le> slack"
  shows "granted_ok c' \<and> cl_now c \<le> cl_now c' \<and> length (cl_granted c') = length (cl_granted c) \<and>
     budget (cl_limiter c') (cl_now c') + int (cl_total c') \<le>
       budget (cl_limiter c) (cl_now c) + int (cl_total c) + int rate * (int (cl_now c') - int (cl_now c))"
  using assms
proof (induction)
  case (step c' c'')
  have now: "cl_now c' \<le> cl_now c''" and len: "length (cl_granted c'') = length (cl_granted c')"
    using step.hyps(2) by (auto elim: client_step.cases)
  note IH = step.IH [OF step.prems(1) le_trans [OF now step.prems(2)] step.prems(3)]
  with step_granted [OF step.hyps(2) _ step.prems(2)] step.prems(3) now len show ?case
    by (auto simp: algebra_simps)
qed simp

text \<open>What all clients together can consume.\<close>

lemma total_bounded:
  assumes "client_run getq cons c c'" "granted_ok c" "cl_now c' \<le> horizon"
    "(length (cl_granted c) - 1) * burst \<le> slack"
  shows "int (cl_total c') \<le> int (cl_total c) + budget (cl_limiter c) (cl_now c) +
     int rate * (int (cl_now c') - int (cl_now c)) + int (length (cl_granted c) - 1) * int burst"
proof -
  note r = run_granted [OF assms]
  then have "0 \<le> budget (cl_limiter c') (cl_now c') + int (length (cl_granted c) - 1) * int burst"
    by (auto simp: granted_ok_def)
  with r show ?thesis by linarith
qed

text \<open>A client may always consume what it was granted.\<close>

lemma consume_succeeds:
  assumes "client_run getq cons c c'" "granted_ok c" "cl_now c' \<le> horizon"
    "(length (cl_granted c) - 1) * burst \<le> slack"
    and "i < length (cl_granted c')" "n \<le> cl_granted c' ! i"
  shows "\<exists>l. cons (cl_limiter c') n = Inr l"
proof -
  note r = run_granted [OF assms(1-4)]
  have "n \<le> sum_list (cl_granted c')" using assms(5,6) by (meson elem_le_sum_list le_trans)
  moreover have "int (length (cl_granted c) - 1) * int burst \<le> int slack" using assms(4) by (simp flip: of_nat_mult)
  ultimately have "int n \<le> budget (cl_limiter c') (cl_now c') + int slack" using r by (auto simp: granted_ok_def)
  with charge [of "cl_limiter c'" "cl_now c'" n] r show ?thesis by (auto simp: granted_ok_def)
qed

end

section \<open>The token bucket meets the contract\<close>

lemma int64_id: "- (2 ^ 63) \<le> z \<Longrightarrow> z < 2 ^ 63 \<Longrightarrow> int64 z = z"
  unfolding int64_def by (rule signed_take_bit_int_eq_self) simp_all

text \<open>
  The budget of a bucket is its quota with what it would be refilled with now. The bucket is in
  order up to a point in time if the refills until then do not overflow.
\<close>

definition tb_budget :: "TokenBucket \<Rightarrow> nat \<Rightarrow> int" where
  "tb_budget b t = curr_quota b + int (quota_per_tick b) * (int t - int (last_refill b))"

definition tb_ok :: "nat \<Rightarrow> nat \<Rightarrow> TokenBucket \<Rightarrow> nat \<Rightarrow> bool" where
  "tb_ok rate horizon b t \<longleftrightarrow>
     over_consumption_allowed b \<and> 0 < max_quota b \<and> quota_per_tick b = rate \<and>
     last_refill b \<le> t \<and> t \<le> horizon \<and> max_quota b + rate * horizon < 2 ^ 62 \<and>
     curr_quota b \<le> int (max_quota b) \<and> - (2 ^ 62) \<le> tb_budget b t"

lemma tb_budget_later:
  "tb_budget b t' = tb_budget b t + int (quota_per_tick b) * (int t' - int t)"
  by (simp add: tb_budget_def algebra_simps)

lemma tb_refill_bound:
  assumes "tb_ok rate horizon b t"
  shows "int rate * (int t - int (last_refill b)) < 2 ^ 62 - int (max_quota b)"
    "0 \<le> int rate * (int t - int (last_refill b))"
proof -
  have "t - last_refill b \<le> horizon" using assms by (auto simp: tb_ok_def)
  then have "rate * (t - last_refill b) \<le> rate * horizon" by (rule mult_le_mono2)
  moreover have "max_quota b + rate * horizon < 2 ^ 62" using assms by (simp add: tb_ok_def)
  ultimately have "max_quota b + rate * (t - last_refill b) < 2 ^ 62" by (rule le_less_trans [OF add_left_mono])
  then have "int (max_quota b + rate * (t - last_refill b)) < int (2 ^ 62)" by (simp only: of_nat_less_iff)
  then show "int rate * (int t - int (last_refill b)) < 2 ^ 62 - int (max_quota b)"
    "0 \<le> int rate * (int t - int (last_refill b))"
    using assms by (auto simp: tb_ok_def of_nat_diff)
qed

lemma tb_budget_small:
  assumes "tb_ok rate horizon b t"
  shows "tb_budget b t < 2 ^ 62"
  using tb_refill_bound [OF assms] assms by (auto simp: tb_budget_def tb_ok_def)

lemma TB_GetQuota_ok:
  assumes "tb_ok rate horizon b t"
  shows "TB_GetQuota b t =
     (if tb_budget b t > 0
      then (min (nat (tb_budget b t)) (max_quota b),
            b\<lparr>last_refill := t, curr_quota := min (tb_budget b t) (int (max_quota b))\<rparr>)
      else (0, b\<lparr>last_refill := t, curr_quota := tb_budget b t\<rparr>))"
proof -
  have "- (2 ^ 62) \<le> tb_budget b t" using assms by (simp add: tb_ok_def)
  then have "int64 (tb_budget b t) = tb_budget b t" using tb_budget_small [OF assms] by (intro int64_id) auto
  then show ?thesis by (auto simp: TB_GetQuota_def Let_def tb_budget_def min_def)
qed

lemma TB_ConsumeBytes_ok:
  assumes "tb_ok rate horizon b t" "int n \<le> tb_budget b t + 2 ^ 62"
  shows "TB_ConsumeBytes b n = Inr (b\<lparr>curr_quota := curr_quota b - int n\<rparr>)"
proof -
  have "int64 (curr_quota b - int n) = curr_quota b - int n"
    using assms(2) tb_refill_bound [OF assms(1)] assms(1)
    by (intro int64_id) (auto simp: tb_ok_def tb_budget_def)
  with assms(1) show ?thesis by (simp add: TB_ConsumeBytes_def tb_ok_def)
qed

definition ts_ok :: "nat \<Rightarrow> nat \<Rightarrow> nat \<Rightarrow> TokenBucket ThreadSafe \<Rightarrow> nat \<Rightarrow> bool" where
  "ts_ok rate burst horizon l t \<longleftrightarrow> burst_limit l = burst \<and> tb_ok rate horizon (ts_impl l) t"

definition ts_budget :: "TokenBucket ThreadSafe \<Rightarrow> nat \<Rightarrow> int" where
  "ts_budget l t = tb_budget (ts_impl l) t"

lemma ts_grant:
  assumes "ts_ok rate burst horizon l t" "TS_GetQuota TB_GetQuota l t = (q, l')"
  shows "ts_ok rate burst horizon l' t \<and> ts_budget l' t \<le> ts_budget l t \<and> q \<le> burst \<and>
     (if ts_budget l' t > 0 then int q \<le> ts_budget l' t else q = 0 \<and> ts_budget l' t = ts_budget l t)"
proof -
  have ok: "tb_ok rate horizon (ts_impl l) t" using assms(1) by (simp add: ts_ok_def)
  with assms TB_GetQuota_ok [OF ok] show ?thesis
    by (auto simp: TS_GetQuota_def ts_ok_def ts_budget_def tb_ok_def tb_budget_def split: if_splits)
qed

interpretation tsb: rate_limiter "TS_GetQuota TB_GetQuota" "TS_ConsumeBytes TB_ConsumeBytes"
  "ts_ok rate burst horizon" ts_budget rate burst horizon "2 ^ 62" for rate burst horizon
proof
  fix s t t'
  assume *: "ts_ok rate burst horizon s t" "t \<le> t'" "t' \<le> horizon"
  then have "ts_budget s t \<le> ts_budget s t'" using tb_budget_later [of "ts_impl s" t' t] by (simp add: ts_budget_def)
  moreover have "- (2 ^ 62) \<le> ts_budget s t" "quota_per_tick (ts_impl s) = rate"
    using * by (simp_all add: ts_ok_def tb_ok_def ts_budget_def)
  ultimately have "- (2 ^ 62) \<le> ts_budget s t'" by linarith
  then show "ts_ok rate burst horizon s t' \<and> ts_budget s t' = ts_budget s t + int rate * (int t' - int t)"
    using * \<open>quota_per_tick (ts_impl s) = rate\<close> tb_budget_later [of "ts_impl s" t' t] by (simp add: ts_ok_def tb_ok_def ts_budget_def)
next
  fix s t q s'
  assume "ts_ok rate burst horizon s t" "TS_GetQuota TB_GetQuota s t = (q, s')"
  then show "ts_ok rate burst horizon s' t \<and> ts_budget s' t \<le> ts_budget s t \<and> q \<le> burst \<and>
     (if ts_budget s' t > 0 then int q \<le> ts_budget s' t else q = 0 \<and> ts_budget s' t = ts_budget s t)"
    by (rule ts_grant)
next
  fix s t n
  assume *: "ts_ok rate burst horizon s t" "int n \<le> ts_budget s t + int (2 ^ 62)"
  then have "TB_ConsumeBytes (ts_impl s) n = Inr ((ts_impl s)\<lparr>curr_quota := curr_quota (ts_impl s) - int n\<rparr>)"
    by (intro TB_ConsumeBytes_ok) (auto simp: ts_ok_def ts_budget_def)
  with * show "\<exists>s'. TS_ConsumeBytes TB_ConsumeBytes s n = Inr s' \<and> ts_ok rate burst horizon s' t \<and>
      ts_budget s' t = ts_budget s t - int n"
    by (auto simp: TS_ConsumeBytes_def ts_ok_def ts_budget_def tb_ok_def tb_budget_def)
qed

lemma GetRateLimiterOf_cases:
  assumes "bps < 2 ^ 62"
  shows "GetRateLimiterOf bps now =
     (if bps = 0 then Inr NullLimiter
      else if bps < 1000 then Inl Check_failed
      else Inr (ThreadSafeRateLimiter
        \<lparr>burst_limit = bps div 10,
         ts_impl = \<lparr>max_quota = bps, quota_per_tick = bps div 1000, over_consumption_allowed = True,
                    last_refill = now, curr_quota = int bps\<rparr>\<rparr>))"
proof -
  have "int bps < int (2 ^ 62)" using assms by (simp only: of_nat_less_iff)
  then have "int64 (int bps) = int bps" by (intro int64_id) simp_all
  moreover have "bps div 1000 > 0 \<longleftrightarrow> 1000 \<le> bps" by (simp add: div_greater_zero_iff)
  moreover have "bps div 10 > 0 \<longleftrightarrow> 10 \<le> bps" by (simp add: div_greater_zero_iff)
  ultimately show ?thesis by (auto simp: GetRateLimiterOf_def TB_new_def TS_new_def check_def)
qed

lemma default_limiter_ok:
  assumes "GetRateLimiterOf bps now = Inr (ThreadSafeRateLimiter l)"
    and "bps + bps div 1000 * horizon < 2 ^ 62" "now \<le> horizon"
  shows "ts_ok (bps div 1000) (bps div 10) horizon l now" "ts_budget l now = int bps"
proof -
  have "bps < 2 ^ 62" using assms(2) by simp
  with assms(1) have "0 < bps" and l: "l = \<lparr>burst_limit = bps div 10,
         ts_impl = \<lparr>max_quota = bps, quota_per_tick = bps div 1000, over_consumption_allowed = True,
                    last_refill = now, curr_quota = int bps\<rparr>\<rparr>"
    by (auto simp: GetRateLimiterOf_cases split: if_splits)
  with assms(2,3) show "ts_ok (bps div 1000) (bps div 10) horizon l now" "ts_budget l now = int bps"
    by (simp_all add: ts_ok_def tb_ok_def ts_budget_def tb_budget_def)
qed

lemma print_nat_last: "is_digit 10 (last (print_nat n))" "print_nat n \<noteq> []"
  using print_nat_digits [of n] by (auto simp: list_all_iff)

text \<open>
  Clients of a layered limiter are at the same time clients of its upper limiter and of its own, so
  that what bounds either bounds them.
\<close>

definition on_limiter :: "('s \<Rightarrow> 't) \<Rightarrow> 's clients \<Rightarrow> 't clients" where
  "on_limiter f c =
     \<lparr>cl_limiter = f (cl_limiter c), cl_now = cl_now c, cl_granted = cl_granted c, cl_total = cl_total c\<rparr>"

lemma layered_step:
  assumes "client_step (LR_GetQuota gu go) (LR_ConsumeBytes cu co) c c'"
  shows "client_step gu cu (on_limiter upper c) (on_limiter upper c')"
    "client_step go co (on_limiter ours c) (on_limiter ours c')"
proof -
  have "client_step gu cu (on_limiter upper c) (on_limiter upper c') \<and>
      client_step go co (on_limiter ours c) (on_limiter ours c')"
    using assms
  proof cases
    case (tick t)
    then show ?thesis
      using client_step.tick [of "on_limiter upper c" t] client_step.tick [of "on_limiter ours c" t]
      by (simp add: on_limiter_def)
  next
    case (quota i q l g)
    then show ?thesis
      using client_step.quota [of i "on_limiter upper c" gu "fst (gu (upper (cl_limiter c)) (cl_now c))" "upper l" g cu]
        client_step.quota [of i "on_limiter ours c" go "fst (go (ours (cl_limiter c)) (cl_now c))" "ours l" g co]
      by (auto simp: on_limiter_def LR_GetQuota_def split: prod.splits)
  next
    case (consume i n l)
    then show ?thesis
      using client_step.consume [of i "on_limiter upper c" n cu "upper l" gu]
        client_step.consume [of i "on_limiter ours c" n co "ours l" go]
      by (auto simp: on_limiter_def LR_ConsumeBytes_def rbind_eq_Inr_iff)
  qed
  then show "client_step gu cu (on_limiter upper c) (on_limiter upper c')"
    "client_step go co (on_limiter ours c) (on_limiter ours c')" by simp_all
qed

lemma layered_run:
  assumes "client_run (LR_GetQuota gu go) (LR_ConsumeBytes cu co) c c'"
  shows "client_run gu cu (on_limiter upper c) (on_limiter upper c') \<and>
     client_run go co (on_limiter ours c) (on_limiter ours c')"
  using assms by induction (auto intro: client_run.intros layered_step)

section \<open>Properties\<close>

text \<open>
  C18. Clients that share the default limiter of a bandwidth cap of \<open>bps\<close> bytes per second, and
  that consume no more than they were granted, may always consume what they were granted, and
  together never consume more than the initial burst \<open>bps\<close>, plus \<open>bps div 1000\<close> for each
  millisecond that has passed, plus one grant of at most \<open>bps div 10\<close> for each client but one,
  however their calls interleave (while these figures fit a 64-bit integer).
\<close>

theorem shared_limiter_caps_throughput:
  assumes "GetRateLimiterOf bps now = Inr (ThreadSafeRateLimiter l)"
    and "client_run (TS_GetQuota TB_GetQuota) (TS_ConsumeBytes TB_ConsumeBytes)
           \<lparr>cl_limiter = l, cl_now = now, cl_granted = replicate k 0, cl_total = 0\<rparr> c"
    and "bps + bps div 1000 * cl_now c < 2 ^ 62" and "(k - 1) * (bps div 10) \<le> 2 ^ 62"
  shows "cl_total c \<le> bps + bps div 1000 * (cl_now c - now) + (k - 1) * (bps div 10) \<and>
     (i < length (cl_granted c) \<and> n \<le> cl_granted c ! i \<longrightarrow>
        (\<exists>l'. TS_ConsumeBytes TB_ConsumeBytes (cl_limiter c) n = Inr l'))"
proof -
  let ?c = "\<lparr>cl_limiter = l, cl_now = now, cl_granted = replicate k 0, cl_total = 0\<rparr>"
  have le: "now \<le> cl_now c" using client_run_now [OF assms(2)] by simp
  note ok = default_limiter_ok [OF assms(1,3) le]
  have g: "tsb.granted_ok (bps div 1000) (bps div 10) (cl_now c) ?c"
    using ok by (auto simp: tsb.granted_ok_def sum_list_replicate)
  from tsb.total_bounded [OF assms(2) g] assms(4) ok(2)
  have "int (cl_total c) \<le> int bps + int (bps div 1000) * (int (cl_now c) - int now) +
      int (k - 1) * int (bps div 10)"
    by simp
  also have "\<dots> = int (bps + bps div 1000 * (cl_now c - now) + (k - 1) * (bps div 10))"
    using le by (simp add: of_nat_diff)
  finally have "cl_total c \<le> bps + bps div 1000 * (cl_now c - now) + (k - 1) * (bps div 10)"
    by (simp only: of_nat_le_iff)
  with tsb.consume_succeeds [OF assms(2) g] assms(4) show ?thesis by auto
qed

theorem shared_limiter_caps_throughput_witness:
  "\<exists>l c. GetRateLimiterOf 2000 5 = Inr (ThreadSafeRateLimiter l) \<and>
     client_run (TS_GetQuota TB_GetQuota) (TS_ConsumeBytes TB_ConsumeBytes)
       \<lparr>cl_limiter = l, cl_now = 5, cl_granted = replicate 2 0, cl_total = 0\<rparr> c \<and>
     cl_now c = 7 \<and> cl_total c \<le> 2000 + 2 * 2 + 200"
proof -
  obtain l where l: "GetRateLimiterOf 2000 5 = Inr (ThreadSafeRateLimiter l)"
    by (simp add: GetRateLimiterOf_cases)
  let ?c = "\<lparr>cl_limiter = l, cl_now = 5, cl_granted = replicate 2 0, cl_total = 0\<rparr>"
  have run: "client_run (TS_GetQuota TB_GetQuota) (TS_ConsumeBytes TB_ConsumeBytes) ?c (?c\<lparr>cl_now := 7\<rparr>)"
    by (rule client_run.step [OF client_run.refl]) (rule client_step.tick, simp)
  from shared_limiter_caps_throughput [OF l run, of 0 0] l run show ?thesis by auto
qed

text \<open>
  A bandwidth flag given as a plain number of bits per second means no limit at all below 8,
  aborts the process from 8 to 7999, and from 8000 on limits the rate to the eighth of it, rounded
  down, in bytes.
\<close>

theorem bandwidth_flag_meaning:
  assumes "z < 2 ^ 62"
  shows "GetDefaultRateLimiter (print_int (int z)) now =
     (if z < 8 then Inr NullLimiter
      else if z < 8000 then Inl Check_failed
      else Inr (ThreadSafeRateLimiter
        \<lparr>burst_limit = z div 8 div 10,
         ts_impl = \<lparr>max_quota = z div 8, quota_per_tick = z div 8 div 1000,
                    over_consumption_allowed = True, last_refill = now, curr_quota = int (z div 8)\<rparr>\<rparr>))"
proof -
  have "int z < int (2 ^ 62)" using assms by (simp only: of_nat_less_iff)
  moreover have "print_int (int z) = print_nat z" by (simp add: print_int_def)
  ultimately have parse: "TryParse_integral 0 (2 ^ 64 - 1) 10 (print_nat z) = Some (int z)"
    using TryParse_print [of 0 "2 ^ 64 - 1" "int z"] by simp
  have "kScales (last (print_nat z)) = None"
    using print_nat_last(1) [of z] by (auto simp: kScales_def is_digit_def digit_value_def)
  with parse have "ParseToBps (print_int (int z)) = Inr (z div 8)"
    using assms print_nat_last(2) [of z] \<open>print_int (int z) = print_nat z\<close> by (simp add: ParseToBps_def)
  moreover have "z div 8 < 2 ^ 62" using assms by (simp add: div_le_dividend le_less_trans)
  moreover have "z div 8 < 1000 \<longleftrightarrow> z < 8000" "z div 8 = 0 \<longleftrightarrow> z < 8" by auto
  ultimately show ?thesis by (simp add: GetDefaultRateLimiter_def GetRateLimiterOf_cases)
qed

theorem bandwidth_flag_meaning_witness:
  "GetDefaultRateLimiter (print_int 7) 0 = Inr NullLimiter \<and>
   GetDefaultRateLimiter (print_int 7999) 0 = Inl Check_failed"
  using bandwidth_flag_meaning [of 7 0] bandwidth_flag_meaning [of 7999 0] by simp

end
