(* ===== verification/Read_At_Most.thy ===== *)
theory Read_At_Most
  imports Buffer_Builder
begin

text \<open>
  Reading from a stream into a buffer (\<^verbatim>\<open>flare/io/detail/read_at_most.{h,cc}\<close>). The stream behind
  \<^verbatim>\<open>AbstractStreamIo\<close> is the parameter \<open>readv\<close>: from the lengths of the \<^verbatim>\<open>iovec\<close>s it gives
  the return value of \<^verbatim>\<open>ReadV\<close>, the bytes stored (in the order of the vector), the error number
  and the new state of the stream. The thread-local cache of blocks is explicit state.
\<close>

section \<open>Model\<close>

definition kMaxBlocksPerRead :: nat where
  "kMaxBlocksPerRead = 8"

datatype ReadStatus = Drained | MaxBytesRead | PeerClosing | ReadError

type_synonym 'io readv = "'io \<Rightarrow> nat list \<Rightarrow> int \<times> string \<times> int \<times> 'io"

record block_cache =
  bc_blocks :: "string list"
  bc_count :: nat

definition RefillAndGetBlocks :: "pool \<Rightarrow> block_cache \<Rightarrow> block_cache" where
  "RefillAndGetBlocks pool c =
     (let missing = kMaxBlocksPerRead - length (bc_blocks c)
      in \<lparr>bc_blocks = bc_blocks c @ map pool [bc_count c..<bc_count c + missing],
          bc_count = bc_count c + missing\<rparr>)"

text \<open>
  The loop that fills the vector, with the number of blocks not yet used (so that the next block is
  the one before that index). It returns the lengths and \<^verbatim>\<open>bytes_to_read\<close>.
\<close>

fun iov_loop :: "string list \<Rightarrow> nat \<Rightarrow> nat \<Rightarrow> nat \<Rightarrow> nat list \<times> nat" where
  "iov_loop blocks max_bytes 0 bytes_to_read = ([], bytes_to_read)"
| "iov_loop blocks max_bytes (Suc k) bytes_to_read =
     (if bytes_to_read = max_bytes then ([], bytes_to_read)
      else let len = min (length (blocks ! k)) (max_bytes - bytes_to_read);
               (iov, n) = iov_loop blocks max_bytes k (bytes_to_read + len)
           in (len # iov, n))"

text \<open>What \<^verbatim>\<open>ReadV\<close> does to the memory the vector refers to.\<close>

fun scatter :: "string list \<Rightarrow> nat \<Rightarrow> nat list \<Rightarrow> string \<Rightarrow> string list" where
  "scatter blocks k [] bytes = blocks"
| "scatter blocks 0 (len # iov) bytes = blocks"
| "scatter blocks (Suc k) (len # iov) bytes =
     scatter (blocks[k := take len bytes @ drop (length (take len bytes)) (blocks ! k)]) k iov (drop len bytes)"

function take_blocks_loop ::
    "nat \<Rightarrow> string list \<Rightarrow> NoncontiguousBuffer \<Rightarrow> (string list \<times> NoncontiguousBuffer) result" where
  "take_blocks_loop bytes_left blocks to =
     (if bytes_left = 0 then Inr (blocks, to)
      else if blocks = [] then Inl Undefined_behaviour
      else let current = last blocks; len = min bytes_left (length current)
           in take_blocks_loop (bytes_left - len) (butlast blocks) (NB_AppendPB (PB_make current 0 len) to))"
  by pat_completeness auto
termination by (relation "measure (\<lambda>(_, blocks, _). length blocks)") auto

declare take_blocks_loop.simps [simp del]

definition ReadAtMostPartial ::
    "pool \<Rightarrow> 'io readv \<Rightarrow> nat \<Rightarrow> 'io \<Rightarrow> block_cache \<Rightarrow> NoncontiguousBuffer
     \<Rightarrow> (int \<times> int \<times> bool \<times> 'io \<times> block_cache \<times> NoncontiguousBuffer) result" where
  "ReadAtMostPartial pool readv max_bytes io cache to =
     (let cache = RefillAndGetBlocks pool cache; blocks = bc_blocks cache
      in check (length blocks = kMaxBlocksPerRead)
           (let (iov, bytes_to_read) = iov_loop blocks max_bytes kMaxBlocksPerRead 0;
                (rc, bytes, err, io) = readv io iov
            in if rc \<le> 0 then Inr (rc, err, False, io, cache, to)
               else check (rc \<le> int bytes_to_read)
                      (rbind (take_blocks_loop (nat rc) (scatter blocks kMaxBlocksPerRead iov bytes) to)
                        (\<lambda>(blocks, to). Inr (rc, err, rc \<noteq> int bytes_to_read, io,
                                             cache\<lparr>bc_blocks := blocks\<rparr>, to)))))"

definition EAGAIN :: int where
  "EAGAIN = 11"

definition EWOULDBLOCK :: int where
  "EWOULDBLOCK = 11"

function ReadAtMost_loop ::
    "pool \<Rightarrow> 'io readv \<Rightarrow> nat \<Rightarrow> nat \<Rightarrow> nat \<Rightarrow> 'io \<Rightarrow> block_cache \<Rightarrow> NoncontiguousBuffer
     \<Rightarrow> (ReadStatus \<times> nat \<times> 'io \<times> block_cache \<times> NoncontiguousBuffer) result" where
  "ReadAtMost_loop pool readv max_bytes bytes_left bytes_read io cache to =
     (if bytes_left = 0 then check (bytes_read = max_bytes) (Inr (MaxBytesRead, bytes_read, io, cache, to))
      else rbind (ReadAtMostPartial pool readv bytes_left io cache to)
        (\<lambda>(rc, err, short_read, io, cache, to).
           if rc = 0 then Inr (PeerClosing, bytes_read, io, cache, to)
           else if rc < 0
           then Inr (if err = EAGAIN \<or> err = EWOULDBLOCK then Drained else ReadError, bytes_read, io, cache, to)
           else if \<not> rc \<le> int bytes_left then Inl Check_failed
           else if short_read
           then check (rc < int bytes_left) (Inr (Drained, bytes_read + nat rc, io, cache, to))
           else ReadAtMost_loop pool readv max_bytes (bytes_left - nat rc) (bytes_read + nat rc) io cache to))"
  by pat_completeness auto
termination by (relation "measure (\<lambda>(_, _, _, bytes_left, _). bytes_left)") auto

declare ReadAtMost_loop.simps [simp del]

definition ReadAtMost ::
    "pool \<Rightarrow> 'io readv \<Rightarrow> nat \<Rightarrow> 'io \<Rightarrow> block_cache \<Rightarrow> NoncontiguousBuffer
     \<Rightarrow> (ReadStatus \<times> nat \<times> 'io \<times> block_cache \<times> NoncontiguousBuffer) result" where
  "ReadAtMost pool readv max_bytes io cache to = ReadAtMost_loop pool readv max_bytes max_bytes 0 io cache to"

section \<open>Correctness\<close>

text \<open>
  What \<^verbatim>\<open>readv(2)\<close> documents of a stream: it stores at most as many bytes as there is room for, the
  next ones of the stream, and nothing if it fails. \<open>stream\<close> are the bytes still to come.
\<close>

definition readv_ok :: "'io readv \<Rightarrow> ('io \<Rightarrow> string) \<Rightarrow> bool" where
  "readv_ok readv stream \<longleftrightarrow>
     (\<forall>io iov rc bytes err io'. readv io iov = (rc, bytes, err, io') \<longrightarrow>
        rc \<le> int (sum_list iov) \<and> stream io = bytes @ stream io' \<and> length bytes = nat rc)"

definition cache_ok :: "nat \<Rightarrow> block_cache \<Rightarrow> bool" where
  "cache_ok block_size c \<longleftrightarrow>
     length (bc_blocks c) \<le> kMaxBlocksPerRead \<and> (\<forall>b \<in> set (bc_blocks c). length b = block_size)"

lemma iov_loop_append:
  "k \<le> length xs \<Longrightarrow> iov_loop (xs @ ys) m k n = iov_loop xs m k n"
  by (induction k arbitrary: n) (auto simp: nth_append Let_def)

lemma iov_loop_sum:
  "n \<le> m \<Longrightarrow> iov_loop xs m k n = (iov, n') \<Longrightarrow> n + sum_list iov = n' \<and> n' \<le> m"
proof (induction k arbitrary: n iov)
  case (Suc k)
  show ?case
  proof (cases "n = m")
    case False
    let ?len = "min (length (xs ! k)) (m - n)"
    obtain iov' where "iov = ?len # iov'" "iov_loop xs m k (n + ?len) = (iov', n')"
      using Suc.prems(2) False by (auto simp: Let_def split: prod.splits)
    moreover have "n + ?len \<le> m" using Suc.prems(1) by simp
    ultimately show ?thesis using Suc.IH [of "n + ?len" iov'] by simp
  qed (use Suc.prems in auto)
qed simp

lemma iov_loop_start: "iov_loop xs m k m = ([], m)"
  by (cases k) simp_all

lemma iov_loop_le:
  assumes "\<forall>b \<in> set xs. length b = sz"
  shows "k \<le> length xs \<Longrightarrow> iov_loop xs m k n = (iov, n') \<Longrightarrow> \<forall>len \<in> set iov. len \<le> sz"
proof (induction k arbitrary: n iov)
  case (Suc k)
  have "length (xs ! k) = sz" using Suc.prems(1) assms by simp
  with Suc show ?case by (auto simp: Let_def split: prod.splits if_splits)
qed simp

lemma scatter_append:
  "k \<le> length xs \<Longrightarrow> scatter (xs @ ys) k iov bs = scatter xs k iov bs @ ys"
proof (induction iov arbitrary: xs k bs)
  case (Cons len iov)
  show ?case
  proof (cases k)
    case (Suc j)
    with Cons.prems have "j < length xs" by simp
    with Suc show ?thesis by (simp add: list_update_append nth_append Cons.IH)
  qed (use Cons in simp)
qed simp

lemma scatter_sizes:
  assumes "\<forall>b \<in> set xs. length b = sz" "k \<le> length xs" "\<forall>len \<in> set iov. len \<le> sz"
  shows "length (scatter xs k iov bs) = length xs \<and> (\<forall>b \<in> set (scatter xs k iov bs). length b = sz)"
  using assms
proof (induction iov arbitrary: xs k bs)
  case (Cons len iov)
  show ?case
  proof (cases k)
    case (Suc j)
    define b where "b = take len bs @ drop (length (take len bs)) (xs ! j)"
    have "length (xs ! j) = sz" "len \<le> sz" using Cons.prems Suc by simp_all
    then have "length b = sz" by (simp add: b_def)
    have "\<forall>c \<in> set (xs[j := b]). length c = sz"
    proof
      fix c assume "c \<in> set (xs[j := b])"
      then have "c \<in> insert b (set xs)" by (rule subsetD [OF set_update_subset_insert])
      with \<open>length b = sz\<close> Cons.prems(1) show "length c = sz" by auto
    qed
    moreover have "j \<le> length (xs[j := b])" "\<forall>len \<in> set iov. len \<le> sz" using Cons.prems(2,3) Suc by simp_all
    ultimately have "length (scatter (xs[j := b]) j iov (drop len bs)) = length (xs[j := b]) \<and>
        (\<forall>c \<in> set (scatter (xs[j := b]) j iov (drop len bs)). length c = sz)"
      by (rule Cons.IH)
    moreover have "scatter xs k (len # iov) bs = scatter (xs[j := b]) j iov (drop len bs)"
      by (simp add: Suc b_def)
    ultimately show ?thesis by (metis length_list_update)
  qed (use Cons.prems in simp)
qed simp

lemma take_blocks_rest:
  "take_blocks_loop n xs to = Inr (xs', to') \<Longrightarrow> \<exists>ys. xs = xs' @ ys"
proof (induction n xs to rule: take_blocks_loop.induct)
  case (1 n xs to)
  show ?case
  proof (cases "n = 0 \<or> xs = []")
    case False
    then have "\<exists>ys. butlast xs = xs' @ ys" using 1 by (simp add: take_blocks_loop.simps [of n] Let_def)
    with False show ?thesis by (metis append_butlast_last_id append_assoc)
  qed (use 1(2) in \<open>simp add: take_blocks_loop.simps [of n] split: if_splits\<close>)
qed

lemma take_partial_block:
  assumes "length x = sz" "len \<le> sz" "len < sz \<Longrightarrow> length bs \<le> len"
  shows "take (min (length bs) sz) (take len bs @ drop (length (take len bs)) x) = take len bs"
    "length bs - min (length bs) sz = length bs - len"
proof -
  consider "len < sz" "length bs \<le> len" | "len = sz" using assms(2,3) by linarith
  then have "take (min (length bs) sz) (take len bs @ drop (length (take len bs)) x) = take len bs \<and>
      length bs - min (length bs) sz = length bs - len"
  proof cases
    case 1
    then show ?thesis by (simp add: min_absorb1)
  next
    case 2
    then show ?thesis by (cases "length bs \<le> sz") (simp_all add: min_absorb1 min_absorb2)
  qed
  then show "take (min (length bs) sz) (take len bs @ drop (length (take len bs)) x) = take len bs"
    "length bs - min (length bs) sz = length bs - len" by simp_all
qed

lemma take_blocks_scatter:
  assumes "\<forall>b \<in> set xs. length b = sz" "iov_loop xs m (length xs) n = (iov, n')" "n \<le> m" "0 < sz"
    and "length bs \<le> sum_list iov" "nb_invar to"
  shows "\<exists>xs' to'. take_blocks_loop (length bs) (scatter xs (length xs) iov bs) to = Inr (xs', to') \<and>
     nb_invar to' \<and> nb_bytes to' = nb_bytes to @ bs"
  using assms
proof (induction xs arbitrary: n iov bs to rule: rev_induct)
  case Nil
  then show ?case by (simp add: take_blocks_loop.simps [of 0])
next
  case (snoc x xs)
  show ?case
  proof (cases "bs = []")
    case True
    with snoc.prems show ?thesis by (simp add: take_blocks_loop.simps [of 0])
  next
    case False
    let ?len = "min sz (m - n)"
    have x: "length x = sz" and xs: "\<forall>b \<in> set xs. length b = sz" using snoc.prems(1) by auto
    have "n \<noteq> m" using False snoc.prems(2,5) by auto
    then obtain iov' where iov: "iov = ?len # iov'" and rest: "iov_loop xs m (length xs) (n + ?len) = (iov', n')"
      using snoc.prems(2) x iov_loop_append [of "length xs" xs "[x]"]
      by (auto simp: nth_append Let_def split: prod.splits)
    let ?b = "take ?len bs @ drop (length (take ?len bs)) x"
    have scat: "scatter (xs @ [x]) (length (xs @ [x])) iov bs = scatter xs (length xs) iov' (drop ?len bs) @ [?b]"
      using scatter_append [of "length xs" xs "[?b]" iov' "drop ?len bs"] by (simp add: iov nth_append)
    have lenb: "length ?b = sz" using x by simp
    let ?l = "min (length bs) sz"
    have l: "take ?l ?b = take ?len bs" and left: "length bs - ?l = length (drop ?len bs)"
    proof -
      have "length bs \<le> ?len" if "?len < sz"
      proof -
        have "n + ?len = m" using that snoc.prems(3) by simp
        then have "iov' = []" using rest by (cases xs rule: rev_cases) (auto simp: iov_loop_start)
        then show ?thesis using snoc.prems(5) iov by simp
      qed
      with take_partial_block [OF x, of ?len bs]
      show "take ?l ?b = take ?len bs" "length bs - ?l = length (drop ?len bs)" by simp_all
    qed
    let ?to = "NB_AppendPB (PB_make ?b 0 ?l) to"
    have "pb_ok (PB_make ?b 0 ?l)" using lenb by (simp add: pb_ok_def PB_make_def)
    moreover have "pb_bytes (PB_make ?b 0 ?l) = take ?len bs" using l by (simp add: pb_bytes_def PB_make_def)
    ultimately have to: "nb_invar ?to" "nb_bytes ?to = nb_bytes to @ take ?len bs"
      using NB_AppendPB_ok [OF snoc.prems(6), of "PB_make ?b 0 ?l"] by simp_all
    have "length (drop ?len bs) \<le> sum_list iov'" using snoc.prems(5) iov by simp
    moreover have "n + ?len \<le> m" using snoc.prems(3) by simp
    ultimately obtain xs' to' where
      "take_blocks_loop (length (drop ?len bs)) (scatter xs (length xs) iov' (drop ?len bs)) ?to = Inr (xs', to')"
      "nb_invar to'" "nb_bytes to' = nb_bytes ?to @ drop ?len bs"
      using snoc.IH [OF xs rest _ snoc.prems(4) _ to(1)] by blast
    moreover have "take_blocks_loop (length bs) (scatter (xs @ [x]) (length (xs @ [x])) iov bs) to =
        take_blocks_loop (length (drop ?len bs)) (scatter xs (length xs) iov' (drop ?len bs)) ?to"
      unfolding scat take_blocks_loop.simps [of "length bs"]
      using False lenb left by (simp add: Let_def del: length_append length_drop length_take)
    ultimately show ?thesis using to(2) by simp
  qed
qed

lemma Refill_ok:
  assumes "pool_ok sz pool" "cache_ok sz c"
  shows "length (bc_blocks (RefillAndGetBlocks pool c)) = kMaxBlocksPerRead"
    "\<forall>b \<in> set (bc_blocks (RefillAndGetBlocks pool c)). length b = sz"
  using assms by (auto simp: RefillAndGetBlocks_def Let_def cache_ok_def pool_ok_def)

lemma ReadAtMostPartial_ok:
  assumes pool: "pool_ok sz pool" and cache: "cache_ok sz cache" and io: "readv_ok readv stream"
    and to: "nb_invar to"
  shows "\<exists>rc err short io' cache' to' bytes.
     ReadAtMostPartial pool readv m io cache to = Inr (rc, err, short, io', cache', to') \<and>
     cache_ok sz cache' \<and> nb_invar to' \<and> nb_bytes to' = nb_bytes to @ bytes \<and>
     stream io = bytes @ stream io' \<and> length bytes = nat rc \<and> rc \<le> int m \<and> (short \<longrightarrow> rc < int m)"
proof -
  let ?c = "RefillAndGetBlocks pool cache"
  note blocks = Refill_ok [OF pool cache]
  have c_ok: "cache_ok sz ?c" using blocks by (simp add: cache_ok_def)
  obtain iov n where iov: "iov_loop (bc_blocks ?c) m kMaxBlocksPerRead 0 = (iov, n)" by fastforce
  obtain rc bytes err io' where rv: "readv io iov = (rc, bytes, err, io')" by (cases "readv io iov")
  have n: "sum_list iov = n" "n \<le> m" using iov_loop_sum [OF _ iov] by simp_all
  have bytes: "rc \<le> int n" "stream io = bytes @ stream io'" "length bytes = nat rc"
    using io rv n(1) unfolding readv_ok_def by blast+
  show ?thesis
  proof (cases "rc \<le> 0")
    case True
    then have "ReadAtMostPartial pool readv m io cache to = Inr (rc, err, False, io', ?c, to)"
      using blocks(1) iov rv by (simp add: ReadAtMostPartial_def)
    moreover have "bytes = []" using True bytes(3) by simp
    ultimately show ?thesis using c_ok to bytes True by auto
  next
    case False
    have "length bytes \<le> sum_list iov" using bytes(1,3) n(1) by simp
    moreover have "0 < sz" using pool by (simp add: pool_ok_def)
    ultimately obtain xs to' where
      tl: "take_blocks_loop (nat rc) (scatter (bc_blocks ?c) kMaxBlocksPerRead iov bytes) to = Inr (xs, to')"
      and to': "nb_invar to'" "nb_bytes to' = nb_bytes to @ bytes"
      using take_blocks_scatter [OF blocks(2) iov [folded blocks(1)] le0 _ _ to, of bytes]
      unfolding blocks(1) bytes(3) by blast
    obtain ys where ys: "scatter (bc_blocks ?c) kMaxBlocksPerRead iov bytes = xs @ ys"
      using take_blocks_rest [OF tl] by blast
    have "cache_ok sz (?c\<lparr>bc_blocks := xs\<rparr>)"
      using scatter_sizes [OF blocks(2), of kMaxBlocksPerRead iov bytes] iov_loop_le [OF blocks(2) _ iov] blocks(1) ys
      by (auto simp: cache_ok_def)
    moreover have "ReadAtMostPartial pool readv m io cache to =
        Inr (rc, err, rc \<noteq> int n, io', ?c\<lparr>bc_blocks := xs\<rparr>, to')"
      using blocks(1) iov rv tl False bytes(1) by (simp add: ReadAtMostPartial_def)
    ultimately show ?thesis using to' bytes n(2) by fastforce
  qed
qed

lemma ReadAtMost_loop_ok:
  assumes pool: "pool_ok sz pool" and io: "readv_ok readv stream"
  shows "cache_ok sz cache \<Longrightarrow> nb_invar to \<Longrightarrow> done + left = m \<Longrightarrow>
    \<exists>st n io' cache' to' bytes.
     ReadAtMost_loop pool readv m left done io cache to = Inr (st, done + n, io', cache', to') \<and>
     cache_ok sz cache' \<and> nb_invar to' \<and> nb_bytes to' = nb_bytes to @ bytes \<and>
     stream io = bytes @ stream io' \<and> length bytes = n \<and> n \<le> left \<and> (st = MaxBytesRead \<longleftrightarrow> n = left)"
proof (induction left arbitrary: "done" io cache to rule: less_induct)
  case (less left)
  show ?case
  proof (cases "left = 0")
    case True
    with less.prems show ?thesis by (auto simp: ReadAtMost_loop.simps [of _ _ _ 0])
  next
    case False
    from ReadAtMostPartial_ok [OF pool less.prems(1) io less.prems(2), of left io]
    obtain rc err short io' cache' to' bytes where
      p: "ReadAtMostPartial pool readv left io cache to = Inr (rc, err, short, io', cache', to')"
      and ok: "cache_ok sz cache'" "nb_invar to'" "nb_bytes to' = nb_bytes to @ bytes"
        "stream io = bytes @ stream io'" "length bytes = nat rc" "rc \<le> int left" "short \<longrightarrow> rc < int left"
      by blast
    note unfold = ReadAtMost_loop.simps [of _ _ _ left] p
    show ?thesis
    proof (cases "rc \<le> 0 \<or> short")
      case True
      then show ?thesis
        using False ok by (cases "rc = 0"; cases "rc < 0") (auto simp: unfold)
    next
      case continue: False
      let ?n = "nat rc"
      have "left - ?n < left" "done + ?n + (left - ?n) = m" using continue False ok(6) less.prems(3) by auto
      from less.IH [OF this(1) ok(1,2) this(2)] obtain st n io'' cache'' to'' bytes' where
        r: "ReadAtMost_loop pool readv m (left - ?n) (done + ?n) io' cache' to' =
            Inr (st, done + ?n + n, io'', cache'', to'')"
        and ok': "cache_ok sz cache''" "nb_invar to''" "nb_bytes to'' = nb_bytes to' @ bytes'"
          "stream io' = bytes' @ stream io''" "length bytes' = n" "n \<le> left - ?n" "st = MaxBytesRead \<longleftrightarrow> n = left - ?n"
        by blast
      have "ReadAtMost_loop pool readv m left done io cache to = Inr (st, done + (?n + n), io'', cache'', to'')"
        using continue False ok(6) r by (simp add: unfold add.assoc)
      moreover have "?n + n \<le> left" "st = MaxBytesRead \<longleftrightarrow> ?n + n = left"
        using ok'(6,7) ok(6) by auto
      moreover have "nb_bytes to'' = nb_bytes to @ (bytes @ bytes')" "stream io = (bytes @ bytes') @ stream io''"
        "length (bytes @ bytes') = ?n + n"
        using ok(3,4,5) ok'(3,4,5) by simp_all
      ultimately show ?thesis using ok'(1,2) by blast
    qed
  qed
qed

section \<open>Properties\<close>

text \<open>
  For every stream that behaves as \<^verbatim>\<open>readv(2)\<close> documents, \<^verbatim>\<open>ReadAtMost\<close> returns (it does not
  loop forever and fails no check), appends to the buffer exactly the bytes it took from the stream,
  in order, reports their number, which is at most the limit, says \<^verbatim>\<open>MaxBytesRead\<close> exactly if the
  limit was reached, and keeps the cache of blocks in order for the next call.
\<close>

theorem ReadAtMost_exact:
  assumes "pool_ok sz pool" and "cache_ok sz cache" and "readv_ok readv stream" and "nb_invar to"
  shows "\<exists>st n io' cache' to' bytes.
     ReadAtMost pool readv max_bytes io cache to = Inr (st, n, io', cache', to') \<and>
     nb_invar to' \<and> nb_bytes to' = nb_bytes to @ bytes \<and> stream io = bytes @ stream io' \<and>
     length bytes = n \<and> n \<le> max_bytes \<and> (st = MaxBytesRead \<longleftrightarrow> n = max_bytes) \<and> cache_ok sz cache'"
  using ReadAtMost_loop_ok [OF assms(1,3,2,4), of 0 max_bytes max_bytes io]
  unfolding ReadAtMost_def by fastforce

definition string_readv :: "string readv" where
  "string_readv s iov =
     (let n = min (length s) (sum_list iov) in (int n, take n s, 0, drop n s))"

theorem ReadAtMost_exact_witness:
  "readv_ok string_readv id \<and>
   (\<exists>st n io' cache' to'. ReadAtMost (\<lambda>_. ''????'') string_readv 5 ''abcdefg'' \<lparr>bc_blocks = [], bc_count = 0\<rparr> NB_new =
      Inr (st, n, io', cache', to') \<and> nb_bytes to' @ io' = ''abcdefg'' \<and> n \<le> 5)"
proof -
  have io: "readv_ok string_readv id" by (auto simp: readv_ok_def string_readv_def Let_def)
  have "pool_ok 4 (\<lambda>_. ''????'')" "cache_ok 4 \<lparr>bc_blocks = [], bc_count = 0\<rparr>"
    by (simp_all add: pool_ok_def cache_ok_def)
  from ReadAtMost_exact [OF this io NB_new_ok(1), of 5 "''abcdefg''"] io show ?thesis by auto
qed

end
