(* ===== verification/Byte_Set.thy ===== *)
theory Byte_Set
  imports Prelude "HOL-Library.Word"
begin

text \<open>
  Sets of bytes as bitmaps of four 64-bit words (\<^verbatim>\<open>flare/base/experimental/byte_set.h\<close>), with the
  predefined sets for the character classes of the C library in its default locale. The locale
  \<open>byte_set\<close> is what clients rely on: membership after every operation is that of the set of bytes.
\<close>

unbundle bit_operations_syntax

section \<open>Bitmaps\<close>

type_synonym Rep = "64 word list"

definition Rep_new :: Rep where
  "Rep_new = [0, 0, 0, 0]"

definition Rep_or :: "Rep \<Rightarrow> Rep \<Rightarrow> Rep" where
  "Rep_or u v = [u ! 0 OR v ! 0, u ! 1 OR v ! 1, u ! 2 OR v ! 2, u ! 3 OR v ! 3]"

definition Rep_and :: "Rep \<Rightarrow> Rep \<Rightarrow> Rep" where
  "Rep_and u v = [u ! 0 AND v ! 0, u ! 1 AND v ! 1, u ! 2 AND v ! 2, u ! 3 AND v ! 3]"

definition Rep_eq :: "Rep \<Rightarrow> Rep \<Rightarrow> bool" where
  "Rep_eq u v \<longleftrightarrow> u ! 0 = v ! 0 \<and> u ! 1 = v ! 1 \<and> u ! 2 = v ! 2 \<and> u ! 3 = v ! 3"

definition FromChar :: "nat \<Rightarrow> Rep" where
  "FromChar c =
     (if c < 64 then [push_bit c 1, 0, 0, 0]
      else if c < 128 then [0, push_bit (c - 64) 1, 0, 0]
      else if c < 192 then [0, 0, push_bit (c - 128) 1, 0]
      else [0, 0, 0, push_bit (c - 192) 1])"

text \<open>The argument of \<^verbatim>\<open>FromString\<close> ends at the first null character.\<close>

fun FromString :: "string \<Rightarrow> Rep" where
  "FromString [] = Rep_new"
| "FromString (c # s) = (if c = CHR 0x00 then Rep_new else Rep_or (FromChar (of_char c)) (FromString s))"

type_synonym ByteSet = Rep

definition BS_insert :: "nat \<Rightarrow> ByteSet \<Rightarrow> ByteSet" where
  "BS_insert n u = u[n div 64 := u ! (n div 64) OR push_bit (n mod 64) 1]"

definition BS_erase :: "nat \<Rightarrow> ByteSet \<Rightarrow> ByteSet" where
  "BS_erase n u = u[n div 64 := u ! (n div 64) AND NOT (push_bit (n mod 64) 1)]"

definition BS_clear :: "ByteSet \<Rightarrow> ByteSet" where
  "BS_clear u = Rep_new"

definition BS_contains :: "ByteSet \<Rightarrow> nat \<Rightarrow> bool" where
  "BS_contains u c \<longleftrightarrow> drop_bit (c mod 64) (u ! (c div 64)) AND 1 \<noteq> 0"

definition BS_insert_if :: "(nat \<Rightarrow> bool) \<Rightarrow> ByteSet \<Rightarrow> ByteSet" where
  "BS_insert_if pred u = fold (\<lambda>c u. if pred c then BS_insert c u else u) [0..<256] u"

definition BS_erase_if :: "(nat \<Rightarrow> bool) \<Rightarrow> ByteSet \<Rightarrow> ByteSet" where
  "BS_erase_if pred u = fold (\<lambda>c u. if pred c then BS_erase c u else u) [0..<256] u"

definition BS_insert_bytes :: "string \<Rightarrow> ByteSet \<Rightarrow> ByteSet" where
  "BS_insert_bytes bytes u = fold (\<lambda>e. BS_insert (of_char e)) bytes u"

definition BS_erase_bytes :: "string \<Rightarrow> ByteSet \<Rightarrow> ByteSet" where
  "BS_erase_bytes bytes u = fold (\<lambda>e. BS_erase (of_char e)) bytes u"

definition BS_of_string :: "string \<Rightarrow> ByteSet" where
  "BS_of_string s = FromString s"

definition BS_of_pred :: "(nat \<Rightarrow> bool) \<Rightarrow> ByteSet" where
  "BS_of_pred pred = BS_insert_if pred Rep_new"

definition BS_or :: "ByteSet \<Rightarrow> ByteSet \<Rightarrow> ByteSet" where
  "BS_or u v = Rep_or u v"

definition BS_or_str :: "ByteSet \<Rightarrow> string \<Rightarrow> ByteSet" where
  "BS_or_str u s = BS_or u (BS_of_string s)"

definition BS_and :: "ByteSet \<Rightarrow> ByteSet \<Rightarrow> ByteSet" where
  "BS_and u v = Rep_and u v"

definition BS_eq :: "ByteSet \<Rightarrow> ByteSet \<Rightarrow> bool" where
  "BS_eq u v = Rep_eq u v"

text \<open>The assigning operators do the same in place; \<^verbatim>\<open>|=\<close> with a string inserts its bytes.\<close>

definition BS_ior_str :: "ByteSet \<Rightarrow> string \<Rightarrow> ByteSet" where
  "BS_ior_str u rhs = BS_insert_bytes rhs u"

section \<open>Character classes\<close>

text \<open>The predicates of the C library in the locale \<^verbatim>\<open>"C"\<close>, on the value of an \<^verbatim>\<open>unsigned char\<close>.\<close>

definition isupper :: "nat \<Rightarrow> bool" where "isupper c \<longleftrightarrow> 65 \<le> c \<and> c \<le> 90"
definition islower :: "nat \<Rightarrow> bool" where "islower c \<longleftrightarrow> 97 \<le> c \<and> c \<le> 122"
definition isdigit :: "nat \<Rightarrow> bool" where "isdigit c \<longleftrightarrow> 48 \<le> c \<and> c \<le> 57"
definition isalpha :: "nat \<Rightarrow> bool" where "isalpha c \<longleftrightarrow> isupper c \<or> islower c"
definition isalnum :: "nat \<Rightarrow> bool" where "isalnum c \<longleftrightarrow> isalpha c \<or> isdigit c"
definition isxdigit :: "nat \<Rightarrow> bool" where
  "isxdigit c \<longleftrightarrow> isdigit c \<or> 65 \<le> c \<and> c \<le> 70 \<or> 97 \<le> c \<and> c \<le> 102"

definition isblank :: "nat \<Rightarrow> bool" where "isblank c \<longleftrightarrow> c = 32 \<or> c = 9"
definition isspace :: "nat \<Rightarrow> bool" where "isspace c \<longleftrightarrow> c = 32 \<or> 9 \<le> c \<and> c \<le> 13"
definition isascii :: "nat \<Rightarrow> bool" where "isascii c \<longleftrightarrow> c < 128"
definition isprint :: "nat \<Rightarrow> bool" where "isprint c \<longleftrightarrow> 32 \<le> c \<and> c < 127"

definition spaces :: ByteSet where "spaces = BS_of_pred isspace"
definition blanks :: ByteSet where "blanks = BS_of_pred isblank"
definition asciis :: ByteSet where "asciis = BS_of_pred isascii"
definition printables :: ByteSet where "printables = BS_of_pred isprint"
definition alphas :: ByteSet where "alphas = BS_of_pred isalpha"
definition alpha_nums :: ByteSet where "alpha_nums = BS_of_pred isalnum"
definition hex_digits :: ByteSet where "hex_digits = BS_of_pred isxdigit"
definition digits :: ByteSet where "digits = BS_of_pred isdigit"
definition uppercase :: ByteSet where "uppercase = BS_of_pred isupper"
definition lowercase :: ByteSet where "lowercase = BS_of_pred islower"

section \<open>Correctness\<close>

definition rep_ok :: "Rep \<Rightarrow> bool" where
  "rep_ok u \<longleftrightarrow> length u = 4"

text \<open>The set a bitmap stands for.\<close>

definition bytes_of :: "ByteSet \<Rightarrow> nat set" where
  "bytes_of u = {c. c < 256 \<and> BS_contains u c}"

lemma BS_contains_bit: "BS_contains u c \<longleftrightarrow> bit (u ! (c div 64)) (c mod 64)"
  by (simp add: BS_contains_def and_one_eq odd_iff_mod_2_eq_one bit_iff_odd_drop_bit)

lemma bit_push_one: "k < 64 \<Longrightarrow> bit (2 ^ k :: 64 word) n \<longleftrightarrow> n = k"
  by (auto simp: bit_exp_iff)

lemma contains_insert:
  assumes "rep_ok u" "n < 256"
  shows "BS_contains (BS_insert n u) c \<longleftrightarrow> c = n \<or> BS_contains u c"
proof -
  have len: "n div 64 < length u" using assms by (simp add: rep_ok_def)
  show ?thesis
  proof (cases "c div 64 = n div 64")
    case True
    then have "c = n \<longleftrightarrow> c mod 64 = n mod 64" by (metis mult_div_mod_eq)
    with True len show ?thesis
      by (auto simp: BS_contains_bit BS_insert_def bit_or_iff bit_push_one)
  next
    case False
    with len show ?thesis by (auto simp: BS_contains_bit BS_insert_def)
  qed
qed

lemma contains_erase:
  assumes "rep_ok u" "n < 256"
  shows "BS_contains (BS_erase n u) c \<longleftrightarrow> c \<noteq> n \<and> BS_contains u c"
proof -
  have len: "n div 64 < length u" using assms by (simp add: rep_ok_def)
  show ?thesis
  proof (cases "c div 64 = n div 64")
    case True
    then have "c = n \<longleftrightarrow> c mod 64 = n mod 64" by (metis mult_div_mod_eq)
    with True len show ?thesis
      by (auto simp: BS_contains_bit BS_erase_def bit_and_iff bit_not_iff bit_push_one)
  next
    case False
    with len show ?thesis by (auto simp: BS_contains_bit BS_erase_def)
  qed
qed

lemma rep_ok_simps [simp]:
  "rep_ok Rep_new" "rep_ok (Rep_or u v)" "rep_ok (Rep_and u v)" "rep_ok (FromChar c)" "rep_ok (FromString s)"
  "rep_ok u \<Longrightarrow> rep_ok (BS_insert n u)" "rep_ok u \<Longrightarrow> rep_ok (BS_erase n u)"
  by (simp_all add: rep_ok_def Rep_new_def Rep_or_def Rep_and_def FromChar_def BS_insert_def BS_erase_def)
     (cases s; simp add: Rep_new_def Rep_or_def)

lemma less4_cases: "(c::nat) < 256 \<Longrightarrow> c div 64 = 0 \<or> c div 64 = 1 \<or> c div 64 = 2 \<or> c div 64 = 3"
  by auto

lemma contains_or: "c < 256 \<Longrightarrow> BS_contains (Rep_or u v) c \<longleftrightarrow> BS_contains u c \<or> BS_contains v c"
  using less4_cases [of c] by (auto simp: BS_contains_bit Rep_or_def bit_or_iff numeral_2_eq_2 numeral_3_eq_3)

lemma contains_and: "c < 256 \<Longrightarrow> BS_contains (Rep_and u v) c \<longleftrightarrow> BS_contains u c \<and> BS_contains v c"
  using less4_cases [of c] by (auto simp: BS_contains_bit Rep_and_def bit_and_iff numeral_2_eq_2 numeral_3_eq_3)

lemma contains_new: "c < 256 \<Longrightarrow> \<not> BS_contains Rep_new c"
  using less4_cases [of c] by (auto simp: BS_contains_bit Rep_new_def numeral_2_eq_2 numeral_3_eq_3)

text \<open>Equality of bitmaps is equality of the sets.\<close>

lemma BS_eq_iff:
  assumes "rep_ok u" "rep_ok v"
  shows "BS_eq u v \<longleftrightarrow> (\<forall>c < 256. BS_contains u c \<longleftrightarrow> BS_contains v c)"
proof
  assume eq: "BS_eq u v"
  show "\<forall>c < 256. BS_contains u c \<longleftrightarrow> BS_contains v c"
  proof (intro allI impI)
    fix c :: nat assume "c < 256"
    with eq less4_cases [of c] show "BS_contains u c \<longleftrightarrow> BS_contains v c"
      by (auto simp: BS_contains_bit BS_eq_def Rep_eq_def)
  qed
next
  assume same: "\<forall>c < 256. BS_contains u c \<longleftrightarrow> BS_contains v c"
  have "u ! i = v ! i" if "i < 4" for i
  proof (rule bit_word_eqI)
    fix n assume "n < LENGTH(64)"
    then have "(64 * i + n) div 64 = i" "(64 * i + n) mod 64 = n" "64 * i + n < 256" using that by simp_all
    with same show "bit (u ! i) n \<longleftrightarrow> bit (v ! i) n" by (metis BS_contains_bit)
  qed
  then show "BS_eq u v" by (simp add: BS_eq_def Rep_eq_def)
qed

lemma FromChar_insert: "n < 256 \<Longrightarrow> FromChar n = BS_insert n Rep_new"
proof -
  assume "n < 256"
  then consider "n < 64" | "64 \<le> n" "n < 128" | "128 \<le> n" "n < 192" | "192 \<le> n" "n < 256" by linarith
  then show ?thesis
  proof cases
    case 2
    then have "n div 64 = 1" "n mod 64 = n - 64" by (simp_all add: le_mod_geq div_nat_eqI)
    with 2 show ?thesis by (simp add: FromChar_def BS_insert_def Rep_new_def)
  next
    case 3
    then have "n div 64 = 2" by (simp add: div_nat_eqI)
    moreover from this have "n mod 64 = n - 128" by (simp add: modulo_nat_def)
    ultimately show ?thesis using 3 by (simp add: FromChar_def BS_insert_def Rep_new_def numeral_2_eq_2)
  next
    case 4
    then have "n div 64 = 3" by (simp add: div_nat_eqI)
    moreover from this have "n mod 64 = n - 192" by (simp add: modulo_nat_def)
    ultimately show ?thesis using 4 by (simp add: FromChar_def BS_insert_def Rep_new_def numeral_3_eq_3)
  qed (simp add: FromChar_def BS_insert_def Rep_new_def)
qed

lemma contains_FromString:
  "c < 256 \<Longrightarrow> CHR 0x00 \<notin> set s \<Longrightarrow> BS_contains (FromString s) c \<longleftrightarrow> c \<in> of_char ` set s"
  by (induction s) (auto simp: contains_new contains_or FromChar_insert of_char_bound contains_insert)

section \<open>The interface of a set of bytes\<close>

locale byte_set =
  fixes valid :: "'s \<Rightarrow> bool"
    and member :: "'s \<Rightarrow> nat \<Rightarrow> bool"
    and add :: "nat \<Rightarrow> 's \<Rightarrow> 's"
    and remove :: "nat \<Rightarrow> 's \<Rightarrow> 's"
  assumes valid_add: "valid u \<Longrightarrow> valid (add n u)"
    and valid_remove: "valid u \<Longrightarrow> valid (remove n u)"
    and member_add: "valid u \<Longrightarrow> n < 256 \<Longrightarrow> member (add n u) c \<longleftrightarrow> c = n \<or> member u c"
    and member_remove: "valid u \<Longrightarrow> n < 256 \<Longrightarrow> member (remove n u) c \<longleftrightarrow> c \<noteq> n \<and> member u c"
begin

lemma member_fold_add:
  "valid u \<Longrightarrow> \<forall>x \<in> set xs. f x < 256 \<Longrightarrow>
   valid (fold (\<lambda>x u. if P x then add (f x) u else u) xs u) \<and>
   (member (fold (\<lambda>x u. if P x then add (f x) u else u) xs u) c \<longleftrightarrow>
      (\<exists>x \<in> set xs. P x \<and> c = f x) \<or> member u c)"
  by (induction xs arbitrary: u) (auto simp: member_add valid_add)

lemma member_fold_remove:
  "valid u \<Longrightarrow> \<forall>x \<in> set xs. f x < 256 \<Longrightarrow>
   valid (fold (\<lambda>x u. if P x then remove (f x) u else u) xs u) \<and>
   (member (fold (\<lambda>x u. if P x then remove (f x) u else u) xs u) c \<longleftrightarrow>
      member u c \<and> \<not> (\<exists>x \<in> set xs. P x \<and> c = f x))"
  by (induction xs arbitrary: u) (auto simp: member_remove valid_remove)

end

interpretation bitmap: byte_set rep_ok BS_contains BS_insert BS_erase
  by unfold_locales (simp_all add: contains_insert contains_erase)

lemma contains_insert_if:
  assumes "rep_ok u" "c < 256"
  shows "BS_contains (BS_insert_if P u) c \<longleftrightarrow> P c \<or> BS_contains u c"
  using bitmap.member_fold_add [OF assms(1), of "[0..<256]" "\<lambda>c. c" P c] assms(2)
  unfolding BS_insert_if_def by auto

lemma contains_of_pred: "c < 256 \<Longrightarrow> BS_contains (BS_of_pred P) c \<longleftrightarrow> P c"
  by (simp add: BS_of_pred_def contains_insert_if contains_new)

lemmas contains_classes =
  spaces_def blanks_def asciis_def printables_def alphas_def alpha_nums_def hex_digits_def digits_def uppercase_def lowercase_def contains_of_pred

section \<open>Properties\<close>

text \<open>
  The bitmap is a set of bytes: every operation that builds or changes one has, on the bytes it
  contains, exactly the effect of the corresponding operation on sets.
\<close>

theorem byte_set_refines_set:
  assumes "rep_ok u" and "n < 256" and "CHR 0x00 \<notin> set str"
  shows "bytes_of (BS_insert n u) = insert n (bytes_of u) \<and>
     bytes_of (BS_erase n u) = bytes_of u - {n} \<and>
     bytes_of (BS_or u v) = bytes_of u \<union> bytes_of v \<and>
     bytes_of (BS_and u v) = bytes_of u \<inter> bytes_of v \<and>
     bytes_of (BS_or_str u str) = bytes_of u \<union> of_char ` set str \<and>
     bytes_of (BS_insert_bytes bs u) = bytes_of u \<union> of_char ` set bs \<and>
     bytes_of (BS_erase_bytes bs u) = bytes_of u - of_char ` set bs \<and>
     bytes_of (BS_insert_if P u) = bytes_of u \<union> {c. c < 256 \<and> P c} \<and>
     bytes_of (BS_erase_if P u) = bytes_of u - {c. P c} \<and>
     bytes_of (BS_clear u) = {}"
proof (intro conjI)
  note add = bitmap.member_fold_add [OF assms(1)] and remove = bitmap.member_fold_remove [OF assms(1)]
  have str: "of_char ` set str \<subseteq> {..<256 :: nat}" and bs: "\<forall>b \<in> set bs. (of_char b :: nat) < 256"
    by (auto simp: of_char_bound)
  show "bytes_of (BS_insert n u) = insert n (bytes_of u)" "bytes_of (BS_erase n u) = bytes_of u - {n}"
    using assms by (auto simp: bytes_of_def contains_insert contains_erase)
  show "bytes_of (BS_or u v) = bytes_of u \<union> bytes_of v" "bytes_of (BS_and u v) = bytes_of u \<inter> bytes_of v"
    by (auto simp: bytes_of_def BS_or_def BS_and_def contains_or contains_and)
  show "bytes_of (BS_or_str u str) = bytes_of u \<union> of_char ` set str"
    using str assms(3)
    by (auto simp: bytes_of_def BS_or_str_def BS_or_def BS_of_string_def contains_or contains_FromString)
  show "bytes_of (BS_insert_bytes bs u) = bytes_of u \<union> of_char ` set bs"
    using bs add [of bs of_char "\<lambda>_. True"] by (auto simp: bytes_of_def BS_insert_bytes_def)
  show "bytes_of (BS_erase_bytes bs u) = bytes_of u - of_char ` set bs"
    using bs remove [of bs of_char "\<lambda>_. True"] by (auto simp: bytes_of_def BS_erase_bytes_def)
  show "bytes_of (BS_insert_if P u) = bytes_of u \<union> {c. c < 256 \<and> P c}"
    using assms(1) by (auto simp: bytes_of_def contains_insert_if)
  show "bytes_of (BS_erase_if P u) = bytes_of u - {c. P c}"
    using remove [of "[0..<256]" "\<lambda>c. c" P] by (auto simp: bytes_of_def BS_erase_if_def)
  show "bytes_of (BS_clear u) = {}"
    by (auto simp: bytes_of_def BS_clear_def contains_new)
qed

theorem byte_set_refines_set_witness:
  "bytes_of (BS_insert 200 (BS_of_string ''ab'')) = insert 200 (bytes_of (BS_of_string ''ab''))"
  using byte_set_refines_set [of "BS_of_string ''ab''" 200 "''x''"] by (simp add: BS_of_string_def)

end
