(* ===== verification/Uri.thy ===== *)
theory Uri
  imports Byte_Set Strings
begin

text \<open>
  The parser of uniform resource identifiers (\<^verbatim>\<open>flare/base/net/uri.{h,cc}\<close>). The reading pointer
  \<^verbatim>\<open>m_current\<close> is the rest of the input, so that the functions that only move it are functions
  from the rest to the new rest (\<^verbatim>\<open>None\<close> where the code returns \<^verbatim>\<open>false\<close>, which leaves the pointer
  alone). The functions that also fill the \<^verbatim>\<open>UriParseResultReceiver\<close> pass the whole parser; a
  \<^verbatim>\<open>Result\<close> that is not set to true restores the pointer but not the receiver, and so does the
  model. \<open>gdt\<close> is the flag \<^verbatim>\<open>flare_extension_non_conformant_uri_for_gdt\<close>.

  The specification is \<open>uri_text\<close>, the text of a URI made of its parts.
\<close>

section \<open>Byte sets\<close>

record UriParserByteSets =
  gen_delims :: ByteSet
  sub_delims :: ByteSet
  reserved :: ByteSet
  mark :: ByteSet
  unreserved :: ByteSet
  userinfo :: ByteSet
  uric_no_slash :: ByteSet
  rel_segment :: ByteSet
  scheme :: ByteSet
  reg_name :: ByteSet
  expansion :: ByteSet
  pchar :: ByteSet
  query :: ByteSet
  fragment :: ByteSet

definition byte_sets :: "bool \<Rightarrow> UriParserByteSets" where
  "byte_sets gdt =
     (let gen = BS_of_string '':/?#[]@'';
          sub = BS_of_string ''!$&'()*+,;='';
          unres = BS_or_str alpha_nums ''-._~'';
          expn = BS_of_string (if \<not> gdt then '''' else ''|{}[]^'' @ [CHR 0x22]);
          pch = BS_or (BS_or_str (BS_or unres sub) '':@'') expn
      in \<lparr>gen_delims = gen, sub_delims = sub, reserved = BS_or gen sub,
          mark = BS_of_string ''-_.!~*'()'', unreserved = unres,
          userinfo = BS_or_str unres '',:&=+$,'', uric_no_slash = BS_or_str unres '',?:@&=+$,'',
          rel_segment = BS_or_str unres '',@&=+$,'', scheme = BS_or_str alpha_nums ''+-.'',
          reg_name = BS_or unres sub, expansion = expn, pchar = pch,
          query = BS_or_str pch ''/?'',
          fragment = BS_or_str (BS_or_str pch ''/?'') (if \<not> gdt then '''' else ''#'')\<rparr>)"

definition has :: "ByteSet \<Rightarrow> char \<Rightarrow> bool" where
  "has cs c = BS_contains cs (of_char c)"

section \<open>Matching without results\<close>

definition match_literal :: "char \<Rightarrow> string \<Rightarrow> string option" where
  "match_literal c s = (case s of x # rest \<Rightarrow> if x = c then Some rest else None | [] \<Rightarrow> None)"

definition match_literal_string :: "string \<Rightarrow> string \<Rightarrow> string option" where
  "match_literal_string l s =
     (if length s \<ge> length l \<and> take (length l) s = l then Some (drop (length l) s) else None)"

definition match_byteset :: "ByteSet \<Rightarrow> string \<Rightarrow> string option" where
  "match_byteset cs s = (case s of x # rest \<Rightarrow> if has cs x then Some rest else None | [] \<Rightarrow> None)"

definition match_pct_encoded :: "string \<Rightarrow> string option" where
  "match_pct_encoded s =
     (if length s > 2 \<and> s ! 0 = CHR ''%''
      then if has hex_digits (s ! 1) \<and> has hex_digits (s ! 2) then Some (drop 3 s)
           else if length s > 5 \<and> s ! 1 = CHR ''u'' \<and> has hex_digits (s ! 2) \<and> has hex_digits (s ! 3) \<and>
                   has hex_digits (s ! 4) \<and> has hex_digits (s ! 5)
           then Some (drop 6 s)
           else None
      else None)"

definition match_byte_or_pct :: "ByteSet \<Rightarrow> string \<Rightarrow> string option" where
  "match_byte_or_pct cs s = (case match_byteset cs s of Some r \<Rightarrow> Some r | None \<Rightarrow> match_pct_encoded s)"

lemma match_byteset_shorter [termination_simp]: "match_byteset cs s = Some r \<Longrightarrow> length r < length s"
  by (auto simp: match_byteset_def split: list.splits if_splits)

lemma match_pct_encoded_shorter [termination_simp]: "match_pct_encoded s = Some r \<Longrightarrow> length r < length s"
  by (auto simp: match_pct_encoded_def split: if_splits)

lemma match_byte_or_pct_shorter [termination_simp]: "match_byte_or_pct cs s = Some r \<Longrightarrow> length r < length s"
  by (auto simp: match_byte_or_pct_def match_byteset_shorter match_pct_encoded_shorter split: option.splits)

text \<open>The loops \<^verbatim>\<open>while (match_byteset(cs))\<close> and \<^verbatim>\<open>while (match_byteset(cs) || match_pct_encoded())\<close>; the
  second also counts.\<close>

function match_byteset_while :: "ByteSet \<Rightarrow> string \<Rightarrow> string" where
  "match_byteset_while cs s = (case match_byteset cs s of Some r \<Rightarrow> match_byteset_while cs r | None \<Rightarrow> s)"
  by pat_completeness auto
termination by (relation "measure (\<lambda>(_, s). length s)") (auto dest: match_byteset_shorter)

function match_pct_while :: "ByteSet \<Rightarrow> string \<Rightarrow> nat \<Rightarrow> nat \<times> string" where
  "match_pct_while cs s n = (case match_byte_or_pct cs s of Some r \<Rightarrow> match_pct_while cs r (n + 1) | None \<Rightarrow> (n, s))"
  by pat_completeness auto
termination by (relation "measure (\<lambda>(_, s, _). length s)") (auto dest: match_byte_or_pct_shorter)

declare match_byteset_while.simps [simp del] match_pct_while.simps [simp del]

definition match_segment :: "bool \<Rightarrow> string \<Rightarrow> string" where
  "match_segment gdt s = snd (match_pct_while (pchar (byte_sets gdt)) s 0)"

definition match_segment_nz :: "bool \<Rightarrow> string \<Rightarrow> string option" where
  "match_segment_nz gdt s = (case match_pct_while (pchar (byte_sets gdt)) s 0 of (n, r) \<Rightarrow> if n > 0 then Some r else None)"

definition match_nz_nc_char :: "bool \<Rightarrow> string \<Rightarrow> string option" where
  "match_nz_nc_char gdt s =
     (case match_byteset (unreserved (byte_sets gdt)) s of
        Some r \<Rightarrow> Some r
      | None \<Rightarrow> (case match_pct_encoded s of
          Some r \<Rightarrow> Some r
        | None \<Rightarrow> (case match_byteset (sub_delims (byte_sets gdt)) s of
            Some r \<Rightarrow> Some r | None \<Rightarrow> match_literal (CHR ''@'') s)))"

lemma match_literal_shorter: "match_literal c s = Some r \<Longrightarrow> length r < length s"
  by (auto simp: match_literal_def split: list.splits if_splits)

lemma match_nz_nc_char_shorter: "match_nz_nc_char gdt s = Some r \<Longrightarrow> length r < length s"
  by (auto simp: match_nz_nc_char_def split: option.splits
      dest: match_byteset_shorter match_pct_encoded_shorter match_literal_shorter)

function match_nz_nc_while :: "bool \<Rightarrow> string \<Rightarrow> nat \<Rightarrow> nat \<times> string" where
  "match_nz_nc_while gdt s n = (case match_nz_nc_char gdt s of Some r \<Rightarrow> match_nz_nc_while gdt r (n + 1) | None \<Rightarrow> (n, s))"
  by pat_completeness auto
termination by (relation "measure (\<lambda>(_, s, _). length s)") (auto dest: match_nz_nc_char_shorter)

declare match_nz_nc_while.simps [simp del]

definition match_segment_nz_nc :: "bool \<Rightarrow> string \<Rightarrow> string option" where
  "match_segment_nz_nc gdt s = (case match_nz_nc_while gdt s 0 of (n, r) \<Rightarrow> if n > 0 then Some r else None)"

lemma match_pct_while_shorter: "match_pct_while cs s n = (m, r) \<Longrightarrow> length r \<le> length s"
proof (induction cs s n rule: match_pct_while.induct)
  case (1 cs s n)
  then show ?case
    by (auto simp: match_pct_while.simps [of cs s] split: option.splits dest: match_byte_or_pct_shorter less_imp_le_nat)
qed

text \<open>The loop \<^verbatim>\<open>*( "/" segment )\<close> of the four functions for paths.\<close>

function match_segments :: "bool \<Rightarrow> string \<Rightarrow> string" where
  "match_segments gdt s = (case match_literal (CHR ''/'') s of Some r \<Rightarrow> match_segments gdt (match_segment gdt r) | None \<Rightarrow> s)"
  by pat_completeness auto
termination
proof (relation "measure (\<lambda>(_, s). length s)", simp)
  fix gdt s r
  assume "match_literal (CHR ''/'') s = Some r"
  then have "length r < length s" by (rule match_literal_shorter)
  moreover have "length (match_segment gdt r) \<le> length r"
    by (simp add: match_segment_def) (metis match_pct_while_shorter prod.collapse)
  ultimately show "((gdt, match_segment gdt r), gdt, s) \<in> measure (\<lambda>(_, s). length s)" by simp
qed

declare match_segments.simps [simp del]

definition match_digits :: "string \<Rightarrow> string option" where
  "match_digits s = (case match_byteset digits s of Some r \<Rightarrow> Some (match_byteset_while digits r) | None \<Rightarrow> None)"

text \<open>One of the first three fields of an address: nothing is required if there is no digit.\<close>

definition match_IPv4_field :: "string \<Rightarrow> string option" where
  "match_IPv4_field s = (case match_digits s of Some r \<Rightarrow> match_literal (CHR ''.'') r | None \<Rightarrow> Some s)"

definition match_IPv4address :: "string \<Rightarrow> string option" where
  "match_IPv4address s =
     Option.bind (match_IPv4_field s) (\<lambda>s. Option.bind (match_IPv4_field s) (\<lambda>s.
       Option.bind (match_IPv4_field s) match_digits))"

definition match_IP_literal :: "string \<Rightarrow> string option" where
  "match_IP_literal s = None"

definition match_reg_name :: "bool \<Rightarrow> string \<Rightarrow> string option" where
  "match_reg_name gdt s = (case match_pct_while (reg_name (byte_sets gdt)) s 0 of (n, r) \<Rightarrow> if n > 0 then Some r else None)"

definition match_userinfo :: "bool \<Rightarrow> string \<Rightarrow> string" where
  "match_userinfo gdt s = snd (match_pct_while (userinfo (byte_sets gdt)) s 0)"

definition match_port :: "string \<Rightarrow> string" where
  "match_port s = match_byteset_while digits s"

definition match_query :: "bool \<Rightarrow> string \<Rightarrow> string" where
  "match_query gdt s = snd (match_pct_while (query (byte_sets gdt)) s 0)"

definition match_fragment :: "bool \<Rightarrow> string \<Rightarrow> string" where
  "match_fragment gdt s = snd (match_pct_while (fragment (byte_sets gdt)) s 0)"

fun maybe_contains_userinfo :: "string \<Rightarrow> bool" where
  "maybe_contains_userinfo [] = False"
| "maybe_contains_userinfo (c # s) =
     (if c = CHR ''@'' then True else if c = CHR ''/'' then False else maybe_contains_userinfo s)"

section \<open>Matching with results\<close>

text \<open>Views are an offset and a length, both 16 bits wide.\<close>

type_synonym ComponentView = "nat \<times> nat"

record UriParseResultReceiver =
  r_scheme :: ComponentView
  r_userinfo :: ComponentView
  r_host :: ComponentView
  r_port :: ComponentView
  r_path :: ComponentView
  r_query :: ComponentView
  r_fragment :: ComponentView

definition new_receiver :: UriParseResultReceiver where
  "new_receiver = \<lparr>r_scheme = (0, 0), r_userinfo = (0, 0), r_host = (0, 0), r_port = (0, 0),
                   r_path = (0, 0), r_query = (0, 0), r_fragment = (0, 0)\<rparr>"

record UriParser =
  m_size :: nat
  m_current :: string
  m_result :: UriParseResultReceiver

text \<open>The view that begins where \<open>from\<close> is the rest of the input.\<close>

definition view :: "UriParser \<Rightarrow> string \<Rightarrow> nat \<Rightarrow> ComponentView" where
  "view p from len = ((m_size p - length from) mod 2 ^ 16, len mod 2 ^ 16)"

definition match_scheme_and_colon :: "bool \<Rightarrow> UriParser \<Rightarrow> bool \<times> UriParser" where
  "match_scheme_and_colon gdt p =
     (let s = m_current p
      in case match_byteset alphas s of
           None \<Rightarrow> (False, p)
         | Some s1 \<Rightarrow>
             (case match_literal (CHR '':'') (match_byteset_while (scheme (byte_sets gdt)) s1) of
                None \<Rightarrow> (False, p)
              | Some s2 \<Rightarrow> (True, p\<lparr>m_current := s2,
                    m_result := (m_result p)\<lparr>r_scheme := view p s (length s - length s2 - 1)\<rparr>\<rparr>)))"

definition match_host :: "bool \<Rightarrow> UriParser \<Rightarrow> bool \<times> UriParser" where
  "match_host gdt p =
     (let s = m_current p
      in case (case match_IPv4address s of
                 Some r \<Rightarrow> Some r
               | None \<Rightarrow> (case match_IP_literal s of Some r \<Rightarrow> Some r | None \<Rightarrow> match_reg_name gdt s)) of
           None \<Rightarrow> (False, p)
         | Some r \<Rightarrow> (True, p\<lparr>m_current := r,
                m_result := (m_result p)\<lparr>r_host := view p s (length s - length r)\<rparr>\<rparr>))"

definition match_authority_userinfo :: "bool \<Rightarrow> UriParser \<Rightarrow> UriParser" where
  "match_authority_userinfo gdt p =
     (let s = m_current p
      in if maybe_contains_userinfo s
         then (case match_literal (CHR ''@'') (match_userinfo gdt s) of
                 None \<Rightarrow> p
               | Some r \<Rightarrow> p\<lparr>m_current := r,
                    m_result := (m_result p)\<lparr>r_userinfo := view p s (length s - length r - 1)\<rparr>\<rparr>)
         else p)"

definition match_authority_port :: "UriParser \<Rightarrow> UriParser" where
  "match_authority_port p =
     (let s = m_current p
      in case match_literal (CHR '':'') s of
           None \<Rightarrow> p
         | Some s1 \<Rightarrow>
             (let r = match_port s1
              in p\<lparr>m_current := r, m_result := (m_result p)\<lparr>r_port := view p s1 (length s - length r - 1)\<rparr>\<rparr>))"

definition match_authority :: "bool \<Rightarrow> UriParser \<Rightarrow> bool \<times> UriParser" where
  "match_authority gdt p =
     (case match_host gdt (match_authority_userinfo gdt p) of
        (False, p) \<Rightarrow> (False, p)
      | (True, p) \<Rightarrow> (True, match_authority_port p))"

definition SetPath_to :: "UriParser \<Rightarrow> string \<Rightarrow> UriParser" where
  "SetPath_to p r =
     p\<lparr>m_current := r,
       m_result := (m_result p)\<lparr>r_path := view p (m_current p) (length (m_current p) - length r)\<rparr>\<rparr>"

definition match_path_abempty :: "bool \<Rightarrow> UriParser \<Rightarrow> bool \<times> UriParser" where
  "match_path_abempty gdt p = (True, SetPath_to p (match_segments gdt (m_current p)))"

definition match_path_absolute :: "bool \<Rightarrow> UriParser \<Rightarrow> bool \<times> UriParser" where
  "match_path_absolute gdt p =
     (case match_literal (CHR ''/'') (m_current p) of
        None \<Rightarrow> (False, p)
      | Some s1 \<Rightarrow>
          (True, SetPath_to p (case match_segment_nz gdt s1 of Some s2 \<Rightarrow> match_segments gdt s2 | None \<Rightarrow> s1)))"

definition match_path_noscheme :: "bool \<Rightarrow> UriParser \<Rightarrow> bool \<times> UriParser" where
  "match_path_noscheme gdt p =
     (case match_segment_nz_nc gdt (m_current p) of
        None \<Rightarrow> (False, p) | Some s1 \<Rightarrow> (True, SetPath_to p (match_segments gdt s1)))"

definition match_path_rootless :: "bool \<Rightarrow> UriParser \<Rightarrow> bool \<times> UriParser" where
  "match_path_rootless gdt p =
     (case match_segment_nz gdt (m_current p) of
        None \<Rightarrow> (False, p) | Some s1 \<Rightarrow> (True, SetPath_to p (match_segments gdt s1)))"

text \<open>
  \<^verbatim>\<open>SetPath("", 0)\<close> subtracts the beginning of the input from the address of a string literal. The
  difference, cut to 16 bits, is the parameter \<open>lit\<close>.
\<close>

definition match_path_empty :: "nat \<Rightarrow> UriParser \<Rightarrow> bool \<times> UriParser" where
  "match_path_empty lit p = (True, p\<lparr>m_result := (m_result p)\<lparr>r_path := (lit mod 2 ^ 16, 0)\<rparr>\<rparr>)"

definition match_slashes_authority_path :: "bool \<Rightarrow> UriParser \<Rightarrow> bool \<times> UriParser" where
  "match_slashes_authority_path gdt p =
     (case match_literal_string ''//'' (m_current p) of
        None \<Rightarrow> (False, p)
      | Some s \<Rightarrow>
          (case match_authority gdt (p\<lparr>m_current := s\<rparr>) of
             (False, q) \<Rightarrow> (False, q\<lparr>m_current := m_current p\<rparr>)
           | (True, q) \<Rightarrow> match_path_abempty gdt q))"

definition orelse_match :: "bool \<times> UriParser \<Rightarrow> (UriParser \<Rightarrow> bool \<times> UriParser) \<Rightarrow> bool \<times> UriParser" where
  "orelse_match r f = (case r of (True, p) \<Rightarrow> (True, p) | (False, p) \<Rightarrow> f p)"

text \<open>
  \<^verbatim>\<open>match_hier_part\<close> returns the value of its last expression while its \<^verbatim>\<open>Result\<close> is still false, so
  that the destructor takes back whatever the path matched.
\<close>

definition match_hier_part :: "bool \<Rightarrow> nat \<Rightarrow> UriParser \<Rightarrow> bool \<times> UriParser" where
  "match_hier_part gdt lit p =
     (case match_slashes_authority_path gdt p of
        (True, q) \<Rightarrow> (True, q)
      | (False, q) \<Rightarrow>
          (case orelse_match (match_path_absolute gdt q) (\<lambda>q.
                  orelse_match (match_path_rootless gdt q) (match_path_empty lit)) of
             (b, q) \<Rightarrow> (b, q\<lparr>m_current := m_current p\<rparr>)))"

definition match_relative_part :: "bool \<Rightarrow> nat \<Rightarrow> UriParser \<Rightarrow> bool \<times> UriParser" where
  "match_relative_part gdt lit p =
     orelse_match (match_slashes_authority_path gdt p) (\<lambda>p.
       orelse_match (match_path_absolute gdt p) (\<lambda>p.
         orelse_match (match_path_noscheme gdt p) (match_path_empty lit)))"

definition match_query_part :: "bool \<Rightarrow> UriParser \<Rightarrow> UriParser" where
  "match_query_part gdt p =
     (case match_literal (CHR ''?'') (m_current p) of
        None \<Rightarrow> p
      | Some s \<Rightarrow>
          (let r = match_query gdt s
           in p\<lparr>m_current := r,
                m_result := (m_result p)\<lparr>r_query := view p s (length (m_current p) - length r - 1)\<rparr>\<rparr>))"

definition match_fragment_part :: "bool \<Rightarrow> UriParser \<Rightarrow> UriParser" where
  "match_fragment_part gdt p =
     (case match_literal (CHR ''#'') (m_current p) of
        None \<Rightarrow> p
      | Some s \<Rightarrow>
          (let r = match_fragment gdt s
           in p\<lparr>m_current := r,
                m_result := (m_result p)\<lparr>r_fragment := view p s (length (m_current p) - length r - 1)\<rparr>\<rparr>))"

definition match_URI :: "bool \<Rightarrow> nat \<Rightarrow> UriParser \<Rightarrow> bool \<times> UriParser" where
  "match_URI gdt lit p =
     (case match_scheme_and_colon gdt p of
        (False, q) \<Rightarrow> (False, q\<lparr>m_current := m_current p\<rparr>)
      | (True, q) \<Rightarrow>
          (case match_hier_part gdt lit q of
             (False, q) \<Rightarrow> (False, q\<lparr>m_current := m_current p\<rparr>)
           | (True, q) \<Rightarrow> (True, match_fragment_part gdt (match_query_part gdt q))))"

definition match_relative_ref :: "bool \<Rightarrow> nat \<Rightarrow> UriParser \<Rightarrow> bool \<times> UriParser" where
  "match_relative_ref gdt lit p =
     (case match_relative_part gdt lit p of
        (False, q) \<Rightarrow> (False, q\<lparr>m_current := m_current p\<rparr>)
      | (True, q) \<Rightarrow> (True, match_query_part gdt q))"

definition match_URI_reference :: "bool \<Rightarrow> nat \<Rightarrow> UriParser \<Rightarrow> bool \<times> UriParser" where
  "match_URI_reference gdt lit p = orelse_match (match_URI gdt lit p) (match_relative_ref gdt lit)"

text \<open>\<^verbatim>\<open>Parse\<close> returns how much of the input it has matched, and the receiver.\<close>

definition Parse :: "bool \<Rightarrow> nat \<Rightarrow> string \<Rightarrow> nat \<times> UriParseResultReceiver" where
  "Parse gdt lit s =
     (let p = snd (match_URI_reference gdt lit \<lparr>m_size = length s, m_current = s, m_result = new_receiver\<rparr>)
      in (length s - length (m_current p), m_result p))"

section \<open>Uri\<close>

record Uri =
  uri_string :: string
  uri_comps :: UriParseResultReceiver
  uri_port :: nat

definition tolower :: "char \<Rightarrow> char" where
  "tolower c = (if isupper (of_char c) then char_of (of_char c + 32 :: nat) else c)"

definition TryParse_Uri :: "bool \<Rightarrow> nat \<Rightarrow> string \<Rightarrow> Uri option" where
  "TryParse_Uri gdt lit s =
     (if length s > 2 ^ 16 - 1 then None
      else case Parse gdt lit s of (n, rc) \<Rightarrow>
        if n \<noteq> length s then None
        else let possible_port = take (snd (r_port rc)) (drop (fst (r_port rc)) s);
                 (since, len) = r_scheme rc;
                 lowered = take since s @ map tolower (take len (drop since s)) @ drop (since + len) s
             in if possible_port \<noteq> []
                then (case TryParse_integral 0 (2 ^ 16 - 1) 10 possible_port of
                        Some port \<Rightarrow> Some \<lparr>uri_string = lowered, uri_comps = rc, uri_port = nat port\<rparr>
                      | None \<Rightarrow> None)
                else Some \<lparr>uri_string = lowered, uri_comps = rc, uri_port = 0\<rparr>)"

text \<open>The accessors: \<^verbatim>\<open>substr\<close> throws if the offset lies behind the end.\<close>

definition GetComponent :: "(UriParseResultReceiver \<Rightarrow> ComponentView) \<Rightarrow> Uri \<Rightarrow> string result" where
  "GetComponent field u =
     (case field (uri_comps u) of (first, second) \<Rightarrow>
        if first > length (uri_string u) then Inl Std_exception
        else Inr (take second (drop first (uri_string u))))"

section \<open>What is matched\<close>

text \<open>Text made of bytes of a set and of escaped bytes.\<close>

inductive pct_text :: "ByteSet \<Rightarrow> string \<Rightarrow> bool" for cs where
  empty: "pct_text cs []"
| byte: "has cs c \<Longrightarrow> pct_text cs s \<Longrightarrow> pct_text cs (c # s)"
| escaped: "has hex_digits a \<Longrightarrow> has hex_digits b \<Longrightarrow> pct_text cs s \<Longrightarrow> pct_text cs (CHR ''%'' # a # b # s)"
| unicode: "has hex_digits a \<Longrightarrow> has hex_digits b \<Longrightarrow> has hex_digits c \<Longrightarrow> has hex_digits d \<Longrightarrow>
    pct_text cs s \<Longrightarrow> pct_text cs (CHR ''%'' # CHR ''u'' # a # b # c # d # s)"

lemma match_literal_iff [simp]: "match_literal c s = Some r \<longleftrightarrow> s = c # r"
  by (auto simp: match_literal_def split: list.splits)

lemma match_literal_simps [simp]:
  "match_literal c (x # r) = (if x = c then Some r else None)" "match_literal c [] = None"
  by (simp_all add: match_literal_def)

lemma match_literal_None: "match_literal c s = None \<longleftrightarrow> \<not> (\<exists>r. s = c # r)"
  by (auto simp: match_literal_def split: list.splits)

lemma match_literal_string_iff [simp]: "match_literal_string l s = Some r \<longleftrightarrow> s = l @ r"
  by (auto simp: match_literal_string_def) (metis append_take_drop_id)

lemma match_byteset_iff: "match_byteset cs s = Some r \<longleftrightarrow> (\<exists>c. s = c # r \<and> has cs c)"
  by (auto simp: match_byteset_def split: list.splits)

lemma match_byteset_while_eq: "match_byteset_while cs s = dropWhile (has cs) s"
proof (induction s)
  case Nil
  show ?case by (simp add: match_byteset_while.simps match_byteset_def)
next
  case (Cons c s)
  then show ?case by (simp add: match_byteset_while.simps [of cs "c # s"] match_byteset_def)
qed

lemma match_pct_encodedE:
  assumes "match_pct_encoded s = Some r"
  obtains a b where "s = CHR ''%'' # a # b # r" "has hex_digits a" "has hex_digits b"
  | a b c d where "s = CHR ''%'' # CHR ''u'' # a # b # c # d # r"
      "has hex_digits a" "has hex_digits b" "has hex_digits c" "has hex_digits d"
proof -
  have len: "length s > 2" using assms by (auto simp: match_pct_encoded_def split: if_splits)
  then obtain x a b t where s: "s = x # a # b # t"
    by (cases s; cases "tl s"; cases "tl (tl s)") auto
  show thesis
  proof (cases "has hex_digits a \<and> has hex_digits b")
    case True
    with assms s that(1) show thesis by (auto simp: match_pct_encoded_def split: if_splits)
  next
    case False
    with assms s have "length t > 2" by (auto simp: match_pct_encoded_def split: if_splits)
    then obtain c d e u where "t = c # d # e # u" by (cases t; cases "tl t"; cases "tl (tl t)") auto
    with assms s False that(2) show thesis
      by (auto simp: match_pct_encoded_def eval_nat_numeral split: if_splits)
  qed
qed

lemma match_byte_or_pct_text:
  assumes "match_byte_or_pct cs s = Some r"
  shows "\<exists>u. s = u @ r \<and> u \<noteq> [] \<and> (\<forall>t. pct_text cs t \<longrightarrow> pct_text cs (u @ t))"
proof (cases "match_byteset cs s")
  case (Some r')
  with assms obtain c where "s = [c] @ r" "has cs c" by (auto simp: match_byte_or_pct_def match_byteset_iff)
  then show ?thesis by (auto intro: pct_text.byte)
next
  case None
  with assms have "match_pct_encoded s = Some r" by (simp add: match_byte_or_pct_def)
  then show ?thesis
  proof (cases rule: match_pct_encodedE)
    case (1 a b)
    then show ?thesis by (intro exI [of _ "[CHR ''%'', a, b]"]) (auto intro: pct_text.escaped)
  next
    case (2 a b c d)
    then show ?thesis by (intro exI [of _ "[CHR ''%'', CHR ''u'', a, b, c, d]"]) (auto intro: pct_text.unicode)
  qed
qed

lemma match_pct_while_text:
  "match_pct_while cs s n = (m, r) \<Longrightarrow> \<exists>u. s = u @ r \<and> pct_text cs u \<and> n \<le> m \<and> (m = n \<longleftrightarrow> u = [])"
proof (induction cs s n rule: match_pct_while.induct)
  case (1 cs s n)
  show ?case
  proof (cases "match_byte_or_pct cs s")
    case None
    with 1(2) show ?thesis by (auto simp: match_pct_while.simps [of cs s] intro: pct_text.empty)
  next
    case (Some t)
    with 1(2) have "match_pct_while cs t (n + 1) = (m, r)" by (simp add: match_pct_while.simps [of cs s])
    from 1(1) [OF Some this] obtain u where "t = u @ r" "pct_text cs u" "n + 1 \<le> m" by blast
    with match_byte_or_pct_text [OF Some] show ?thesis by fastforce
  qed
qed

lemma pct_text_append: "pct_text cs s \<Longrightarrow> pct_text cs t \<Longrightarrow> pct_text cs (s @ t)"
  by (induction rule: pct_text.induct) (auto intro: pct_text.intros)

lemma pct_text_mono:
  "pct_text cs s \<Longrightarrow> (\<And>c. has cs c \<Longrightarrow> has ds c) \<Longrightarrow> pct_text ds s"
  by (induction rule: pct_text.induct) (auto intro: pct_text.intros)

lemma match_segment_text:
  "match_segment gdt s = r \<Longrightarrow> \<exists>u. s = u @ r \<and> pct_text (pchar (byte_sets gdt)) u"
  unfolding match_segment_def using match_pct_while_text by (metis prod.collapse)

lemma has_or_str: "CHR 0x00 \<notin> set l \<Longrightarrow> has (BS_or_str cs l) c \<longleftrightarrow> has cs c \<or> c \<in> set l"
  by (auto simp: has_def BS_or_str_def BS_or_def BS_of_string_def contains_or contains_FromString of_char_bound)

lemma has_or: "has (BS_or cs ds) c \<longleftrightarrow> has cs c \<or> has ds c"
  by (simp add: has_def BS_or_def contains_or of_char_bound)

lemma has_of_string: "CHR 0x00 \<notin> set l \<Longrightarrow> has (BS_of_string l) c \<longleftrightarrow> c \<in> set l"
  by (auto simp: has_def BS_of_string_def contains_FromString of_char_bound)

lemma has_classes:
  "has alphas c \<longleftrightarrow> isalpha (of_char c)" "has alpha_nums c \<longleftrightarrow> isalnum (of_char c)"
  "has hex_digits c \<longleftrightarrow> isxdigit (of_char c)" "has digits c \<longleftrightarrow> isdigit (of_char c)"
  by (simp_all add: has_def contains_classes of_char_bound)

text \<open>The bytes of a path, and its text.\<close>

definition path_bytes :: "bool \<Rightarrow> ByteSet" where
  "path_bytes gdt = BS_or_str (pchar (byte_sets gdt)) ''/''"

lemma has_path_bytes: "has (path_bytes gdt) c \<longleftrightarrow> has (pchar (byte_sets gdt)) c \<or> c = CHR ''/''"
  by (simp add: path_bytes_def has_or_str)

lemma match_segments_text:
  "match_segments gdt s = r \<Longrightarrow>
   \<exists>u. s = u @ r \<and> pct_text (path_bytes gdt) u \<and> (u = [] \<or> (\<exists>v. u = CHR ''/'' # v))"
proof (induction gdt s rule: match_segments.induct)
  case (1 gdt s)
  show ?case
  proof (cases "match_literal (CHR ''/'') s")
    case None
    with 1(2) show ?thesis by (auto simp: match_segments.simps [of gdt s] intro: pct_text.empty)
  next
    case (Some t)
    obtain u where u: "t = u @ match_segment gdt t" "pct_text (pchar (byte_sets gdt)) u"
      using match_segment_text by blast
    have "match_segments gdt (match_segment gdt t) = r"
      using 1(2) Some by (simp add: match_segments.simps [of gdt s])
    from 1(1) [OF Some this] obtain v where v: "match_segment gdt t = v @ r" "pct_text (path_bytes gdt) v" by blast
    have "pct_text (path_bytes gdt) (CHR ''/'' # u @ v)"
      using u(2) v(2) by (intro pct_text.byte pct_text_append)
        (auto simp: has_path_bytes intro: pct_text_mono)
    with Some u v show ?thesis by (intro exI [of _ "CHR ''/'' # u @ v"]) auto
  qed
qed

lemma match_segment_nz_text:
  "match_segment_nz gdt s = Some r \<Longrightarrow> \<exists>u. s = u @ r \<and> u \<noteq> [] \<and> pct_text (pchar (byte_sets gdt)) u"
  using match_pct_while_text [of "pchar (byte_sets gdt)" s 0] by (auto simp: match_segment_nz_def split: prod.splits if_splits)

lemma match_reg_name_text:
  "match_reg_name gdt s = Some r \<Longrightarrow> \<exists>u. s = u @ r \<and> u \<noteq> [] \<and> pct_text (reg_name (byte_sets gdt)) u"
  using match_pct_while_text [of "reg_name (byte_sets gdt)" s 0] by (auto simp: match_reg_name_def split: prod.splits if_splits)

lemma pchar_sets:
  "has (unreserved (byte_sets gdt)) c \<Longrightarrow> has (pchar (byte_sets gdt)) c"
  "has (sub_delims (byte_sets gdt)) c \<Longrightarrow> has (pchar (byte_sets gdt)) c"
  "has (pchar (byte_sets gdt)) (CHR ''@'')" "\<not> has (pchar (byte_sets gdt)) (CHR ''/'')"
  "\<not> has (pchar (byte_sets gdt)) (CHR ''%'')"
  by (simp_all add: byte_sets_def Let_def has_or has_or_str has_of_string has_classes isalnum_def isalpha_def
      isupper_def islower_def isdigit_def)

lemma match_nz_nc_char_text:
  assumes "match_nz_nc_char gdt s = Some r"
  shows "\<exists>u. s = u @ r \<and> u \<noteq> [] \<and> (\<forall>t. pct_text (pchar (byte_sets gdt)) t \<longrightarrow> pct_text (pchar (byte_sets gdt)) (u @ t))"
proof -
  have "match_byte_or_pct (pchar (byte_sets gdt)) s = Some r"
    using assms pchar_sets
    by (auto simp: match_nz_nc_char_def match_byte_or_pct_def match_byteset_iff match_byteset_def
        split: option.splits list.splits if_splits elim!: match_pct_encodedE)
  then show ?thesis by (rule match_byte_or_pct_text)
qed

lemma match_nz_nc_while_text:
  "match_nz_nc_while gdt s n = (m, r) \<Longrightarrow>
   \<exists>u. s = u @ r \<and> pct_text (pchar (byte_sets gdt)) u \<and> n \<le> m \<and> (m = n \<longleftrightarrow> u = [])"
proof (induction gdt s n rule: match_nz_nc_while.induct)
  case (1 gdt s n)
  show ?case
  proof (cases "match_nz_nc_char gdt s")
    case None
    with 1(2) show ?thesis by (auto simp: match_nz_nc_while.simps [of gdt s] intro: pct_text.empty)
  next
    case (Some t)
    with 1(2) have "match_nz_nc_while gdt t (n + 1) = (m, r)" by (simp add: match_nz_nc_while.simps [of gdt s])
    from 1(1) [OF Some this] obtain u where "t = u @ r" "pct_text (pchar (byte_sets gdt)) u" "n + 1 \<le> m" by blast
    with match_nz_nc_char_text [OF Some] show ?thesis by fastforce
  qed
qed

lemma match_segment_nz_nc_text:
  "match_segment_nz_nc gdt s = Some r \<Longrightarrow> \<exists>u. s = u @ r \<and> u \<noteq> [] \<and> pct_text (pchar (byte_sets gdt)) u"
  using match_nz_nc_while_text [of gdt s 0] by (auto simp: match_segment_nz_nc_def split: prod.splits if_splits)

lemma pct_text_all: "\<forall>c \<in> set u. has cs c \<Longrightarrow> pct_text cs u"
  by (induction u) (auto intro: pct_text.intros)

lemma match_digits_text:
  "match_digits s = Some r \<Longrightarrow> \<exists>u. s = u @ r \<and> u \<noteq> [] \<and> (\<forall>c \<in> set u. has digits c)"
proof -
  assume "match_digits s = Some r"
  then obtain c t where s: "s = c # t" "has digits c" "r = dropWhile (has digits) t"
    by (auto simp: match_digits_def match_byteset_iff match_byteset_while_eq split: option.splits)
  then have "s = (c # takeWhile (has digits) t) @ r" "\<forall>x \<in> set (c # takeWhile (has digits) t). has digits x"
    by (auto dest: set_takeWhileD)
  then show ?thesis by blast
qed

lemma match_IPv4_field_text:
  "match_IPv4_field s = Some r \<Longrightarrow> \<exists>u. s = u @ r \<and> (\<forall>c \<in> set u. has digits c \<or> c = CHR ''.'')"
proof (cases "match_digits s")
  case None
  moreover assume "match_IPv4_field s = Some r"
  ultimately show ?thesis by (auto simp: match_IPv4_field_def)
next
  case (Some t)
  moreover assume "match_IPv4_field s = Some r"
  ultimately have "t = CHR ''.'' # r" by (simp add: match_IPv4_field_def)
  with match_digits_text [OF Some] obtain u where "s = (u @ ''.'') @ r" "\<forall>c \<in> set u. has digits c" by auto
  then show ?thesis by (intro exI [of _ "u @ ''.''"]) auto
qed

lemma match_IPv4address_text:
  assumes "match_IPv4address s = Some r"
  shows "\<exists>u. s = u @ r \<and> u \<noteq> [] \<and> (\<forall>c \<in> set u. has digits c \<or> c = CHR ''.'')"
proof -
  obtain s1 s2 s3 where "match_IPv4_field s = Some s1" "match_IPv4_field s1 = Some s2"
    "match_IPv4_field s2 = Some s3" "match_digits s3 = Some r"
    using assms by (auto simp: match_IPv4address_def bind_eq_Some_conv)
  then obtain u1 u2 u3 u4 where "s = (u1 @ u2 @ u3 @ u4) @ r" "u4 \<noteq> []"
      "\<forall>c \<in> set u1. has digits c \<or> c = CHR ''.''" "\<forall>c \<in> set u2. has digits c \<or> c = CHR ''.''"
      "\<forall>c \<in> set u3. has digits c \<or> c = CHR ''.''" "\<forall>c \<in> set u4. has digits c"
    using match_IPv4_field_text [of s s1] match_IPv4_field_text [of s1 s2] match_IPv4_field_text [of s2 s3]
      match_digits_text [of s3 r] by force
  then show ?thesis by (intro exI [of _ "u1 @ u2 @ u3 @ u4"]) auto
qed

section \<open>Positions\<close>

definition inside :: "nat \<Rightarrow> string \<Rightarrow> UriParser \<Rightarrow> bool" where
  "inside k s p \<longleftrightarrow> m_size p = k + length s \<and> k + length s < 2 ^ 16 \<and> suffix (m_current p) s"

text \<open>A view shows a part of what follows the first \<open>k\<close> bytes of the input.\<close>

definition shown :: "nat \<Rightarrow> string \<Rightarrow> ComponentView \<Rightarrow> string \<Rightarrow> bool" where
  "shown k s v x \<longleftrightarrow>
     (\<exists>pre post. s = pre @ x @ post \<and> v = (k + length pre, length x)) \<or> x = [] \<and> v = (0, 0)"

lemma view_shown:
  assumes "inside k s p" "suffix (x @ r) s"
  shows "shown k s (view p (x @ r) (length x)) x"
proof -
  obtain pre where pre: "s = pre @ x @ r" using assms(2) by (auto simp: suffix_def)
  then have "m_size p - length (x @ r) = k + length pre" "k + length pre < 2 ^ 16" "length x < 2 ^ 16"
    using assms(1) by (auto simp: inside_def)
  then have "view p (x @ r) (length x) = (k + length pre, length x)" by (simp add: view_def)
  with pre show ?thesis by (auto simp: shown_def)
qed

lemma inside_suffix: "inside k s p \<Longrightarrow> m_current p = u @ r \<Longrightarrow> suffix r s"
  by (auto simp: inside_def suffix_def)

lemma inside_update: "inside k s p \<Longrightarrow> m_current p = u @ r \<Longrightarrow> inside k s (p\<lparr>m_current := r, m_result := rc\<rparr>)"
  by (auto simp: inside_def suffix_def)

lemma shown_empty [simp]: "shown k s (0, 0) []"
  by (auto simp: shown_def)

definition part :: "string option \<Rightarrow> string" where
  "part x = (case x of None \<Rightarrow> [] | Some y \<Rightarrow> y)"

lemma part_simps [simp]: "part None = []" "part (Some x) = x"
  by (simp_all add: part_def)

lemma SetPath_to_shown:
  assumes "inside k s p" "m_current p = u @ r"
  shows "inside k s (SetPath_to p r) \<and> m_current (SetPath_to p r) = r \<and>
     (\<exists>v. m_result (SetPath_to p r) = (m_result p)\<lparr>r_path := v\<rparr> \<and> shown k s v u)"
  using inside_update [OF assms, of "(m_result p)\<lparr>r_path := view p (u @ r) (length u)\<rparr>"]
    view_shown [OF assms(1), of u r] assms
  by (simp add: SetPath_to_def inside_def del: split_paired_Ex) blast

text \<open>The authority, with its optional parts.\<close>

definition userinfo_text :: "string option \<Rightarrow> string" where
  "userinfo_text ui = (case ui of None \<Rightarrow> [] | Some x \<Rightarrow> x @ ''@'')"

definition prefixed :: "char \<Rightarrow> string option \<Rightarrow> string" where
  "prefixed c x = (case x of None \<Rightarrow> [] | Some y \<Rightarrow> c # y)"

lemma prefixed_simps [simp]: "prefixed c None = []" "prefixed c (Some x) = c # x"
  by (simp_all add: prefixed_def)

definition option_all :: "('a \<Rightarrow> bool) \<Rightarrow> 'a option \<Rightarrow> bool" where
  "option_all P x \<longleftrightarrow> (case x of None \<Rightarrow> True | Some y \<Rightarrow> P y)"

lemma option_all_simps [simp]: "option_all P None" "option_all P (Some x) = P x"
  by (simp_all add: option_all_def)

lemma match_authority_userinfo_text:
  assumes "inside k s p" "match_authority_userinfo gdt p = p'"
  shows "\<exists>ui v. m_current p = userinfo_text ui @ m_current p' \<and> inside k s p' \<and>
     option_all (pct_text (userinfo (byte_sets gdt))) ui \<and> m_result p' = (m_result p)\<lparr>r_userinfo := v\<rparr> \<and>
     (shown k s (r_userinfo (m_result p)) [] \<longrightarrow> shown k s v (part ui))"
proof (cases "maybe_contains_userinfo (m_current p) \<and> match_literal (CHR ''@'') (match_userinfo gdt (m_current p)) \<noteq> None")
  case False
  then have "p' = p" using assms(2) by (auto simp: match_authority_userinfo_def Let_def split: if_splits option.splits)
  with assms(1) show ?thesis by (intro exI [of _ None] exI [of _ "r_userinfo (m_result p)"]) (simp add: userinfo_text_def)
next
  case True
  then obtain r where r: "match_userinfo gdt (m_current p) = CHR ''@'' # r" by auto
  obtain n t where "match_pct_while (userinfo (byte_sets gdt)) (m_current p) 0 = (n, t)" by fastforce
  from match_pct_while_text [OF this] r this obtain u where
    u: "m_current p = u @ CHR ''@'' # r" "pct_text (userinfo (byte_sets gdt)) u" by (auto simp: match_userinfo_def)
  then have "m_current p = (u @ ''@'') @ r" by simp
  with assms True r u show ?thesis
    using view_shown [OF assms(1), of u "CHR ''@'' # r"] inside_update [OF assms(1), of "u @ ''@''" r]
    by (intro exI [of _ "Some u"] exI [of _ "view p (m_current p) (length u)"])
       (auto simp: match_authority_userinfo_def Let_def userinfo_text_def inside_def)
qed

lemma match_host_text:
  assumes "inside k s p" "match_host gdt p = (True, p')"
  shows "\<exists>h v. m_current p = h @ m_current p' \<and> inside k s p' \<and> h \<noteq> [] \<and> pct_text (reg_name (byte_sets gdt)) h \<and>
     m_result p' = (m_result p)\<lparr>r_host := v\<rparr> \<and> shown k s v h"
proof -
  obtain r where r: "match_IPv4address (m_current p) = Some r \<or> match_reg_name gdt (m_current p) = Some r"
    and p': "p' = p\<lparr>m_current := r,
        m_result := (m_result p)\<lparr>r_host := view p (m_current p) (length (m_current p) - length r)\<rparr>\<rparr>"
    using assms(2) by (auto simp: match_host_def Let_def match_IP_literal_def split: option.splits)
  have "has (reg_name (byte_sets gdt)) c" if "has digits c \<or> c = CHR ''.''" for c
    using that by (auto simp: byte_sets_def Let_def has_or has_or_str has_classes isalnum_def)
  with r obtain h where h: "m_current p = h @ r" "h \<noteq> []" "pct_text (reg_name (byte_sets gdt)) h"
    using match_IPv4address_text [of "m_current p" r] match_reg_name_text [of gdt "m_current p" r]
    by (metis pct_text_all)
  with p' assms(1) view_shown [OF assms(1), of h r] inside_update [OF assms(1) h(1)] show ?thesis
    by (intro exI [of _ h] exI [of _ "view p (h @ r) (length h)"]) (auto simp: inside_def)
qed

lemma match_authority_port_text:
  assumes "inside k s p" "match_authority_port p = p'"
  shows "\<exists>po v. m_current p = prefixed (CHR '':'') po @ m_current p' \<and> inside k s p' \<and>
     option_all (\<lambda>x. \<forall>c \<in> set x. has digits c) po \<and> m_result p' = (m_result p)\<lparr>r_port := v\<rparr> \<and>
     (shown k s (r_port (m_result p)) [] \<longrightarrow> shown k s v (part po))"
proof (cases "match_literal (CHR '':'') (m_current p)")
  case None
  with assms show ?thesis
    by (intro exI [of _ None] exI [of _ "r_port (m_result p)"]) (simp add: match_authority_port_def)
next
  case (Some t)
  let ?u = "takeWhile (has digits) t" and ?r = "dropWhile (has digits) t"
  have cur: "m_current p = CHR '':'' # ?u @ ?r" using Some by simp
  have "length ?u + length ?r = length t" by (metis length_append takeWhile_dropWhile_id)
  then have len: "length t - length ?r = length ?u" by linarith
  have "suffix (?u @ ?r) s" using inside_suffix [OF assms(1), of "'':''"] cur by simp
  then have "shown k s (view p t (length ?u)) ?u" using view_shown [OF assms(1), of ?u ?r] by simp
  moreover have "inside k s p'" "m_current p' = ?r" "m_result p' = (m_result p)\<lparr>r_port := view p t (length ?u)\<rparr>"
    using assms cur inside_update [OF assms(1), of "CHR '':'' # ?u" ?r]
    by (auto simp: match_authority_port_def Let_def match_port_def match_byteset_while_eq inside_def len)
  ultimately show ?thesis using cur
    by (intro exI [of _ "Some ?u"] exI [of _ "view p t (length ?u)"]) (auto dest: set_takeWhileD)
qed

type_synonym authority = "string option \<times> string \<times> string option"

definition authority_text :: "authority \<Rightarrow> string" where
  "authority_text a = (case a of (ui, h, po) \<Rightarrow> userinfo_text ui @ h @ prefixed (CHR '':'') po)"

definition authority_ok :: "bool \<Rightarrow> authority \<Rightarrow> bool" where
  "authority_ok gdt a \<longleftrightarrow> (case a of (ui, h, po) \<Rightarrow>
     option_all (pct_text (userinfo (byte_sets gdt))) ui \<and> h \<noteq> [] \<and> pct_text (reg_name (byte_sets gdt)) h \<and>
     option_all (\<lambda>x. \<forall>c \<in> set x. has digits c) po)"

definition authority_shown :: "nat \<Rightarrow> string \<Rightarrow> UriParseResultReceiver \<Rightarrow> authority \<Rightarrow> bool" where
  "authority_shown k s rc a \<longleftrightarrow> (case a of (ui, h, po) \<Rightarrow>
     shown k s (r_userinfo rc) (part ui) \<and> shown k s (r_host rc) h \<and> shown k s (r_port rc) (part po))"

lemma match_authority_text:
  assumes p: "inside k s p" "shown k s (r_userinfo (m_result p)) []" "shown k s (r_port (m_result p)) []"
    and m: "match_authority gdt p = (True, p')"
  shows "\<exists>a v w x. m_current p = authority_text a @ m_current p' \<and> inside k s p' \<and> authority_ok gdt a \<and>
     m_result p' = (m_result p)\<lparr>r_userinfo := v, r_host := w, r_port := x\<rparr> \<and> authority_shown k s (m_result p') a"
proof -
  let ?p1 = "match_authority_userinfo gdt p"
  obtain p2 where p2: "match_host gdt ?p1 = (True, p2)" "p' = match_authority_port p2"
    using m by (auto simp: match_authority_def split: prod.splits bool.splits)
  obtain ui v where ui: "m_current p = userinfo_text ui @ m_current ?p1" "inside k s ?p1"
      "option_all (pct_text (userinfo (byte_sets gdt))) ui" "m_result ?p1 = (m_result p)\<lparr>r_userinfo := v\<rparr>"
      "shown k s v (part ui)"
    using match_authority_userinfo_text [OF p(1) HOL.refl, of gdt] p(2) by blast
  obtain h w where h: "m_current ?p1 = h @ m_current p2" "inside k s p2" "h \<noteq> []"
      "pct_text (reg_name (byte_sets gdt)) h" "m_result p2 = (m_result ?p1)\<lparr>r_host := w\<rparr>" "shown k s w h"
    using match_host_text [OF ui(2) p2(1)] by blast
  have "shown k s (r_port (m_result p2)) []" using p(3) ui(4) h(5) by simp
  then obtain po x where po: "m_current p2 = prefixed (CHR '':'') po @ m_current p'" "inside k s p'"
      "option_all (\<lambda>x. \<forall>c \<in> set x. has digits c) po" "m_result p' = (m_result p2)\<lparr>r_port := x\<rparr>" "shown k s x (part po)"
    using match_authority_port_text [OF h(2) p2(2) [symmetric]] by blast
  show ?thesis
    by (intro exI [of _ "(ui, h, po)"] exI [of _ v] exI [of _ w] exI [of _ x])
       (use ui h po in \<open>simp add: authority_text_def authority_ok_def authority_shown_def\<close>)
qed

lemma match_slashes_text:
  assumes p: "inside k s p" "shown k s (r_userinfo (m_result p)) []" "shown k s (r_port (m_result p)) []"
    and m: "match_slashes_authority_path gdt p = (True, p')"
  shows "\<exists>a u v w x y. m_current p = ''//'' @ authority_text a @ u @ m_current p' \<and> inside k s p' \<and>
     authority_ok gdt a \<and> pct_text (path_bytes gdt) u \<and> (u = [] \<or> (\<exists>t. u = CHR ''/'' # t)) \<and>
     m_result p' = (m_result p)\<lparr>r_userinfo := v, r_host := w, r_port := x, r_path := y\<rparr> \<and>
     authority_shown k s (m_result p') a \<and> shown k s y u"
proof -
  obtain r q where r: "m_current p = ''//'' @ r" and q: "match_authority gdt (p\<lparr>m_current := r\<rparr>) = (True, q)"
    and p': "p' = SetPath_to q (match_segments gdt (m_current q))"
    using m by (auto simp: match_slashes_authority_path_def match_path_abempty_def split: option.splits prod.splits bool.splits)
  have "inside k s (p\<lparr>m_current := r\<rparr>)" using p(1) inside_suffix [OF p(1) r] by (simp add: inside_def)
  from match_authority_text [OF this _ _ q] p obtain a v w x where
    a: "r = authority_text a @ m_current q" "inside k s q" "authority_ok gdt a"
      "m_result q = (m_result p)\<lparr>r_userinfo := v, r_host := w, r_port := x\<rparr>" "authority_shown k s (m_result q) a"
    by auto
  obtain u where u: "m_current q = u @ match_segments gdt (m_current q)" "pct_text (path_bytes gdt) u"
      "u = [] \<or> (\<exists>t. u = CHR ''/'' # t)"
    using match_segments_text by blast
  from SetPath_to_shown [OF a(2) u(1)] obtain y where
    y: "inside k s p'" "m_current p' = match_segments gdt (m_current q)" "m_result p' = (m_result q)\<lparr>r_path := y\<rparr>" "shown k s y u"
    using p' by blast
  show ?thesis
    by (intro exI [of _ a] exI [of _ u] exI [of _ v] exI [of _ w] exI [of _ x] exI [of _ y])
       (use r a u y in \<open>simp add: authority_shown_def split: prod.splits\<close>)
qed

lemma match_slashes_fails:
  assumes "match_slashes_authority_path gdt p = (False, p')"
  shows "m_current p' = m_current p" "p' = p \<or> (\<exists>r. m_current p = ''//'' @ r)"
  using assms by (auto simp: match_slashes_authority_path_def match_path_abempty_def split: option.splits prod.splits bool.splits)

lemma match_scheme_text:
  assumes "match_scheme_and_colon gdt p = (b, p')"
  shows "if b
     then \<exists>x. m_current p = x @ CHR '':'' # m_current p' \<and> m_size p' = m_size p \<and> x \<noteq> [] \<and> has alphas (hd x) \<and>
       (\<forall>c \<in> set x. has (scheme (byte_sets gdt)) c) \<and> m_result p' = (m_result p)\<lparr>r_scheme := view p (m_current p) (length x)\<rparr>
     else p' = p"
proof (cases b)
  case False
  with assms show ?thesis by (auto simp: match_scheme_and_colon_def Let_def split: option.splits)
next
  case True
  let ?cs = "scheme (byte_sets gdt)"
  obtain c t r where c: "m_current p = c # t" "has alphas c" "dropWhile (has ?cs) t = CHR '':'' # r"
    and p': "p' = p\<lparr>m_current := r, m_result := (m_result p)\<lparr>r_scheme := view p (m_current p) (length (m_current p) - length r - 1)\<rparr>\<rparr>"
    using assms True by (auto simp: match_scheme_and_colon_def Let_def match_byteset_iff match_byteset_while_eq split: option.splits)
  let ?x = "c # takeWhile (has ?cs) t"
  have cur: "m_current p = ?x @ CHR '':'' # r" using c(1,3) by (metis append_Cons takeWhile_dropWhile_id)
  have "has ?cs c" using c(2) by (simp add: byte_sets_def Let_def has_or_str has_classes isalnum_def)
  then have "\<forall>x \<in> set ?x. has ?cs x" by (auto dest: set_takeWhileD)
  then show ?thesis using True c(2) cur p' by (simp only: if_True) (intro exI [of _ ?x], simp)
qed

lemma match_query_part_text:
  assumes "inside k s p" "match_query_part gdt p = p'"
  shows "\<exists>q v. m_current p = prefixed (CHR ''?'') q @ m_current p' \<and> inside k s p' \<and>
     option_all (pct_text (query (byte_sets gdt))) q \<and> m_result p' = (m_result p)\<lparr>r_query := v\<rparr> \<and>
     (shown k s (r_query (m_result p)) [] \<longrightarrow> shown k s v (part q))"
proof (cases "match_literal (CHR ''?'') (m_current p)")
  case None
  with assms show ?thesis by (intro exI [of _ None] exI [of _ "r_query (m_result p)"]) (simp add: match_query_part_def)
next
  case (Some t)
  obtain n r where "match_pct_while (query (byte_sets gdt)) t 0 = (n, r)" by fastforce
  from match_pct_while_text [OF this] this obtain u where
    u: "t = u @ r" "pct_text (query (byte_sets gdt)) u" and r: "match_query gdt t = r" by (auto simp: match_query_def)
  have cur: "m_current p = (CHR ''?'' # u) @ r" using Some u by simp
  then have "suffix (u @ r) s" using inside_suffix [OF assms(1), of "''?''"] by simp
  then show ?thesis
    using assms cur r u view_shown [OF assms(1), of u r] inside_update [OF assms(1) cur]
    by (intro exI [of _ "Some u"] exI [of _ "view p t (length u)"]) (auto simp: match_query_part_def Let_def inside_def)
qed

lemma match_fragment_part_text:
  assumes "inside k s p" "match_fragment_part gdt p = p'"
  shows "\<exists>f v. m_current p = prefixed (CHR ''#'') f @ m_current p' \<and> inside k s p' \<and>
     option_all (pct_text (fragment (byte_sets gdt))) f \<and> m_result p' = (m_result p)\<lparr>r_fragment := v\<rparr> \<and>
     (shown k s (r_fragment (m_result p)) [] \<longrightarrow> shown k s v (part f))"
proof (cases "match_literal (CHR ''#'') (m_current p)")
  case None
  with assms show ?thesis by (intro exI [of _ None] exI [of _ "r_fragment (m_result p)"]) (simp add: match_fragment_part_def)
next
  case (Some t)
  obtain n r where "match_pct_while (fragment (byte_sets gdt)) t 0 = (n, r)" by fastforce
  from match_pct_while_text [OF this] this obtain u where
    u: "t = u @ r" "pct_text (fragment (byte_sets gdt)) u" and r: "match_fragment gdt t = r" by (auto simp: match_fragment_def)
  have cur: "m_current p = (CHR ''#'' # u) @ r" using Some u by simp
  then have "suffix (u @ r) s" using inside_suffix [OF assms(1), of "''#''"] by simp
  then show ?thesis
    using assms cur r u view_shown [OF assms(1), of u r] inside_update [OF assms(1) cur]
    by (intro exI [of _ "Some u"] exI [of _ "view p t (length u)"]) (auto simp: match_fragment_part_def Let_def inside_def)
qed

section \<open>The text of a URI\<close>

definition uri_text ::
    "string option \<Rightarrow> authority option \<Rightarrow> string \<Rightarrow> string option \<Rightarrow> string option \<Rightarrow> string" where
  "uri_text sch auth path q f =
     (case sch of None \<Rightarrow> [] | Some x \<Rightarrow> x @ '':'') @
     (case auth of None \<Rightarrow> [] | Some a \<Rightarrow> ''//'' @ authority_text a) @
     path @ prefixed (CHR ''?'') q @ prefixed (CHR ''#'') f"

definition uri_ok ::
    "bool \<Rightarrow> string option \<Rightarrow> authority option \<Rightarrow> string \<Rightarrow> string option \<Rightarrow> string option \<Rightarrow> bool" where
  "uri_ok gdt sch auth path q f \<longleftrightarrow>
     option_all (\<lambda>x. x \<noteq> [] \<and> has alphas (hd x) \<and> (\<forall>c \<in> set x. has (scheme (byte_sets gdt)) c)) sch \<and>
     option_all (authority_ok gdt) auth \<and> pct_text (path_bytes gdt) path \<and>
     (auth \<noteq> None \<longrightarrow> path = [] \<or> (\<exists>t. path = CHR ''/'' # t)) \<and>
     option_all (pct_text (query (byte_sets gdt))) q \<and> option_all (pct_text (fragment (byte_sets gdt))) f \<and>
     (sch \<noteq> None \<and> auth = None \<longrightarrow> path = []) \<and> (sch = None \<longrightarrow> f = None)"

text \<open>
  What the receiver holds after a parse: a view of every part, except that the empty path without
  an authority is recorded at the arbitrary offset.
\<close>

definition receiver_ok ::
    "nat \<Rightarrow> nat \<Rightarrow> string \<Rightarrow> UriParseResultReceiver \<Rightarrow> string option \<Rightarrow> authority option \<Rightarrow> string \<Rightarrow>
     string option \<Rightarrow> string option \<Rightarrow> bool" where
  "receiver_ok lit k s rc sch auth path q f \<longleftrightarrow>
     r_scheme rc = (0, length (part sch)) \<and>
     (case auth of None \<Rightarrow> shown k s (r_userinfo rc) [] \<and> shown k s (r_host rc) [] \<and> shown k s (r_port rc) []
                 | Some a \<Rightarrow> authority_shown k s rc a) \<and>
     (if auth = None \<and> path = [] then r_path rc = (lit mod 2 ^ 16, 0) else shown k s (r_path rc) path) \<and>
     shown k s (r_query rc) (part q) \<and> shown k s (r_fragment rc) (part f)"

text \<open>Nothing but a whole match matters: what is left must be empty.\<close>

lemma query_part_stuck:
  "m_current p = c # r \<Longrightarrow> c \<noteq> CHR ''?'' \<Longrightarrow> match_query_part gdt p = p"
  "m_current p = c # r \<Longrightarrow> c \<noteq> CHR ''#'' \<Longrightarrow> match_fragment_part gdt p = p"
  by (auto simp: match_query_part_def match_fragment_part_def)

lemma orelse_match_iffs:
  "orelse_match (True, p) f = (True, p)" "orelse_match (False, p) f = f p"
  by (simp_all add: orelse_match_def)

lemma match_paths_cases:
  "match_path_absolute gdt p = (b, q) \<Longrightarrow> \<not> b \<Longrightarrow> q = p"
  "match_path_rootless gdt p = (b, q) \<Longrightarrow> \<not> b \<Longrightarrow> q = p"
  "match_path_noscheme gdt p = (b, q) \<Longrightarrow> \<not> b \<Longrightarrow> q = p"
  by (auto simp: match_path_absolute_def match_path_rootless_def match_path_noscheme_def split: option.splits)

lemma match_path_absolute_text:
  assumes "inside k s p" "match_path_absolute gdt p = (True, p')"
  shows "\<exists>u v. m_current p = u @ m_current p' \<and> u \<noteq> [] \<and> inside k s p' \<and> pct_text (path_bytes gdt) u \<and>
     m_result p' = (m_result p)\<lparr>r_path := v\<rparr> \<and> shown k s v u"
proof -
  obtain t where t: "m_current p = CHR ''/'' # t"
    and p': "p' = SetPath_to p (case match_segment_nz gdt t of Some r \<Rightarrow> match_segments gdt r | None \<Rightarrow> t)" (is "_ = SetPath_to p ?r")
    using assms(2) by (auto simp: match_path_absolute_def split: option.splits)
  have slash: "has (path_bytes gdt) (CHR ''/'')" by (simp add: has_path_bytes)
  have "\<exists>u. t = u @ ?r \<and> pct_text (path_bytes gdt) u"
  proof (cases "match_segment_nz gdt t")
    case None
    then show ?thesis by (auto intro: pct_text.empty)
  next
    case (Some r)
    from match_segment_nz_text [OF Some] obtain u where "t = u @ r" "pct_text (pchar (byte_sets gdt)) u" by blast
    moreover obtain w where "r = w @ match_segments gdt r" "pct_text (path_bytes gdt) w"
      using match_segments_text by blast
    ultimately show ?thesis using Some
      by (intro exI [of _ "u @ w"]) (auto simp: has_path_bytes intro!: pct_text_append intro: pct_text_mono)
  qed
  then obtain u where u: "t = u @ ?r" "pct_text (path_bytes gdt) u" by blast
  then have "m_current p = (CHR ''/'' # u) @ ?r" using t by simp
  with SetPath_to_shown [OF assms(1) this] p' u(2) slash show ?thesis
    by (metis list.distinct(1) pct_text.byte)
qed

lemma match_path_noscheme_text:
  assumes "inside k s p" "match_path_noscheme gdt p = (True, p')"
  shows "\<exists>u v. m_current p = u @ m_current p' \<and> u \<noteq> [] \<and> inside k s p' \<and> pct_text (path_bytes gdt) u \<and>
     m_result p' = (m_result p)\<lparr>r_path := v\<rparr> \<and> shown k s v u"
proof -
  obtain r where r: "match_segment_nz_nc gdt (m_current p) = Some r" and p': "p' = SetPath_to p (match_segments gdt r)"
    using assms(2) by (auto simp: match_path_noscheme_def split: option.splits)
  obtain u where u: "m_current p = u @ r" "u \<noteq> []" "pct_text (pchar (byte_sets gdt)) u"
    using match_segment_nz_nc_text [OF r] by blast
  obtain w where w: "r = w @ match_segments gdt r" "pct_text (path_bytes gdt) w"
    using match_segments_text by blast
  have cur: "m_current p = (u @ w) @ match_segments gdt r" using u(1) w(1) by simp
  have "pct_text (path_bytes gdt) (u @ w)"
    using u(3) w(2) by (intro pct_text_append) (auto simp: has_path_bytes intro: pct_text_mono)
  with SetPath_to_shown [OF assms(1) cur] p' u(2) cur show ?thesis by (metis append_is_Nil_conv)
qed

lemma match_byte_or_pct_stuck: "c \<noteq> CHR ''%'' \<Longrightarrow> \<not> has cs c \<Longrightarrow> match_byte_or_pct cs (c # r) = None"
  by (simp add: match_byte_or_pct_def match_byteset_def match_pct_encoded_def)

lemma match_pct_while_stuck: "match_byte_or_pct cs s = None \<Longrightarrow> match_pct_while cs s n = (n, s)"
  by (simp add: match_pct_while.simps)

lemma pchar_delims: "\<not> has (pchar (byte_sets gdt)) (CHR ''?'')" "\<not> has (pchar (byte_sets gdt)) (CHR ''#'')"
  by (simp_all add: byte_sets_def Let_def has_or has_or_str has_of_string has_classes isalnum_def isalpha_def
      isupper_def islower_def isdigit_def)

lemma match_segment_nz_stuck:
  assumes "s = [] \<or> (\<exists>r. s = CHR ''?'' # r \<or> s = CHR ''#'' # r \<or> s = CHR ''/'' # r)"
  shows "match_segment_nz gdt s = None"
proof -
  have "match_byte_or_pct (pchar (byte_sets gdt)) s = None"
    using assms pchar_delims [of gdt] pchar_sets(4) [of gdt]
    by (auto simp: match_byte_or_pct_stuck) (auto simp: match_byte_or_pct_def match_byteset_def match_pct_encoded_def)
  then show ?thesis by (simp add: match_segment_nz_def match_pct_while_stuck)
qed

text \<open>The part behind the path.\<close>

lemma tail_text:
  assumes p: "inside k s p" "shown k s (r_query (m_result p)) []" "shown k s (r_fragment (m_result p)) []"
    and p': "p' = match_fragment_part gdt (match_query_part gdt p)" "m_current p' = []"
  shows "\<exists>q f v w. m_current p = prefixed (CHR ''?'') q @ prefixed (CHR ''#'') f \<and>
     option_all (pct_text (query (byte_sets gdt))) q \<and> option_all (pct_text (fragment (byte_sets gdt))) f \<and>
     m_result p' = (m_result p)\<lparr>r_query := v, r_fragment := w\<rparr> \<and> shown k s v (part q) \<and> shown k s w (part f)"
proof -
  let ?q = "match_query_part gdt p"
  obtain q v where q: "m_current p = prefixed (CHR ''?'') q @ m_current ?q" "inside k s ?q"
      "option_all (pct_text (query (byte_sets gdt))) q" "m_result ?q = (m_result p)\<lparr>r_query := v\<rparr>" "shown k s v (part q)"
    using match_query_part_text [OF p(1) HOL.refl, of gdt] p(2) by blast
  have "shown k s (r_fragment (m_result ?q)) []" using p(3) q(4) by simp
  then obtain f w where "m_current ?q = prefixed (CHR ''#'') f @ m_current p'"
      "option_all (pct_text (fragment (byte_sets gdt))) f" "m_result p' = (m_result ?q)\<lparr>r_fragment := w\<rparr>" "shown k s w (part f)"
    using match_fragment_part_text [OF q(2) p'(1) [symmetric]] by blast
  with q p'(2) show ?thesis
    by (intro exI [of _ q] exI [of _ f] exI [of _ v] exI [of _ w]) simp
qed

lemma match_URI_sound:
  assumes len: "length s < 2 ^ 16" and p: "p = \<lparr>m_size = length s, m_current = s, m_result = new_receiver\<rparr>"
    and m: "match_URI gdt lit p = (True, p')" "m_current p' = []"
  shows "\<exists>sch t auth path q f. s = sch @ CHR '':'' # t \<and> t = uri_text None auth path q f \<and>
     uri_ok gdt (Some sch) auth path q f \<and> receiver_ok lit (length sch + 1) t (m_result p') (Some sch) auth path q f"
proof -
  obtain p1 p2 where p1: "match_scheme_and_colon gdt p = (True, p1)" and p2: "match_hier_part gdt lit p1 = (True, p2)"
    and p': "p' = match_fragment_part gdt (match_query_part gdt p2)"
    using m(1) by (auto simp: match_URI_def split: prod.splits bool.splits)
  from match_scheme_text [OF p1] obtain sch where
    sch: "s = sch @ CHR '':'' # m_current p1" "m_size p1 = length s" "sch \<noteq> []" "has alphas (hd sch)"
      "\<forall>c \<in> set sch. has (scheme (byte_sets gdt)) c" "m_result p1 = new_receiver\<lparr>r_scheme := view p s (length sch)\<rparr>"
    using p by auto
  define t k where "t = m_current p1" and "k = length sch + 1"
  have ins: "inside k t p1" using sch(1,2) len by (simp add: inside_def t_def k_def)
  have sv: "view p s (length sch) = (0, length sch)" using p len sch(1) by (simp add: view_def)
  have new: "shown k t (r_userinfo (m_result p1)) []" "shown k t (r_port (m_result p1)) []"
    "shown k t (r_host (m_result p1)) []" "shown k t (r_query (m_result p1)) []" "shown k t (r_fragment (m_result p1)) []"
    using sch(6) by (simp_all add: new_receiver_def)
  show ?thesis
  proof (cases "match_slashes_authority_path gdt p1")
    case (Pair b p3)
    show ?thesis
    proof (cases b)
      case True
      then have "p2 = p3" using p2 Pair by (simp add: match_hier_part_def)
      with True Pair have "match_slashes_authority_path gdt p1 = (True, p2)" by simp
      then obtain a u w x y z where
        a: "m_current p1 = ''//'' @ authority_text a @ u @ m_current p2" "inside k t p2" "authority_ok gdt a"
          "pct_text (path_bytes gdt) u" "u = [] \<or> (\<exists>t. u = CHR ''/'' # t)"
          "m_result p2 = (m_result p1)\<lparr>r_userinfo := w, r_host := x, r_port := y, r_path := z\<rparr>"
          "authority_shown k t (m_result p2) a" "shown k t z u"
        using match_slashes_text [OF ins new(1,2)] by blast
      have "shown k t (r_query (m_result p2)) []" "shown k t (r_fragment (m_result p2)) []" using new a(6) by simp_all
      then obtain q f i j where
        tl: "m_current p2 = prefixed (CHR ''?'') q @ prefixed (CHR ''#'') f"
          "option_all (pct_text (query (byte_sets gdt))) q" "option_all (pct_text (fragment (byte_sets gdt))) f"
          "m_result p' = (m_result p2)\<lparr>r_query := i, r_fragment := j\<rparr>" "shown k t i (part q)" "shown k t j (part f)"
        using tail_text [OF a(2) _ _ p' m(2)] by blast
      show ?thesis
        by (intro exI [of _ sch] exI [of _ t] exI [of _ "Some a"] exI [of _ u] exI [of _ q] exI [of _ f])
           (use sch sv a tl in \<open>simp add: t_def k_def uri_text_def uri_ok_def receiver_ok_def authority_shown_def split: prod.splits\<close>)
    next
      case False
      have slashes: "match_slashes_authority_path gdt p1 = (False, p3)" using Pair False by simp
      have cur: "m_current p2 = m_current p1"
        using p2 slashes by (auto simp: match_hier_part_def split: prod.splits)
      have ends: "m_current p1 = [] \<or> (\<exists>r. m_current p1 = CHR ''?'' # r \<or> m_current p1 = CHR ''#'' # r)"
      proof (rule ccontr)
        assume "\<not> ?thesis"
        then obtain c r where "m_current p2 = c # r" "c \<noteq> CHR ''?''" "c \<noteq> CHR ''#''"
          using cur by (cases "m_current p1") auto
        then have "p' = p2" using p' query_part_stuck [of p2 c r gdt] by simp
        with m(2) \<open>m_current p2 = c # r\<close> show False by simp
      qed
      then have "p3 = p1" using match_slashes_fails(2) [OF slashes] by auto
      have "match_path_absolute gdt p1 = (False, p1)"
        using ends by (auto simp: match_path_absolute_def)
      moreover have "match_path_rootless gdt p1 = (False, p1)"
        using ends match_segment_nz_stuck [of "m_current p1" gdt] by (auto simp: match_path_rootless_def)
      ultimately have eq: "p2 = p1\<lparr>m_result := (m_result p1)\<lparr>r_path := (lit mod 2 ^ 16, 0)\<rparr>\<rparr>"
        using p2 slashes \<open>p3 = p1\<close>
        by (simp add: match_hier_part_def orelse_match_iffs match_path_empty_def)
      have "inside k t p2" "shown k t (r_query (m_result p2)) []" "shown k t (r_fragment (m_result p2)) []"
        using ins new eq by (simp_all add: inside_def)
      from tail_text [OF this p' m(2)] obtain q f i j where
        tl: "m_current p2 = prefixed (CHR ''?'') q @ prefixed (CHR ''#'') f"
          "option_all (pct_text (query (byte_sets gdt))) q" "option_all (pct_text (fragment (byte_sets gdt))) f"
          "m_result p' = (m_result p2)\<lparr>r_query := i, r_fragment := j\<rparr>" "shown k t i (part q)" "shown k t j (part f)"
        by blast
      show ?thesis
        by (intro exI [of _ sch] exI [of _ t] exI [of _ None] exI [of _ "[]"] exI [of _ q] exI [of _ f])
           (use sch sv cur eq tl new in \<open>simp add: t_def k_def uri_text_def uri_ok_def receiver_ok_def pct_text.empty\<close>)
    qed
  qed
qed

lemma match_URI_fails: "match_URI gdt lit p = (False, p') \<Longrightarrow> p' = p"
  by (auto simp: match_URI_def match_hier_part_def orelse_match_def match_path_empty_def match_scheme_and_colon_def Let_def
      split: prod.splits bool.splits option.splits)

lemma match_relative_sound:
  assumes len: "length s < 2 ^ 16" and p: "p = \<lparr>m_size = length s, m_current = s, m_result = new_receiver\<rparr>"
    and m: "match_relative_ref gdt lit p = (True, p')" "m_current p' = []"
  shows "\<exists>auth path q. s = uri_text None auth path q None \<and> uri_ok gdt None auth path q None \<and>
     receiver_ok lit 0 s (m_result p') None auth path q None"
proof -
  have ins: "inside 0 s p" using len p by (simp add: inside_def)
  obtain p2 where p2: "match_relative_part gdt lit p = (True, p2)" and p': "match_query_part gdt p2 = p'"
    using m(1) by (auto simp: match_relative_ref_def split: prod.splits bool.splits)
  have new: "shown 0 s (r_userinfo (m_result p)) []" "shown 0 s (r_port (m_result p)) []"
    "shown 0 s (r_host (m_result p)) []" "shown 0 s (r_query (m_result p)) []" "shown 0 s (r_fragment (m_result p)) []"
    "r_scheme (m_result p) = (0, 0)"
    using p by (simp_all add: new_receiver_def)
  have tail: "\<exists>q i. m_current p2 = prefixed (CHR ''?'') q \<and> option_all (pct_text (query (byte_sets gdt))) q \<and>
      m_result p' = (m_result p2)\<lparr>r_query := i\<rparr> \<and> shown 0 s i (part q)"
    if "inside 0 s p2" "shown 0 s (r_query (m_result p2)) []"
    using match_query_part_text [OF that(1) p'] that(2) m(2) by auto
  obtain b p3 where p3: "match_slashes_authority_path gdt p = (b, p3)" by fastforce
  show ?thesis
  proof (cases b)
    case True
    then have "match_slashes_authority_path gdt p = (True, p2)"
      using p2 p3 by (simp add: match_relative_part_def orelse_match_iffs)
    then obtain a u w x y z where
      a: "m_current p = ''//'' @ authority_text a @ u @ m_current p2" "inside 0 s p2" "authority_ok gdt a"
        "pct_text (path_bytes gdt) u" "u = [] \<or> (\<exists>t. u = CHR ''/'' # t)"
        "m_result p2 = (m_result p)\<lparr>r_userinfo := w, r_host := x, r_port := y, r_path := z\<rparr>"
        "authority_shown 0 s (m_result p2) a" "shown 0 s z u"
      using match_slashes_text [OF ins new(1,2)] by blast
    then obtain q i where "m_current p2 = prefixed (CHR ''?'') q" "option_all (pct_text (query (byte_sets gdt))) q"
      "m_result p' = (m_result p2)\<lparr>r_query := i\<rparr>" "shown 0 s i (part q)"
      using tail new by auto
    with a p new show ?thesis
      by (intro exI [of _ "Some a"] exI [of _ u] exI [of _ q])
         (simp add: uri_text_def uri_ok_def receiver_ok_def authority_shown_def split: prod.splits)
  next
    case False
    then have slashes: "match_slashes_authority_path gdt p = (False, p3)" using p3 by simp
    have rest: "match_relative_part gdt lit p = orelse_match (match_path_absolute gdt p3) (\<lambda>p.
        orelse_match (match_path_noscheme gdt p) (match_path_empty lit))"
      using slashes by (simp add: match_relative_part_def orelse_match_iffs)
    have "p3 = p"
    proof (rule ccontr)
      assume "p3 \<noteq> p"
      then obtain r where "m_current p3 = ''//'' @ r" using match_slashes_fails [OF slashes] by auto
      then have "match_path_absolute gdt p3 = (True, SetPath_to p3 (CHR ''/'' # r))"
        using match_segment_nz_stuck [of "CHR ''/'' # r" gdt] by (simp add: match_path_absolute_def)
      then have "m_current p2 = CHR ''/'' # r" using p2 rest by (auto simp: orelse_match_iffs SetPath_to_def)
      then show False using query_part_stuck(1) [of p2 "CHR ''/''" r gdt] p' m(2) by simp
    qed
    then consider
        "match_path_absolute gdt p = (True, p2) \<or> match_path_noscheme gdt p = (True, p2)"
      | "p2 = p\<lparr>m_result := (m_result p)\<lparr>r_path := (lit mod 2 ^ 16, 0)\<rparr>\<rparr>"
      using p2 rest match_paths_cases [of gdt p]
      by (cases "match_path_absolute gdt p"; cases "match_path_noscheme gdt p")
         (auto simp: orelse_match_def match_path_empty_def split: bool.splits)
    then show ?thesis
    proof cases
      case 1
      then obtain u z where u: "m_current p = u @ m_current p2" "u \<noteq> []" "inside 0 s p2" "pct_text (path_bytes gdt) u"
          "m_result p2 = (m_result p)\<lparr>r_path := z\<rparr>" "shown 0 s z u"
        using match_path_absolute_text [OF ins] match_path_noscheme_text [OF ins] by meson
      then obtain q i where "m_current p2 = prefixed (CHR ''?'') q" "option_all (pct_text (query (byte_sets gdt))) q"
        "m_result p' = (m_result p2)\<lparr>r_query := i\<rparr>" "shown 0 s i (part q)"
        using tail new by auto
      with u p new show ?thesis
        by (intro exI [of _ None] exI [of _ u] exI [of _ q]) (simp add: uri_text_def uri_ok_def receiver_ok_def)
    next
      case 2
      then have "inside 0 s p2" using ins by (simp add: inside_def)
      then obtain q i where "m_current p2 = prefixed (CHR ''?'') q" "option_all (pct_text (query (byte_sets gdt))) q"
        "m_result p' = (m_result p2)\<lparr>r_query := i\<rparr>" "shown 0 s i (part q)"
        using tail new 2 by auto
      with 2 p new show ?thesis
        by (intro exI [of _ None] exI [of _ "[]"] exI [of _ q])
           (simp add: uri_text_def uri_ok_def receiver_ok_def pct_text.empty)
    qed
  qed
qed

lemma match_nothing:
  assumes "m_current p = []"
  shows "m_current (snd (match_URI_reference gdt lit p)) = []"
proof -
  have "match_URI gdt lit p = (False, p)"
    using assms by (simp add: match_URI_def match_scheme_and_colon_def match_byteset_def)
  moreover have "match_slashes_authority_path gdt p = (False, p)" "match_path_absolute gdt p = (False, p)"
    using assms by (simp_all add: match_slashes_authority_path_def match_literal_string_def match_path_absolute_def)
  moreover have "match_path_noscheme gdt p = (False, p)"
    using assms by (simp add: match_path_noscheme_def match_segment_nz_nc_def match_nz_nc_while.simps
        match_nz_nc_char_def match_byteset_def match_pct_encoded_def)
  ultimately show ?thesis using assms
    by (simp add: match_URI_reference_def match_relative_ref_def match_relative_part_def orelse_match_iffs
        match_path_empty_def match_query_part_def)
qed

lemma match_relative_ref_True: "fst (match_relative_ref gdt lit p)"
  by (auto simp: match_relative_ref_def match_relative_part_def orelse_match_def match_path_empty_def
      split: prod.splits bool.splits)

lemma Parse_sound:
  assumes "length s < 2 ^ 16" "Parse gdt lit s = (length s, rc)"
  shows "\<exists>sch t auth path q f. s = (case sch of None \<Rightarrow> [] | Some x \<Rightarrow> x @ '':'') @ t \<and>
     t = uri_text None auth path q f \<and> uri_ok gdt sch auth path q f \<and>
     receiver_ok lit (length s - length t) t rc sch auth path q f"
proof -
  let ?p = "\<lparr>m_size = length s, m_current = s, m_result = new_receiver\<rparr>"
  obtain b p' where p': "match_URI_reference gdt lit ?p = (b, p')" by fastforce
  then have rc: "rc = m_result p'" and n: "length s - length (m_current p') = length s"
    using assms(2) by (auto simp: Parse_def Let_def)
  have cur: "m_current p' = []"
  proof (cases "s = []")
    case True
    then show ?thesis using match_nothing [of ?p gdt lit] p' by simp
  next
    case False
    then have "0 < length s" by simp
    with n have "length (m_current p') = 0" by linarith
    then show ?thesis by simp
  qed
  obtain c p1 where p1: "match_URI gdt lit ?p = (c, p1)" by fastforce
  show ?thesis
  proof (cases c)
    case True
    then have "match_URI gdt lit ?p = (True, p')"
      using p' p1 by (auto simp: match_URI_reference_def orelse_match_iffs)
    from match_URI_sound [OF assms(1) HOL.refl this cur] obtain sch t auth path q f where
      "s = sch @ CHR '':'' # t" "t = uri_text None auth path q f" "uri_ok gdt (Some sch) auth path q f"
      "receiver_ok lit (length sch + 1) t (m_result p') (Some sch) auth path q f"
      by blast
    then show ?thesis using rc
      by (intro exI [of _ "Some sch"] exI [of _ t] exI [of _ auth] exI [of _ path] exI [of _ q] exI [of _ f]) simp
  next
    case False
    then have "p1 = ?p" using p1 match_URI_fails by simp
    then have "match_relative_ref gdt lit ?p = (True, p')"
      using p' p1 False match_relative_ref_True [of gdt lit ?p] by (auto simp: match_URI_reference_def orelse_match_iffs)
    from match_relative_sound [OF assms(1) HOL.refl this cur] obtain auth path q where
      "s = uri_text None auth path q None" "uri_ok gdt None auth path q None"
      "receiver_ok lit 0 s (m_result p') None auth path q None"
      by blast
    then show ?thesis using rc
      by (intro exI [of _ None] exI [of _ s] exI [of _ auth] exI [of _ path] exI [of _ q] exI [of _ None]) simp
  qed
qed

lemma TryParse_integral_range: "TryParse_integral lo hi b x = Some v \<Longrightarrow> lo \<le> v \<and> v \<le> hi"
  by (auto simp: TryParse_integral_def from_chars_def Let_def split: if_splits prod.splits)

text \<open>The accessors read the parts back, although the scheme was changed to lower case.\<close>

lemma GetComponent_shown:
  assumes "shown (length h) t (field (uri_comps u)) x" "uri_string u = h @ t"
  shows "GetComponent field u = Inr x"
  using assms by (auto simp: GetComponent_def shown_def split: prod.splits)

definition auth_userinfo :: "authority option \<Rightarrow> string" where
  "auth_userinfo a = (case a of None \<Rightarrow> [] | Some (ui, h, po) \<Rightarrow> part ui)"

definition auth_host :: "authority option \<Rightarrow> string" where
  "auth_host a = (case a of None \<Rightarrow> [] | Some (ui, h, po) \<Rightarrow> h)"

definition auth_port :: "authority option \<Rightarrow> string" where
  "auth_port a = (case a of None \<Rightarrow> [] | Some (ui, h, po) \<Rightarrow> part po)"

text \<open>The object made from a successful parse, with what its accessors return.\<close>

definition uri_reads ::
    "nat \<Rightarrow> string \<Rightarrow> Uri \<Rightarrow> string option \<Rightarrow> authority option \<Rightarrow> string \<Rightarrow> string option \<Rightarrow> string option \<Rightarrow> bool" where
  "uri_reads lit s u sch auth path q f \<longleftrightarrow>
     GetComponent r_scheme u = Inr (map tolower (part sch)) \<and>
     GetComponent r_userinfo u = Inr (auth_userinfo auth) \<and>
     GetComponent r_host u = Inr (auth_host auth) \<and>
     GetComponent r_path u =
       (if auth = None \<and> path = [] \<and> lit mod 2 ^ 16 > length s then Inl Std_exception else Inr path) \<and>
     GetComponent r_query u = Inr (part q) \<and> GetComponent r_fragment u = Inr (part f) \<and>
     (if auth_port auth = [] then uri_port u = 0
      else TryParse_integral 0 (2 ^ 16 - 1) 10 (auth_port auth) = Some (int (uri_port u))) \<and>
     uri_string u = map tolower (part sch) @ drop (length (part sch)) s"

lemma TryParse_Uri_reads:
  assumes len: "length s < 2 ^ 16" and parse: "Parse gdt lit s = (length s, rc)"
    and s: "s = (case sch of None \<Rightarrow> [] | Some x \<Rightarrow> x @ '':'') @ t" "t = uri_text None auth path q f"
    and rc: "receiver_ok lit (length s - length t) t rc sch auth path q f"
  shows "(TryParse_Uri gdt lit s = Some u \<longrightarrow> uri_reads lit s u sch auth path q f) \<and>
     (TryParse_Uri gdt lit s = None \<longleftrightarrow>
        auth_port auth \<noteq> [] \<and> TryParse_integral 0 (2 ^ 16 - 1) 10 (auth_port auth) = None)"
proof -
  let ?k = "length s - length t"
  define h where "h = (case sch of None \<Rightarrow> [] | Some x \<Rightarrow> map tolower x @ '':'')"
  have k: "length h = ?k" using s(1) by (cases sch) (simp_all add: h_def)
  have low: "map tolower (part sch) @ drop (length (part sch)) s = h @ t"
    using s(1) by (cases sch) (simp_all add: h_def)
  note rok = rc [unfolded receiver_ok_def]
  have scheme: "r_scheme rc = (0, length (part sch))" using rok by simp
  have port_s: "shown ?k t (r_port rc) (auth_port auth)"
    using rok by (cases auth) (auto simp: auth_port_def authority_shown_def)
  have port: "take (snd (r_port rc)) (drop (fst (r_port rc)) s) = auth_port auth"
  proof -
    have "drop ?k s = t" "?k \<le> length s" using s(1) by (cases sch; simp)+
    from port_s show ?thesis unfolding shown_def
    proof (elim disjE exE conjE)
      fix pre post
      assume "t = pre @ auth_port auth @ post" "r_port rc = (?k + length pre, length (auth_port auth))"
      moreover from \<open>drop ?k s = t\<close> have "drop (length pre + ?k) s = drop (length pre) t" by (metis drop_drop)
      ultimately show ?thesis by (simp add: add.commute)
    qed simp
  qed
  have "take (length (part sch)) s = part sch" using s(1) by (cases sch) simp_all
  then have eq: "TryParse_Uri gdt lit s =
     (if auth_port auth \<noteq> []
      then (case TryParse_integral 0 (2 ^ 16 - 1) 10 (auth_port auth) of
              Some port \<Rightarrow> Some \<lparr>uri_string = h @ t, uri_comps = rc, uri_port = nat port\<rparr> | None \<Rightarrow> None)
      else Some \<lparr>uri_string = h @ t, uri_comps = rc, uri_port = 0\<rparr>)"
    using len low unfolding TryParse_Uri_def parse prod.case Let_def scheme port by (simp split: option.splits)
  have "uri_reads lit s u sch auth path q f"
    if u: "TryParse_Uri gdt lit s = Some u"
  proof -
    have us: "uri_string u = h @ t" "uri_comps u = rc"
      using u eq by (auto split: if_splits option.splits)
    have "length s = length h + length t" using k s(1) by auto
    have reads: "GetComponent field u = Inr x" if "shown ?k t (field rc) x" for field x
      using GetComponent_shown [of h t field u x] that us k by simp
    have "GetComponent r_userinfo u = Inr (auth_userinfo auth)" "GetComponent r_host u = Inr (auth_host auth)"
      "GetComponent r_query u = Inr (part q)" "GetComponent r_fragment u = Inr (part f)"
      using rok by (cases auth; auto simp: auth_userinfo_def auth_host_def authority_shown_def intro!: reads)+
    moreover have "GetComponent r_scheme u = Inr (map tolower (part sch))"
      using us scheme by (cases sch) (simp_all add: GetComponent_def h_def)
    moreover have "GetComponent r_path u =
       (if auth = None \<and> path = [] \<and> lit mod 2 ^ 16 > length s then Inl Std_exception else Inr path)"
    proof (cases "auth = None \<and> path = []")
      case True
      with rok us \<open>length s = _\<close> show ?thesis by (simp add: GetComponent_def)
    next
      case False
      with rok have "shown ?k t (r_path rc) path" by auto
      with False reads show ?thesis by auto
    qed
    moreover have "if auth_port auth = [] then uri_port u = 0
      else TryParse_integral 0 (2 ^ 16 - 1) 10 (auth_port auth) = Some (int (uri_port u))"
      using u eq TryParse_integral_range [of 0 "2 ^ 16 - 1" 10 "auth_port auth"] by (auto split: if_splits option.splits)
    ultimately show ?thesis using us(1) low by (simp add: uri_reads_def)
  qed
  with eq show ?thesis by (auto split: option.splits)
qed

section \<open>What is accepted\<close>

text \<open>Loops match as much as they can.\<close>

lemma match_pct_while_step:
  "match_byte_or_pct cs s = Some t \<Longrightarrow> \<exists>m. match_pct_while cs t (n + 1) = (m, r) \<and> n + 1 \<le> m \<Longrightarrow>
   \<exists>m. match_pct_while cs s n = (m, r) \<and> n \<le> m \<and> n < m"
  by (auto simp: match_pct_while.simps [of cs s] dest: Suc_le_lessD)

lemma match_pct_while_all:
  assumes "pct_text cs u" "\<not> has cs (CHR ''%'')" "match_byte_or_pct cs r = None"
  shows "\<exists>m. match_pct_while cs (u @ r) n = (m, r) \<and> n \<le> m \<and> (u \<noteq> [] \<longrightarrow> n < m)"
  using assms
proof (induction arbitrary: n rule: pct_text.induct)
  case empty
  then show ?case by (simp add: match_pct_while_stuck)
next
  case (byte c s)
  then have "match_byte_or_pct cs ((c # s) @ r) = Some (s @ r)" by (simp add: match_byte_or_pct_def match_byteset_def)
  from match_pct_while_step [OF this] byte.IH [of "n + 1"] byte.prems show ?case by blast
next
  case (escaped a b s)
  then have "match_byte_or_pct cs ((CHR ''%'' # a # b # s) @ r) = Some (s @ r)"
    by (simp add: match_byte_or_pct_def match_byteset_def match_pct_encoded_def)
  from match_pct_while_step [OF this] escaped.IH [of "n + 1"] escaped.prems show ?case by blast
next
  case (unicode a b c d s)
  have "\<not> has hex_digits (CHR ''u'')" by (simp add: has_classes isxdigit_def isdigit_def)
  with unicode have "match_byte_or_pct cs ((CHR ''%'' # CHR ''u'' # a # b # c # d # s) @ r) = Some (s @ r)"
    by (simp add: match_byte_or_pct_def match_byteset_def match_pct_encoded_def eval_nat_numeral)
  from match_pct_while_step [OF this] unicode.IH [of "n + 1"] unicode.prems show ?case by blast
qed

lemma byte_sets_exclude:
  "\<not> has (userinfo (byte_sets gdt)) (CHR ''%'')" "\<not> has (reg_name (byte_sets gdt)) (CHR ''%'')"
  "\<not> has (query (byte_sets gdt)) (CHR ''%'')" "\<not> has (fragment (byte_sets gdt)) (CHR ''%'')"
  "c \<in> set ''@/?#'' \<Longrightarrow> \<not> has (userinfo (byte_sets gdt)) c"
  "c \<in> set '':@/?#'' \<Longrightarrow> \<not> has (reg_name (byte_sets gdt)) c"
  "\<not> has (query (byte_sets gdt)) (CHR ''#'')" "\<not> has (scheme (byte_sets gdt)) (CHR '':'')"
  by (auto simp add: byte_sets_def Let_def has_or has_or_str has_of_string has_classes isalnum_def isalpha_def
      isupper_def islower_def isdigit_def)

text \<open>The rest behind an authority or behind a path.\<close>

definition stops :: "string \<Rightarrow> string \<Rightarrow> bool" where
  "stops cs r \<longleftrightarrow> (case r of [] \<Rightarrow> True | c # _ \<Rightarrow> c \<in> set cs)"

lemma stops_stuck:
  assumes "stops l r" "\<And>c. c \<in> set l \<Longrightarrow> \<not> has cs c" "CHR ''%'' \<notin> set l"
  shows "match_byte_or_pct cs r = None"
proof (cases r)
  case Nil
  then show ?thesis by (simp add: match_byte_or_pct_def match_byteset_def match_pct_encoded_def)
next
  case (Cons c t)
  with assms show ?thesis by (auto simp: stops_def intro!: match_byte_or_pct_stuck)
qed

lemma match_segments_all:
  assumes "\<forall>x \<in> set segs. pct_text (pchar (byte_sets gdt)) x" "stops ''?#'' r"
  shows "match_segments gdt (concat (map (Cons (CHR ''/'')) segs) @ r) = r"
  using assms
proof (induction segs)
  case Nil
  then show ?case by (auto simp: match_segments.simps [of gdt r] stops_def split: list.splits option.splits)
next
  case (Cons x segs)
  let ?r = "concat (map (Cons (CHR ''/'')) segs) @ r"
  have "stops ''/?#'' ?r" using Cons.prems(2) by (cases segs) (auto simp: stops_def split: list.splits)
  then have "match_byte_or_pct (pchar (byte_sets gdt)) ?r = None"
    using pchar_delims [of gdt] pchar_sets(4) [of gdt] by (intro stops_stuck [of "''/?#''"]) auto
  then have "match_segment gdt (x @ ?r) = ?r"
    using match_pct_while_all [of "pchar (byte_sets gdt)" x ?r 0] Cons.prems(1) pchar_sets(5) [of gdt]
    by (auto simp: match_segment_def)
  with Cons show ?case by (simp add: match_segments.simps [of gdt "CHR ''/'' # x @ ?r"])
qed

lemma prefixed_inject [simp]: "prefixed c x = prefixed c y \<longleftrightarrow> x = y"
  by (cases x; cases y) auto

lemma userinfo_text_inject [simp]: "userinfo_text x = userinfo_text y \<longleftrightarrow> x = y"
  by (cases x; cases y) (auto simp: userinfo_text_def)

lemma match_query_part_all:
  assumes "m_current p = prefixed (CHR ''?'') q @ prefixed (CHR ''#'') f"
    and "option_all (pct_text (query (byte_sets gdt))) q"
  shows "m_current (match_query_part gdt p) = prefixed (CHR ''#'') f"
proof -
  have "stops ''#'' (prefixed (CHR ''#'') f)" by (cases f) (simp_all add: stops_def)
  then have "match_byte_or_pct (query (byte_sets gdt)) (prefixed (CHR ''#'') f) = None"
    using byte_sets_exclude(7) [of gdt] by (intro stops_stuck [of "''#''"]) auto
  then show ?thesis
    using assms match_pct_while_all [of "query (byte_sets gdt)" "part q" "prefixed (CHR ''#'') f" 0]
      byte_sets_exclude(3) [of gdt]
    by (cases q; cases f) (auto simp: match_query_part_def match_query_def Let_def)
qed

lemma match_fragment_part_all:
  assumes "m_current p = prefixed (CHR ''#'') f" "option_all (pct_text (fragment (byte_sets gdt))) f"
  shows "m_current (match_fragment_part gdt p) = []"
proof -
  have "match_byte_or_pct (fragment (byte_sets gdt)) [] = None"
    by (simp add: match_byte_or_pct_def match_byteset_def match_pct_encoded_def)
  then show ?thesis
    using assms match_pct_while_all [of "fragment (byte_sets gdt)" "part f" "[]" 0] byte_sets_exclude(4) [of gdt]
    by (cases f) (auto simp: match_fragment_part_def match_fragment_def Let_def)
qed

lemma match_tail_all:
  assumes p: "inside k s p" "shown k s (r_query (m_result p)) []" "shown k s (r_fragment (m_result p)) []"
    and cur: "m_current p = prefixed (CHR ''?'') q @ prefixed (CHR ''#'') f"
    and ok: "option_all (pct_text (query (byte_sets gdt))) q" "option_all (pct_text (fragment (byte_sets gdt))) f"
    and p': "p' = match_fragment_part gdt (match_query_part gdt p)"
  shows "m_current p' = [] \<and> (\<exists>v w. m_result p' = (m_result p)\<lparr>r_query := v, r_fragment := w\<rparr> \<and>
     shown k s v (part q) \<and> shown k s w (part f))"
proof -
  let ?q = "match_query_part gdt p"
  have cq: "m_current ?q = prefixed (CHR ''#'') f" by (rule match_query_part_all [OF cur ok(1)])
  have cf: "m_current p' = []" using match_fragment_part_all [OF cq ok(2)] p' by simp
  obtain v where v: "inside k s ?q" "m_result ?q = (m_result p)\<lparr>r_query := v\<rparr>" "shown k s v (part q)"
    using match_query_part_text [OF p(1) HOL.refl, of gdt] p(2) cur cq by auto
  then obtain w where "m_result p' = (m_result ?q)\<lparr>r_fragment := w\<rparr>" "shown k s w (part f)"
    using match_fragment_part_text [OF v(1) p' [symmetric]] p(3) cq cf by auto
  with v cf show ?thesis by (simp del: split_paired_Ex) blast
qed

text \<open>User information, if it is there, reaches to the first \<^verbatim>\<open>@\<close>; if it is not, none is found.\<close>

lemma pct_text_bytes: "pct_text cs u \<Longrightarrow> c \<in> set u \<Longrightarrow> has cs c \<or> c = CHR ''%'' \<or> c = CHR ''u'' \<or> has hex_digits c"
  by (induction rule: pct_text.induct) auto

lemma delims_not_hex: "c \<in> set '':@/?#'' \<Longrightarrow> \<not> has hex_digits c \<and> c \<noteq> CHR ''%'' \<and> c \<noteq> CHR ''u''"
  by (auto simp: has_classes isxdigit_def isdigit_def)

lemma userinfo_bytes:
  "pct_text (userinfo (byte_sets gdt)) u \<Longrightarrow> c \<in> set ''@/?#'' \<Longrightarrow> c \<notin> set u"
  "pct_text (reg_name (byte_sets gdt)) u \<Longrightarrow> c \<in> set '':@/?#'' \<Longrightarrow> c \<notin> set u"
  using pct_text_bytes [of "userinfo (byte_sets gdt)" u c] pct_text_bytes [of "reg_name (byte_sets gdt)" u c]
    byte_sets_exclude(5,6) [of c gdt] delims_not_hex [of c] by auto

lemma maybe_contains_userinfo_at: "set u \<inter> set ''@/'' = {} \<Longrightarrow> maybe_contains_userinfo (u @ CHR ''@'' # r)"
  by (induction u) auto

lemma match_authority_userinfo_all:
  assumes "m_current p = userinfo_text ui @ h @ prefixed (CHR '':'') po @ r" "stops ''/?#'' r"
    and "authority_ok gdt (ui, h, po)"
  shows "m_current (match_authority_userinfo gdt p) = h @ prefixed (CHR '':'') po @ r"
proof (cases ui)
  case (Some u)
  have u: "pct_text (userinfo (byte_sets gdt)) u" using assms(3) Some by (simp add: authority_ok_def)
  have "match_byte_or_pct (userinfo (byte_sets gdt)) (CHR ''@'' # h @ prefixed (CHR '':'') po @ r) = None"
    using byte_sets_exclude(5) [of "CHR ''@''" gdt] by (intro match_byte_or_pct_stuck) auto
  then have "match_userinfo gdt (m_current p) = CHR ''@'' # h @ prefixed (CHR '':'') po @ r"
    using assms(1) Some match_pct_while_all [OF u byte_sets_exclude(1), of "CHR ''@'' # h @ prefixed (CHR '':'') po @ r" 0]
    by (auto simp: match_userinfo_def userinfo_text_def)
  moreover have "maybe_contains_userinfo (m_current p)"
    using maybe_contains_userinfo_at [of u] userinfo_bytes(1) [OF u, of "CHR ''@''"] userinfo_bytes(1) [OF u, of "CHR ''/''"]
      assms(1) Some by (simp add: userinfo_text_def)
  ultimately show ?thesis by (simp add: match_authority_userinfo_def Let_def)
next
  case None
  let ?w = "h @ prefixed (CHR '':'') po"
  have "\<not> has digits (CHR ''@'')" by (simp add: has_classes isdigit_def)
  then have w: "CHR ''@'' \<notin> set ?w"
    using assms(3) userinfo_bytes(2) [of gdt h "CHR ''@''"]
    by (auto simp: authority_ok_def prefixed_def split: option.splits)
  have cur: "m_current p = ?w @ r" using assms(1) None by (simp add: userinfo_text_def)
  obtain n t where "match_pct_while (userinfo (byte_sets gdt)) (m_current p) 0 = (n, t)" by fastforce
  from match_pct_while_text [OF this] this obtain u where
    u: "m_current p = u @ t" "pct_text (userinfo (byte_sets gdt)) u" and t: "match_userinfo gdt (m_current p) = t"
    by (auto simp: match_userinfo_def)
  have "match_literal (CHR ''@'') t = None"
  proof (rule ccontr)
    assume "match_literal (CHR ''@'') t \<noteq> None"
    then obtain t' where "?w @ r = u @ CHR ''@'' # t'" using u(1) cur by auto
    then obtain v where v: "?w = u @ v \<and> v @ r = CHR ''@'' # t' \<or> ?w @ v = u \<and> r = v @ CHR ''@'' # t'"
      unfolding append_eq_append_conv2 by blast
    moreover have "CHR ''@'' \<notin> set v" if "?w = u @ v" using w that by (metis UnCI set_append)
    ultimately obtain c r' where "r = c # r'" "c \<in> set ''@/?#''" "c = CHR ''@'' \<or> c \<in> set u"
      using assms(2) by (cases v; cases r) (auto simp: stops_def)
    with assms(2) userinfo_bytes(1) [OF u(2)] show False by (auto simp: stops_def)
  qed
  then show ?thesis using cur t by (simp add: match_authority_userinfo_def Let_def)
qed

lemma match_IPv4address_name:
  assumes "\<not> has digits c"
  shows "match_IPv4address (c # s) = None"
  using assms by (simp add: match_IPv4address_def match_IPv4_field_def match_digits_def match_byteset_def)

lemma match_host_all:
  assumes "m_current p = h @ prefixed (CHR '':'') po @ r" "stops ''/?#'' r" "authority_ok gdt (ui, h, po)"
    and "\<not> has digits (hd h)"
  shows "\<exists>p'. match_host gdt p = (True, p') \<and> m_current p' = prefixed (CHR '':'') po @ r"
proof -
  let ?r = "prefixed (CHR '':'') po @ r"
  have h: "h \<noteq> []" "pct_text (reg_name (byte_sets gdt)) h" using assms(3) by (simp_all add: authority_ok_def)
  have "stops '':/?#'' ?r" using assms(2) by (cases po) (auto simp: stops_def split: list.splits)
  then have "match_byte_or_pct (reg_name (byte_sets gdt)) ?r = None"
    using byte_sets_exclude(6) [of _ gdt] by (intro stops_stuck [of "'':/?#''"]) auto
  then have "match_reg_name gdt (m_current p) = Some ?r"
    using match_pct_while_all [OF h(2) byte_sets_exclude(2), of ?r 0] assms(1) h(1) by (auto simp: match_reg_name_def)
  moreover have "match_IPv4address (m_current p) = None"
    using match_IPv4address_name [OF assms(4)] assms(1) h(1) by (cases h) auto
  ultimately show ?thesis by (simp add: match_host_def match_IP_literal_def Let_def)
qed

lemma match_authority_port_all:
  assumes "m_current p = prefixed (CHR '':'') po @ r" "stops ''/?#'' r" "authority_ok gdt (ui, h, po)"
  shows "m_current (match_authority_port p) = r"
proof (cases po)
  case None
  then show ?thesis using assms(1,2) by (auto simp: match_authority_port_def stops_def split: list.splits option.splits)
next
  case (Some x)
  have "dropWhile (has digits) r = r"
    using assms(2) by (cases r) (auto simp: stops_def has_classes isdigit_def)
  moreover have "\<forall>c \<in> set x. has digits c" using assms(3) Some by (simp add: authority_ok_def)
  ultimately have "dropWhile (has digits) (x @ r) = r" by (simp add: dropWhile_append2)
  then show ?thesis using assms(1) Some
    by (simp add: match_authority_port_def Let_def match_port_def match_byteset_while_eq)
qed

lemma match_scheme_all:
  assumes "m_current p = x @ CHR '':'' # r" "x \<noteq> []" "has alphas (hd x)" "\<forall>c \<in> set x. has (scheme (byte_sets gdt)) c"
  shows "\<exists>p'. match_scheme_and_colon gdt p = (True, p') \<and> m_current p' = r"
proof -
  obtain c t where x: "x = c # t" using assms(2) by (cases x) auto
  have "dropWhile (has (scheme (byte_sets gdt))) (t @ CHR '':'' # r) = CHR '':'' # r"
    using assms(4) x byte_sets_exclude(8) [of gdt] by (simp add: dropWhile_append2)
  then show ?thesis using assms(1,3) x
    by (simp add: match_scheme_and_colon_def match_byteset_def Let_def match_byteset_while_eq)
qed

lemma match_authority_all:
  assumes p: "inside k s p" "shown k s (r_userinfo (m_result p)) []" "shown k s (r_port (m_result p)) []"
    and cur: "m_current p = userinfo_text ui @ h @ prefixed (CHR '':'') po @ r" and r: "stops ''/?#'' r"
    and ok: "authority_ok gdt (ui, h, po)" and h: "\<not> has digits (hd h)"
  shows "\<exists>p' u v w. match_authority gdt p = (True, p') \<and> m_current p' = r \<and> inside k s p' \<and>
     m_result p' = (m_result p)\<lparr>r_userinfo := u, r_host := v, r_port := w\<rparr> \<and>
     authority_shown k s (m_result p') (ui, h, po)"
proof -
  let ?p3 = "match_authority_userinfo gdt p"
  have c3: "m_current ?p3 = h @ prefixed (CHR '':'') po @ r"
    using match_authority_userinfo_all [OF cur r ok] .
  obtain v3 where r3: "inside k s ?p3" "m_result ?p3 = (m_result p)\<lparr>r_userinfo := v3\<rparr>" "shown k s v3 (part ui)"
    using match_authority_userinfo_text [OF p(1) HOL.refl, of gdt] p(2) cur c3 by auto
  obtain p4 where p4: "match_host gdt ?p3 = (True, p4)" "m_current p4 = prefixed (CHR '':'') po @ r"
    using match_host_all [OF c3 r ok h] by blast
  then obtain v4 where r4: "inside k s p4" "m_result p4 = (m_result ?p3)\<lparr>r_host := v4\<rparr>" "shown k s v4 h"
    using match_host_text [OF r3(1) p4(1)] c3 by auto
  let ?p5 = "match_authority_port p4"
  have c5: "m_current ?p5 = r" using match_authority_port_all [OF p4(2) r ok] .
  have "shown k s (r_port (m_result p4)) []" using p(3) r3(2) r4(2) by simp
  then obtain v5 where r5: "inside k s ?p5" "m_result ?p5 = (m_result p4)\<lparr>r_port := v5\<rparr>" "shown k s v5 (part po)"
    using match_authority_port_text [OF r4(1) HOL.refl] p4(2) c5 by auto
  have "match_authority gdt p = (True, ?p5)" using p4(1) by (simp add: match_authority_def)
  with c5 r3 r4 r5 show ?thesis
    by (intro exI [of _ ?p5] exI [of _ v3] exI [of _ v4] exI [of _ v5]) (simp add: authority_shown_def)
qed

text \<open>
  An absolute URI with an authority whose host is a name (it does not begin with a digit) and
  whose path is a sequence of segments is matched as a whole, part by part.
\<close>

lemma match_URI_all:
  assumes s: "s = uri_text (Some sch) (Some (ui, h, po)) (concat (map (Cons (CHR ''/'')) segs)) q f"
    and len: "length s < 2 ^ 16" and ok: "uri_ok gdt (Some sch) (Some (ui, h, po)) (concat (map (Cons (CHR ''/'')) segs)) q f"
    and h: "\<not> has digits (hd h)" and segs: "\<forall>x \<in> set segs. pct_text (pchar (byte_sets gdt)) x"
  shows "\<exists>rc t. Parse gdt lit s = (length s, rc) \<and> s = sch @ CHR '':'' # t \<and>
     t = uri_text None (Some (ui, h, po)) (concat (map (Cons (CHR ''/'')) segs)) q f \<and>
     receiver_ok lit (length s - length t) t rc (Some sch) (Some (ui, h, po)) (concat (map (Cons (CHR ''/'')) segs)) q f"
proof -
  define tail where "tail = prefixed (CHR ''?'') q @ prefixed (CHR ''#'') f"
  define path where "path = concat (map (Cons (CHR ''/'')) segs)"
  define t where "t = ''//'' @ userinfo_text ui @ h @ prefixed (CHR '':'') po @ path @ tail"
  have st: "s = sch @ CHR '':'' # t" "t = uri_text None (Some (ui, h, po)) path q f"
    using s by (simp_all add: uri_text_def t_def tail_def path_def authority_text_def)
  have a_ok: "authority_ok gdt (ui, h, po)" using ok by (simp add: uri_ok_def)
  have tail_stops: "stops ''?#'' tail" by (cases q; cases f) (simp_all add: stops_def tail_def)
  then have path_stops: "stops ''/?#'' (path @ tail)"
    by (cases segs) (auto simp: stops_def path_def split: list.splits)
  let ?p = "\<lparr>m_size = length s, m_current = s, m_result = new_receiver\<rparr>"
  obtain p1 where p1: "match_scheme_and_colon gdt ?p = (True, p1)" "m_current p1 = t"
    using match_scheme_all [of ?p sch t gdt] st(1) ok by (auto simp: uri_ok_def)
  obtain x where "s = x @ CHR '':'' # t" "m_size p1 = length s" "m_result p1 = new_receiver\<lparr>r_scheme := view ?p s (length x)\<rparr>"
    using match_scheme_text [OF p1(1)] p1(2) by auto
  then have rc1: "m_result p1 = new_receiver\<lparr>r_scheme := (0, length sch)\<rparr>" and size: "m_size p1 = length s"
    using st(1) len by (simp_all add: view_def)
  define k where "k = length s - length t"
  define p2 where "p2 = p1\<lparr>m_current := userinfo_text ui @ h @ prefixed (CHR '':'') po @ path @ tail\<rparr>"
  have ins: "inside k t p2" using st(1) len size by (simp add: inside_def k_def p2_def t_def suffix_def)
  have new: "shown k t (r_userinfo (m_result p2)) []" "shown k t (r_port (m_result p2)) []"
    "shown k t (r_query (m_result p2)) []" "shown k t (r_fragment (m_result p2)) []"
    using rc1 by (simp_all add: p2_def new_receiver_def)
  obtain p5 v3 v4 v5 where a: "match_authority gdt p2 = (True, p5)" "m_current p5 = path @ tail"
    "inside k t p5" "m_result p5 = (m_result p2)\<lparr>r_userinfo := v3, r_host := v4, r_port := v5\<rparr>"
    "authority_shown k t (m_result p5) (ui, h, po)"
    using match_authority_all [OF ins new(1,2) _ path_stops a_ok h] by (auto simp: p2_def)
  define p6 where "p6 = SetPath_to p5 tail"
  have seg: "match_segments gdt (path @ tail) = tail" unfolding path_def by (rule match_segments_all [OF segs tail_stops])
  obtain v6 where r6: "inside k t p6" "m_current p6 = tail" "m_result p6 = (m_result p5)\<lparr>r_path := v6\<rparr>" "shown k t v6 path"
    using SetPath_to_shown [OF a(3,2)] p6_def by blast
  have "match_slashes_authority_path gdt p1 = (True, p6)"
    using p1(2) a(1,2) seg
    by (simp add: match_slashes_authority_path_def match_literal_string_def t_def match_path_abempty_def
        p2_def [symmetric] p6_def)
  then have uri: "match_URI_reference gdt lit ?p = (True, match_fragment_part gdt (match_query_part gdt p6))" (is "_ = (True, ?p7)")
    using p1(1) by (simp add: match_URI_reference_def match_URI_def match_hier_part_def orelse_match_iffs)
  have n6: "shown k t (r_query (m_result p6)) []" "shown k t (r_fragment (m_result p6)) []"
    using new(3,4) a(4) r6(3) by simp_all
  have "option_all (pct_text (query (byte_sets gdt))) q" "option_all (pct_text (fragment (byte_sets gdt))) f"
    using ok by (simp_all add: uri_ok_def)
  from match_tail_all [OF r6(1) n6 r6(2) [unfolded tail_def] this HOL.refl] obtain v w where
    r7: "m_current ?p7 = []" "m_result ?p7 = (m_result p6)\<lparr>r_query := v, r_fragment := w\<rparr>" "shown k t v (part q)" "shown k t w (part f)"
    by blast
  have "Parse gdt lit s = (length s, m_result ?p7)" using uri r7(1) by (simp add: Parse_def)
  moreover have "receiver_ok lit k t (m_result ?p7) (Some sch) (Some (ui, h, po)) path q f"
    using a(4,5) r6 r7 rc1 by (simp add: receiver_ok_def authority_shown_def p2_def)
  ultimately show ?thesis using st unfolding k_def path_def by blast
qed

lemma uri_text_Some: "uri_text (Some x) auth path q f = x @ CHR '':'' # uri_text None auth path q f"
  by (simp add: uri_text_def)

lemma uri_text_scheme:
  "uri_text sch auth path q f = (case sch of None \<Rightarrow> [] | Some x \<Rightarrow> x @ '':'') @ uri_text None auth path q f"
  by (cases sch) (simp_all add: uri_text_Some)

lemma match_hier_part_True:
  assumes "match_slashes_authority_path gdt p = (False, q)"
  shows "\<exists>p'. match_hier_part gdt lit p = (True, p') \<and> m_current p' = m_current p"
proof -
  have "fst (orelse_match (match_path_absolute gdt q) (\<lambda>q. orelse_match (match_path_rootless gdt q) (match_path_empty lit)))"
    by (simp add: orelse_match_def match_path_empty_def split: prod.splits bool.splits)
  with assms show ?thesis by (auto simp: match_hier_part_def split: prod.splits)
qed

lemmas has_simps = byte_sets_def Let_def has_or has_or_str has_of_string has_classes isalnum_def isalpha_def
  isupper_def islower_def isdigit_def path_bytes_def

lemma TryParse_Uri_all:
  assumes "s = uri_text (Some sch) (Some (ui, h, po)) (concat (map (Cons (CHR ''/'')) segs)) q f"
    and "uri_ok gdt (Some sch) (Some (ui, h, po)) (concat (map (Cons (CHR ''/'')) segs)) q f"
    and "length s < 2 ^ 16" and "\<not> has digits (hd h)" and "\<forall>x \<in> set segs. pct_text (pchar (byte_sets gdt)) x"
    and "part po \<noteq> [] \<longrightarrow> TryParse_integral 0 (2 ^ 16 - 1) 10 (part po) \<noteq> None"
  shows "\<exists>u. TryParse_Uri gdt lit s = Some u \<and>
     uri_reads lit s u (Some sch) (Some (ui, h, po)) (concat (map (Cons (CHR ''/'')) segs)) q f"
proof -
  let ?path = "concat (map (Cons (CHR ''/'')) segs)"
  obtain rc t where parse: "Parse gdt lit s = (length s, rc)" and s: "s = sch @ CHR '':'' # t"
    "t = uri_text None (Some (ui, h, po)) ?path q f"
    "receiver_ok lit (length s - length t) t rc (Some sch) (Some (ui, h, po)) ?path q f"
    using match_URI_all [OF assms(1,3,2,4,5)] by blast
  have "s = (case Some sch of None \<Rightarrow> [] | Some x \<Rightarrow> x @ '':'') @ t" using s(1) by simp
  from TryParse_Uri_reads [OF assms(3) parse this s(2,3)] assms(6) show ?thesis
    by (cases "TryParse_Uri gdt lit s") (auto simp: auth_port_def)
qed

lemma sample_uri:
  "''http://me@host:80/a/b?c#d'' = uri_text (Some ''http'') (Some (Some ''me'', ''host'', Some ''80''))
     (concat (map (Cons (CHR ''/'')) [''a'', ''b''])) (Some ''c'') (Some ''d'')"
  "uri_ok False (Some ''http'') (Some (Some ''me'', ''host'', Some ''80''))
     (concat (map (Cons (CHR ''/'')) [''a'', ''b''])) (Some ''c'') (Some ''d'')"
  "TryParse_integral 0 (2 ^ 16 - 1) 10 ''80'' = Some 80"
proof -
  show "TryParse_integral 0 (2 ^ 16 - 1) 10 ''80'' = Some 80" by code_simp
qed (simp_all add: uri_text_def authority_text_def userinfo_text_def uri_ok_def authority_ok_def has_simps pct_text_all)

section \<open>Properties\<close>

text \<open>
  C13. Whatever \<^verbatim>\<open>TryParse<Uri>\<close> accepts is a URI: the input is the concatenation of a scheme, an
  authority (user information, host and port), a path, a query and a fragment, each optional and
  each made of the bytes allowed for it; the accessors return exactly these parts (the scheme in
  lower case), and the port is the number it spells. The exception is the path of a URI that has
  neither an authority nor a path: its accessor throws if the arbitrary offset recorded for it lies
  behind the end of the URI.
\<close>

theorem uri_parse_sound:
  assumes "TryParse_Uri gdt lit s = Some u"
  shows "\<exists>sch auth path q f. s = uri_text sch auth path q f \<and> uri_ok gdt sch auth path q f \<and>
     uri_reads lit s u sch auth path q f"
proof -
  have len: "length s < 2 ^ 16" using assms by (auto simp: TryParse_Uri_def split: if_splits)
  obtain rc where parse: "Parse gdt lit s = (length s, rc)"
    using assms by (auto simp: TryParse_Uri_def split: if_splits prod.splits)
  obtain sch t auth path q f where s: "s = (case sch of None \<Rightarrow> [] | Some x \<Rightarrow> x @ '':'') @ t"
    "t = uri_text None auth path q f" "uri_ok gdt sch auth path q f"
    "receiver_ok lit (length s - length t) t rc sch auth path q f"
    using Parse_sound [OF len parse] by blast
  with TryParse_Uri_reads [OF len parse s(1,2,4), of u] assms show ?thesis
    by (metis uri_text_scheme)
qed

theorem uri_parse_sound_witness:
  "\<exists>u sch auth path q f. TryParse_Uri False 0 ''http://me@host:80/a/b?c#d'' = Some u \<and>
     ''http://me@host:80/a/b?c#d'' = uri_text sch auth path q f \<and>
     uri_reads 0 ''http://me@host:80/a/b?c#d'' u sch auth path q f"
proof -
  obtain u where u: "TryParse_Uri False 0 ''http://me@host:80/a/b?c#d'' = Some u"
    using TryParse_Uri_all [OF sample_uri(1,2), of 0] sample_uri(3) by (auto simp: has_simps pct_text_all)
  from uri_parse_sound [OF u] u show ?thesis by blast
qed



text \<open>
  C29. An absolute URI without an authority but with a path, such as \<^verbatim>\<open>mailto:a@b\<close> or \<^verbatim>\<open>file:/etc\<close>, is
  always rejected, although the grammar in the comments allows it: the path is matched and then
  taken back.
\<close>

theorem uri_without_authority_rejected:
  assumes "sch \<noteq> []" "has alphas (hd sch)" "\<forall>c \<in> set sch. has (scheme (byte_sets gdt)) c"
    and "c \<noteq> CHR ''?''" "c \<noteq> CHR ''#''" "c = CHR ''/'' \<longrightarrow> (\<forall>t. r \<noteq> CHR ''/'' # t)"
  shows "TryParse_Uri gdt lit (sch @ CHR '':'' # c # r) = None"
proof -
  let ?s = "sch @ CHR '':'' # c # r"
  let ?p = "\<lparr>m_size = length ?s, m_current = ?s, m_result = new_receiver\<rparr>"
  obtain p1 where p1: "match_scheme_and_colon gdt ?p = (True, p1)" "m_current p1 = c # r"
    using match_scheme_all [of ?p sch "c # r" gdt] assms(1-3) by auto
  have "match_slashes_authority_path gdt p1 = (False, p1)"
    using p1(2) assms(6) by (cases r) (auto simp: match_slashes_authority_path_def match_literal_string_def)
  then obtain p2 where p2: "match_hier_part gdt lit p1 = (True, p2)" "m_current p2 = c # r"
    using p1(2) match_hier_part_True by metis
  then have "match_URI gdt lit ?p = (True, p2)"
    using p1(1) query_part_stuck [OF p2(2)] assms(4,5) by (simp add: match_URI_def)
  then have "fst (Parse gdt lit ?s) = length ?s - length (c # r)"
    using p2(2) by (simp add: Parse_def match_URI_reference_def orelse_match_iffs)
  then show ?thesis by (auto simp: TryParse_Uri_def split: prod.splits)
qed

theorem uri_without_authority_rejected_witness: "TryParse_Uri False 0 ''mailto:a@b'' = None"
  using uri_without_authority_rejected [of "''mailto''" False "CHR ''a''" "''@b''" 0] by (simp add: has_simps)

end
