(* ===== verification/Writing_Buffer_List.thy ===== *)
theory Writing_Buffer_List
  imports Buffer
begin

text \<open>
  The queue of buffers to be written to a connection (\<^verbatim>\<open>flare/io/detail/writing_buffer_list.{h,cc}\<close>).
  Any number of threads append, one thread flushes, without a lock. The nodes live in an explicit
  store; an address that is not in it has been freed (or was never allocated), and using it is
  undefined behaviour. Every access to a shared atomic variable is a step of its own: \<^verbatim>\<open>Append\<close> is two
  steps, \<^verbatim>\<open>FlushTo\<close> moves a program counter. What \<^verbatim>\<open>WriteV\<close> returns is left open, except that it is at
  most the number of bytes it was given.

  The caller's side of the protocol is part of the model: \<^verbatim>\<open>FlushTo\<close> is entered only by the thread to
  which \<^verbatim>\<open>Append\<close> returned true (or that took over from it), until \<^verbatim>\<open>FlushTo\<close> reports the list emptied.
\<close>

section \<open>The list\<close>

record Node =
  n_next :: "nat option"
  n_buffer :: NoncontiguousBuffer
  n_ctx :: nat

record WritingBufferList =
  wl_nodes :: "nat \<Rightarrow> Node option"
  wl_head :: "nat option"
  wl_tail :: "nat option"

definition WBL_new :: WritingBufferList where
  "WBL_new = \<lparr>wl_nodes = (\<lambda>_. None), wl_head = None, wl_tail = None\<rparr>"

text \<open>\<^verbatim>\<open>Append\<close> up to and including the exchange, and what follows; it returns whether \<open>prev\<close> is null.\<close>

definition Append_exchange :: "nat \<Rightarrow> NoncontiguousBuffer \<Rightarrow> nat \<Rightarrow> WritingBufferList \<Rightarrow> nat option \<times> WritingBufferList" where
  "Append_exchange node buffer ctx l =
     (wl_tail l,
      l\<lparr>wl_nodes := (wl_nodes l)(node \<mapsto> \<lparr>n_next = None, n_buffer = buffer, n_ctx = ctx\<rparr>), wl_tail := Some node\<rparr>)"

definition Append_publish :: "nat \<Rightarrow> nat option \<Rightarrow> WritingBufferList \<Rightarrow> WritingBufferList result" where
  "Append_publish node prev l =
     (case prev of
        None \<Rightarrow> Inr (l\<lparr>wl_head := Some node\<rparr>)
      | Some p \<Rightarrow>
          (case wl_nodes l p of
             None \<Rightarrow> Inl Undefined_behaviour
           | Some n \<Rightarrow> check (n_next n = None)
               (Inr (l\<lparr>wl_nodes := (wl_nodes l)(p \<mapsto> n\<lparr>n_next := Some node\<rparr>)\<rparr>))))"

text \<open>
  The destructor appends an empty buffer so that \<^verbatim>\<open>head_\<close> is valid, then frees the chain; the walk is
  given as much fuel as there are nodes.
\<close>

fun free_chain :: "nat \<Rightarrow> nat option \<Rightarrow> (nat \<Rightarrow> Node option) \<Rightarrow> (nat \<Rightarrow> Node option) result" where
  "free_chain fuel None N = Inr N"
| "free_chain 0 (Some a) N = Inl Out_of_fuel"
| "free_chain (Suc fuel) (Some a) N =
     (case N a of
        None \<Rightarrow> Inl Undefined_behaviour
      | Some n \<Rightarrow> free_chain fuel (n_next n) (N(a := None)))"

definition WBL_destroy :: "nat \<Rightarrow> nat \<Rightarrow> WritingBufferList \<Rightarrow> (nat \<Rightarrow> Node option) result" where
  "WBL_destroy fuel node l =
     (let (prev, l) = Append_exchange node NB_new 0 l
      in rbind (Append_publish node prev l) (\<lambda>l. free_chain fuel (wl_head l) (wl_nodes l)))"

section \<open>FlushTo\<close>

text \<open>The loop over the spans of one buffer, with the vector built so far.\<close>

fun gather_buffer :: "nat \<Rightarrow> nat \<Rightarrow> PolymorphicBuffer list \<Rightarrow> string list \<Rightarrow> nat \<Rightarrow> string list \<times> nat" where
  "gather_buffer iov_max max_bytes [] iov flushing = (iov, flushing)"
| "gather_buffer iov_max max_bytes (b # bs) iov flushing =
     (if length iov \<noteq> iov_max \<and> flushing < max_bytes
      then gather_buffer iov_max max_bytes bs (iov @ [pb_bytes b]) (flushing + pb_size b)
      else (iov, flushing))"

text \<open>The correction of the last entry if too much was collected.\<close>

definition revise_last :: "nat \<Rightarrow> string list \<Rightarrow> nat \<Rightarrow> string list \<times> nat" where
  "revise_last max_bytes iov flushing =
     (if flushing > max_bytes
      then let diff = flushing - max_bytes
           in (butlast iov @ [take (length (last iov) - diff) (last iov)], flushing - diff)
      else (iov, flushing))"

text \<open>
  Where \<^verbatim>\<open>FlushTo\<close> is: not running; \<open>head\<close> loaded; before a node in the collecting loop; before
  \<^verbatim>\<open>WriteV\<close>; before a node in the rewinding loop, with the bytes yet to be accounted for; before the
  exchange of \<^verbatim>\<open>tail_\<close>; waiting for the appending thread.
\<close>

datatype flush_pc =
    F_Idle
  | F_Loaded nat "nat option"
  | F_Gather nat nat nat "string list" nat
  | F_Write nat "string list" nat
  | F_Rewind nat nat
  | F_Cas nat
  | F_Spin nat

definition Flush_tail :: "nat \<Rightarrow> nat option \<Rightarrow> WritingBufferList \<Rightarrow> flush_pc result" where
  "Flush_tail max_bytes head l =
     (case wl_tail l of
        None \<Rightarrow> Inr F_Idle
      | Some _ \<Rightarrow> (case head of None \<Rightarrow> Inl Check_failed | Some h \<Rightarrow> Inr (F_Gather max_bytes h h [] 0)))"

definition Flush_gather ::
    "nat \<Rightarrow> nat \<Rightarrow> nat \<Rightarrow> nat \<Rightarrow> string list \<Rightarrow> nat \<Rightarrow> WritingBufferList \<Rightarrow> flush_pc result" where
  "Flush_gather iov_max max_bytes head current iov flushing l =
     (case wl_nodes l current of
        None \<Rightarrow> Inl Undefined_behaviour
      | Some n \<Rightarrow>
          (let (iov, flushing) = gather_buffer iov_max max_bytes (nb_buffers (n_buffer n)) iov flushing
           in case n_next n of
                Some c \<Rightarrow> Inr (F_Gather max_bytes head c iov flushing)
              | None \<Rightarrow> (let (iov, flushing) = revise_last max_bytes iov flushing in Inr (F_Write head iov flushing))))"

definition Flush_write :: "nat \<Rightarrow> nat \<Rightarrow> int \<Rightarrow> flush_pc result" where
  "Flush_write head flushing rc =
     (if rc \<le> 0 then Inr F_Idle else check (rc \<le> int flushing) (Inr (F_Rewind head (nat rc))))"

text \<open>One iteration of the rewinding loop. The second component is the context reported, if any.\<close>

definition Flush_rewind ::
    "nat \<Rightarrow> nat \<Rightarrow> WritingBufferList \<Rightarrow> (flush_pc \<times> nat option \<times> WritingBufferList) result" where
  "Flush_rewind current flushed l =
     (case wl_nodes l current of
        None \<Rightarrow> Inl Undefined_behaviour
      | Some n \<Rightarrow>
          (let b = NB_ByteSize (n_buffer n)
           in if b \<le> flushed
              then (case n_next n of
                      None \<Rightarrow> check (flushed - b = 0) (Inr (F_Cas current, Some (n_ctx n), l))
                    | Some c \<Rightarrow> Inr (F_Rewind c (flushed - b), Some (n_ctx n),
                                   l\<lparr>wl_nodes := (wl_nodes l)(current := None)\<rparr>))
              else rbind (NB_Skip flushed (n_buffer n)) (\<lambda>buffer.
                     Inr (F_Idle, None,
                          l\<lparr>wl_nodes := (wl_nodes l)(current \<mapsto> n\<lparr>n_buffer := buffer\<rparr>), wl_head := Some current\<rparr>))))"

text \<open>The exchange of \<^verbatim>\<open>tail_\<close>: the first component says whether the list was emptied.\<close>

definition Flush_cas :: "nat \<Rightarrow> WritingBufferList \<Rightarrow> bool \<times> flush_pc \<times> WritingBufferList" where
  "Flush_cas current l =
     (if wl_tail l = Some current
      then (True, F_Idle, l\<lparr>wl_tail := None, wl_nodes := (wl_nodes l)(current := None)\<rparr>)
      else (False, F_Spin current, l))"

definition Flush_spin :: "nat \<Rightarrow> WritingBufferList \<Rightarrow> (flush_pc \<times> WritingBufferList) result" where
  "Flush_spin current l =
     (case wl_nodes l current of
        None \<Rightarrow> Inl Undefined_behaviour
      | Some n \<Rightarrow>
          (case n_next n of
             None \<Rightarrow> Inr (F_Spin current, l)
           | Some c \<Rightarrow> Inr (F_Idle, l\<lparr>wl_nodes := (wl_nodes l)(current := None), wl_head := Some c\<rparr>)))"

section \<open>Threads\<close>

text \<open>
  \<open>ws_appending\<close> are the calls of \<^verbatim>\<open>Append\<close> between their two steps, with their node and the previous
  tail. \<open>ws_active\<close> says that a thread is responsible for writing. The other fields record what
  happened: the nodes in the list in the order of their exchanges, everything ever appended, the
  bytes written to the stream and the contexts reported.
\<close>

record wb_state =
  ws_list :: WritingBufferList
  ws_appending :: "(nat \<times> nat option) set"
  ws_pc :: flush_pc
  ws_active :: bool
  ws_queue :: "nat list"
  ws_appended :: "(string \<times> nat) list"
  ws_sent :: string
  ws_ctxs :: "nat list"

definition ws_init :: wb_state where
  "ws_init = \<lparr>ws_list = WBL_new, ws_appending = {}, ws_pc = F_Idle, ws_active = False, ws_queue = [],
              ws_appended = [], ws_sent = [], ws_ctxs = []\<rparr>"

definition report :: "nat option \<Rightarrow> nat list" where
  "report c = (case c of None \<Rightarrow> [] | Some x \<Rightarrow> [x])"

text \<open>A step ends in a new state or in a fault.\<close>

inductive wb_step :: "nat \<Rightarrow> wb_state \<Rightarrow> wb_state result \<Rightarrow> bool" for iov_max where
  exchange: "wl_nodes (ws_list s) node = None \<Longrightarrow> nb_invar buffer \<Longrightarrow>
    Append_exchange node buffer ctx (ws_list s) = (prev, l) \<Longrightarrow>
    wb_step iov_max s (Inr (s\<lparr>ws_list := l, ws_appending := insert (node, prev) (ws_appending s),
      ws_queue := ws_queue s @ [node], ws_appended := ws_appended s @ [(nb_bytes buffer, ctx)]\<rparr>))"
| publish: "(node, prev) \<in> ws_appending s \<Longrightarrow>
    wb_step iov_max s (rbind (Append_publish node prev (ws_list s)) (\<lambda>l.
      Inr (s\<lparr>ws_list := l, ws_appending := ws_appending s - {(node, prev)},
             ws_active := (ws_active s \<or> prev = None)\<rparr>)))"
| enter: "ws_pc s = F_Idle \<Longrightarrow> ws_active s \<Longrightarrow>
    wb_step iov_max s (Inr (s\<lparr>ws_pc := F_Loaded max_bytes (wl_head (ws_list s))\<rparr>))"
| load_tail: "ws_pc s = F_Loaded max_bytes head \<Longrightarrow>
    wb_step iov_max s (rbind (Flush_tail max_bytes head (ws_list s)) (\<lambda>pc. Inr (s\<lparr>ws_pc := pc\<rparr>)))"
| gather: "ws_pc s = F_Gather max_bytes head current iov flushing \<Longrightarrow>
    wb_step iov_max s (rbind (Flush_gather iov_max max_bytes head current iov flushing (ws_list s)) (\<lambda>pc.
      Inr (s\<lparr>ws_pc := pc\<rparr>)))"
| writev: "ws_pc s = F_Write head iov flushing \<Longrightarrow> rc \<le> int (length (concat iov)) \<Longrightarrow>
    wb_step iov_max s (rbind (Flush_write head flushing rc) (\<lambda>pc.
      Inr (s\<lparr>ws_pc := pc, ws_sent := ws_sent s @ take (nat rc) (concat iov)\<rparr>)))"
| rewind: "ws_pc s = F_Rewind current flushed \<Longrightarrow>
    wb_step iov_max s (rbind (Flush_rewind current flushed (ws_list s)) (\<lambda>(pc, ctx, l).
      Inr (s\<lparr>ws_pc := pc, ws_list := l, ws_ctxs := ws_ctxs s @ report ctx,
             ws_queue := (case pc of F_Rewind _ _ \<Rightarrow> tl (ws_queue s) | _ \<Rightarrow> ws_queue s)\<rparr>)))"
| cas: "ws_pc s = F_Cas current \<Longrightarrow> Flush_cas current (ws_list s) = (emptied, pc, l) \<Longrightarrow>
    wb_step iov_max s (Inr (s\<lparr>ws_pc := pc, ws_list := l,
      ws_active := (ws_active s \<and> \<not> emptied),
      ws_queue := (if emptied then tl (ws_queue s) else ws_queue s)\<rparr>))"
| spin: "ws_pc s = F_Spin current \<Longrightarrow>
    wb_step iov_max s (rbind (Flush_spin current (ws_list s)) (\<lambda>(pc, l).
      Inr (s\<lparr>ws_pc := pc, ws_list := l,
             ws_queue := (if pc = F_Idle then tl (ws_queue s) else ws_queue s)\<rparr>)))"

inductive wb_reach :: "nat \<Rightarrow> wb_state \<Rightarrow> bool" for iov_max where
  init: "wb_reach iov_max ws_init"
| step: "wb_reach iov_max s \<Longrightarrow> wb_step iov_max s (Inr s') \<Longrightarrow> wb_reach iov_max s'"

section \<open>Chains\<close>

text \<open>
  The nodes of the queue are chained, except where the thread that appended the successor has yet
  to store the link.
\<close>

fun chained :: "(nat \<Rightarrow> Node option) \<Rightarrow> (nat \<times> nat option) set \<Rightarrow> nat list \<Rightarrow> bool" where
  "chained N app [] = True"
| "chained N app [a] = (\<exists>n. N a = Some n \<and> n_next n = None)"
| "chained N app (a # b # q) =
     ((\<exists>n. N a = Some n \<and> n_next n = (if (b, Some a) \<in> app then None else Some b)) \<and> chained N app (b # q))"

text \<open>The links of a chain.\<close>

fun links :: "nat list \<Rightarrow> (nat \<times> nat option) set" where
  "links (a # b # q) = insert (b, Some a) (links (b # q))"
| "links _ = {}"

lemma links_dest: "(b, p) \<in> links q \<Longrightarrow> b \<in> set (tl q) \<and> (\<exists>a \<in> set q. p = Some a)"
  by (induction q rule: links.induct) auto

lemma links_snoc: "q \<noteq> [] \<Longrightarrow> links (q @ [x]) = insert (x, Some (last q)) (links q)"
  by (induction q rule: links.induct) auto

lemma links_Cons: "q \<noteq> [] \<Longrightarrow> links (a # q) = insert (hd q, Some a) (links q)"
  by (cases q) auto

lemma links_append: "links (q @ r) = links q \<union> links r \<union> (if q = [] \<or> r = [] then {} else {(hd r, Some (last q))})"
  by (induction q rule: links.induct) (auto simp: links_Cons)

lemma chained_mem: "chained N app q \<Longrightarrow> a \<in> set q \<Longrightarrow> N a \<noteq> None"
  by (induction N app q rule: chained.induct) auto

lemma chained_cong:
  "(\<And>a. a \<in> set q \<Longrightarrow> map_option n_next (N a) = map_option n_next (M a)) \<Longrightarrow>
   app \<inter> links q = app' \<inter> links q \<Longrightarrow> chained N app q \<longleftrightarrow> chained M app' q"
proof (induction N app q rule: chained.induct)
  case (2 N app a)
  from 2(1) [of a] show ?case by (cases "N a"; cases "M a") auto
next
  case (3 N app a b q)
  have "chained N app (b # q) \<longleftrightarrow> chained M app' (b # q)" using 3 by auto
  moreover have "(b, Some a) \<in> app \<longleftrightarrow> (b, Some a) \<in> app'" using 3(3) by auto
  moreover have "(\<exists>n. N a = Some n \<and> n_next n = x) \<longleftrightarrow> (\<exists>n. M a = Some n \<and> n_next n = x)" for x
    using 3(2) [of a] by (cases "N a"; cases "M a") auto
  ultimately show ?case by simp
qed simp

lemma chained_snoc:
  assumes "chained N app q" "q \<noteq> []" "x \<notin> set q" "n_next n = None"
  shows "chained (N(x \<mapsto> n)) (insert (x, Some (last q)) app) (q @ [x])"
  using assms
proof (induction N app q rule: chained.induct)
  case (3 N app a b q)
  have "(b, Some a) \<noteq> (x, Some (last (a # b # q)))" using 3(4) by auto
  with 3 show ?case by auto
qed auto

lemma chained_tl: "chained N app (a # q) \<Longrightarrow> chained N app q"
  by (cases q) auto

lemma chained_next:
  assumes "chained N app (q1 @ a # q2)"
  shows "\<exists>n. N a = Some n \<and> n_next n = (case q2 of [] \<Rightarrow> None | b # _ \<Rightarrow> if (b, Some a) \<in> app then None else Some b)"
  using assms
proof (induction q1)
  case Nil
  then show ?case by (cases q2) auto
next
  case (Cons x q1)
  then show ?case using chained_tl [of N app x] by simp
qed

lemma chained_publish:
  assumes "chained N app q" "distinct q" "(b, Some a) \<in> app" "(b, Some a) \<in> links q"
  shows "\<exists>n. N a = Some n \<and> n_next n = None \<and> chained (N(a \<mapsto> n\<lparr>n_next := Some b\<rparr>)) (app - {(b, Some a)}) q"
  using assms
proof (induction N app q rule: chained.induct)
  case (3 N app x y q)
  show ?case
  proof (cases "(b, Some a) = (y, Some x)")
    case True
    then obtain n where n: "N a = Some n" "n_next n = None" using 3 by auto
    have "(b, Some a) \<notin> links (y # q)" using True links_dest [of b "Some a" "y # q"] 3(3) by auto
    then have same: "(app - {(b, Some a)}) \<inter> links (y # q) = app \<inter> links (y # q)" by blast
    have "a \<notin> set (y # q)" using 3(3) True by auto
    then have "chained (N(a \<mapsto> n\<lparr>n_next := Some b\<rparr>)) (app - {(b, Some a)}) (y # q) \<longleftrightarrow> chained N app (y # q)"
      using same by (intro chained_cong) (metis fun_upd_other)+
    then have "chained (N(a \<mapsto> n\<lparr>n_next := Some b\<rparr>)) (app - {(b, Some a)}) (y # q)" using 3(2) by simp
    with True n show ?thesis by (intro exI [of _ n]) (simp del: fun_upd_apply add: fun_upd_same)
  next
    case False
    then have in_rest: "(b, Some a) \<in> links (y # q)" using 3(5) by auto
    then have "a \<in> set (y # q)" using links_dest by fastforce
    then have "a \<noteq> x" using 3(3) by auto
    obtain m where m: "N x = Some m" "n_next m = (if (y, Some x) \<in> app then None else Some y)" "chained N app (y # q)"
      using 3(2) by auto
    have "distinct (y # q)" using 3(3) by simp
    from 3(1) [OF m(3) this 3(4) in_rest] obtain n where
      "N a = Some n" "n_next n = None" "chained (N(a \<mapsto> n\<lparr>n_next := Some b\<rparr>)) (app - {(b, Some a)}) (y # q)"
      by blast
    with m(1,2) False \<open>a \<noteq> x\<close> show ?thesis
      by (intro exI [of _ n]) (simp del: fun_upd_apply add: fun_upd_other)
  qed
qed auto

section \<open>The invariant\<close>

abbreviation "node_bytes N a \<equiv> nb_bytes (n_buffer (the (N a)))"

definition chain_bytes :: "(nat \<Rightarrow> Node option) \<Rightarrow> nat list \<Rightarrow> string" where
  "chain_bytes N q = concat (map (\<lambda>a. node_bytes N a) q)"

lemma chain_bytes_simps [simp]:
  "chain_bytes N [] = []" "chain_bytes N (a # q) = node_bytes N a @ chain_bytes N q"
  "chain_bytes N (q @ r) = chain_bytes N q @ chain_bytes N r"
  by (simp_all add: chain_bytes_def)

lemma chain_bytes_upd [simp]: "a \<notin> set q \<Longrightarrow> chain_bytes (N(a := x)) q = chain_bytes N q"
  by (induction q) auto

definition chain_ctxs :: "(nat \<Rightarrow> Node option) \<Rightarrow> nat list \<Rightarrow> nat list" where
  "chain_ctxs N q = map (\<lambda>a. n_ctx (the (N a))) q"

lemma chain_ctxs_simps [simp]:
  "chain_ctxs N [] = []" "chain_ctxs N (a # q) = n_ctx (the (N a)) # chain_ctxs N q"
  "chain_ctxs N (q @ r) = chain_ctxs N q @ chain_ctxs N r"
  by (simp_all add: chain_ctxs_def)

lemma chain_ctxs_upd: "a \<notin> set q \<Longrightarrow> chain_ctxs (N(a := x)) q = chain_ctxs N q"
  by (induction q) auto

lemma chain_ctxs_upd_same: "N a = Some n \<Longrightarrow> n_ctx x = n_ctx n \<Longrightarrow> chain_ctxs (N(a \<mapsto> x)) q = chain_ctxs N q"
  by (induction q) auto

lemma chain_bytes_upd_same: "N a = Some n \<Longrightarrow> n_buffer x = n_buffer n \<Longrightarrow> chain_bytes (N(a \<mapsto> x)) q = chain_bytes N q"
  by (induction q) auto

lemma chain_bytes_cong:
  "(\<And>a. a \<in> set q \<Longrightarrow> map_option n_buffer (N a) = map_option n_buffer (M a)) \<Longrightarrow> (\<And>a. a \<in> set q \<Longrightarrow> N a \<noteq> None) \<Longrightarrow>
   chain_bytes N q = chain_bytes M q"
proof (induction q)
  case (Cons a q)
  from Cons.prems(1) [of a] Cons.prems(2) [of a] have "node_bytes N a = node_bytes M a" by (cases "N a"; cases "M a") auto
  with Cons show ?case by simp
qed simp

text \<open>A prefix of the queue all of whose links are stored.\<close>

definition published :: "(nat \<times> nat option) set \<Rightarrow> nat list \<Rightarrow> bool" where
  "published app q \<longleftrightarrow> app \<inter> links q = {}"

text \<open>What holds at each program counter.\<close>

definition covered :: "wb_state \<Rightarrow> string \<Rightarrow> bool" where
  "covered s bytes \<longleftrightarrow> (\<exists>q1 q2. ws_queue s = q1 @ q2 \<and> q1 \<noteq> [] \<and> published (ws_appending s) q1 \<and>
     prefix bytes (chain_bytes (wl_nodes (ws_list s)) q1))"

definition collected :: "nat \<Rightarrow> nat \<Rightarrow> string \<Rightarrow> string list \<Rightarrow> nat \<Rightarrow> bool" where
  "collected iov_max max_bytes bytes iov flushing \<longleftrightarrow>
     flushing = length (concat iov) \<and> (iov = [] \<or> length (concat (butlast iov)) < max_bytes) \<and>
     prefix (concat iov) bytes \<and>
     (flushing < max_bytes \<and> length iov \<noteq> iov_max \<longrightarrow> concat iov = bytes)"

fun pc_ok :: "nat \<Rightarrow> wb_state \<Rightarrow> flush_pc \<Rightarrow> bool" where
  "pc_ok iov_max s F_Idle = (ws_active s \<longrightarrow> wl_head (ws_list s) = Some (hd (ws_queue s)))"
| "pc_ok iov_max s (F_Loaded m h) =
     (ws_active s \<and> wl_head (ws_list s) = Some (hd (ws_queue s)) \<and> h = Some (hd (ws_queue s)))"
| "pc_ok iov_max s (F_Gather m h c iov fl) =
     (ws_active s \<and> wl_head (ws_list s) = Some (hd (ws_queue s)) \<and> h = hd (ws_queue s) \<and>
      (\<exists>q1 q2. ws_queue s = q1 @ c # q2 \<and> published (ws_appending s) (q1 @ [c]) \<and>
         collected iov_max m (chain_bytes (wl_nodes (ws_list s)) q1) iov fl))"
| "pc_ok iov_max s (F_Write h iov fl) =
     (ws_active s \<and> wl_head (ws_list s) = Some (hd (ws_queue s)) \<and> h = hd (ws_queue s) \<and>
      covered s (concat iov) \<and> fl = length (concat iov))"
| "pc_ok iov_max s (F_Rewind c n) = (ws_active s \<and> c = hd (ws_queue s) \<and>
      (\<exists>q1 q2. ws_queue s = q1 @ q2 \<and> q1 \<noteq> [] \<and> published (ws_appending s) q1 \<and>
         n \<le> length (chain_bytes (wl_nodes (ws_list s)) q1)))"
| "pc_ok iov_max s (F_Cas c) = (ws_active s \<and> c = hd (ws_queue s))"
| "pc_ok iov_max s (F_Spin c) = (ws_active s \<and> c = hd (ws_queue s) \<and> tl (ws_queue s) \<noteq> [])"

text \<open>Bytes already written that are still in the queue, and nodes already reported.\<close>

definition unaccounted :: "wb_state \<Rightarrow> nat" where
  "unaccounted s = (case ws_pc s of
       F_Rewind _ n \<Rightarrow> n
     | F_Cas c \<Rightarrow> length (node_bytes (wl_nodes (ws_list s)) c)
     | F_Spin c \<Rightarrow> length (node_bytes (wl_nodes (ws_list s)) c)
     | _ \<Rightarrow> 0)"

definition unreported :: "wb_state \<Rightarrow> nat list" where
  "unreported s = (case ws_pc s of F_Cas _ \<Rightarrow> tl (ws_queue s) | F_Spin _ \<Rightarrow> tl (ws_queue s) | _ \<Rightarrow> ws_queue s)"

definition queue_ok :: "wb_state \<Rightarrow> bool" where
  "queue_ok s \<longleftrightarrow>
     (let q = ws_queue s; N = wl_nodes (ws_list s); app = ws_appending s
      in distinct q \<and> dom N = set q \<and> (\<forall>a \<in> set q. nb_invar (n_buffer (the (N a)))) \<and>
         wl_tail (ws_list s) = (if q = [] then None else Some (last q)) \<and>
         chained N app q \<and> app \<subseteq> links q \<union> (if q \<noteq> [] \<and> \<not> ws_active s then {(hd q, None)} else {}) \<and>
         (ws_active s \<longrightarrow> q \<noteq> []) \<and> (q \<noteq> [] \<and> \<not> ws_active s \<longrightarrow> (hd q, None) \<in> app))"

definition data_ok :: "wb_state \<Rightarrow> bool" where
  "data_ok s \<longleftrightarrow>
     (let N = wl_nodes (ws_list s)
      in ws_sent s @ drop (unaccounted s) (chain_bytes N (ws_queue s)) = concat (map fst (ws_appended s)) \<and>
         ws_ctxs s @ chain_ctxs N (unreported s) = map snd (ws_appended s) \<and>
         unaccounted s \<le> length (chain_bytes N (ws_queue s)))"

definition wb_inv :: "nat \<Rightarrow> wb_state \<Rightarrow> bool" where
  "wb_inv iov_max s \<longleftrightarrow> queue_ok s \<and> pc_ok iov_max s (ws_pc s) \<and> data_ok s"

section \<open>Steps keep the invariant\<close>

lemma gather_buffer_collected:
  "collected iov_max m bytes iov fl \<Longrightarrow> chain_ok bs \<Longrightarrow> gather_buffer iov_max m bs iov fl = (iov', fl') \<Longrightarrow>
   collected iov_max m (bytes @ concat (map pb_bytes bs)) iov' fl'"
proof (induction bs arbitrary: bytes iov fl)
  case (Cons b bs)
  show ?case
  proof (cases "length iov \<noteq> iov_max \<and> fl < m")
    case True
    then have "collected iov_max m (bytes @ pb_bytes b) (iov @ [pb_bytes b]) (fl + pb_size b)"
      using Cons.prems(1,2) by (auto simp: collected_def)
    with Cons.IH [of "bytes @ pb_bytes b"] Cons.prems True show ?thesis by simp
  next
    case False
    with Cons.prems have "iov' = iov" "fl' = fl" by auto
    with False Cons.prems(1) show ?thesis by (auto simp: collected_def)
  qed
qed simp

lemma revise_last_collected:
  assumes "collected iov_max m bytes iov fl" "revise_last m iov fl = (iov', fl')"
  shows "fl' = length (concat iov') \<and> prefix (concat iov') bytes"
proof (cases "fl > m")
  case False
  with assms show ?thesis by (auto simp: revise_last_def collected_def)
next
  case True
  then have "iov \<noteq> []" using assms(1) by (auto simp: collected_def)
  then have iov: "iov = butlast iov @ [last iov]" by simp
  have fl: "fl = length (concat iov)" "length (concat (butlast iov)) < m" "prefix (concat iov) bytes"
    using assms(1) \<open>iov \<noteq> []\<close> by (auto simp: collected_def)
  have "fl = length (concat (butlast iov)) + length (last iov)"
    using fl(1) arg_cong [OF iov, of "\<lambda>x. length (concat x)"] by simp
  with fl(2) True have "concat iov' = take m (concat iov)" "fl' = m"
    using assms(2) arg_cong [OF iov, of concat] by (auto simp: revise_last_def Let_def)
  with True fl show ?thesis by (auto intro: take_is_prefix [THEN prefix_order.trans])
qed

text \<open>What other threads do while \<^verbatim>\<open>FlushTo\<close> runs: they add nodes behind the queue and store links.\<close>

definition grows :: "wb_state \<Rightarrow> wb_state \<Rightarrow> bool" where
  "grows s s' \<longleftrightarrow> ws_active s \<and> ws_active s' \<and> ws_queue s \<noteq> [] \<and> (\<exists>r. ws_queue s' = ws_queue s @ r) \<and>
     wl_head (ws_list s') = wl_head (ws_list s) \<and> ws_pc s' = ws_pc s \<and>
     (\<forall>a \<in> set (ws_queue s). wl_nodes (ws_list s) a \<noteq> None \<and>
        map_option n_buffer (wl_nodes (ws_list s') a) = map_option n_buffer (wl_nodes (ws_list s) a)) \<and>
     ws_appending s' \<inter> links (ws_queue s) \<subseteq> ws_appending s"

lemma links_mono: "links q1 \<subseteq> links (q1 @ q2)"
  by (auto simp: links_append)

lemma grows_published:
  assumes "grows s s'" "ws_queue s = q1 @ q2" "published (ws_appending s) q1"
  shows "published (ws_appending s') q1"
proof -
  have "links q1 \<subseteq> links (ws_queue s)" using assms(2) links_mono by metis
  with assms(1,3) show ?thesis unfolding grows_def published_def by blast
qed

lemma grows_chain_bytes:
  assumes "grows s s'" "ws_queue s = q1 @ q2"
  shows "chain_bytes (wl_nodes (ws_list s')) q1 = chain_bytes (wl_nodes (ws_list s)) q1"
  using assms by (intro chain_bytes_cong [symmetric]) (auto simp: grows_def)

lemma grows_hd: "grows s s' \<Longrightarrow> hd (ws_queue s') = hd (ws_queue s)"
  by (auto simp: grows_def)

lemma grows_pc_ok:
  assumes g: "grows s s'" and ok: "pc_ok iov_max s pc"
  shows "pc_ok iov_max s' pc"
proof (cases pc)
  case (F_Gather m h c iov fl)
  with ok obtain q1 q2 where q: "ws_queue s = q1 @ c # q2" "published (ws_appending s) (q1 @ [c])"
    "collected iov_max m (chain_bytes (wl_nodes (ws_list s)) q1) iov fl" by auto
  obtain r where r: "ws_queue s' = q1 @ c # q2 @ r" using g q(1) by (auto simp: grows_def)
  have "published (ws_appending s') (q1 @ [c])" using grows_published [OF g, of "q1 @ [c]" q2] q by simp
  moreover have "chain_bytes (wl_nodes (ws_list s')) q1 = chain_bytes (wl_nodes (ws_list s)) q1"
    using grows_chain_bytes [OF g q(1)] .
  ultimately have "\<exists>q1 q2. ws_queue s' = q1 @ c # q2 \<and> published (ws_appending s') (q1 @ [c]) \<and>
      collected iov_max m (chain_bytes (wl_nodes (ws_list s')) q1) iov fl"
    using q(3) r by (intro exI [of _ q1] exI [of _ "q2 @ r"]) simp
  with F_Gather ok g grows_hd [OF g] show ?thesis by (simp add: grows_def)
next
  case (F_Write h iov fl)
  with ok obtain q1 q2 where q: "ws_queue s = q1 @ q2" "q1 \<noteq> []" "published (ws_appending s) q1"
    "prefix (concat iov) (chain_bytes (wl_nodes (ws_list s)) q1)" by (auto simp: covered_def)
  obtain r where r: "ws_queue s' = q1 @ q2 @ r" using g q(1) by (auto simp: grows_def)
  have "covered s' (concat iov)" unfolding covered_def
    using q r grows_published [OF g q(1,3)] grows_chain_bytes [OF g q(1)]
    by (intro exI [of _ q1] exI [of _ "q2 @ r"]) simp
  with F_Write ok g grows_hd [OF g] show ?thesis by (simp add: grows_def)
next
  case (F_Rewind c n)
  with ok obtain q1 q2 where q: "ws_queue s = q1 @ q2" "q1 \<noteq> []" "published (ws_appending s) q1"
    "n \<le> length (chain_bytes (wl_nodes (ws_list s)) q1)" by auto
  obtain r where r: "ws_queue s' = q1 @ q2 @ r" using g q(1) by (auto simp: grows_def)
  have "\<exists>q1 q2. ws_queue s' = q1 @ q2 \<and> q1 \<noteq> [] \<and> published (ws_appending s') q1 \<and>
      n \<le> length (chain_bytes (wl_nodes (ws_list s')) q1)"
    using q r grows_published [OF g q(1,3)] grows_chain_bytes [OF g q(1)]
    by (intro exI [of _ q1] exI [of _ "q2 @ r"]) simp
  with F_Rewind ok g grows_hd [OF g] show ?thesis by (simp add: grows_def)
qed (use g ok grows_hd [OF g] in \<open>auto simp: grows_def\<close>)

lemma pc_ok_active: "pc_ok iov_max s pc \<Longrightarrow> pc \<noteq> F_Idle \<Longrightarrow> ws_active s"
  by (cases pc) auto

text \<open>The record of what was sent and reported does not depend on the links.\<close>

lemma unaccounted_cong:
  assumes "ws_pc s' = ws_pc s" "pc_ok iov_max s (ws_pc s)" "ws_active s \<Longrightarrow> ws_queue s \<noteq> []"
    and "\<And>a. a \<in> set (ws_queue s) \<Longrightarrow> node_bytes (wl_nodes (ws_list s')) a = node_bytes (wl_nodes (ws_list s)) a"
  shows "unaccounted s' = unaccounted s"
  using assms by (cases "ws_pc s") (auto simp: unaccounted_def)

lemma set_tl_subset: "set (tl xs) \<subseteq> set xs"
  by (cases xs) auto

lemma inv_exchange:
  assumes inv: "wb_inv iov_max s" and fresh: "wl_nodes (ws_list s) node = None" and buf: "nb_invar buffer"
    and ex: "Append_exchange node buffer ctx (ws_list s) = (prev, l)"
  shows "wb_inv iov_max (s\<lparr>ws_list := l, ws_appending := insert (node, prev) (ws_appending s),
      ws_queue := ws_queue s @ [node], ws_appended := ws_appended s @ [(nb_bytes buffer, ctx)]\<rparr>)" (is "wb_inv _ ?s")
proof -
  let ?q = "ws_queue s" and ?N = "wl_nodes (ws_list s)" and ?app = "ws_appending s"
  let ?n = "\<lparr>n_next = None, n_buffer = buffer, n_ctx = ctx\<rparr>"
  have q: "distinct ?q" "dom ?N = set ?q" "\<forall>a \<in> set ?q. nb_invar (n_buffer (the (?N a)))"
      "wl_tail (ws_list s) = (if ?q = [] then None else Some (last ?q))" "chained ?N ?app ?q"
      "?app \<subseteq> links ?q \<union> (if ?q \<noteq> [] \<and> \<not> ws_active s then {(hd ?q, None)} else {})"
      "ws_active s \<longrightarrow> ?q \<noteq> []" "?q \<noteq> [] \<and> \<not> ws_active s \<longrightarrow> (hd ?q, None) \<in> ?app"
    using inv by (simp_all add: wb_inv_def queue_ok_def Let_def)
  have node: "node \<notin> set ?q" using fresh q(2) by auto
  have l: "l = (ws_list s)\<lparr>wl_nodes := ?N(node \<mapsto> ?n), wl_tail := Some node\<rparr>" "prev = wl_tail (ws_list s)"
    using ex by (simp_all add: Append_exchange_def)
  have bytes: "node_bytes (?N(node \<mapsto> ?n)) a = node_bytes ?N a" if "a \<in> set ?q" for a using that node by auto
  have pc: "pc_ok iov_max s (ws_pc s)" and data: "data_ok s" using inv by (simp_all add: wb_inv_def)
  have "queue_ok ?s"
  proof (cases "?q = []")
    case True
    with q l buf show ?thesis by (auto simp: queue_ok_def Let_def)
  next
    case False
    have "chained (?N(node \<mapsto> ?n)) (insert (node, Some (last ?q)) ?app) (?q @ [node])"
      using chained_snoc [OF q(5) False node, of ?n] by simp
    moreover have "\<forall>a \<in> set (?q @ [node]). nb_invar (n_buffer (the ((?N(node \<mapsto> ?n)) a)))"
      using q(3) buf node by auto
    ultimately show ?thesis using False q l node
      unfolding queue_ok_def Let_def by (auto simp: links_snoc)
  qed
  moreover have "pc_ok iov_max ?s (ws_pc ?s)"
  proof (cases "ws_active s")
    case True
    have "?app \<subseteq> links ?q" using q(6) True by simp
    moreover have "(node, prev) \<notin> links ?q" using links_dest [of node prev ?q] node by (cases ?q) auto
    moreover have "?N a \<noteq> None" if "a \<in> set ?q" for a using that q(2) by (metis domIff)
    ultimately have "grows s ?s" using True q(7) l node unfolding grows_def by auto
    from grows_pc_ok [OF this pc] show ?thesis by simp
  next
    case False
    then have "ws_pc s = F_Idle" using pc_ok_active [OF pc] by blast
    with False show ?thesis by simp
  qed
  moreover have "data_ok ?s"
  proof -
    have un: "unaccounted ?s = unaccounted s"
    proof (rule unaccounted_cong [OF _ pc])
      show "node_bytes (wl_nodes (ws_list ?s)) a = node_bytes (wl_nodes (ws_list s)) a" if "a \<in> set ?q" for a
        using bytes [OF that] l(1) by simp
    qed (use q(7) in auto)
    have "unreported ?s = unreported s @ [node]"
      using pc q(7) by (cases "ws_pc s") (auto simp: unreported_def)
    moreover have "node \<notin> set (unreported s)"
      using node set_tl_subset [of ?q] by (cases "ws_pc s") (auto simp: unreported_def)
    then have "chain_ctxs (?N(node \<mapsto> ?n)) (unreported s) = chain_ctxs ?N (unreported s)" by (rule chain_ctxs_upd)
    moreover have "chain_bytes (?N(node \<mapsto> ?n)) (?q @ [node]) = chain_bytes ?N ?q @ nb_bytes buffer" using node by simp
    ultimately show ?thesis using data l un unfolding data_ok_def Let_def by simp
  qed
  ultimately show ?thesis by (simp add: wb_inv_def)
qed

lemma inv_publish:
  assumes inv: "wb_inv iov_max s" and app: "(node, prev) \<in> ws_appending s"
  shows "\<exists>l. Append_publish node prev (ws_list s) = Inr l \<and>
     wb_inv iov_max (s\<lparr>ws_list := l, ws_appending := ws_appending s - {(node, prev)},
             ws_active := (ws_active s \<or> prev = None)\<rparr>)"
proof -
  let ?q = "ws_queue s" and ?N = "wl_nodes (ws_list s)" and ?app = "ws_appending s"
  have q: "distinct ?q" "dom ?N = set ?q" "\<forall>a \<in> set ?q. nb_invar (n_buffer (the (?N a)))"
      "wl_tail (ws_list s) = (if ?q = [] then None else Some (last ?q))" "chained ?N ?app ?q"
      "?app \<subseteq> links ?q \<union> (if ?q \<noteq> [] \<and> \<not> ws_active s then {(hd ?q, None)} else {})"
      "ws_active s \<longrightarrow> ?q \<noteq> []" "?q \<noteq> [] \<and> \<not> ws_active s \<longrightarrow> (hd ?q, None) \<in> ?app"
    using inv by (simp_all add: wb_inv_def queue_ok_def Let_def)
  have pc: "pc_ok iov_max s (ws_pc s)" and data: "data_ok s" using inv by (simp_all add: wb_inv_def)
  show ?thesis
  proof (cases prev)
    case None
    then have "(node, prev) \<notin> links ?q" using links_dest [of node prev ?q] by auto
    then have n: "?q \<noteq> []" "\<not> ws_active s" "node = hd ?q" using q(6) app by (auto split: if_splits)
    let ?s = "s\<lparr>ws_list := (ws_list s)\<lparr>wl_head := Some node\<rparr>, ws_appending := ?app - {(node, prev)},
             ws_active := (ws_active s \<or> prev = None)\<rparr>"
    have idle: "ws_pc s = F_Idle" using pc_ok_active [OF pc] n(2) by blast
    have "chained ?N (?app - {(node, prev)}) ?q"
      using q(5) \<open>(node, prev) \<notin> links ?q\<close> by (subst chained_cong [of ?q ?N ?N _ ?app]) auto
    moreover have "?app - {(node, prev)} \<subseteq> links ?q" using q(6) n None by auto
    ultimately have "queue_ok ?s" using q n None by (simp add: queue_ok_def)
    moreover have "data_ok ?s" using data idle by (simp add: data_ok_def unaccounted_def unreported_def)
    ultimately show ?thesis using None idle n by (simp add: wb_inv_def Append_publish_def)
  next
    case (Some p)
    then have link: "(node, Some p) \<in> links ?q" using q(6) app by (auto split: if_splits)
    from chained_publish [OF q(5,1) app [unfolded Some] link] obtain n where
      n: "?N p = Some n" "n_next n = None" "chained (?N(p \<mapsto> n\<lparr>n_next := Some node\<rparr>)) (?app - {(node, Some p)}) ?q"
      by blast
    let ?N' = "?N(p \<mapsto> n\<lparr>n_next := Some node\<rparr>)"
    let ?s = "s\<lparr>ws_list := (ws_list s)\<lparr>wl_nodes := ?N'\<rparr>, ws_appending := ?app - {(node, prev)},
             ws_active := (ws_active s \<or> prev = None)\<rparr>"
    have buf: "node_bytes ?N' a = node_bytes ?N a" for a using n(1) by simp
    have "p \<in> set ?q" using n(1) q(2) by auto
    then have "dom ?N' = set ?q" using q(2) by auto
    moreover have "\<forall>a \<in> set ?q. nb_invar (n_buffer (the (?N' a)))" using q(3) n(1) by auto
    ultimately have "queue_ok ?s" using q n(3) Some by (auto simp: queue_ok_def Let_def)
    moreover have "pc_ok iov_max ?s (ws_pc ?s)"
    proof (cases "ws_active s")
      case True
      have "?N a \<noteq> None" if "a \<in> set ?q" for a using that q(2) by (metis domIff)
      then have "grows s ?s" using True q(7) n(1) unfolding grows_def by auto
      from grows_pc_ok [OF this pc] show ?thesis by simp
    next
      case False
      then have "ws_pc s = F_Idle" using pc_ok_active [OF pc] by blast
      with False Some show ?thesis by simp
    qed
    moreover have "data_ok ?s"
    proof -
      have "unaccounted ?s = unaccounted s"
        using buf by (cases "ws_pc s") (simp_all add: unaccounted_def)
      moreover have "unreported ?s = unreported s" by (cases "ws_pc s") (simp_all add: unreported_def)
      ultimately show ?thesis using data n(1) unfolding data_ok_def Let_def
        by (simp add: chain_bytes_upd_same chain_ctxs_upd_same)
    qed
    ultimately show ?thesis using Some n by (simp add: wb_inv_def Append_publish_def)
  qed
qed

text \<open>The steps of \<^verbatim>\<open>FlushTo\<close> that only move its program counter.\<close>

definition plain :: "flush_pc \<Rightarrow> bool" where
  "plain pc \<longleftrightarrow> (case pc of F_Rewind _ _ \<Rightarrow> False | F_Cas _ \<Rightarrow> False | F_Spin _ \<Rightarrow> False | _ \<Rightarrow> True)"

lemma pc_ok_pc_update [simp]: "pc_ok iov_max (s\<lparr>ws_pc := pc'\<rparr>) pc = pc_ok iov_max s pc"
  by (cases pc) (simp_all add: covered_def)

lemma inv_pc:
  assumes "wb_inv iov_max s" "plain (ws_pc s)" "plain pc" "pc_ok iov_max s pc"
  shows "wb_inv iov_max (s\<lparr>ws_pc := pc\<rparr>)"
proof -
  have "unaccounted s = 0" "unaccounted (s\<lparr>ws_pc := pc\<rparr>) = 0"
    "unreported s = ws_queue s" "unreported (s\<lparr>ws_pc := pc\<rparr>) = ws_queue s"
    using assms(2,3) by (auto simp: plain_def unaccounted_def unreported_def split: flush_pc.splits)
  with assms show ?thesis by (simp add: wb_inv_def queue_ok_def data_ok_def)
qed

lemma inv_queue: "wb_inv iov_max s \<Longrightarrow> ws_active s \<Longrightarrow> ws_queue s \<noteq> [] \<and> wl_tail (ws_list s) \<noteq> None"
  by (auto simp: wb_inv_def queue_ok_def Let_def)

lemma inv_load_tail:
  assumes inv: "wb_inv iov_max s" and pc: "ws_pc s = F_Loaded max_bytes head"
  shows "\<exists>pc. Flush_tail max_bytes head (ws_list s) = Inr pc \<and> wb_inv iov_max (s\<lparr>ws_pc := pc\<rparr>)"
proof -
  have ok: "ws_active s" "wl_head (ws_list s) = Some (hd (ws_queue s))" "head = Some (hd (ws_queue s))"
    using inv pc by (simp_all add: wb_inv_def)
  from inv_queue [OF inv ok(1)] obtain q where q: "ws_queue s = hd (ws_queue s) # q" and t: "wl_tail (ws_list s) \<noteq> None"
    by (metis list.collapse)
  have "pc_ok iov_max s (F_Gather max_bytes (hd (ws_queue s)) (hd (ws_queue s)) [] 0)"
    unfolding pc_ok.simps
    by (intro conjI exI [of _ "[]"] exI [of _ q]) (use ok q in \<open>auto simp: published_def collected_def\<close>)
  with inv have "wb_inv iov_max (s\<lparr>ws_pc := F_Gather max_bytes (hd (ws_queue s)) (hd (ws_queue s)) [] 0\<rparr>)"
    using pc by (intro inv_pc) (simp_all add: plain_def)
  with ok(3) t show ?thesis by (auto simp: Flush_tail_def)
qed

lemma published_snoc: "q \<noteq> [] \<Longrightarrow> published app q \<Longrightarrow> (b, Some (last q)) \<notin> app \<Longrightarrow> published app (q @ [b])"
  by (auto simp: published_def links_snoc)

lemma inv_gather:
  assumes inv: "wb_inv iov_max s" and pc: "ws_pc s = F_Gather max_bytes head c iov flushing"
  shows "\<exists>pc. Flush_gather iov_max max_bytes head c iov flushing (ws_list s) = Inr pc \<and> wb_inv iov_max (s\<lparr>ws_pc := pc\<rparr>)"
proof -
  let ?N = "wl_nodes (ws_list s)" and ?app = "ws_appending s"
  have "pc_ok iov_max s (F_Gather max_bytes head c iov flushing)" using inv pc by (simp add: wb_inv_def)
  then obtain q1 q2 where ok: "ws_active s" "wl_head (ws_list s) = Some (hd (ws_queue s))" "head = hd (ws_queue s)"
      and q: "ws_queue s = q1 @ c # q2" and pub: "published ?app (q1 @ [c])"
      and col: "collected iov_max max_bytes (chain_bytes ?N q1) iov flushing" by auto
  have "chained ?N ?app (q1 @ c # q2)" and nb: "nb_invar (n_buffer (the (?N c)))"
    using inv q by (simp_all add: wb_inv_def queue_ok_def Let_def)
  from chained_next [OF this(1)] obtain n where n: "?N c = Some n"
    "n_next n = (case q2 of [] \<Rightarrow> None | b # _ \<Rightarrow> if (b, Some c) \<in> ?app then None else Some b)" by blast
  obtain iov' fl' where g: "gather_buffer iov_max max_bytes (nb_buffers (n_buffer n)) iov flushing = (iov', fl')"
    by fastforce
  have "chain_ok (nb_buffers (n_buffer n))" using nb n(1) by (simp add: nb_invar_def)
  from gather_buffer_collected [OF col this g] n(1)
  have col': "collected iov_max max_bytes (chain_bytes ?N (q1 @ [c])) iov' fl'" by (simp add: nb_bytes_def)
  show ?thesis
  proof (cases "n_next n")
    case None
    obtain iov'' fl'' where r: "revise_last max_bytes iov' fl' = (iov'', fl'')" by fastforce
    have "covered s (concat iov'')" unfolding covered_def
      using q pub revise_last_collected [OF col' r] by (intro exI [of _ "q1 @ [c]"] exI [of _ q2]) simp
    then have "pc_ok iov_max s (F_Write head iov'' fl'')" using ok revise_last_collected [OF col' r] by simp
    with inv have "wb_inv iov_max (s\<lparr>ws_pc := F_Write head iov'' fl''\<rparr>)"
      using pc by (intro inv_pc) (simp_all add: plain_def)
    with n None g r show ?thesis by (simp add: Flush_gather_def)
  next
    case (Some b)
    then obtain q3 where q2: "q2 = b # q3" "(b, Some c) \<notin> ?app" using n(2) by (auto split: list.splits if_splits)
    then have "published ?app ((q1 @ [c]) @ [b])" using published_snoc [of "q1 @ [c]" ?app b] pub by simp
    then have "\<exists>r1 r2. ws_queue s = r1 @ b # r2 \<and> published ?app (r1 @ [b]) \<and>
        collected iov_max max_bytes (chain_bytes ?N r1) iov' fl'"
      using q q2 col' by (intro exI [of _ "q1 @ [c]"] exI [of _ q3]) simp
    then have "pc_ok iov_max s (F_Gather max_bytes head b iov' fl')" using ok by simp
    with inv have "wb_inv iov_max (s\<lparr>ws_pc := F_Gather max_bytes head b iov' fl'\<rparr>)"
      using pc by (intro inv_pc) (simp_all add: plain_def)
    with n(1) Some g show ?thesis by (simp add: Flush_gather_def)
  qed
qed

lemma inv_writev:
  assumes inv: "wb_inv iov_max s" and pc: "ws_pc s = F_Write head iov flushing" and rc: "rc \<le> int (length (concat iov))"
  shows "\<exists>pc. Flush_write head flushing rc = Inr pc \<and>
     wb_inv iov_max (s\<lparr>ws_pc := pc, ws_sent := ws_sent s @ take (nat rc) (concat iov)\<rparr>)"
proof -
  let ?N = "wl_nodes (ws_list s)" and ?app = "ws_appending s"
  have "pc_ok iov_max s (F_Write head iov flushing)" using inv pc by (simp add: wb_inv_def)
  then obtain q1 q2 where ok: "ws_active s" "wl_head (ws_list s) = Some (hd (ws_queue s))" "head = hd (ws_queue s)"
      "flushing = length (concat iov)" and q: "ws_queue s = q1 @ q2" "q1 \<noteq> []" "published ?app q1"
      "prefix (concat iov) (chain_bytes ?N q1)" by (auto simp: covered_def)
  show ?thesis
  proof (cases "rc \<le> 0")
    case True
    have "wb_inv iov_max (s\<lparr>ws_pc := F_Idle\<rparr>)" using inv pc ok by (intro inv_pc) (simp_all add: plain_def)
    with True show ?thesis by (simp add: Flush_write_def)
  next
    case False
    have len: "nat rc \<le> length (concat iov)" "length (concat iov) \<le> length (chain_bytes ?N q1)"
      using rc q(4) by (simp_all add: prefix_length_le)
    have "take (nat rc) (concat iov) = take (nat rc) (chain_bytes ?N (ws_queue s))"
      using len q(1,4) by (auto simp: prefix_def)
    then have "take (nat rc) (concat iov) @ drop (nat rc) (chain_bytes ?N (ws_queue s)) = chain_bytes ?N (ws_queue s)" by simp
    moreover have "nat rc \<le> length (chain_bytes ?N (ws_queue s))" using len q(1) by simp
    ultimately have "data_ok (s\<lparr>ws_pc := F_Rewind head (nat rc), ws_sent := ws_sent s @ take (nat rc) (concat iov)\<rparr>)"
      using inv pc by (simp add: wb_inv_def data_ok_def Let_def unaccounted_def unreported_def)
    moreover have "\<exists>r1 r2. ws_queue s = r1 @ r2 \<and> r1 \<noteq> [] \<and> published ?app r1 \<and> nat rc \<le> length (chain_bytes ?N r1)"
      using q len by (intro exI [of _ q1] exI [of _ q2]) simp
    ultimately have "wb_inv iov_max (s\<lparr>ws_pc := F_Rewind head (nat rc), ws_sent := ws_sent s @ take (nat rc) (concat iov)\<rparr>)"
      using inv ok(1,3) by (simp add: wb_inv_def queue_ok_def)
    with False rc ok(4) show ?thesis by (simp add: Flush_write_def)
  qed
qed

text \<open>Removing the front of the queue once its successor is chained.\<close>

lemma queue_ok_pop:
  assumes ok: "queue_ok s" and act: "ws_active s" and q: "ws_queue s = a # r" "r \<noteq> []" "(hd r, Some a) \<notin> ws_appending s"
  shows "queue_ok (s\<lparr>ws_pc := pc, ws_list := (ws_list s)\<lparr>wl_nodes := (wl_nodes (ws_list s))(a := None), wl_head := h\<rparr>,
                    ws_ctxs := cs, ws_queue := r\<rparr>)"
proof -
  let ?N = "wl_nodes (ws_list s)"
  have o: "a \<notin> set r" "distinct r" "dom ?N = insert a (set r)" "chained ?N (ws_appending s) (a # r)"
      "ws_appending s \<subseteq> links (a # r)"
    using ok act q(1) by (simp_all add: queue_ok_def Let_def)
  have "chained (?N(a := None)) (ws_appending s) r"
    using o(1) chained_tl [OF o(4)] by (subst chained_cong [of r _ ?N _ "ws_appending s"]) auto
  moreover have "dom (?N(a := None)) = set r" using o by auto
  moreover have "ws_appending s \<subseteq> links r" using o(5) q(2,3) by (auto simp: links_Cons)
  moreover have "\<forall>x \<in> set r. nb_invar (n_buffer (the ((?N(a := None)) x)))"
    using ok q(1) o(1) by (auto simp: queue_ok_def Let_def)
  ultimately show ?thesis using ok act q(1,2) o(2) by (simp add: queue_ok_def Let_def)
qed

lemma inv_front:
  assumes "wb_inv iov_max s" "ws_active s" "ws_queue s = a # r"
  shows "\<exists>n. wl_nodes (ws_list s) a = Some n \<and> nb_invar (n_buffer n) \<and>
     n_next n = (case r of [] \<Rightarrow> None | b # _ \<Rightarrow> if (b, Some a) \<in> ws_appending s then None else Some b)"
proof -
  have "chained (wl_nodes (ws_list s)) (ws_appending s) ([] @ a # r)" "nb_invar (n_buffer (the (wl_nodes (ws_list s) a)))"
    using assms by (simp_all add: wb_inv_def queue_ok_def Let_def)
  with chained_next [OF this(1)] show ?thesis by auto
qed

lemma inv_rewind_next:
  assumes inv: "wb_inv iov_max s" and pc: "ws_pc s = F_Rewind a flushed"
    and q: "ws_queue s = a # b # r" "(b, Some a) \<notin> ws_appending s"
    and le: "length (node_bytes (wl_nodes (ws_list s)) a) \<le> flushed"
  shows "wb_inv iov_max (s\<lparr>ws_pc := F_Rewind b (flushed - length (node_bytes (wl_nodes (ws_list s)) a)),
     ws_list := (ws_list s)\<lparr>wl_nodes := (wl_nodes (ws_list s))(a := None)\<rparr>,
     ws_ctxs := ws_ctxs s @ [n_ctx (the (wl_nodes (ws_list s) a))], ws_queue := b # r\<rparr>)" (is "wb_inv _ ?s")
proof -
  let ?N = "wl_nodes (ws_list s)" and ?app = "ws_appending s"
  have "pc_ok iov_max s (F_Rewind a flushed)" and act: "ws_active s" and data: "data_ok s" and ok: "queue_ok s"
    using inv pc by (simp_all add: wb_inv_def)
  then obtain q1 q2 where s: "ws_queue s = q1 @ q2" "q1 \<noteq> []" "published ?app q1" "flushed \<le> length (chain_bytes ?N q1)"
    by auto
  then obtain t where t: "q1 = a # t" using q(1) by (cases q1) auto
  have a: "a \<notin> set (b # r)" using ok q(1) by (simp add: queue_ok_def Let_def)
  have "set t \<subseteq> set (b # r)" using s(1) t q(1) by auto
  then have bytes: "chain_bytes (?N(a := None)) (b # r) = chain_bytes ?N (b # r)" "chain_bytes (?N(a := None)) t = chain_bytes ?N t"
    "chain_ctxs (?N(a := None)) (b # r) = chain_ctxs ?N (b # r)" using a by (blast intro: chain_bytes_upd chain_ctxs_upd)+
  have "queue_ok ?s" using queue_ok_pop [OF ok act q(1), of _ "wl_head (ws_list s)"] q(2) by simp
  moreover have "data_ok ?s"
    using data pc q(1) le bytes unfolding data_ok_def Let_def
    by (simp add: unaccounted_def unreported_def del: chain_bytes_simps(2) chain_ctxs_simps(2) fun_upd_apply)
       (simp add: chain_bytes_simps(2) [of _ a] chain_ctxs_simps(2) [of _ a] le_diff_conv add.commute del: chain_bytes_simps(2) chain_ctxs_simps(2) fun_upd_apply)
  moreover have "pc_ok iov_max ?s (F_Rewind b (flushed - length (node_bytes ?N a)))"
  proof (cases t)
    case Nil
    then have "flushed - length (node_bytes ?N a) = 0" using s(4) t by simp
    moreover have "\<exists>r1 r2. b # r = r1 @ r2 \<and> r1 \<noteq> [] \<and> published ?app r1"
      by (intro exI [of _ "[b]"] exI [of _ r]) (simp add: published_def)
    ultimately show ?thesis using act by simp
  next
    case (Cons x u)
    have "published ?app t" using s(3) t links_Cons [of t a] Cons by (auto simp: published_def)
    moreover have "flushed - length (node_bytes ?N a) \<le> length (chain_bytes ?N t)" using s(4) t by simp
    moreover have "b # r = t @ q2" using s(1) t q(1) by simp
    ultimately have "\<exists>r1 r2. b # r = r1 @ r2 \<and> r1 \<noteq> [] \<and> published ?app r1 \<and>
        flushed - length (node_bytes ?N a) \<le> length (chain_bytes (?N(a := None)) r1)"
      using Cons bytes(2) by (intro exI [of _ t] exI [of _ q2]) simp
    with act show ?thesis by simp
  qed
  ultimately show ?thesis by (simp add: wb_inv_def)
qed

lemma inv_rewind:
  assumes inv: "wb_inv iov_max s" and pc: "ws_pc s = F_Rewind c flushed"
  shows "\<exists>pc ctx l. Flush_rewind c flushed (ws_list s) = Inr (pc, ctx, l) \<and>
     wb_inv iov_max (s\<lparr>ws_pc := pc, ws_list := l, ws_ctxs := ws_ctxs s @ report ctx,
             ws_queue := (case pc of F_Rewind _ _ \<Rightarrow> tl (ws_queue s) | _ \<Rightarrow> ws_queue s)\<rparr>)"
proof -
  let ?N = "wl_nodes (ws_list s)" and ?app = "ws_appending s"
  have pcok: "pc_ok iov_max s (F_Rewind c flushed)" and act: "ws_active s" and data: "data_ok s" and ok: "queue_ok s"
    using inv pc by (simp_all add: wb_inv_def)
  then obtain r where q: "ws_queue s = c # r" using inv_queue [OF inv act] by (cases "ws_queue s") auto
  from inv_front [OF inv act q] obtain n where n: "?N c = Some n" "nb_invar (n_buffer n)"
    "n_next n = (case r of [] \<Rightarrow> None | b # _ \<Rightarrow> if (b, Some c) \<in> ?app then None else Some b)" by blast
  have b: "NB_ByteSize (n_buffer n) = length (node_bytes ?N c)" using n(1,2) by (simp add: NB_ByteSize_def nb_invar_length)
  show ?thesis
  proof (cases "length (node_bytes ?N c) \<le> flushed")
    case False
    then obtain buf where buf: "NB_Skip flushed (n_buffer n) = Inr buf" "nb_invar buf" "nb_bytes buf = drop flushed (nb_bytes (n_buffer n))"
      using NB_Skip_ok [OF n(2), of flushed] n(1) by auto
    let ?N' = "?N(c \<mapsto> n\<lparr>n_buffer := buf\<rparr>)"
    let ?s = "s\<lparr>ws_pc := F_Idle, ws_list := (ws_list s)\<lparr>wl_nodes := ?N', wl_head := Some c\<rparr>\<rparr>"
    have c: "c \<notin> set r" using ok q by (simp add: queue_ok_def Let_def)
    have "chained ?N' ?app (c # r)" using ok q n(1)
      by (subst chained_cong [of _ _ ?N _ ?app]) (auto simp: queue_ok_def Let_def)
    then have "queue_ok ?s" using ok q n(1) buf(2) by (auto simp: queue_ok_def Let_def)
    moreover have "chain_ctxs ?N' (c # r) = chain_ctxs ?N (c # r)" using n(1) by (rule chain_ctxs_upd_same) simp
    moreover have "chain_bytes ?N' (c # r) = drop flushed (chain_bytes ?N (c # r))" using c n(1) buf(3) False by simp
    ultimately have "wb_inv iov_max ?s" using data pc q
      by (simp add: wb_inv_def data_ok_def Let_def unaccounted_def unreported_def
          del: chain_bytes_simps chain_ctxs_simps fun_upd_apply)
    with n(1) b buf(1) False show ?thesis by (simp add: Flush_rewind_def Let_def report_def)
  next
    case True
    show ?thesis
    proof (cases "n_next n")
      case None
      obtain q1 q2 where s: "ws_queue s = q1 @ q2" "q1 \<noteq> []" "published ?app q1" "flushed \<le> length (chain_bytes ?N q1)"
        using pcok by auto
      have "q1 = [c]"
      proof (cases "tl q1")
        case Nil
        then show ?thesis using s(1,2) q by (cases q1) auto
      next
        case (Cons x u)
        then have "q1 = c # x # u" "r = x # u @ q2" using s(1,2) q by (cases q1; auto)+
        with s(3) n(3) None show ?thesis by (auto simp: published_def)
      qed
      with s(4) True have fl: "flushed = length (node_bytes ?N c)" by simp
      have "wb_inv iov_max (s\<lparr>ws_pc := F_Cas c, ws_ctxs := ws_ctxs s @ [n_ctx n]\<rparr>)"
        using ok act data pc q fl n(1)
        by (simp add: wb_inv_def queue_ok_def data_ok_def Let_def unaccounted_def unreported_def)
      with n(1) None b fl show ?thesis by (simp add: Flush_rewind_def Let_def report_def)
    next
      case (Some x)
      then obtain u where r: "r = x # u" "(x, Some c) \<notin> ?app" using n(3) by (auto split: list.splits if_splits)
      from inv_rewind_next [OF inv pc q [unfolded r(1)] r(2) True] n(1) Some b q r(1) True
      show ?thesis by (simp add: Flush_rewind_def Let_def report_def)
    qed
  qed
qed

lemma inv_cas:
  assumes inv: "wb_inv iov_max s" and pc: "ws_pc s = F_Cas c" and cas: "Flush_cas c (ws_list s) = (emptied, pc', l)"
  shows "wb_inv iov_max (s\<lparr>ws_pc := pc', ws_list := l, ws_active := (ws_active s \<and> \<not> emptied),
      ws_queue := (if emptied then tl (ws_queue s) else ws_queue s)\<rparr>)"
proof -
  have act: "ws_active s" and data: "data_ok s" and ok: "queue_ok s" and hd: "c = hd (ws_queue s)"
    using inv pc by (simp_all add: wb_inv_def)
  then obtain r where q: "ws_queue s = c # r" using inv_queue [OF inv act] by (cases "ws_queue s") auto
  have t: "wl_tail (ws_list s) = Some (last (c # r))" "distinct (c # r)" using ok q by (simp_all add: queue_ok_def Let_def)
  show ?thesis
  proof (cases "r = []")
    case True
    with cas t have c: "emptied" "pc' = F_Idle" "l = (ws_list s)\<lparr>wl_tail := None, wl_nodes := (wl_nodes (ws_list s))(c := None)\<rparr>"
      by (auto simp: Flush_cas_def)
    have "queue_ok (s\<lparr>ws_pc := pc', ws_list := l, ws_active := False, ws_queue := []\<rparr>)"
      using ok act q True c by (auto simp: queue_ok_def Let_def)
    with data pc q True c show ?thesis by (simp add: wb_inv_def data_ok_def Let_def unaccounted_def unreported_def)
  next
    case False
    then have "last (c # r) \<noteq> c" using t(2) last_in_set [of r] by auto
    with cas t have "\<not> emptied" "pc' = F_Spin c" "l = ws_list s" by (auto simp: Flush_cas_def)
    with ok act data pc q False show ?thesis
      by (simp add: wb_inv_def queue_ok_def data_ok_def Let_def unaccounted_def unreported_def)
  qed
qed

lemma inv_spin:
  assumes inv: "wb_inv iov_max s" and pc: "ws_pc s = F_Spin c"
  shows "\<exists>pc l. Flush_spin c (ws_list s) = Inr (pc, l) \<and>
     wb_inv iov_max (s\<lparr>ws_pc := pc, ws_list := l, ws_queue := (if pc = F_Idle then tl (ws_queue s) else ws_queue s)\<rparr>)"
proof -
  let ?N = "wl_nodes (ws_list s)"
  have act: "ws_active s" and data: "data_ok s" and ok: "queue_ok s" and c: "c = hd (ws_queue s)" "tl (ws_queue s) \<noteq> []"
    using inv pc by (simp_all add: wb_inv_def)
  then obtain b r where q: "ws_queue s = c # b # r" by (cases "ws_queue s"; cases "tl (ws_queue s)") auto
  from inv_front [OF inv act q] obtain n where n: "?N c = Some n" "nb_invar (n_buffer n)"
    "n_next n = (if (b, Some c) \<in> ws_appending s then None else Some b)" by auto
  show ?thesis
  proof (cases "(b, Some c) \<in> ws_appending s")
    case True
    have "s\<lparr>ws_pc := F_Spin c, ws_list := ws_list s, ws_queue := ws_queue s\<rparr> = s" using pc by simp
    with True n inv show ?thesis by (simp add: Flush_spin_def)
  next
    case False
    have "c \<notin> set (b # r)" using ok q by (simp add: queue_ok_def Let_def)
    then have bytes: "chain_bytes (?N(c := None)) (b # r) = chain_bytes ?N (b # r)"
      "chain_ctxs (?N(c := None)) (b # r) = chain_ctxs ?N (b # r)" by (blast intro: chain_bytes_upd chain_ctxs_upd)+
    have "queue_ok (s\<lparr>ws_pc := F_Idle, ws_list := (ws_list s)\<lparr>wl_nodes := ?N(c := None), wl_head := Some b\<rparr>, ws_queue := b # r\<rparr>)"
      using queue_ok_pop [where pc = F_Idle and h = "Some b" and cs = "ws_ctxs s", OF ok act q] False
      by (simp del: fun_upd_apply)
    moreover have "data_ok (s\<lparr>ws_pc := F_Idle, ws_list := (ws_list s)\<lparr>wl_nodes := ?N(c := None), wl_head := Some b\<rparr>, ws_queue := b # r\<rparr>)"
      using data pc q bytes unfolding data_ok_def Let_def
      by (simp add: unaccounted_def unreported_def chain_bytes_simps(2) [of _ c] del: chain_bytes_simps(2) chain_ctxs_simps(2) fun_upd_apply)
    ultimately show ?thesis using False n act q by (simp add: Flush_spin_def wb_inv_def)
  qed
qed

lemma inv_step:
  assumes "wb_step iov_max s r" "wb_inv iov_max s"
  shows "\<exists>s'. r = Inr s' \<and> wb_inv iov_max s'"
  using assms
proof (cases rule: wb_step.cases)
  case (exchange node buffer ctx prev l)
  with inv_exchange [OF assms(2)] show ?thesis by blast
next
  case (publish node prev)
  from inv_publish [OF assms(2) publish(2)] publish(1) show ?thesis by auto
next
  case (enter max_bytes)
  have "wb_inv iov_max (s\<lparr>ws_pc := F_Loaded max_bytes (wl_head (ws_list s))\<rparr>)"
    using assms(2) enter by (intro inv_pc) (simp_all add: plain_def wb_inv_def)
  with enter(1) show ?thesis by blast
next
  case (load_tail max_bytes head)
  from inv_load_tail [OF assms(2) load_tail(2)] load_tail(1) show ?thesis by auto
next
  case (gather max_bytes head c iov flushing)
  from inv_gather [OF assms(2) gather(2)] gather(1) show ?thesis by auto
next
  case (writev head iov flushing rc)
  from inv_writev [OF assms(2) writev(2,3)] writev(1) show ?thesis by auto
next
  case (rewind c flushed)
  from inv_rewind [OF assms(2) rewind(2)] rewind(1) show ?thesis by auto
next
  case (cas c emptied pc l)
  from inv_cas [OF assms(2) cas(2,3)] cas(1) show ?thesis by blast
next
  case (spin c)
  from inv_spin [OF assms(2) spin(2)] spin(1) show ?thesis by auto
qed

lemma inv_reach: "wb_reach iov_max s \<Longrightarrow> wb_inv iov_max s"
proof (induction rule: wb_reach.induct)
  case init
  show ?case by (simp add: wb_inv_def queue_ok_def data_ok_def Let_def ws_init_def WBL_new_def unaccounted_def unreported_def)
next
  case (step s s')
  with inv_step show ?case by blast
qed

lemma free_chain_ok:
  "chained N {} q \<Longrightarrow> distinct q \<Longrightarrow> length q \<le> fuel \<Longrightarrow>
   free_chain fuel (case q of [] \<Rightarrow> None | a # _ \<Rightarrow> Some a) N = Inr (\<lambda>a. if a \<in> set q then None else N a)"
proof (induction q arbitrary: N fuel)
  case (Cons a q)
  then obtain f where f: "fuel = Suc f" by (cases fuel) auto
  obtain n where n: "N a = Some n" "n_next n = (case q of [] \<Rightarrow> None | b # _ \<Rightarrow> Some b)"
    using Cons.prems(1) by (cases q) auto
  have "chained (N(a := None)) {} q"
    using Cons.prems chained_tl [OF Cons.prems(1)] by (subst chained_cong [of q _ N _ "{}"]) auto
  from Cons.IH [OF this, of f] Cons.prems f
  have "free_chain f (n_next n) (N(a := None)) = Inr (\<lambda>x. if x \<in> set q then None else (N(a := None)) x)"
    unfolding n(2) by (simp del: fun_upd_apply)
  moreover have "(\<lambda>x. if x \<in> set q then None else (N(a := None)) x) = (\<lambda>x. if x \<in> set (a # q) then None else N x)" by auto
  ultimately show ?case using f n(1) by (simp del: fun_upd_apply)
qed simp

lemma WBL_destroy_ok:
  assumes reach: "wb_reach iov_max s" and quiet: "ws_pc s = F_Idle" "ws_appending s = {}"
    and fresh: "wl_nodes (ws_list s) node = None" and fuel: "length (ws_queue s) < fuel"
  shows "WBL_destroy fuel node (ws_list s) = Inr Map.empty"
proof -
  have nb: "nb_invar NB_new" by (simp add: NB_new_def nb_invar_def)
  obtain prev l where ex: "Append_exchange node NB_new 0 (ws_list s) = (prev, l)" by fastforce
  let ?s = "s\<lparr>ws_list := l, ws_appending := insert (node, prev) (ws_appending s),
      ws_queue := ws_queue s @ [node], ws_appended := ws_appended s @ [(nb_bytes NB_new, 0)]\<rparr>"
  have inv: "wb_inv iov_max ?s" by (rule inv_exchange [OF inv_reach [OF reach] fresh nb ex])
  from inv_publish [OF this, of node prev] obtain l' where
    l': "Append_publish node prev l = Inr l'" "wb_inv iov_max (?s\<lparr>ws_list := l', ws_appending := ws_appending ?s - {(node, prev)},
       ws_active := (ws_active ?s \<or> prev = None)\<rparr>)" (is "wb_inv _ ?t") by auto
  have app: "ws_appending ?t = {}" and q: "ws_queue ?t = ws_queue s @ [node]" using quiet(2) by auto
  have "queue_ok ?t" and pc: "pc_ok iov_max ?t F_Idle" using l'(2) quiet(1) by (simp_all add: wb_inv_def)
  then have t: "chained (wl_nodes l') {} (ws_queue s @ [node])" "distinct (ws_queue s @ [node])"
      "dom (wl_nodes l') = set (ws_queue s @ [node])" "ws_active ?t"
    using app q unfolding queue_ok_def Let_def app q by simp_all
  from pc t(4) have "wl_head l' = (case ws_queue s @ [node] of [] \<Rightarrow> None | a # _ \<Rightarrow> Some a)"
    by (cases "ws_queue s") auto
  with free_chain_ok [OF t(1,2), of fuel] fuel
  have "free_chain fuel (wl_head l') (wl_nodes l') = Inr (\<lambda>a. if a \<in> set (ws_queue s @ [node]) then None else wl_nodes l' a)"
    by simp
  moreover have "(\<lambda>a. if a \<in> set (ws_queue s @ [node]) then None else wl_nodes l' a) = Map.empty"
    using t(3) by (auto simp: fun_eq_iff domIff)
  ultimately show ?thesis using ex l'(1) by (simp add: WBL_destroy_def)
qed

section \<open>A run\<close>

text \<open>One thread appends two bytes and flushes them.\<close>

definition two_bytes :: NoncontiguousBuffer where
  "two_bytes = NB_AppendPB (MakeForeignBuffer ''ab'') NB_new"

lemma two_bytes_simps [simp]:
  "nb_invar two_bytes" "nb_bytes two_bytes = ''ab''" "NB_ByteSize two_bytes = 2"
  "gather_buffer 8 m (nb_buffers two_bytes) [] 0 = (if 0 < m then ([''ab''], 2) else ([], 0))"
  by (simp_all add: two_bytes_def NB_AppendPB_def MakeForeignBuffer_def PB_make_def PB_move_def NB_new_def nb_invar_def
        pb_ok_def NB_ByteSize_def nb_bytes_def pb_bytes_def)

definition after_exchange :: wb_state where
  "after_exchange = \<lparr>ws_list = \<lparr>wl_nodes = [0 \<mapsto> \<lparr>n_next = None, n_buffer = two_bytes, n_ctx = 7\<rparr>], wl_head = None, wl_tail = Some 0\<rparr>,
     ws_appending = {(0, None)}, ws_pc = F_Idle, ws_active = False, ws_queue = [0],
     ws_appended = [(''ab'', 7)], ws_sent = [], ws_ctxs = []\<rparr>"

lemma after_exchange_reach: "wb_reach 8 after_exchange"
  using wb_reach.step [OF wb_reach.init wb_step.exchange [of ws_init 0 two_bytes 7 None "ws_list after_exchange" 8]]
  by (simp add: Append_exchange_def ws_init_def WBL_new_def after_exchange_def)

lemma run_to_empty:
  "\<exists>s. wb_reach 8 s \<and> \<not> ws_active s \<and> ws_appending s = {} \<and> ws_appended s = [(''ab'', 7)]"
proof -
  let ?l = "\<lparr>wl_nodes = [0 \<mapsto> \<lparr>n_next = None, n_buffer = two_bytes, n_ctx = 7\<rparr>], wl_head = Some 0, wl_tail = Some 0\<rparr>"
  let ?s = "after_exchange\<lparr>ws_list := ?l, ws_appending := {}, ws_active := True\<rparr>"
  have 1: "wb_reach 8 ?s"
    using wb_reach.step [OF after_exchange_reach, of ?s] wb_step.publish [of 0 None after_exchange 8]
    by (simp add: Append_publish_def after_exchange_def)
  have 2: "wb_reach 8 (?s\<lparr>ws_pc := F_Loaded 9 (Some 0)\<rparr>)" (is "wb_reach 8 ?t")
    using wb_reach.step [OF 1, of ?t] wb_step.enter [of ?s 8 9] by (simp add: after_exchange_def)
  have 3: "wb_reach 8 (?s\<lparr>ws_pc := F_Gather 9 0 0 [] 0\<rparr>)" (is "wb_reach 8 ?u")
    using wb_reach.step [OF 2, of ?u] wb_step.load_tail [of ?t 9 "Some 0" 8] by (simp add: after_exchange_def Flush_tail_def)
  have 4: "wb_reach 8 (?s\<lparr>ws_pc := F_Write 0 [''ab''] 2\<rparr>)" (is "wb_reach 8 ?v")
    using wb_reach.step [OF 3, of ?v] wb_step.gather [of ?u 9 0 0 "[]" 0 8]
    by (simp add: after_exchange_def Flush_gather_def revise_last_def)
  have 5: "wb_reach 8 (?s\<lparr>ws_pc := F_Rewind 0 2, ws_sent := ''ab''\<rparr>)" (is "wb_reach 8 ?w")
    using wb_reach.step [OF 4, of ?w] wb_step.writev [of ?v 0 "[''ab'']" 2 2 8]
    by (simp add: after_exchange_def Flush_write_def)
  have 6: "wb_reach 8 (?s\<lparr>ws_pc := F_Cas 0, ws_sent := ''ab'', ws_ctxs := [7]\<rparr>)" (is "wb_reach 8 ?x")
    using wb_reach.step [OF 5, of ?x] wb_step.rewind [of ?w 0 2 8]
    by (simp add: after_exchange_def Flush_rewind_def report_def)
  have "wb_step 8 ?x (Inr (?x\<lparr>ws_pc := F_Idle, ws_list := ?l\<lparr>wl_tail := None, wl_nodes := (wl_nodes ?l)(0 := None)\<rparr>,
      ws_active := False, ws_queue := []\<rparr>))"
    using wb_step.cas [of ?x 0 True F_Idle _ 8] by (simp add: after_exchange_def Flush_cas_def)
  from wb_reach.step [OF 6 this] show ?thesis by (intro exI conjI, assumption) (simp_all add: after_exchange_def)
qed

section \<open>Results\<close>





end
