(* ===== verification/Flush_To.thy ===== *)
theory Flush_To
  imports Writing_Buffer_List
begin

text \<open>
  \<^verbatim>\<open>WritingBufferList::FlushTo\<close> as a whole (\<^verbatim>\<open>flare/io/detail/writing_buffer_list.cc\<close>), run from its
  entry to its return by the steps of \<^verbatim>\<open>Writing_Buffer_List\<close> while no other thread is in \<^verbatim>\<open>Append\<close>. The
  stream is a parameter: \<open>writev\<close> gives the return value of \<^verbatim>\<open>WriteV\<close>, the error number and the new
  state of the stream. The loops over the nodes carry fuel; as many units as there are nodes suffice.

  The result is what a connection relies on: which bytes were written, which contexts were reported
  and what is left in the list.
\<close>

section \<open>The call\<close>

type_synonym 'io writev = "'io \<Rightarrow> string list \<Rightarrow> int \<times> int \<times> 'io"

fun gather_loop ::
    "nat \<Rightarrow> nat \<Rightarrow> nat \<Rightarrow> nat \<Rightarrow> nat \<Rightarrow> string list \<Rightarrow> nat \<Rightarrow> WritingBufferList \<Rightarrow> (string list \<times> nat) result" where
  "gather_loop 0 iov_max max_bytes head current iov flushing l = Inl Out_of_fuel"
| "gather_loop (Suc fuel) iov_max max_bytes head current iov flushing l =
     rbind (Flush_gather iov_max max_bytes head current iov flushing l) (\<lambda>pc.
       case pc of
         F_Gather m h c iov flushing \<Rightarrow> gather_loop fuel iov_max m h c iov flushing l
       | F_Write h iov flushing \<Rightarrow> Inr (iov, flushing)
       | _ \<Rightarrow> Inl Undefined_behaviour)"

text \<open>
  The rewinding loop, with the contexts reported so far. Were the exchange to fail, the call would
  wait for an appending thread.
\<close>

fun rewind_loop ::
    "nat \<Rightarrow> nat \<Rightarrow> nat \<Rightarrow> nat list \<Rightarrow> WritingBufferList \<Rightarrow> (nat list \<times> bool \<times> WritingBufferList) result" where
  "rewind_loop 0 current flushed ctxs l = Inl Out_of_fuel"
| "rewind_loop (Suc fuel) current flushed ctxs l =
     rbind (Flush_rewind current flushed l) (\<lambda>(pc, ctx, l).
       case pc of
         F_Rewind c n \<Rightarrow> rewind_loop fuel c n (ctxs @ report ctx) l
       | F_Cas c \<Rightarrow>
           (let (emptied, _, l) = Flush_cas c l
            in if emptied then Inr (ctxs @ report ctx, True, l) else Inl Out_of_fuel)
       | _ \<Rightarrow> Inr (ctxs @ report ctx, False, l))"

record 'io flush_result =
  fr_rc :: int
  fr_err :: int
  fr_ctxs :: "nat list"
  fr_emptied :: bool
  fr_short_write :: bool
  fr_io :: 'io
  fr_list :: WritingBufferList

text \<open>
  If nothing is written \<^verbatim>\<open>emptied\<close> and \<^verbatim>\<open>short_write\<close> are left as they are; the caller does not look at
  them.
\<close>

definition FlushTo ::
    "nat \<Rightarrow> nat \<Rightarrow> 'io writev \<Rightarrow> 'io \<Rightarrow> nat \<Rightarrow> WritingBufferList \<Rightarrow> 'io flush_result result" where
  "FlushTo fuel iov_max writev io max_bytes l =
     rbind (Flush_tail max_bytes (wl_head l) l) (\<lambda>pc.
       case pc of
         F_Gather m head c iov flushing \<Rightarrow>
           rbind (gather_loop fuel iov_max m head c iov flushing l) (\<lambda>(iov, flushing).
             let (rc, err, io) = writev io iov
             in rbind (Flush_write head flushing rc) (\<lambda>pc.
                  case pc of
                    F_Rewind c n \<Rightarrow>
                      rbind (rewind_loop fuel c n [] l) (\<lambda>(ctxs, emptied, l).
                        Inr \<lparr>fr_rc = rc, fr_err = err, fr_ctxs = ctxs, fr_emptied = emptied,
                             fr_short_write = (rc \<noteq> int flushing), fr_io = io, fr_list = l\<rparr>)
                  | _ \<Rightarrow> Inr \<lparr>fr_rc = rc, fr_err = err, fr_ctxs = [], fr_emptied = False,
                              fr_short_write = False, fr_io = io, fr_list = l\<rparr>))
       | _ \<Rightarrow> Inr \<lparr>fr_rc = 0, fr_err = 0, fr_ctxs = [], fr_emptied = True, fr_short_write = False,
                   fr_io = io, fr_list = l\<rparr>)"

text \<open>\<^verbatim>\<open>Append\<close> as a whole; \<open>node\<close> is what the object pool gives.\<close>

definition Append :: "nat \<Rightarrow> NoncontiguousBuffer \<Rightarrow> nat \<Rightarrow> WritingBufferList \<Rightarrow> (bool \<times> WritingBufferList) result" where
  "Append node buffer ctx l =
     (let (prev, l) = Append_exchange node buffer ctx l
      in rbind (Append_publish node prev l) (\<lambda>l. Inr (prev = None, l)))"

section \<open>What the list stands for\<close>

text \<open>
  Between calls a list stands for the sequence of its buffers with their contexts.
\<close>

definition wbl_chain :: "(nat \<Rightarrow> Node option) \<Rightarrow> nat list \<Rightarrow> bool" where
  "wbl_chain N q \<longleftrightarrow> distinct q \<and> dom N = set q \<and> (\<forall>a \<in> set q. nb_invar (n_buffer (the (N a)))) \<and> chained N {} q"

definition chain_entries :: "(nat \<Rightarrow> Node option) \<Rightarrow> nat list \<Rightarrow> (string \<times> nat) list" where
  "chain_entries N q = map (\<lambda>a. (node_bytes N a, n_ctx (the (N a)))) q"

definition wbl_rep :: "WritingBufferList \<Rightarrow> (string \<times> nat) list \<Rightarrow> bool" where
  "wbl_rep l p \<longleftrightarrow>
     (\<exists>q. wbl_chain (wl_nodes l) q \<and> wl_tail l = (if q = [] then None else Some (last q)) \<and>
          (q \<noteq> [] \<longrightarrow> wl_head l = Some (hd q)) \<and> p = chain_entries (wl_nodes l) q)"

lemma chain_entries_simps [simp]:
  "chain_entries N [] = []" "chain_entries N (a # q) = (node_bytes N a, n_ctx (the (N a))) # chain_entries N q"
  "chain_entries N (q @ r) = chain_entries N q @ chain_entries N r" "length (chain_entries N q) = length q"
  by (simp_all add: chain_entries_def)

lemma chain_entries_Nil_iff [simp]: "chain_entries N q = [] \<longleftrightarrow> q = []"
  by (simp add: chain_entries_def)

lemma chain_entries_upd: "a \<notin> set q \<Longrightarrow> chain_entries (N(a := x)) q = chain_entries N q"
  by (induction q) auto

lemma chain_entries_upd_same:
  "N a = Some n \<Longrightarrow> n_buffer x = n_buffer n \<Longrightarrow> n_ctx x = n_ctx n \<Longrightarrow> chain_entries (N(a \<mapsto> x)) q = chain_entries N q"
  by (induction q) auto

abbreviation pending_bytes :: "(string \<times> nat) list \<Rightarrow> string" where
  "pending_bytes p \<equiv> concat (map fst p)"

lemma chain_entries_bytes: "pending_bytes (chain_entries N q) = chain_bytes N q"
  by (induction q) auto

text \<open>What is left after a number of bytes, and the contexts reported.\<close>

fun drop_written :: "nat \<Rightarrow> (string \<times> nat) list \<Rightarrow> nat list \<times> (string \<times> nat) list" where
  "drop_written n [] = ([], [])"
| "drop_written n ((b, c) # p) =
     (if length b \<le> n then let (cs, r) = drop_written (n - length b) p in (c # cs, r)
      else ([], (drop n b, c) # p))"

lemma drop_written_bytes:
  "drop_written n p = (cs, r) \<Longrightarrow> pending_bytes r = drop n (pending_bytes p) \<and> cs @ map snd r = map snd p"
  by (induction n p arbitrary: cs r rule: drop_written.induct) (auto split: if_splits prod.splits)

lemma drop_written_length: "drop_written n p = (cs, r) \<Longrightarrow> length cs + length r = length p"
  by (induction n p arbitrary: cs r rule: drop_written.induct) (auto split: if_splits prod.splits)

lemma drop_written_Nil: "drop_written n p = (cs, []) \<Longrightarrow> length (pending_bytes p) \<le> n"
  by (induction n p arbitrary: cs rule: drop_written.induct) (auto split: if_splits prod.splits)

section \<open>Append\<close>

lemma Append_ok:
  assumes rep: "wbl_rep l p" and fresh: "wl_nodes l node = None" and buf: "nb_invar buffer"
  shows "\<exists>l'. Append node buffer ctx l = Inr (p = [], l') \<and> wbl_rep l' (p @ [(nb_bytes buffer, ctx)])"
proof -
  let ?N = "wl_nodes l" and ?n = "\<lparr>n_next = None, n_buffer = buffer, n_ctx = ctx\<rparr>"
  obtain q where q: "distinct q" "dom ?N = set q" "\<forall>a \<in> set q. nb_invar (n_buffer (the (?N a)))" "chained ?N {} q"
      "wl_tail l = (if q = [] then None else Some (last q))" "q \<noteq> [] \<longrightarrow> wl_head l = Some (hd q)" "p = chain_entries ?N q"
    using rep by (auto simp: wbl_rep_def wbl_chain_def)
  have node: "node \<notin> set q" using fresh q(2) by auto
  show ?thesis
  proof (cases "q = []")
    case True
    let ?l = "l\<lparr>wl_nodes := ?N(node \<mapsto> ?n), wl_tail := Some node, wl_head := Some node\<rparr>"
    have "wbl_rep ?l (p @ [(nb_bytes buffer, ctx)])" unfolding wbl_rep_def
      using True q buf by (intro exI [of _ "[node]"]) (auto simp: wbl_chain_def)
    with True q show ?thesis by (simp add: Append_def Append_exchange_def Append_publish_def)
  next
    case False
    let ?p = "last q"
    have "chained (?N(node \<mapsto> ?n)) {(node, Some ?p)} (q @ [node])"
      using chained_snoc [OF q(4) False node, of ?n] by simp
    from chained_publish [OF this, of node ?p] q(1) node False obtain n where
      n: "(?N(node \<mapsto> ?n)) ?p = Some n" "n_next n = None"
         "chained (?N(node \<mapsto> ?n, ?p \<mapsto> n\<lparr>n_next := Some node\<rparr>)) {} (q @ [node])"
      by (auto simp: links_snoc)
    let ?N' = "?N(node \<mapsto> ?n, ?p \<mapsto> n\<lparr>n_next := Some node\<rparr>)"
    let ?l = "l\<lparr>wl_tail := Some node, wl_nodes := ?N'\<rparr>"
    have "?p \<noteq> node" "?p \<in> set q" using node False by auto
    then have np: "?N ?p = Some n" using n(1) by auto
    have "chain_entries ?N' (q @ [node]) = chain_entries (?N(node \<mapsto> ?n)) (q @ [node])"
      using n(1) by (rule chain_entries_upd_same) simp_all
    then have e: "chain_entries ?N' (q @ [node]) = p @ [(nb_bytes buffer, ctx)]"
      using q(7) chain_entries_upd [OF node, of ?N "Some ?n"] by simp
    have "\<forall>a \<in> set (q @ [node]). nb_invar (n_buffer (the (?N' a)))" using q(3) buf np \<open>?p \<noteq> node\<close> \<open>?p \<in> set q\<close> by auto
    moreover have "dom ?N' = set (q @ [node])" using q(2) \<open>?p \<in> set q\<close> by auto
    ultimately have "wbl_chain ?N' (q @ [node])" using q(1) node n(3) by (simp add: wbl_chain_def)
    then have "wbl_rep ?l (p @ [(nb_bytes buffer, ctx)])" unfolding wbl_rep_def
      using False q(6) e by (intro exI [of _ "q @ [node]"]) (simp del: fun_upd_apply chain_entries_simps)
    with False q(5,7) n(2) np \<open>?p \<noteq> node\<close> show ?thesis
      by (simp add: Append_def Append_exchange_def Append_publish_def)
  qed
qed

section \<open>FlushTo\<close>

lemma revise_last_bound: "revise_last m iov fl = (iov', fl') \<Longrightarrow> fl' \<le> m"
  by (auto simp: revise_last_def Let_def split: if_splits)

lemma wbl_chain_node:
  assumes "wbl_chain N (q1 @ a # q2)"
  shows "\<exists>n. N a = Some n \<and> nb_invar (n_buffer n) \<and> n_next n = (case q2 of [] \<Rightarrow> None | b # _ \<Rightarrow> Some b)"
  using assms chained_next [of N "{}" q1 a q2] by (cases q2) (auto simp: wbl_chain_def)

lemma gather_loop_ok:
  assumes "wbl_chain (wl_nodes l) (q1 @ a # q2)" "length (a # q2) \<le> fuel"
    and "collected iov_max m (chain_bytes (wl_nodes l) q1) iov fl"
  shows "\<exists>iov' fl'. gather_loop fuel iov_max m h a iov fl l = Inr (iov', fl') \<and> fl' = length (concat iov') \<and>
     prefix (concat iov') (chain_bytes (wl_nodes l) (q1 @ a # q2)) \<and> fl' \<le> m"
  using assms
proof (induction q2 arbitrary: q1 a fuel iov fl)
  case (Nil q1 a)
  then obtain f where f: "fuel = Suc f" by (cases fuel) auto
  from wbl_chain_node [OF Nil(1)] obtain n where n: "wl_nodes l a = Some n" "nb_invar (n_buffer n)" "n_next n = None" by auto
  obtain iov1 fl1 where g: "gather_buffer iov_max m (nb_buffers (n_buffer n)) iov fl = (iov1, fl1)" by fastforce
  obtain iov2 fl2 where r: "revise_last m iov1 fl1 = (iov2, fl2)" by fastforce
  have "collected iov_max m (chain_bytes (wl_nodes l) (q1 @ [a])) iov1 fl1"
    using gather_buffer_collected [OF Nil(3) _ g] n(1,2) by (simp add: nb_bytes_def nb_invar_def)
  from revise_last_collected [OF this r] revise_last_bound [OF r] f n g r show ?case by (simp add: Flush_gather_def)
next
  case (Cons b q2 q1 a)
  then obtain f where f: "fuel = Suc f" by (cases fuel) auto
  from wbl_chain_node [OF Cons.prems(1)] obtain n where n: "wl_nodes l a = Some n" "nb_invar (n_buffer n)" "n_next n = Some b" by auto
  obtain iov1 fl1 where g: "gather_buffer iov_max m (nb_buffers (n_buffer n)) iov fl = (iov1, fl1)" by fastforce
  have "collected iov_max m (chain_bytes (wl_nodes l) (q1 @ [a])) iov1 fl1"
    using gather_buffer_collected [OF Cons.prems(3) _ g] n(1,2) by (simp add: nb_bytes_def nb_invar_def)
  with Cons.IH [of "q1 @ [a]" b f iov1 fl1] Cons.prems(1,2) f n(1,3) g show ?case by (simp add: Flush_gather_def)
qed

lemma wbl_chain_tl:
  assumes "wbl_chain N (a # q)"
  shows "wbl_chain (N(a := None)) q"
proof -
  have "chained (N(a := None)) {} q"
    using assms chained_tl [of N "{}" a q] by (subst chained_cong [of q _ N _ "{}"]) (auto simp: wbl_chain_def)
  with assms show ?thesis by (auto simp: wbl_chain_def)
qed

lemma rewind_partial:
  assumes ch: "wbl_chain (wl_nodes l) (a # q)" and tl: "wl_tail l = Some (last (a # q))"
    and nd: "wl_nodes l a = Some nd" "nb_invar (n_buffer nd)" and n: "\<not> length (nb_bytes (n_buffer nd)) \<le> n"
  shows "\<exists>l'. Flush_rewind a n l = Inr (F_Idle, None, l') \<and>
     wbl_rep l' ((drop n (nb_bytes (n_buffer nd)), n_ctx nd) # chain_entries (wl_nodes l) q)"
proof -
  obtain buf where buf: "NB_Skip n (n_buffer nd) = Inr buf" "nb_invar buf" "nb_bytes buf = drop n (nb_bytes (n_buffer nd))"
    using NB_Skip_ok [OF nd(2), of n] n by auto
  let ?N = "(wl_nodes l)(a \<mapsto> nd\<lparr>n_buffer := buf\<rparr>)"
  have "chained ?N {} (a # q)" using ch nd(1)
    by (subst chained_cong [of _ _ "wl_nodes l" _ "{}"]) (auto simp: wbl_chain_def)
  then have "wbl_chain ?N (a # q)" using ch nd(1) buf(2) by (auto simp: wbl_chain_def)
  moreover have "a \<notin> set q" using ch by (simp add: wbl_chain_def)
  ultimately have "wbl_rep (l\<lparr>wl_nodes := ?N, wl_head := Some a\<rparr>) ((drop n (nb_bytes (n_buffer nd)), n_ctx nd) # chain_entries (wl_nodes l) q)"
    unfolding wbl_rep_def using tl buf(3) by (intro exI [of _ "a # q"]) (simp add: chain_entries_upd)
  with nd n buf(1) show ?thesis by (simp add: Flush_rewind_def NB_ByteSize_def nb_invar_length)
qed

text \<open>The state the rewinding loop leaves.\<close>

lemma rewind_loop_ok:
  assumes "wbl_chain (wl_nodes l) (a # q)" "wl_tail l = Some (last (a # q))" "length (a # q) \<le> fuel"
    and "n \<le> length (chain_bytes (wl_nodes l) (a # q))"
    and "drop_written n (chain_entries (wl_nodes l) (a # q)) = (cs, r)"
  shows "\<exists>l'. rewind_loop fuel a n ctxs l = Inr (ctxs @ cs, r = [], l') \<and> wbl_rep l' r"
  using assms
proof (induction q arbitrary: l a n fuel ctxs cs)
  case (Nil l a n)
  then obtain f where f: "fuel = Suc f" by (cases fuel) auto
  from wbl_chain_node [of _ "[]" a "[]"] Nil(1) obtain nd where
    nd: "wl_nodes l a = Some nd" "nb_invar (n_buffer nd)" "n_next nd = None" by auto
  show ?case
  proof (cases "length (nb_bytes (n_buffer nd)) \<le> n")
    case True
    then have "n = length (nb_bytes (n_buffer nd))" using Nil(4) nd(1) by simp
    moreover have "wbl_rep (l\<lparr>wl_tail := None, wl_nodes := (wl_nodes l)(a := None)\<rparr>) []"
      using wbl_chain_tl [OF Nil(1)] by (auto simp: wbl_rep_def)
    ultimately show ?thesis using Nil(2,5) nd f
      by (auto simp: Flush_rewind_def Flush_cas_def report_def NB_ByteSize_def nb_invar_length)
  next
    case False
    with rewind_partial [OF Nil(1,2) nd(1,2) False] Nil(5) nd f show ?thesis by (auto simp: report_def)
  qed
next
  case (Cons b q l a n)
  then obtain f where f: "fuel = Suc f" by (cases fuel) auto
  from wbl_chain_node [of _ "[]" a "b # q"] Cons.prems(1) obtain nd where
    nd: "wl_nodes l a = Some nd" "nb_invar (n_buffer nd)" "n_next nd = Some b" by auto
  have a: "a \<notin> set (b # q)" using Cons.prems(1) by (simp add: wbl_chain_def)
  let ?b = "length (nb_bytes (n_buffer nd))"
  show ?case
  proof (cases "?b \<le> n")
    case True
    let ?l = "l\<lparr>wl_nodes := (wl_nodes l)(a := None)\<rparr>"
    have e: "chain_entries (wl_nodes ?l) (b # q) = chain_entries (wl_nodes l) (b # q)"
        "chain_bytes (wl_nodes ?l) (b # q) = chain_bytes (wl_nodes l) (b # q)"
      using chain_entries_upd [OF a, of "wl_nodes l" None] chain_bytes_upd [OF a, of "wl_nodes l" None] by simp_all
    obtain cs' where cs: "cs = n_ctx nd # cs'" "drop_written (n - ?b) (chain_entries (wl_nodes l) (b # q)) = (cs', r)"
      using Cons.prems(5) True nd(1) by (auto split: prod.splits)
    have "n - ?b \<le> length (chain_bytes (wl_nodes ?l) (b # q))"
      using Cons.prems(4) nd(1) unfolding e(2) by (simp add: chain_bytes_simps(2) [of _ a])
    moreover have "wbl_chain (wl_nodes ?l) (b # q)" using wbl_chain_tl [OF Cons.prems(1)] by simp
    moreover have "wl_tail ?l = Some (last (b # q))" using Cons.prems(2) by simp
    moreover have "length (b # q) \<le> f" using Cons.prems(3) f by simp
    ultimately have "\<exists>l'. rewind_loop f b (n - ?b) (ctxs @ [n_ctx nd]) ?l = Inr ((ctxs @ [n_ctx nd]) @ cs', r = [], l') \<and> wbl_rep l' r"
      using Cons.IH [of ?l b f "n - ?b" cs' "ctxs @ [n_ctx nd]"] cs(2) unfolding e(1) by blast
    then show ?thesis using cs(1) f nd True
      by (auto simp: Flush_rewind_def NB_ByteSize_def nb_invar_length report_def)
  next
    case False
    with rewind_partial [OF Cons.prems(1,2) nd(1,2) False] Cons.prems(5) nd f show ?thesis by (auto simp: report_def)
  qed
qed

text \<open>What \<^verbatim>\<open>writev(2)\<close> documents of a stream; \<open>sent\<close> are the bytes it has accepted.\<close>

definition writev_ok :: "'io writev \<Rightarrow> ('io \<Rightarrow> string) \<Rightarrow> bool" where
  "writev_ok writev sent \<longleftrightarrow>
     (\<forall>io iov rc err io'. writev io iov = (rc, err, io') \<longrightarrow>
        rc \<le> int (length (concat iov)) \<and> sent io' = sent io @ take (nat rc) (concat iov))"

lemma FlushTo_ok:
  assumes rep: "wbl_rep l p" "p \<noteq> []" and fuel: "length p \<le> fuel" and io: "writev_ok writev sent"
  shows "\<exists>r. FlushTo fuel iov_max writev io max_bytes l = Inr r \<and>
     (if fr_rc r \<le> 0 then fr_list r = l \<and> sent (fr_io r) = sent io
      else \<exists>p'. drop_written (nat (fr_rc r)) p = (fr_ctxs r, p') \<and> wbl_rep (fr_list r) p' \<and>
        sent (fr_io r) = sent io @ take (nat (fr_rc r)) (pending_bytes p) \<and>
        nat (fr_rc r) \<le> length (pending_bytes p) \<and> fr_rc r \<le> int max_bytes \<and>
        (fr_emptied r \<longleftrightarrow> p' = []) \<and> \<not> (fr_emptied r \<and> fr_short_write r))"
proof -
  obtain q where q: "wbl_chain (wl_nodes l) q" "wl_tail l = (if q = [] then None else Some (last q))"
      "q \<noteq> [] \<longrightarrow> wl_head l = Some (hd q)" "p = chain_entries (wl_nodes l) q"
    using rep(1) by (auto simp: wbl_rep_def)
  then obtain a t where a: "q = a # t" using rep(2) by (cases q) auto
  have tail: "Flush_tail max_bytes (wl_head l) l = Inr (F_Gather max_bytes a a [] 0)"
    using q(2,3) a by (simp add: Flush_tail_def)
  have col: "collected iov_max max_bytes (chain_bytes (wl_nodes l) []) [] 0" by (simp add: collected_def)
  have "length (a # t) \<le> fuel" using fuel q(4) a by simp
  from gather_loop_ok [of l "[]" a t fuel iov_max max_bytes "[]" 0 a, OF _ this col] q(1) a obtain iov fl where
    g: "gather_loop fuel iov_max max_bytes a a [] 0 l = Inr (iov, fl)" "fl = length (concat iov)"
       "prefix (concat iov) (pending_bytes p)" "fl \<le> max_bytes"
    using chain_entries_bytes [of "wl_nodes l" q] q(4) by auto
  obtain rc err io' where w: "writev io iov = (rc, err, io')" by (cases "writev io iov") auto
  have rc: "rc \<le> int fl" "sent io' = sent io @ take (nat rc) (concat iov)"
    using io w g(2) by (auto simp: writev_ok_def)
  show ?thesis
  proof (cases "rc \<le> 0")
    case True
    with tail g(1) w rc(2) show ?thesis by (simp add: FlushTo_def Flush_write_def)
  next
    case False
    have len: "nat rc \<le> length (pending_bytes p)" using rc(1) g(2) prefix_length_le [OF g(3)] by linarith
    have tk: "take (nat rc) (concat iov) = take (nat rc) (pending_bytes p)" using g(2,3) rc(1) by (auto simp: prefix_def)
    obtain cs r where d: "drop_written (nat rc) p = (cs, r)" by fastforce
    from rewind_loop_ok [of l a t fuel "nat rc" cs r "[]"] d len q fuel a obtain l' where
      l': "rewind_loop fuel a (nat rc) [] l = Inr (cs, r = [], l')" "wbl_rep l' r"
      using chain_entries_bytes [of "wl_nodes l" q] by auto
    have "rc = int fl" if "r = []"
    proof -
      have "length (pending_bytes p) \<le> nat rc" using drop_written_Nil d that by blast
      with rc(1) g(2) prefix_length_le [OF g(3)] False show ?thesis by arith
    qed
    with tail g w rc l' False d len tk show ?thesis by (simp add: FlushTo_def Flush_write_def) 
  qed
qed

text \<open>A list of empty buffers gives \<^verbatim>\<open>WriteV\<close> nothing to write.\<close>

lemma FlushTo_empty_buffers:
  assumes "wbl_rep l p" "p \<noteq> []" "length p \<le> fuel" "writev_ok writev sent" "pending_bytes p = []"
  shows "\<exists>r. FlushTo fuel iov_max writev io max_bytes l = Inr r \<and> fr_rc r \<le> 0 \<and> fr_list r = l"
  using FlushTo_ok [OF assms(1-4), of iov_max io max_bytes] unfolding assms(5)
  by (metis le_zero_eq list.size(3) nat_le_0 nat_0_iff)

end
