(* ===== verification/Io_Descriptor.thy ===== *)
theory Io_Descriptor
  imports Prelude
begin

text \<open>
  A descriptor in its event loop (\<^verbatim>\<open>flare/io/descriptor.{h,cc}\<close> and the parts of
  \<^verbatim>\<open>flare/io/event_loop.cc\<close> that concern one descriptor). The event loop fires events and runs the
  tasks given to \<^verbatim>\<open>AddTask\<close>, in order; every callback of the user runs in a fiber of its own. The
  loop, the fibers and whoever calls \<^verbatim>\<open>Kill\<close>, \<^verbatim>\<open>RestartRead\<close> or \<^verbatim>\<open>RestartWrite\<close> run in parallel, with one
  step per access to a shared variable. Memory is taken as sequentially consistent, which is what the
  barrier in \<^verbatim>\<open>QueueCleanupCallbackCheck\<close> is for, and the counters as unbounded.

  The poller is the environment: while the descriptor is enabled it may report any of the armed
  events, and errors, at any time. So are the callbacks, which return what they like as long as they
  keep the contract in \<^verbatim>\<open>descriptor.h\<close>: \<^verbatim>\<open>Leaving\<close> only after \<^verbatim>\<open>Kill\<close>, and \<^verbatim>\<open>RestartWrite\<close> at most once
  before the next \<^verbatim>\<open>Suppress\<close>.
\<close>

section \<open>Data\<close>

datatype EventAction = Ready | Leaving | Suppress

datatype CleanupReason = CR_None | HandshakeFailed | Disconnect | UserInitiated | Closing | CR_Error

text \<open>Reading and writing are handled alike, each with its own counters.\<close>

datatype io_dir = Rd | Wr

text \<open>The tasks a descriptor gives to its event loop.\<close>

datatype io_task =
    Task_Kill
  | Task_Leaving io_dir
  | Task_Suppress io_dir
  | Task_Restart io_dir
  | Task_Cleanup

text \<open>
  Where \<^verbatim>\<open>QueueCleanupCallbackCheck\<close> is: at the load of \<^verbatim>\<open>cleanup_pending_\<close>, of each of the counters, at
  the exchange of \<^verbatim>\<open>cleanup_queued\<close>, and at the call of \<^verbatim>\<open>AddTask\<close>.
\<close>

datatype check_pc = Q_Pending | Q_Read | Q_Write | Q_Error | Q_Exchange | Q_AddTask

datatype fiber_pc =
    Fb_Callback io_dir
  | Fb_Dec io_dir
  | Fb_OnError
  | Fb_Check check_pc
  | Fb_Done

text \<open>The event loop is idle, or in the check, with the rest of a \<^verbatim>\<open>Suppress\<close> task to be done after it.\<close>

datatype loop_pc =
    Loop_Idle
  | Loop_Check check_pc "io_dir option"

record Descriptor =
  d_events :: "io_dir \<Rightarrow> nat"
  d_error_events :: nat
  d_error_seen :: bool
  d_restart_count :: "io_dir \<Rightarrow> nat"
  d_event_mask :: "io_dir \<Rightarrow> bool"
  d_enabled :: bool
  d_cleanup_pending :: bool
  d_cleanup_queued :: bool
  d_cleanup_reason :: CleanupReason
  d_killing :: bool
  d_tasks :: "io_task list"
  d_loop :: loop_pc
  d_fibers :: "fiber_pc list"
  d_cleanups :: "CleanupReason list"

text \<open>
  The constructor, and \<^verbatim>\<open>AttachDescriptor\<close> with \<^verbatim>\<open>enabled\<close> set. \<open>d_killing\<close> says that a call of \<^verbatim>\<open>Kill\<close> has
  set the reason and has not yet added its task, \<open>d_cleanups\<close> lists the calls of \<^verbatim>\<open>OnCleanup\<close>.
\<close>

definition Descriptor_new :: "(io_dir \<Rightarrow> bool) \<Rightarrow> Descriptor" where
  "Descriptor_new events =
     \<lparr>d_events = (\<lambda>_. 0), d_error_events = 0, d_error_seen = False,
      d_restart_count = (\<lambda>dir. if events dir then 1 else 0), d_event_mask = events, d_enabled = True,
      d_cleanup_pending = False, d_cleanup_queued = False, d_cleanup_reason = CR_None, d_killing = False,
      d_tasks = [], d_loop = Loop_Idle, d_fibers = [], d_cleanups = []\<rparr>"

section \<open>Operations\<close>

definition AddTask :: "io_task \<Rightarrow> Descriptor \<Rightarrow> Descriptor" where
  "AddTask t d = d\<lparr>d_tasks := d_tasks d @ [t]\<rparr>"

definition StartFiberDetached :: "fiber_pc \<Rightarrow> Descriptor \<Rightarrow> Descriptor" where
  "StartFiberDetached f d = d\<lparr>d_fibers := d_fibers d @ [f]\<rparr>"

text \<open>\<^verbatim>\<open>FireReadEvent\<close> and \<^verbatim>\<open>FireWriteEvent\<close> do the same with their counters.\<close>

definition FireXxxEvent :: "io_dir \<Rightarrow> Descriptor \<Rightarrow> Descriptor" where
  "FireXxxEvent dir d =
     (let n = d_events d dir;
          d = d\<lparr>d_events := (d_events d)(dir := n + 1)\<rparr>
      in if n = 0 then StartFiberDetached (Fb_Callback dir) d else d)"

definition FireReadEvent :: "Descriptor \<Rightarrow> Descriptor" where
  "FireReadEvent = FireXxxEvent Rd"

definition FireWriteEvent :: "Descriptor \<Rightarrow> Descriptor" where
  "FireWriteEvent = FireXxxEvent Wr"

declare FireReadEvent_def [simp] FireWriteEvent_def [simp]

definition FireErrorEvent :: "Descriptor \<Rightarrow> Descriptor result" where
  "FireErrorEvent d =
     (if d_error_seen d then Inr d
      else let n = d_error_events d;
               d = d\<lparr>d_error_seen := True, d_error_events := n + 1\<rparr>
           in check (n = 0) (Inr (StartFiberDetached Fb_OnError d)))"

definition FireEvents :: "bool \<Rightarrow> bool \<Rightarrow> bool \<Rightarrow> Descriptor \<Rightarrow> Descriptor result" where
  "FireEvents error read write d =
     (if error then FireErrorEvent d
      else let d = (if read then FireReadEvent d else d);
               d = (if write then FireWriteEvent d else d)
           in Inr d)"

text \<open>\<^verbatim>\<open>EventLoop::RearmDescriptor\<close>, \<^verbatim>\<open>DisableDescriptor\<close> and \<^verbatim>\<open>DetachDescriptor\<close>.\<close>

definition RearmDescriptor :: "Descriptor \<Rightarrow> Descriptor result" where
  "RearmDescriptor d = check (d_enabled d) (Inr d)"

definition DisableDescriptor :: "Descriptor \<Rightarrow> Descriptor result" where
  "DisableDescriptor d = check (d_enabled d) (Inr (d\<lparr>d_enabled := False\<rparr>))"

definition DetachDescriptor :: "Descriptor \<Rightarrow> Descriptor result" where
  "DetachDescriptor d = check (\<not> d_enabled d) (Inr d)"

text \<open>One step of the check; \<open>None\<close> when it returns.\<close>

fun QueueCleanupCallbackCheck :: "check_pc \<Rightarrow> Descriptor \<Rightarrow> check_pc option \<times> Descriptor" where
  "QueueCleanupCallbackCheck Q_Pending d = (if \<not> d_cleanup_pending d then None else Some Q_Read, d)"
| "QueueCleanupCallbackCheck Q_Read d = (if d_events d Rd = 0 then Some Q_Write else None, d)"
| "QueueCleanupCallbackCheck Q_Write d = (if d_events d Wr = 0 then Some Q_Error else None, d)"
| "QueueCleanupCallbackCheck Q_Error d = (if d_error_events d = 0 then Some Q_Exchange else None, d)"
| "QueueCleanupCallbackCheck Q_Exchange d =
     (if d_cleanup_queued d then None else Some Q_AddTask, d\<lparr>d_cleanup_queued := True\<rparr>)"
| "QueueCleanupCallbackCheck Q_AddTask d = (None, AddTask Task_Cleanup d)"

text \<open>
  The part of the \<^verbatim>\<open>Suppress\<close> task behind the check. Reading and writing differ in the values they
  accept for the counter.
\<close>

definition SuppressRest :: "io_dir \<Rightarrow> Descriptor \<Rightarrow> Descriptor result" where
  "SuppressRest dir d =
     (if \<not> d_enabled d then Inr d
      else let count = d_restart_count d dir;
               reached = int count - 1;
               d = d\<lparr>d_restart_count := (d_restart_count d)(dir := nat reached)\<rparr>
           in check (if dir = Rd then reached \<noteq> - 1 else reached = 0 \<or> reached = 1)
               (check (d_event_mask d dir)
                 (if reached = 0
                  then RearmDescriptor (d\<lparr>d_event_mask := (d_event_mask d)(dir := False)\<rparr>)
                  else FireEvents False (dir = Rd) (dir = Wr) d)))"

text \<open>The tasks; the ones that call the check leave the loop at its start.\<close>

definition Kill_task :: "Descriptor \<Rightarrow> Descriptor result" where
  "Kill_task d =
     rbind (DisableDescriptor d) (\<lambda>d. Inr (d\<lparr>d_cleanup_pending := True, d_loop := Loop_Check Q_Pending None\<rparr>))"

definition Leaving_task :: "io_dir \<Rightarrow> Descriptor \<Rightarrow> Descriptor" where
  "Leaving_task dir d = d\<lparr>d_events := (d_events d)(dir := 0), d_loop := Loop_Check Q_Pending None\<rparr>"

definition Suppress_task :: "io_dir \<Rightarrow> Descriptor \<Rightarrow> Descriptor" where
  "Suppress_task dir d = d\<lparr>d_events := (d_events d)(dir := 0), d_loop := Loop_Check Q_Pending (Some dir)\<rparr>"

definition RestartReadNow_task :: "Descriptor \<Rightarrow> Descriptor result" where
  "RestartReadNow_task d =
     (if \<not> d_enabled d then Inr d
      else let count = d_restart_count d Rd;
               d = d\<lparr>d_restart_count := (d_restart_count d)(Rd := count + 1)\<rparr>
           in if count = 0
              then check (\<not> d_event_mask d Rd)
                     (RearmDescriptor (d\<lparr>d_event_mask := (d_event_mask d)(Rd := True)\<rparr>))
              else Inr d)"

definition RestartWriteNow_task :: "Descriptor \<Rightarrow> Descriptor result" where
  "RestartWriteNow_task d =
     (if \<not> d_enabled d then Inr d
      else let count = d_restart_count d Wr;
               d = d\<lparr>d_restart_count := (d_restart_count d)(Wr := count + 1)\<rparr>
           in check (count = 0 \<or> count = 1)
               (if count = 0
                then check (\<not> d_event_mask d Wr)
                       (RearmDescriptor (d\<lparr>d_event_mask := (d_event_mask d)(Wr := True)\<rparr>))
                else Inr d))"

definition Cleanup_task :: "Descriptor \<Rightarrow> Descriptor result" where
  "Cleanup_task d =
     check (d_events d Rd = 0) (check (d_events d Wr = 0) (check (d_error_events d = 0)
       (rbind (DetachDescriptor d) (\<lambda>d. Inr (d\<lparr>d_cleanups := d_cleanups d @ [d_cleanup_reason d]\<rparr>)))))"

declare Kill_task_def [simp] Leaving_task_def [simp] Suppress_task_def [simp] RestartReadNow_task_def [simp]
  RestartWriteNow_task_def [simp] Cleanup_task_def [simp]

fun run_task :: "io_task \<Rightarrow> Descriptor \<Rightarrow> Descriptor result" where
  "run_task Task_Kill d = Kill_task d"
| "run_task (Task_Leaving dir) d = Inr (Leaving_task dir d)"
| "run_task (Task_Suppress dir) d = Inr (Suppress_task dir d)"
| "run_task (Task_Restart Rd) d = RestartReadNow_task d"
| "run_task (Task_Restart Wr) d = RestartWriteNow_task d"
| "run_task Task_Cleanup d = Cleanup_task d"

section \<open>Steps\<close>

text \<open>The event loop takes the next task, or goes on with the check.\<close>

definition loop_step :: "Descriptor \<Rightarrow> Descriptor result" where
  "loop_step d =
     (case d_loop d of
        Loop_Idle \<Rightarrow>
          (case d_tasks d of
             [] \<Rightarrow> Inr d
           | t # ts \<Rightarrow> run_task t (d\<lparr>d_tasks := ts\<rparr>))
      | Loop_Check q rest \<Rightarrow>
          (case QueueCleanupCallbackCheck q d of
             (Some q', d) \<Rightarrow> Inr (d\<lparr>d_loop := Loop_Check q' rest\<rparr>)
           | (None, d) \<Rightarrow>
               let d = d\<lparr>d_loop := Loop_Idle\<rparr>
               in (case rest of None \<Rightarrow> Inr d | Some dir \<Rightarrow> SuppressRest dir d)))"

text \<open>
  A step of a fiber, with what the callback returns if it is there, and how the fiber goes on. The
  fiber leaves the loop of \<^verbatim>\<open>FireReadEvent\<close> through the check.
\<close>

definition fiber_go :: "nat \<Rightarrow> fiber_pc \<Rightarrow> Descriptor \<Rightarrow> Descriptor" where
  "fiber_go i f d = d\<lparr>d_fibers := (d_fibers d)[i := f]\<rparr>"

definition callback_step :: "nat \<Rightarrow> io_dir \<Rightarrow> EventAction \<Rightarrow> Descriptor \<Rightarrow> Descriptor result" where
  "callback_step i dir rc d =
     (case rc of
        Ready \<Rightarrow> Inr (fiber_go i (Fb_Dec dir) d)
      | Leaving \<Rightarrow> check (d_cleanup_reason d \<noteq> CR_None)
          (Inr (AddTask (Task_Leaving dir) (fiber_go i (Fb_Check Q_Pending) d)))
      | Suppress \<Rightarrow> Inr (AddTask (Task_Suppress dir) (fiber_go i (Fb_Check Q_Pending) d)))"

definition dec_step :: "nat \<Rightarrow> io_dir \<Rightarrow> Descriptor \<Rightarrow> Descriptor" where
  "dec_step i dir d =
     (let n = d_events d dir;
          d = d\<lparr>d_events := (d_events d)(dir := if n = 0 then 2 ^ 64 - 1 else n - 1)\<rparr>
      in fiber_go i (if n \<noteq> 1 then Fb_Callback dir else Fb_Check Q_Pending) d)"

definition error_step :: "nat \<Rightarrow> Descriptor \<Rightarrow> Descriptor result" where
  "error_step i d =
     (let n = d_error_events d
      in check (n = 1) (Inr (fiber_go i (Fb_Check Q_Pending) (d\<lparr>d_error_events := n - 1\<rparr>))))"

definition check_step :: "nat \<Rightarrow> check_pc \<Rightarrow> Descriptor \<Rightarrow> Descriptor" where
  "check_step i q d =
     (case QueueCleanupCallbackCheck q d of
        (Some q', d) \<Rightarrow> fiber_go i (Fb_Check q') d
      | (None, d) \<Rightarrow> fiber_go i Fb_Done d)"

text \<open>The exchange in \<^verbatim>\<open>Kill\<close>, and its call of \<^verbatim>\<open>AddTask\<close>.\<close>

definition Kill_exchange :: "CleanupReason \<Rightarrow> Descriptor \<Rightarrow> Descriptor" where
  "Kill_exchange reason d =
     (if d_cleanup_reason d = CR_None then d\<lparr>d_cleanup_reason := reason, d_killing := True\<rparr> else d)"

definition Kill_add_task :: "Descriptor \<Rightarrow> Descriptor" where
  "Kill_add_task d = AddTask Task_Kill (d\<lparr>d_killing := False\<rparr>)"

text \<open>How far the calls of \<^verbatim>\<open>RestartWrite\<close> are ahead, those waiting in the queue included.\<close>

fun balance :: "io_dir \<Rightarrow> io_task list \<Rightarrow> int \<Rightarrow> int" where
  "balance dir [] c = c"
| "balance dir (t # ts) c = balance dir ts (if t = Task_Restart dir then c + 1 else if t = Task_Suppress dir then c - 1 else c)"

definition pending_tasks :: "Descriptor \<Rightarrow> io_task list" where
  "pending_tasks d = (case d_loop d of Loop_Check _ (Some dir) \<Rightarrow> [Task_Suppress dir] | _ \<Rightarrow> []) @ d_tasks d"

definition write_balance :: "Descriptor \<Rightarrow> int" where
  "write_balance d = balance Wr (pending_tasks d) (int (d_restart_count d Wr))"

inductive io_step :: "Descriptor \<Rightarrow> Descriptor result \<Rightarrow> bool" where
  poll: "d_loop d = Loop_Idle \<Longrightarrow> d_enabled d \<Longrightarrow> (read \<longrightarrow> d_event_mask d Rd) \<Longrightarrow> (write \<longrightarrow> d_event_mask d Wr) \<Longrightarrow>
    io_step d (FireEvents error read write d)"
| loop: "io_step d (loop_step d)"
| callback: "i < length (d_fibers d) \<Longrightarrow> d_fibers d ! i = Fb_Callback dir \<Longrightarrow> (rc = Leaving \<longrightarrow> d_cleanup_reason d \<noteq> CR_None) \<Longrightarrow>
    io_step d (callback_step i dir rc d)"
| dec: "i < length (d_fibers d) \<Longrightarrow> d_fibers d ! i = Fb_Dec dir \<Longrightarrow> io_step d (Inr (dec_step i dir d))"
| on_error: "i < length (d_fibers d) \<Longrightarrow> d_fibers d ! i = Fb_OnError \<Longrightarrow> io_step d (error_step i d)"
| in_check: "i < length (d_fibers d) \<Longrightarrow> d_fibers d ! i = Fb_Check q \<Longrightarrow> io_step d (Inr (check_step i q d))"
| kill: "reason \<noteq> CR_None \<Longrightarrow> io_step d (Inr (Kill_exchange reason d))"
| kill_task: "d_killing d \<Longrightarrow> io_step d (Inr (Kill_add_task d))"
| restart_read: "io_step d (Inr (AddTask (Task_Restart Rd) d))"
| restart_write: "(d_enabled d \<longrightarrow> write_balance d \<le> 1) \<Longrightarrow> io_step d (Inr (AddTask (Task_Restart Wr) d))"

inductive io_reach :: "Descriptor \<Rightarrow> bool" where
  init: "io_reach (Descriptor_new events)"
| step: "io_reach d \<Longrightarrow> io_step d (Inr d') \<Longrightarrow> io_reach d'"

section \<open>The invariant\<close>

text \<open>
  Whoever will bring a counter of events back to zero: a fiber in its loop, or one of the tasks it has
  left behind.
\<close>

definition active :: "io_dir \<Rightarrow> fiber_pc \<Rightarrow> bool" where
  "active dir f \<longleftrightarrow> f = Fb_Callback dir \<or> f = Fb_Dec dir"

definition clears :: "io_dir \<Rightarrow> io_task \<Rightarrow> bool" where
  "clears dir t \<longleftrightarrow> t = Task_Suppress dir \<or> t = Task_Leaving dir"

definition token :: "Descriptor \<Rightarrow> io_dir \<Rightarrow> nat" where
  "token d dir = cnt (active dir) (d_fibers d) + cnt (clears dir) (d_tasks d)"

definition inv_token :: "Descriptor \<Rightarrow> bool" where
  "inv_token d \<longleftrightarrow> (\<forall>dir. token d dir = one (d_events d dir \<noteq> 0)) \<and>
     (\<forall>q dir. d_loop d = Loop_Check q (Some dir) \<longrightarrow> d_events d dir = 0)"

definition inv_error :: "Descriptor \<Rightarrow> bool" where
  "inv_error d \<longleftrightarrow> cnt (\<lambda>f. f = Fb_OnError) (d_fibers d) = d_error_events d \<and> d_error_events d \<le> one (d_error_seen d)"

text \<open>An event is armed while its restarts are ahead, and they are while the event is being handled.\<close>

definition inv_mask :: "Descriptor \<Rightarrow> bool" where
  "inv_mask d \<longleftrightarrow> (d_enabled d \<longrightarrow> (\<forall>dir. (d_event_mask d dir \<longleftrightarrow> 0 < d_restart_count d dir) \<and>
     (0 < d_events d dir \<longrightarrow> 0 < d_restart_count d dir) \<and>
     (\<forall>q. d_loop d = Loop_Check q (Some dir) \<longrightarrow> 0 < d_restart_count d dir)))"

fun path_ok :: "io_task list \<Rightarrow> int \<Rightarrow> bool" where
  "path_ok [] c \<longleftrightarrow> 0 \<le> c \<and> c \<le> 2"
| "path_ok (t # ts) c \<longleftrightarrow>
     (if t = Task_Restart Wr then 0 \<le> c \<and> c \<le> 1 \<and> path_ok ts (c + 1)
      else if t = Task_Suppress Wr then 1 \<le> c \<and> c \<le> 2 \<and> path_ok ts (c - 1)
      else path_ok ts c)"

definition inv_write :: "Descriptor \<Rightarrow> bool" where
  "inv_write d \<longleftrightarrow> (d_enabled d \<longrightarrow> path_ok (pending_tasks d) (int (d_restart_count d Wr)))"

definition inv_kill :: "Descriptor \<Rightarrow> bool" where
  "inv_kill d \<longleftrightarrow> d_cleanup_pending d = (\<not> d_enabled d) \<and>
     one (d_killing d) + cnt (\<lambda>t. t = Task_Kill) (d_tasks d) + one (d_cleanup_pending d) = one (d_cleanup_reason d \<noteq> CR_None)"

text \<open>Nothing is going on any more, and nothing can start.\<close>

definition settled :: "Descriptor \<Rightarrow> bool" where
  "settled d \<longleftrightarrow> d_cleanup_pending d \<and> d_events d Rd = 0 \<and> d_events d Wr = 0 \<and> d_error_events d = 0"

fun check_ok :: "Descriptor \<Rightarrow> check_pc \<Rightarrow> bool" where
  "check_ok d Q_Pending \<longleftrightarrow> True"
| "check_ok d Q_Read \<longleftrightarrow> d_cleanup_pending d"
| "check_ok d Q_Write \<longleftrightarrow> d_cleanup_pending d \<and> d_events d Rd = 0"
| "check_ok d Q_Error \<longleftrightarrow> d_cleanup_pending d \<and> d_events d Rd = 0 \<and> d_events d Wr = 0"
| "check_ok d Q_Exchange \<longleftrightarrow> settled d"
| "check_ok d Q_AddTask \<longleftrightarrow> settled d \<and> d_cleanup_queued d"

definition inv_check :: "Descriptor \<Rightarrow> bool" where
  "inv_check d \<longleftrightarrow> (d_cleanup_queued d \<longrightarrow> settled d) \<and> (\<forall>q. Fb_Check q \<in> set (d_fibers d) \<longrightarrow> check_ok d q) \<and>
     (\<forall>q rest. d_loop d = Loop_Check q rest \<longrightarrow> check_ok d q)"

definition loop_adds :: "loop_pc \<Rightarrow> bool" where
  "loop_adds l \<longleftrightarrow> (\<exists>rest. l = Loop_Check Q_AddTask rest)"

definition inv_once :: "Descriptor \<Rightarrow> bool" where
  "inv_once d \<longleftrightarrow> one (loop_adds (d_loop d)) + cnt (\<lambda>f. f = Fb_Check Q_AddTask) (d_fibers d) +
       cnt (\<lambda>t. t = Task_Cleanup) (d_tasks d) + length (d_cleanups d) = one (d_cleanup_queued d) \<and>
     (\<forall>r \<in> set (d_cleanups d). r = d_cleanup_reason d)"

text \<open>Once everything has settled, somebody is looking.\<close>

definition inv_seen :: "Descriptor \<Rightarrow> bool" where
  "inv_seen d \<longleftrightarrow> (settled d \<and> \<not> d_cleanup_queued d \<longrightarrow>
     d_loop d \<noteq> Loop_Idle \<or> (\<exists>q. Fb_Check q \<in> set (d_fibers d)))"

definition io_inv :: "Descriptor \<Rightarrow> bool" where
  "io_inv d \<longleftrightarrow> inv_token d \<and> inv_error d \<and> inv_mask d \<and> inv_write d \<and> inv_kill d \<and> inv_check d \<and> inv_once d \<and> inv_seen d"

lemmas inv_defs = inv_token_def inv_error_def inv_mask_def inv_write_def inv_kill_def inv_check_def inv_once_def inv_seen_def

lemma io_invI:
  "inv_token d \<Longrightarrow> inv_error d \<Longrightarrow> inv_mask d \<Longrightarrow> inv_write d \<Longrightarrow> inv_kill d \<Longrightarrow> inv_check d \<Longrightarrow> inv_once d \<Longrightarrow> inv_seen d \<Longrightarrow> io_inv d"
  by (simp add: io_inv_def)

lemma io_invD:
  assumes "io_inv d"
  shows "inv_token d" "inv_error d" "inv_mask d" "inv_write d" "inv_kill d" "inv_check d" "inv_once d" "inv_seen d"
  using assms by (simp_all add: io_inv_def)

lemma inv_tokenI:
  "(\<And>dir. token d dir = one (d_events d dir \<noteq> 0)) \<Longrightarrow> (\<And>q dir. d_loop d = Loop_Check q (Some dir) \<Longrightarrow> d_events d dir = 0) \<Longrightarrow> inv_token d"
  by (simp add: inv_token_def)

lemma inv_tokenD:
  "inv_token d \<Longrightarrow> token d dir = one (d_events d dir \<noteq> 0)" "inv_token d \<Longrightarrow> d_loop d = Loop_Check q (Some dir) \<Longrightarrow> d_events d dir = 0"
  by (auto simp: inv_token_def)

lemma path_ok_snoc:
  "path_ok (ts @ [t]) c \<longleftrightarrow> path_ok ts c \<and>
     (if t = Task_Restart Wr then balance Wr ts c \<le> 1 else if t = Task_Suppress Wr then 1 \<le> balance Wr ts c else True)"
  by (induction ts arbitrary: c) auto

lemma path_ok_other: "t \<noteq> Task_Restart Wr \<Longrightarrow> t \<noteq> Task_Suppress Wr \<Longrightarrow> path_ok (ts @ [t]) c = path_ok ts c"
  by (simp add: path_ok_snoc)

lemma balance_grows: "Task_Suppress Wr \<notin> set ts \<Longrightarrow> c \<le> balance Wr ts c"
proof (induction ts arbitrary: c)
  case (Cons t ts)
  have "c \<le> (if t = Task_Restart Wr then c + 1 else c)" by simp
  also have "\<dots> \<le> balance Wr (t # ts) c" using Cons by auto
  finally show ?case .
qed simp

lemma inv_new: "io_inv (Descriptor_new events)"
  by (simp add: io_inv_def inv_defs Descriptor_new_def token_def pending_tasks_def settled_def loop_adds_def)

lemma check_ok_not_pending: "\<not> d_cleanup_pending d \<Longrightarrow> check_ok d q \<longleftrightarrow> q = Q_Pending"
  by (cases q) (auto simp: settled_def)

text \<open>What a check has seen stays true as long as no counter leaves zero.\<close>

definition calmer :: "Descriptor \<Rightarrow> Descriptor \<Rightarrow> bool" where
  "calmer d d' \<longleftrightarrow> (d_cleanup_pending d \<longrightarrow> d_cleanup_pending d') \<and> (\<forall>dir. d_events d dir = 0 \<longrightarrow> d_events d' dir = 0) \<and>
     (d_error_events d = 0 \<longrightarrow> d_error_events d' = 0) \<and> (d_cleanup_queued d \<longrightarrow> d_cleanup_queued d')"

lemma check_ok_calmer: "check_ok d q \<Longrightarrow> calmer d d' \<Longrightarrow> check_ok d' q"
  by (cases q) (auto simp: settled_def calmer_def)

lemma settled_calmer: "settled d \<Longrightarrow> calmer d d' \<Longrightarrow> settled d'"
  by (auto simp: settled_def calmer_def)

text \<open>The poller reports an event.\<close>

lemma inv_fire:
  assumes inv: "io_inv d" and en: "d_enabled d" "d_loop d = Loop_Idle" "d_event_mask d dir"
  shows "io_inv (FireXxxEvent dir d) \<and> d_enabled (FireXxxEvent dir d) \<and> d_loop (FireXxxEvent dir d) = Loop_Idle \<and>
     d_event_mask (FireXxxEvent dir d) = d_event_mask d"
proof -
  note i = io_invD [OF inv]
  let ?d = "FireXxxEvent dir d"
  have same: "d_enabled ?d" "d_loop ?d = Loop_Idle" "d_event_mask ?d = d_event_mask d" "d_restart_count ?d = d_restart_count d" "d_tasks ?d = d_tasks d"
    "d_error_events ?d = d_error_events d" "d_error_seen ?d = d_error_seen d" "d_cleanup_pending ?d = d_cleanup_pending d"
    "d_cleanup_queued ?d = d_cleanup_queued d" "d_cleanup_reason ?d = d_cleanup_reason d" "d_killing ?d = d_killing d" "d_cleanups ?d = d_cleanups d"
    "d_events ?d = (d_events d)(dir := d_events d dir + 1)"
    "d_fibers ?d = d_fibers d @ (if d_events d dir = 0 then [Fb_Callback dir] else [])"
    using en by (simp_all add: FireXxxEvent_def StartFiberDetached_def Let_def)
  have np: "\<not> d_cleanup_pending d" using i(5) en(1) by (simp add: inv_kill_def)
  have "inv_token ?d"
  proof (rule inv_tokenI)
    fix dir'
    show "token ?d dir' = one (d_events ?d dir' \<noteq> 0)" using inv_tokenD(1) [OF i(1), of dir'] unfolding token_def same
      by (auto simp: active_def split: if_splits)
  qed (use same(2) in simp)
  moreover have "inv_error ?d" using i(2) unfolding inv_error_def same by auto
  moreover have "inv_mask ?d" using i(3) en unfolding inv_mask_def same by auto
  moreover have "inv_write ?d" using i(4) en unfolding inv_write_def pending_tasks_def same by simp
  moreover have "inv_kill ?d" using i(5) en(1) same(1) unfolding inv_kill_def same(2-) by (auto split: if_splits)
  moreover have "inv_check ?d" using i(6) np unfolding inv_check_def same by (auto simp: check_ok_not_pending same settled_def split: if_splits)
  moreover have "inv_once ?d" using i(7) unfolding inv_once_def same by (auto simp: loop_adds_def en)
  moreover have "inv_seen ?d" using np unfolding inv_seen_def settled_def same by simp
  ultimately show ?thesis using same by (simp add: io_invI)
qed

lemma inv_fire_error:
  assumes inv: "io_inv d" and en: "d_enabled d" "d_loop d = Loop_Idle"
  shows "\<exists>d'. FireErrorEvent d = Inr d' \<and> io_inv d'"
proof (cases "d_error_seen d")
  case True
  with inv show ?thesis by (simp add: FireErrorEvent_def)
next
  case False
  note i = io_invD [OF inv]
  have z: "d_error_events d = 0" using i(2) False by (simp add: inv_error_def)
  let ?d = "d\<lparr>d_error_seen := True, d_error_events := 1, d_fibers := d_fibers d @ [Fb_OnError]\<rparr>"
  have eq: "FireErrorEvent d = Inr ?d" using False z by (simp add: FireErrorEvent_def StartFiberDetached_def Let_def)
  have np: "\<not> d_cleanup_pending d" using i(5) en(1) by (simp add: inv_kill_def)
  have "inv_token ?d" using i(1) unfolding inv_token_def token_def by (simp add: active_def)
  moreover have "inv_error ?d" using i(2) z unfolding inv_error_def by simp
  moreover have "inv_mask ?d" using i(3) unfolding inv_mask_def by simp
  moreover have "inv_write ?d" using i(4) unfolding inv_write_def pending_tasks_def by simp
  moreover have "inv_kill ?d" using i(5) unfolding inv_kill_def by (auto split: if_splits)
  moreover have "inv_check ?d" using i(6) np unfolding inv_check_def by (auto simp: check_ok_not_pending settled_def)
  moreover have "inv_once ?d" using i(7) unfolding inv_once_def by simp
  moreover have "inv_seen ?d" using np unfolding inv_seen_def settled_def by simp
  ultimately show ?thesis using eq by (simp add: io_invI)
qed

lemma inv_poll:
  assumes inv: "io_inv d" and en: "d_enabled d" "d_loop d = Loop_Idle" and m: "read \<longrightarrow> d_event_mask d Rd" "write \<longrightarrow> d_event_mask d Wr"
  shows "\<exists>d'. FireEvents error read write d = Inr d' \<and> io_inv d'"
proof (cases error)
  case True
  with inv_fire_error [OF inv en] show ?thesis by (simp add: FireEvents_def)
next
  case False
  define d1 where "d1 = (if read then FireReadEvent d else d)"
  have "io_inv d1 \<and> d_enabled d1 \<and> d_loop d1 = Loop_Idle \<and> d_event_mask d1 = d_event_mask d"
    using inv_fire [OF inv en] inv en m(1) by (auto simp: d1_def)
  then have "io_inv (if write then FireXxxEvent Wr d1 else d1)" using inv_fire [of d1 Wr] m(2) by auto
  with False show ?thesis unfolding FireEvents_def Let_def d1_def [symmetric] by (simp split: if_splits)
qed

text \<open>Somebody from outside.\<close>

lemma inv_kill_exchange: "io_inv d \<Longrightarrow> r \<noteq> CR_None \<Longrightarrow> io_inv (Kill_exchange r d)"
proof -
  assume inv: "io_inv d" and r: "r \<noteq> CR_None"
  note i = io_invD [OF inv]
  show ?thesis
  proof (cases "d_cleanup_reason d = CR_None")
    case True
    then have z: "\<not> d_killing d" "\<not> d_cleanup_pending d" "cnt (\<lambda>t. t = Task_Kill) (d_tasks d) = 0" "d_enabled d"
      using i(5) by (auto simp: inv_kill_def)
    then have "d_cleanups d = []" using i(6,7) by (auto simp: inv_once_def inv_check_def settled_def)
    with i z r True show ?thesis unfolding Kill_exchange_def
      by (intro io_invI) (auto simp: inv_defs token_def pending_tasks_def check_ok_not_pending settled_def)
  next
    case False
    with inv show ?thesis by (simp add: Kill_exchange_def)
  qed
qed

lemma inv_add_kill: "io_inv d \<Longrightarrow> d_killing d \<Longrightarrow> io_inv (Kill_add_task d)"
proof -
  assume inv: "io_inv d" and k: "d_killing d"
  note i = io_invD [OF inv]
  let ?d = "Kill_add_task d"
  have c: "calmer d ?d" by (simp add: calmer_def Kill_add_task_def AddTask_def)
  have s: "settled ?d = settled d" by (simp add: settled_def Kill_add_task_def AddTask_def)
  have "inv_token ?d" using i(1) by (simp add: inv_token_def token_def Kill_add_task_def AddTask_def clears_def)
  moreover have "inv_error ?d" "inv_mask ?d" using i(2,3) by (simp_all add: inv_error_def inv_mask_def Kill_add_task_def AddTask_def)
  moreover have "inv_write ?d" using i(4) path_ok_other [of Task_Kill "pending_tasks d"]
    by (simp add: inv_write_def pending_tasks_def Kill_add_task_def AddTask_def)
  moreover have "inv_kill ?d" using i(5) k by (auto simp: inv_kill_def Kill_add_task_def AddTask_def split: if_splits)
  moreover have "inv_check ?d" using i(6) check_ok_calmer [OF _ c] s by (simp add: inv_check_def Kill_add_task_def AddTask_def)
  moreover have "inv_once ?d" using i(7) by (simp add: inv_once_def Kill_add_task_def AddTask_def)
  moreover have "inv_seen ?d" using i(8) s by (simp add: inv_seen_def Kill_add_task_def AddTask_def)
  ultimately show ?thesis by (rule io_invI)
qed

lemma inv_restart: "io_inv d \<Longrightarrow> (dir = Wr \<and> d_enabled d \<longrightarrow> write_balance d \<le> 1) \<Longrightarrow> io_inv (AddTask (Task_Restart dir) d)"
proof -
  assume inv: "io_inv d" and b: "dir = Wr \<and> d_enabled d \<longrightarrow> write_balance d \<le> 1"
  note i = io_invD [OF inv]
  let ?d = "AddTask (Task_Restart dir) d"
  have c: "calmer d ?d" by (simp add: calmer_def AddTask_def)
  have s: "settled ?d = settled d" by (simp add: settled_def AddTask_def)
  have "inv_token ?d" using i(1) by (simp add: inv_token_def token_def AddTask_def clears_def)
  moreover have "inv_error ?d" "inv_mask ?d" using i(2,3) by (simp_all add: inv_error_def inv_mask_def AddTask_def)
  moreover have "inv_write ?d" using i(4) b path_ok_snoc [of "pending_tasks d" "Task_Restart dir"]
    by (cases dir) (simp_all add: inv_write_def pending_tasks_def write_balance_def AddTask_def)
  moreover have "inv_kill ?d" using i(5) by (auto simp: inv_kill_def AddTask_def split: if_splits)
  moreover have "inv_check ?d" using i(6) check_ok_calmer [OF _ c] s by (simp add: inv_check_def AddTask_def)
  moreover have "inv_once ?d" using i(7) by (simp add: inv_once_def AddTask_def)
  moreover have "inv_seen ?d" using i(8) s by (simp add: inv_seen_def AddTask_def)
  ultimately show ?thesis by (rule io_invI)
qed

text \<open>A fiber moves on.\<close>

lemma fiber_token:
  assumes "i < length (d_fibers d)"
  shows "token (fiber_go i f d) dir + one (active dir (d_fibers d ! i)) = token d dir + one (active dir f)"
  using cnt_update [OF assms, of "active dir" f] by (simp add: token_def fiber_go_def)

lemma at_check: "i < length xs \<Longrightarrow> \<exists>q'. Fb_Check q' \<in> set (xs[i := Fb_Check q])"
  by (intro exI [of _ q] set_update_memI)

lemma inv_callback:
  assumes inv: "io_inv d" and f: "i < length (d_fibers d)" "d_fibers d ! i = Fb_Callback dir" and rc: "rc = Leaving \<longrightarrow> d_cleanup_reason d \<noteq> CR_None"
  shows "\<exists>d'. callback_step i dir rc d = Inr d' \<and> io_inv d'"
proof -
  note i = io_invD [OF inv]
  define g where "g = (if rc = Ready then Fb_Dec dir else Fb_Check Q_Pending)"
  define new where "new = (case rc of Ready \<Rightarrow> [] | Leaving \<Rightarrow> [Task_Leaving dir] | Suppress \<Rightarrow> [Task_Suppress dir])"
  let ?d = "d\<lparr>d_fibers := (d_fibers d)[i := g], d_tasks := d_tasks d @ new\<rparr>"
  have eq: "callback_step i dir rc d = Inr ?d" using rc by (cases rc) (simp_all add: callback_step_def fiber_go_def AddTask_def g_def new_def)
  have c: "calmer d ?d" "settled ?d = settled d" by (simp_all add: calmer_def settled_def)
  have tok: "token d dir = one (d_events d dir \<noteq> 0)" for dir using i(1) by (simp add: inv_token_def)
  have ev: "0 < d_events d dir" using tok [of dir] f cnt_update [OF f(1), of "active dir" Fb_Done]
    by (auto simp: token_def active_def split: if_splits)
  have nosup: "Task_Suppress dir \<notin> set (pending_tasks d)"
  proof -
    have "cnt (clears dir) (d_tasks d) = 0"
      using tok [of dir] f cnt_update [OF f(1), of "active dir" Fb_Done] ev by (auto simp: token_def active_def)
    moreover have "d_loop d \<noteq> Loop_Check q (Some dir)" for q using i(1) ev by (auto simp: inv_token_def)
    ultimately show ?thesis by (cases "d_loop d") (auto simp: cnt_zero clears_def pending_tasks_def split: option.splits)
  qed
  have "inv_token ?d"
    unfolding inv_token_def
  proof (intro conjI allI impI)
    fix dir'
    show "token ?d dir' = one (d_events ?d dir' \<noteq> 0)"
      using tok [of dir'] ev f cnt_update [OF f(1), of "active dir'" g]
      by (cases rc) (auto simp: token_def g_def new_def active_def clears_def split: if_splits)
  next
    fix q dir' assume "d_loop ?d = Loop_Check q (Some dir')"
    then show "d_events ?d dir' = 0" using i(1) by (simp add: inv_token_def)
  qed
  moreover have "inv_error ?d" using i(2) f cnt_update [OF f(1), of "\<lambda>f. f = Fb_OnError" g] by (auto simp: inv_error_def g_def)
  moreover have "inv_mask ?d" using i(3) by (simp add: inv_mask_def)
  moreover have "inv_write ?d"
  proof -
    have "1 \<le> balance Wr (pending_tasks d) (int (d_restart_count d Wr))" if "d_enabled d" "dir = Wr"
    proof -
      have "0 < d_restart_count d Wr" using i(3) ev that by (auto simp: inv_mask_def)
      with balance_grows [of "pending_tasks d" "int (d_restart_count d Wr)"] nosup that show ?thesis by simp
    qed
    moreover have "pending_tasks ?d = pending_tasks d @ new" by (simp add: pending_tasks_def)
    ultimately show ?thesis using i(4) by (cases rc) (auto simp: inv_write_def new_def path_ok_snoc)
  qed
  moreover have "inv_kill ?d" using i(5) by (cases rc) (auto simp: inv_kill_def new_def split: if_splits)
  moreover have "inv_check ?d" using i(6) check_ok_calmer [OF _ c(1)] c(2)
    by (auto simp: inv_check_def g_def split: if_splits dest: set_update_other)
  moreover have "inv_once ?d" using i(7) f cnt_update [OF f(1), of "\<lambda>f. f = Fb_Check Q_AddTask" g]
    by (cases rc) (auto simp: inv_once_def g_def new_def)
  moreover have "inv_seen ?d" using i(8) c(2) f in_update [OF f(1)] by (auto simp: inv_seen_def)
  ultimately show ?thesis using eq by (simp add: io_invI)
qed

lemma inv_dec:
  assumes inv: "io_inv d" and f: "i < length (d_fibers d)" "d_fibers d ! i = Fb_Dec dir"
  shows "io_inv (dec_step i dir d)"
proof -
  note i = io_invD [OF inv]
  note tok = inv_tokenD(1) [OF i(1)]
  have ev: "0 < d_events d dir" using tok [of dir] f cnt_update [OF f(1), of "active dir" Fb_Done]
    by (auto simp: token_def active_def split: if_splits)
  define g where "g = (if d_events d dir \<noteq> 1 then Fb_Callback dir else Fb_Check Q_Pending)"
  let ?d = "d\<lparr>d_events := (d_events d)(dir := d_events d dir - 1), d_fibers := (d_fibers d)[i := g]\<rparr>"
  have eq: "dec_step i dir d = ?d" using ev by (simp add: dec_step_def fiber_go_def Let_def g_def)
  have c: "calmer d ?d" by (simp add: calmer_def)
  have "inv_token ?d"
  proof (rule inv_tokenI)
    fix dir'
    show "token ?d dir' = one (d_events ?d dir' \<noteq> 0)"
      using tok [of dir'] ev f cnt_update [OF f(1), of "active dir'" g] by (auto simp: token_def g_def active_def split: if_splits)
  next
    fix q dir' assume "d_loop ?d = Loop_Check q (Some dir')"
    then show "d_events ?d dir' = 0" using inv_tokenD(2) [OF i(1)] by auto
  qed
  moreover have "inv_error ?d" using i(2) f cnt_update [OF f(1), of "\<lambda>f. f = Fb_OnError" g] by (auto simp: inv_error_def g_def split: if_splits)
  moreover have "inv_mask ?d" using i(3) by (auto simp: inv_mask_def)
  moreover have "inv_write ?d" using i(4) by (simp add: inv_write_def pending_tasks_def)
  moreover have "inv_kill ?d" using i(5) by (auto simp: inv_kill_def split: if_splits)
  moreover have "inv_check ?d" using i(6) check_ok_calmer [OF _ c] settled_calmer [OF _ c]
    by (auto simp: inv_check_def g_def split: if_splits dest: set_update_other)
  moreover have "inv_once ?d" using i(7) f cnt_update [OF f(1), of "\<lambda>f. f = Fb_Check Q_AddTask" g]
    by (auto simp: inv_once_def g_def split: if_splits)
  moreover have "inv_seen ?d"
  proof (cases "d_events d dir = 1")
    case True
    then show ?thesis using at_check [OF f(1)] by (simp add: inv_seen_def g_def)
  next
    case False
    then have "d_events d dir - 1 \<noteq> 0" using ev by simp
    then show ?thesis by (cases dir) (auto simp: inv_seen_def settled_def)
  qed
  ultimately show ?thesis using eq by (simp add: io_invI)
qed

lemma inv_on_error:
  assumes inv: "io_inv d" and f: "i < length (d_fibers d)" "d_fibers d ! i = Fb_OnError"
  shows "\<exists>d'. error_step i d = Inr d' \<and> io_inv d'"
proof -
  note i = io_invD [OF inv]
  note tok = inv_tokenD(1) [OF i(1)]
  have n: "d_error_events d = 1" using i(2) f cnt_update [OF f(1), of "\<lambda>f. f = Fb_OnError" Fb_Done]
    by (auto simp: inv_error_def split: if_splits)
  let ?d = "d\<lparr>d_error_events := 0, d_fibers := (d_fibers d)[i := Fb_Check Q_Pending]\<rparr>"
  have eq: "error_step i d = Inr ?d" using n by (simp add: error_step_def fiber_go_def)
  have c: "calmer d ?d" by (simp add: calmer_def)
  have "inv_token ?d"
  proof (rule inv_tokenI)
    fix dir'
    show "token ?d dir' = one (d_events ?d dir' \<noteq> 0)"
      using tok [of dir'] f cnt_update [OF f(1), of "active dir'" "Fb_Check Q_Pending"] by (auto simp: token_def active_def split: if_splits)
  next
    fix q dir' assume "d_loop ?d = Loop_Check q (Some dir')"
    then show "d_events ?d dir' = 0" using inv_tokenD(2) [OF i(1)] by auto
  qed
  moreover have "inv_error ?d" using i(2) n f cnt_update [OF f(1), of "\<lambda>f. f = Fb_OnError" "Fb_Check Q_Pending"] by (auto simp: inv_error_def split: if_splits)
  moreover have "inv_mask ?d" using i(3) by (auto simp: inv_mask_def)
  moreover have "inv_write ?d" using i(4) by (simp add: inv_write_def pending_tasks_def)
  moreover have "inv_kill ?d" using i(5) by (auto simp: inv_kill_def split: if_splits)
  moreover have "inv_check ?d" using i(6) check_ok_calmer [OF _ c] settled_calmer [OF _ c]
    by (auto simp: inv_check_def split: if_splits dest: set_update_other)
  moreover have "inv_once ?d" using i(7) f cnt_update [OF f(1), of "\<lambda>f. f = Fb_Check Q_AddTask" "Fb_Check Q_Pending"]
    by (auto simp: inv_once_def split: if_splits)
  moreover have "inv_seen ?d" using at_check [OF f(1)] by (simp add: inv_seen_def)
  ultimately show ?thesis using eq by (simp add: io_invI)
qed

text \<open>A step of the check, wherever it is made: what it changes, and what it has seen then.\<close>

lemma check_effect:
  assumes inv: "io_inv d" and q: "check_ok d q" and e: "QueueCleanupCallbackCheck q d = (out, d')"
  shows "d' = d\<lparr>d_cleanup_queued := (d_cleanup_queued d \<or> q = Q_Exchange), d_tasks := d_tasks d @ (if q = Q_AddTask then [Task_Cleanup] else [])\<rparr>"
    "calmer d d'" "out = Some q' \<Longrightarrow> check_ok d' q'" "q' = Q_AddTask \<Longrightarrow> (out = Some q') = (q = Q_Exchange \<and> \<not> d_cleanup_queued d)"
    "settled d \<Longrightarrow> \<not> d_cleanup_queued d' \<Longrightarrow> out \<noteq> None" "q = Q_Exchange \<Longrightarrow> settled d" "q = Q_AddTask \<Longrightarrow> d_cleanup_queued d"
proof -
  show d': "d' = d\<lparr>d_cleanup_queued := (d_cleanup_queued d \<or> q = Q_Exchange), d_tasks := d_tasks d @ (if q = Q_AddTask then [Task_Cleanup] else [])\<rparr>"
    using e by (cases q; intro Descriptor.equality; auto simp: AddTask_def)
  show "calmer d d'" by (simp add: d' calmer_def)
  show "out = Some q' \<Longrightarrow> check_ok d' q'" using e q by (cases q) (auto simp: settled_def split: if_splits)
  show "q' = Q_AddTask \<Longrightarrow> (out = Some q') = (q = Q_Exchange \<and> \<not> d_cleanup_queued d)" using e by (cases q) (auto split: if_splits)
  show "settled d \<Longrightarrow> \<not> d_cleanup_queued d' \<Longrightarrow> out \<noteq> None" using e q by (cases q) (auto simp: settled_def AddTask_def split: if_splits)
  show "q = Q_Exchange \<Longrightarrow> settled d" "q = Q_AddTask \<Longrightarrow> d_cleanup_queued d" using q by auto
qed

lemma pending_tasks_snoc: "pending_tasks (d\<lparr>d_tasks := d_tasks d @ ts\<rparr>) = pending_tasks d @ ts"
  by (simp add: pending_tasks_def)

lemma inv_in_check:
  assumes inv: "io_inv d" and f: "i < length (d_fibers d)" "d_fibers d ! i = Fb_Check q"
  shows "io_inv (check_step i q d)"
proof -
  note i = io_invD [OF inv]
  note tok = inv_tokenD(1) [OF i(1)]
  have "Fb_Check q \<in> set (d_fibers d)" using f nth_mem [OF f(1)] by simp
  then have q: "check_ok d q" using i(6) by (simp add: inv_check_def)
  obtain out d1 where e: "QueueCleanupCallbackCheck q d = (out, d1)" by (cases "QueueCleanupCallbackCheck q d")
  note ce = check_effect [OF inv q e]
  define g where "g = (case out of Some q' \<Rightarrow> Fb_Check q' | None \<Rightarrow> Fb_Done)"
  define new where "new = (if q = Q_AddTask then [Task_Cleanup] else [])"
  let ?d = "d\<lparr>d_cleanup_queued := (d_cleanup_queued d \<or> q = Q_Exchange), d_tasks := d_tasks d @ new, d_fibers := (d_fibers d)[i := g]\<rparr>"
  have eq: "check_step i q d = ?d" using e ce(1) by (simp add: check_step_def fiber_go_def g_def new_def split: option.split)
  have c: "calmer d ?d" "settled ?d = settled d" by (simp_all add: calmer_def settled_def)
  have g: "g = Fb_Check q' \<longleftrightarrow> out = Some q'" "\<not> active dir g" "g \<noteq> Fb_OnError" for q' dir by (auto simp: g_def active_def split: option.splits)
  have "inv_token ?d"
  proof (rule inv_tokenI)
    fix dir'
    show "token ?d dir' = one (d_events ?d dir' \<noteq> 0)"
      using tok [of dir'] f g(2) cnt_update [OF f(1), of "active dir'" g] by (auto simp: token_def active_def new_def clears_def split: if_splits)
  next
    fix q dir' assume "d_loop ?d = Loop_Check q (Some dir')"
    then show "d_events ?d dir' = 0" using inv_tokenD(2) [OF i(1)] by auto
  qed
  moreover have "inv_error ?d" using i(2) f g(3) cnt_update [OF f(1), of "\<lambda>f. f = Fb_OnError" g] by (auto simp: inv_error_def split: if_splits)
  moreover have "inv_mask ?d" using i(3) by (auto simp: inv_mask_def)
  moreover have "inv_write ?d"
  proof -
    have "pending_tasks ?d = pending_tasks d @ new" by (simp add: pending_tasks_def)
    then show ?thesis using i(4) path_ok_other [of Task_Cleanup "pending_tasks d"] by (simp add: inv_write_def new_def)
  qed
  moreover have "inv_kill ?d" using i(5) by (auto simp: inv_kill_def new_def split: if_splits)
  moreover have "inv_check ?d"
  proof -
    have "check_ok ?d q'" if "Fb_Check q' \<in> set ((d_fibers d)[i := g])" for q'
    proof (cases "g = Fb_Check q'")
      case True
      then have "check_ok d1 q'" using ce(3) g(1) by blast
      moreover have "calmer d1 ?d" unfolding ce(1) by (simp add: calmer_def)
      ultimately show ?thesis by (rule check_ok_calmer)
    next
      case False
      then have "Fb_Check q' \<in> set (d_fibers d)" using set_update_other [OF that] by simp
      then show ?thesis using i(6) check_ok_calmer [OF _ c(1)] by (simp add: inv_check_def)
    qed
    moreover have "check_ok ?d q'" if "d_loop d = Loop_Check q' rest" for q' rest
      using i(6) that check_ok_calmer [OF _ c(1)] by (simp add: inv_check_def)
    moreover have "d_cleanup_queued d \<or> q = Q_Exchange \<longrightarrow> settled ?d" using i(6) ce(6) c(2) by (auto simp: inv_check_def)
    ultimately show ?thesis unfolding inv_check_def by simp
  qed
  moreover have "inv_once ?d"
    using i(7) f ce(4) [OF HOL.refl] ce(7) g(1) [of Q_AddTask] cnt_update [OF f(1), of "\<lambda>f. f = Fb_Check Q_AddTask" g]
    by (auto simp: inv_once_def new_def simp del: length_0_conv split: if_splits)
  moreover have "inv_seen ?d"
  proof (cases out)
    case None
    then have "\<not> (settled d \<and> \<not> d_cleanup_queued d1)" using ce(5) by blast
    then show ?thesis unfolding inv_seen_def c(2) unfolding ce(1) by auto
  next
    case (Some q')
    then show ?thesis using at_check [OF f(1)] by (simp add: inv_seen_def g_def)
  qed
  ultimately show ?thesis using eq by (simp add: io_invI)
qed

text \<open>The event loop goes on with its check. If the check is over, the rest of a \<^verbatim>\<open>Suppress\<close> task is still to come.\<close>

lemma inv_loop_check:
  assumes inv: "io_inv d" and l: "d_loop d = Loop_Check q rest" and e: "QueueCleanupCallbackCheck q d = (Some q', d1)"
  shows "io_inv (d1\<lparr>d_loop := Loop_Check q' rest\<rparr>)"
proof -
  note i = io_invD [OF inv]
  note tok = inv_tokenD(1) [OF i(1)]
  have q: "check_ok d q" using i(6) l by (simp add: inv_check_def)
  note ce = check_effect [OF inv q e]
  have nq: "q \<noteq> Q_AddTask" using e by auto
  let ?d = "d\<lparr>d_cleanup_queued := (d_cleanup_queued d \<or> q = Q_Exchange), d_loop := Loop_Check q' rest\<rparr>"
  have eq: "d1\<lparr>d_loop := Loop_Check q' rest\<rparr> = ?d" unfolding ce(1) using nq by (intro Descriptor.equality) auto
  have c: "calmer d ?d" "settled ?d = settled d" by (simp_all add: calmer_def settled_def)
  have "inv_token ?d" using tok inv_tokenD(2) [OF i(1)] l by (intro inv_tokenI) (auto simp: token_def)
  moreover have "inv_error ?d" using i(2) by (simp add: inv_error_def)
  moreover have "inv_mask ?d" using i(3) l by (auto simp: inv_mask_def)
  moreover have "inv_write ?d" using i(4) l by (simp add: inv_write_def pending_tasks_def)
  moreover have "inv_kill ?d" using i(5) by (auto simp: inv_kill_def split: if_splits)
  moreover have "inv_check ?d"
  proof -
    have "calmer d1 ?d" unfolding ce(1) by (simp add: calmer_def)
    then have "check_ok ?d q'" by (rule check_ok_calmer [OF ce(3) [OF HOL.refl]])
    moreover have "check_ok ?d q2" if "Fb_Check q2 \<in> set (d_fibers d)" for q2 using i(6) that check_ok_calmer [OF _ c(1)] by (simp add: inv_check_def)
    moreover have "d_cleanup_queued d \<or> q = Q_Exchange \<longrightarrow> settled ?d" using i(6) ce(6) c(2) by (auto simp: inv_check_def)
    ultimately show ?thesis unfolding inv_check_def by simp
  qed
  moreover have "inv_once ?d"
  proof -
    have "loop_adds (d_loop ?d) = (q = Q_Exchange)" "q = Q_Exchange \<longrightarrow> \<not> d_cleanup_queued d" "\<not> loop_adds (d_loop d)"
      using e l nq by (cases q; simp add: loop_adds_def split: if_splits)+
    then show ?thesis using i(7) by (auto simp: inv_once_def)
  qed
  moreover have "inv_seen ?d" by (simp add: inv_seen_def)
  ultimately show ?thesis unfolding eq by (rule io_invI)
qed

lemma inv_loop_return:
  assumes inv: "io_inv d" and l: "d_loop d = Loop_Check q rest" "rest = None \<or> \<not> d_enabled d" and e: "QueueCleanupCallbackCheck q d = (None, d1)"
  shows "io_inv (d1\<lparr>d_loop := Loop_Idle\<rparr>)"
proof -
  note i = io_invD [OF inv]
  note tok = inv_tokenD(1) [OF i(1)]
  have q: "check_ok d q" using i(6) l(1) by (simp add: inv_check_def)
  note ce = check_effect [OF inv q e]
  define new where "new = (if q = Q_AddTask then [Task_Cleanup] else [])"
  let ?d = "d\<lparr>d_cleanup_queued := (d_cleanup_queued d \<or> q = Q_Exchange), d_tasks := d_tasks d @ new, d_loop := Loop_Idle\<rparr>"
  have eq: "d1\<lparr>d_loop := Loop_Idle\<rparr> = ?d" unfolding ce(1) new_def by simp
  have c: "calmer d ?d" "settled ?d = settled d" by (simp_all add: calmer_def settled_def)
  have "token ?d dir = token d dir" for dir by (simp add: token_def new_def clears_def)
  then have "inv_token ?d" using tok by (intro inv_tokenI) auto
  moreover have "inv_error ?d" using i(2) by (simp add: inv_error_def)
  moreover have "inv_mask ?d" using i(3) by (auto simp: inv_mask_def)
  moreover have "inv_write ?d"
  proof (cases rest)
    case None
    then have "path_ok (d_tasks d @ new) c = path_ok (pending_tasks d) c" for c
      using l(1) by (simp add: pending_tasks_def new_def path_ok_other)
    then show ?thesis using i(4) by (simp add: inv_write_def pending_tasks_def)
  qed (use l(2) in \<open>simp add: inv_write_def\<close>)
  moreover have "inv_kill ?d" using i(5) by (auto simp: inv_kill_def new_def split: if_splits)
  moreover have "inv_check ?d"
  proof -
    have "check_ok ?d q2" if "Fb_Check q2 \<in> set (d_fibers d)" for q2 using i(6) that check_ok_calmer [OF _ c(1)] by (simp add: inv_check_def)
    moreover have "d_cleanup_queued d \<or> q = Q_Exchange \<longrightarrow> settled ?d" using i(6) ce(6) c(2) by (auto simp: inv_check_def)
    ultimately show ?thesis unfolding inv_check_def by simp
  qed
  moreover have "inv_once ?d"
  proof -
    have "loop_adds (d_loop d) = (q = Q_AddTask)" "q = Q_Exchange \<longrightarrow> d_cleanup_queued d" "\<not> loop_adds Loop_Idle"
      using e l(1) by (cases q; simp add: loop_adds_def split: if_splits)+
    then show ?thesis using i(7) ce(7) by (auto simp: inv_once_def new_def simp del: length_0_conv)
  qed
  moreover have "inv_seen ?d"
  proof -
    have "\<not> (settled d \<and> \<not> d_cleanup_queued d1)" using ce(5) by blast
    then show ?thesis unfolding inv_seen_def c(2) unfolding ce(1) by auto
  qed
  ultimately show ?thesis unfolding eq by (rule io_invI)
qed

lemma inv_loop_suppressed:
  assumes inv: "io_inv d" and l: "d_loop d = Loop_Check q (Some dir)" and en: "d_enabled d" and e: "QueueCleanupCallbackCheck q d = (None, d1)"
  shows "io_inv (d\<lparr>d_loop := Loop_Idle, d_restart_count := (d_restart_count d)(dir := d_restart_count d dir - 1),
       d_event_mask := (d_event_mask d)(dir := d_restart_count d dir - 1 \<noteq> 0)\<rparr>)" (is "io_inv ?d")
    and "d1 = d" "0 < d_restart_count d dir" "d_event_mask d dir" "dir = Wr \<longrightarrow> d_restart_count d dir \<le> 2"
proof -
  note i = io_invD [OF inv]
  note tok = inv_tokenD(1) [OF i(1)]
  have np: "\<not> d_cleanup_pending d" using i(5) en by (simp add: inv_kill_def)
  have "check_ok d q" using i(6) l by (simp add: inv_check_def)
  then have q: "q = Q_Pending" using check_ok_not_pending [OF np] by simp
  show "d1 = d" using e q by simp
  show c: "0 < d_restart_count d dir" "d_event_mask d dir" using i(3) en l by (auto simp: inv_mask_def)
  have path: "path_ok (Task_Suppress dir # d_tasks d) (int (d_restart_count d Wr))" using i(4) en l by (simp add: inv_write_def pending_tasks_def)
  then show "dir = Wr \<longrightarrow> d_restart_count d dir \<le> 2" by auto
  have ev: "d_events d dir = 0" using inv_tokenD(2) [OF i(1)] l by blast
  have cal: "calmer d ?d" "settled ?d = settled d" by (simp_all add: calmer_def settled_def)
  have "inv_token ?d" using tok by (intro inv_tokenI) (auto simp: token_def)
  moreover have "inv_error ?d" using i(2) by (simp add: inv_error_def)
  moreover have "inv_mask ?d" using i(3) ev en by (auto simp: inv_mask_def)
  moreover have "inv_write ?d" using path c(1) by (cases dir) (simp_all add: inv_write_def pending_tasks_def of_nat_diff)
  moreover have "inv_kill ?d" using i(5) by (auto simp: inv_kill_def split: if_splits)
  moreover have "inv_check ?d" using i(6) check_ok_calmer [OF _ cal(1)] cal(2) by (simp add: inv_check_def)
  moreover have "inv_once ?d" using i(7) l q by (auto simp: inv_once_def loop_adds_def)
  moreover have "inv_seen ?d" using np by (simp add: inv_seen_def settled_def)
  ultimately show "io_inv ?d" by (rule io_invI)
qed

lemma inv_SuppressRest:
  assumes inv: "io_inv d" and l: "d_loop d = Loop_Check q (Some dir)" and e: "QueueCleanupCallbackCheck q d = (None, d1)"
  shows "\<exists>d'. SuppressRest dir (d1\<lparr>d_loop := Loop_Idle\<rparr>) = Inr d' \<and> io_inv d'"
proof (cases "d_enabled d")
  case False
  then have "io_inv (d1\<lparr>d_loop := Loop_Idle\<rparr>)" using inv_loop_return [OF inv l _ e] by simp
  moreover have "\<not> d_enabled d1" using e False by (cases q) (auto simp: AddTask_def split: if_splits)
  ultimately show ?thesis by (simp add: SuppressRest_def)
next
  case True
  note s = inv_loop_suppressed [OF inv l True e]
  let ?c = "d_restart_count d dir"
  let ?d = "d\<lparr>d_loop := Loop_Idle, d_restart_count := (d_restart_count d)(dir := ?c - 1)\<rparr>"
  have r: "nat (int ?c - 1) = ?c - 1" by simp
  show ?thesis
  proof (cases "?c = 1")
    case one: True
    then show ?thesis using s True by (cases dir) (simp_all add: SuppressRest_def RearmDescriptor_def Let_def)
  next
    case False
    then have m: "(d_event_mask d)(dir := ?c - 1 \<noteq> 0) = d_event_mask d" using s(3,4) by (simp add: fun_upd_idem_iff)
    then have "io_inv ?d" using s(1) by simp
    then have "io_inv (FireXxxEvent dir ?d)" using inv_fire [of ?d dir] True s(4) by simp
    moreover have "SuppressRest dir (d1\<lparr>d_loop := Loop_Idle\<rparr>) = Inr (FireXxxEvent dir ?d)"
      using s(2-5) r True False by (cases dir) (simp_all add: SuppressRest_def Let_def FireEvents_def)
    ultimately show ?thesis by simp
  qed
qed

text \<open>The event loop takes a task.\<close>

lemma inv_task_kill:
  assumes inv: "io_inv d" and l: "d_loop d = Loop_Idle" and t: "d_tasks d = Task_Kill # ts"
  shows "\<exists>d'. run_task Task_Kill (d\<lparr>d_tasks := ts\<rparr>) = Inr d' \<and> io_inv d'"
proof -
  note i = io_invD [OF inv]
  note tok = inv_tokenD(1) [OF i(1)]
  have k: "d_enabled d" "\<not> d_cleanup_pending d" "\<not> d_killing d" "cnt (\<lambda>t. t = Task_Kill) ts = 0" "d_cleanup_reason d \<noteq> CR_None"
    using i(5) t by (auto simp: inv_kill_def split: if_splits)
  let ?d = "d\<lparr>d_tasks := ts, d_enabled := False, d_cleanup_pending := True, d_loop := Loop_Check Q_Pending None\<rparr>"
  have eq: "run_task Task_Kill (d\<lparr>d_tasks := ts\<rparr>) = Inr ?d" using k by (simp add: DisableDescriptor_def)
  have c: "calmer d ?d" by (simp add: calmer_def)
  have "token ?d dir = token d dir" for dir using t by (simp add: token_def clears_def)
  then have "inv_token ?d" using tok by (intro inv_tokenI) auto
  moreover have "inv_error ?d" using i(2) by (simp add: inv_error_def)
  moreover have "inv_mask ?d" by (simp add: inv_mask_def)
  moreover have "inv_write ?d" by (simp add: inv_write_def)
  moreover have "inv_kill ?d" using k by (auto simp: inv_kill_def)
  moreover have "inv_check ?d" using i(6) check_ok_calmer [OF _ c] settled_calmer [OF _ c] by (auto simp: inv_check_def)
  moreover have "inv_once ?d" using i(7) t l by (auto simp: inv_once_def loop_adds_def)
  moreover have "inv_seen ?d" by (simp add: inv_seen_def)
  ultimately show ?thesis using eq by (simp add: io_invI)
qed

lemma inv_task_clear:
  assumes inv: "io_inv d" and l: "d_loop d = Loop_Idle" and t: "d_tasks d = t # ts" "clears dir t"
  shows "io_inv (d\<lparr>d_tasks := ts, d_events := (d_events d)(dir := 0), d_loop := Loop_Check Q_Pending (if t = Task_Suppress dir then Some dir else None)\<rparr>)"
    (is "io_inv ?d")
proof -
  note i = io_invD [OF inv]
  note tok = inv_tokenD(1) [OF i(1)]
  have tk: "t = Task_Suppress dir \<or> t = Task_Leaving dir" using t(2) by (simp add: clears_def)
  have c: "calmer d ?d" by (simp add: calmer_def)
  have ev: "0 < d_events d dir" using tok [of dir] t by (auto simp: token_def split: if_splits)
  have "inv_token ?d"
  proof (rule inv_tokenI)
    fix dir'
    show "token ?d dir' = one (d_events ?d dir' \<noteq> 0)" using tok [of dir'] t tk ev by (auto simp: token_def clears_def split: if_splits)
  qed (auto split: if_splits)
  moreover have "inv_error ?d" using i(2) by (simp add: inv_error_def)
  moreover have "inv_mask ?d" using i(3) ev by (auto simp: inv_mask_def split: if_splits)
  moreover have "inv_write ?d" using i(4) l t(1) tk by (auto simp: inv_write_def pending_tasks_def)
  moreover have "inv_kill ?d" using i(5) t(1) tk by (auto simp: inv_kill_def split: if_splits)
  moreover have "inv_check ?d" using i(6) check_ok_calmer [OF _ c] settled_calmer [OF _ c] by (auto simp: inv_check_def)
  moreover have "inv_once ?d" using i(7) t(1) tk l by (auto simp: inv_once_def loop_adds_def)
  moreover have "inv_seen ?d" by (simp add: inv_seen_def)
  ultimately show ?thesis by (rule io_invI)
qed

lemma inv_task_restart:
  assumes inv: "io_inv d" and l: "d_loop d = Loop_Idle" and t: "d_tasks d = Task_Restart dir # ts"
  shows "\<exists>d'. run_task (Task_Restart dir) (d\<lparr>d_tasks := ts\<rparr>) = Inr d' \<and> io_inv d'"
proof -
  note i = io_invD [OF inv]
  note tok = inv_tokenD(1) [OF i(1)]
  let ?c = "d_restart_count d dir"
  define d' where "d' = (if d_enabled d then d\<lparr>d_tasks := ts, d_restart_count := (d_restart_count d)(dir := ?c + 1),
      d_event_mask := (d_event_mask d)(dir := True)\<rparr> else d\<lparr>d_tasks := ts\<rparr>)"
  have m: "d_enabled d \<Longrightarrow> d_event_mask d dir \<longleftrightarrow> 0 < ?c" using i(3) by (simp add: inv_mask_def)
  have path: "path_ok (Task_Restart dir # ts) (int (d_restart_count d Wr))" if "d_enabled d"
    using i(4) that l t by (simp add: inv_write_def pending_tasks_def)
  have "run_task (Task_Restart dir) (d\<lparr>d_tasks := ts\<rparr>) = Inr d'"
  proof (cases "d_enabled d")
    case True
    then have "dir = Wr \<longrightarrow> ?c = 0 \<or> ?c = 1" using path by auto
    moreover have "0 < ?c \<Longrightarrow> (d_event_mask d)(dir := True) = d_event_mask d" using m [OF True] by (simp add: fun_upd_idem_iff)
    ultimately show ?thesis using True m [OF True] by (cases dir) (auto simp: d'_def Let_def RearmDescriptor_def)
  qed (cases dir, simp_all add: d'_def)
  have c: "calmer d d'" by (simp add: calmer_def d'_def)
  have s: "settled d' = settled d" by (simp add: settled_def d'_def)
  have "token d' dir = token d dir" for dir using t by (simp add: token_def clears_def d'_def)
  then have "inv_token d'" using tok l by (intro inv_tokenI) (auto simp: d'_def split: if_splits)
  moreover have "inv_error d'" using i(2) by (auto simp: inv_error_def d'_def split: if_splits)
  moreover have "inv_mask d'" using i(3) l by (auto simp: inv_mask_def d'_def)
  moreover have "inv_write d'" using path l by (cases dir) (auto simp: inv_write_def pending_tasks_def d'_def add.commute)
  moreover have "inv_kill d'" using i(5) t by (auto simp: inv_kill_def d'_def split: if_splits)
  moreover have "inv_check d'" using i(6) check_ok_calmer [OF _ c] s by (auto simp: inv_check_def d'_def split: if_splits)
  moreover have "inv_once d'" using i(7) t by (auto simp: inv_once_def d'_def simp del: length_0_conv split: if_splits)
  moreover have "inv_seen d'" using i(8) s by (auto simp: inv_seen_def d'_def)
  ultimately show ?thesis using \<open>run_task (Task_Restart dir) (d\<lparr>d_tasks := ts\<rparr>) = Inr d'\<close> by (simp add: io_invI)
qed

lemma inv_task_cleanup:
  assumes inv: "io_inv d" and l: "d_loop d = Loop_Idle" and t: "d_tasks d = Task_Cleanup # ts"
  shows "\<exists>d'. run_task Task_Cleanup (d\<lparr>d_tasks := ts\<rparr>) = Inr d' \<and> io_inv d'"
proof -
  note i = io_invD [OF inv]
  note tok = inv_tokenD(1) [OF i(1)]
  have q: "d_cleanup_queued d" using i(7) t by (auto simp: inv_once_def split: if_splits)
  then have st: "settled d" using i(6) by (simp add: inv_check_def)
  let ?d = "d\<lparr>d_tasks := ts, d_cleanups := d_cleanups d @ [d_cleanup_reason d]\<rparr>"
  have "\<not> d_enabled d" using st i(5) by (auto simp: settled_def inv_kill_def)
  then have eq: "run_task Task_Cleanup (d\<lparr>d_tasks := ts\<rparr>) = Inr ?d" using st by (simp add: settled_def DetachDescriptor_def)
  have c: "calmer d ?d" by (simp add: calmer_def)
  have "token ?d dir = token d dir" for dir using t by (simp add: token_def clears_def)
  then have "inv_token ?d" using tok l by (intro inv_tokenI) auto
  moreover have "inv_error ?d" using i(2) by (simp add: inv_error_def)
  moreover have "inv_mask ?d" using i(3) by (simp add: inv_mask_def)
  moreover have "inv_write ?d" using i(4) l t by (simp add: inv_write_def pending_tasks_def)
  moreover have "inv_kill ?d" using i(5) t by (auto simp: inv_kill_def split: if_splits)
  moreover have "inv_check ?d" using i(6) check_ok_calmer [OF _ c] settled_calmer [OF _ c] by (auto simp: inv_check_def)
  moreover have "inv_once ?d" using i(7) t l by (auto simp: inv_once_def simp del: length_0_conv)
  moreover have "inv_seen ?d" using q by (simp add: inv_seen_def)
  ultimately show ?thesis using eq by (simp add: io_invI)
qed

lemma inv_loop_step: "io_inv d \<Longrightarrow> \<exists>d'. loop_step d = Inr d' \<and> io_inv d'"
proof (cases "d_loop d")
  case Loop_Idle
  assume inv: "io_inv d"
  show ?thesis
  proof (cases "d_tasks d")
    case (Cons t ts)
    show ?thesis
    proof (cases t)
      case (Task_Leaving dir)
      then show ?thesis using inv_task_clear [OF inv Loop_Idle Cons, of dir] Cons Loop_Idle by (simp add: loop_step_def clears_def)
    next
      case (Task_Suppress dir)
      then show ?thesis using inv_task_clear [OF inv Loop_Idle Cons, of dir] Cons Loop_Idle by (simp add: loop_step_def clears_def)
    qed (use inv_task_kill [OF inv Loop_Idle] inv_task_restart [OF inv Loop_Idle] inv_task_cleanup [OF inv Loop_Idle] Cons Loop_Idle
        in \<open>auto simp: loop_step_def simp del: run_task.simps\<close>)
  qed (use inv Loop_Idle in \<open>simp add: loop_step_def\<close>)
next
  case (Loop_Check q rest)
  assume inv: "io_inv d"
  obtain out d1 where e: "QueueCleanupCallbackCheck q d = (out, d1)" by (cases "QueueCleanupCallbackCheck q d")
  show ?thesis
  proof (cases out)
    case None
    then show ?thesis
      using inv_loop_return [OF inv Loop_Check] inv_SuppressRest [OF inv, of q _ d1] e Loop_Check
      by (cases rest) (auto simp: loop_step_def Let_def)
  next
    case (Some q')
    then show ?thesis using inv_loop_check [OF inv Loop_Check, of q' d1] e Loop_Check by (simp add: loop_step_def)
  qed
qed

lemma io_inv_step: "io_inv d \<Longrightarrow> io_step d r \<Longrightarrow> \<exists>d'. r = Inr d' \<and> io_inv d'"
  by (erule io_step.cases)
    (auto intro: inv_loop_step inv_callback inv_on_error inv_dec inv_in_check inv_kill_exchange inv_add_kill inv_restart inv_poll)

lemma io_reach_inv: "io_reach d \<Longrightarrow> io_inv d"
proof (induction rule: io_reach.induct)
  case (step d d')
  then show ?case using io_inv_step by blast
qed (rule inv_new)

section \<open>Schedules\<close>

text \<open>
  For running the model: one event per step. An event that does not apply changes nothing.
\<close>

datatype io_event =
    Ev_poll bool bool bool
  | Ev_loop
  | Ev_fiber nat EventAction
  | Ev_kill CleanupReason
  | Ev_kill_task
  | Ev_restart io_dir

fun io_do :: "io_event \<Rightarrow> Descriptor \<Rightarrow> Descriptor result" where
  "io_do (Ev_poll error read write) d =
     (if d_loop d = Loop_Idle \<and> d_enabled d \<and> (read \<longrightarrow> d_event_mask d Rd) \<and> (write \<longrightarrow> d_event_mask d Wr)
      then FireEvents error read write d else Inr d)"
| "io_do Ev_loop d = loop_step d"
| "io_do (Ev_fiber i rc) d =
     (if i < length (d_fibers d)
      then case d_fibers d ! i of
             Fb_Callback dir \<Rightarrow> if rc = Leaving \<and> d_cleanup_reason d = CR_None then Inr d else callback_step i dir rc d
           | Fb_Dec dir \<Rightarrow> Inr (dec_step i dir d)
           | Fb_OnError \<Rightarrow> error_step i d
           | Fb_Check q \<Rightarrow> Inr (check_step i q d)
           | Fb_Done \<Rightarrow> Inr d
      else Inr d)"
| "io_do (Ev_kill reason) d = Inr (if reason = CR_None then d else Kill_exchange reason d)"
| "io_do Ev_kill_task d = Inr (if d_killing d then Kill_add_task d else d)"
| "io_do (Ev_restart dir) d =
     Inr (if dir = Wr \<and> d_enabled d \<and> \<not> write_balance d \<le> 1 then d else AddTask (Task_Restart dir) d)"

fun io_do_all :: "io_event list \<Rightarrow> Descriptor \<Rightarrow> Descriptor result" where
  "io_do_all [] d = Inr d"
| "io_do_all (e # es) d = rbind (io_do e d) (io_do_all es)"

lemma io_do_step: "io_do e d = r \<Longrightarrow> r = Inr d \<or> io_step d r"
proof (cases e)
  case (Ev_restart dir)
  assume "io_do e d = r"
  with Ev_restart show ?thesis by (cases dir) (auto intro: io_step.intros split: if_splits)
qed (auto intro: io_step.intros split: if_splits fiber_pc.splits)

lemma io_do_all_reach: "io_reach d \<Longrightarrow> io_do_all es d = Inr d' \<Longrightarrow> io_reach d'"
proof (induction es arbitrary: d)
  case (Cons e es)
  then obtain d1 where d1: "io_do e d = Inr d1" "io_do_all es d1 = Inr d'" by (auto simp: result_iffs)
  then have "io_reach d1" using io_do_step [OF d1(1)] io_reach.step Cons.prems(1) by auto
  then show ?case using Cons.IH d1(2) by blast
qed simp

section \<open>Results\<close>

text \<open>
  No check of \<^verbatim>\<open>Descriptor\<close> or of the event loop fails, whatever events the poller reports, whatever
  the callbacks return, whenever \<^verbatim>\<open>Kill\<close>, \<^verbatim>\<open>RestartRead\<close> and \<^verbatim>\<open>RestartWrite\<close> are called within their contract,
  and however the steps interleave.
\<close>

theorem descriptor_never_faults:
  assumes "io_reach d" "io_step d r"
  shows "\<exists>d'. r = Inr d'"
  using io_inv_step [OF io_reach_inv [OF assms(1)] assms(2)] by blast

theorem descriptor_never_faults_witness:
  "case io_do_all [Ev_poll False True False, Ev_restart Rd, Ev_fiber 0 Suppress] (Descriptor_new (\<lambda>dir. dir = Rd)) of
     Inl _ \<Rightarrow> False
   | Inr d \<Rightarrow> d_tasks d = [Task_Restart Rd, Task_Suppress Rd] \<and> (\<exists>d'. loop_step d = Inr d')"
proof -
  let ?es = "[Ev_poll False True False, Ev_restart Rd, Ev_fiber 0 Suppress]"
  have "\<exists>d. io_do_all ?es (Descriptor_new (\<lambda>dir. dir = Rd)) = Inr d \<and> d_tasks d = [Task_Restart Rd, Task_Suppress Rd]"
    by (simp add: Descriptor_new_def FireEvents_def FireXxxEvent_def StartFiberDetached_def AddTask_def callback_step_def fiber_go_def)
  then obtain d where d: "io_do_all ?es (Descriptor_new (\<lambda>dir. dir = Rd)) = Inr d" "d_tasks d = [Task_Restart Rd, Task_Suppress Rd]" by blast
  show ?thesis using d(2) descriptor_never_faults [OF io_do_all_reach [OF io_reach.init d(1)] loop] unfolding d(1) by simp
qed

text \<open>
  C4. \<^verbatim>\<open>OnCleanup\<close> is called at most once, with the reason of the first \<^verbatim>\<open>Kill\<close>, and once it has been
  called no callback is running or will be: the descriptor is disabled and all counters are zero.
  At no time do two callbacks of the same kind overlap.
\<close>

theorem descriptor_cleanup_once:
  assumes "io_reach d"
  shows "length (d_cleanups d) \<le> 1 \<and>
     (d_cleanups d \<noteq> [] \<longrightarrow> d_cleanups d = [d_cleanup_reason d] \<and> d_cleanup_reason d \<noteq> CR_None \<and> \<not> d_enabled d \<and>
        d_events d Rd = 0 \<and> d_events d Wr = 0 \<and> d_error_events d = 0 \<and>
        (\<forall>f \<in> set (d_fibers d). \<forall>dir. f \<noteq> Fb_Callback dir \<and> f \<noteq> Fb_Dec dir \<and> f \<noteq> Fb_OnError)) \<and>
     cnt (\<lambda>f. f = Fb_Callback dir) (d_fibers d) \<le> 1"
proof -
  note i = io_invD [OF io_reach_inv [OF assms]]
  have len: "length (d_cleanups d) \<le> 1" using i(7) by (auto simp: inv_once_def split: if_splits)
  have "cnt (\<lambda>f. f = Fb_Callback dir) (d_fibers d) \<le> cnt (active dir) (d_fibers d)"
    by (rule cnt_mono) (simp add: active_def)
  also have "\<dots> \<le> 1" using inv_tokenD(1) [OF i(1), of dir] by (auto simp: token_def split: if_splits)
  finally have one: "cnt (\<lambda>f. f = Fb_Callback dir) (d_fibers d) \<le> 1" .
  have "d_cleanups d = [d_cleanup_reason d] \<and> settled d" if "d_cleanups d \<noteq> []"
  proof -
    have "d_cleanup_queued d" using that i(7) by (auto simp: inv_once_def split: if_splits)
    moreover have "\<exists>r. d_cleanups d = [r]" using that len by (cases "d_cleanups d") auto
    ultimately show ?thesis using i(6,7) by (auto simp: inv_once_def inv_check_def)
  qed
  moreover have "\<not> d_enabled d \<and> d_cleanup_reason d \<noteq> CR_None" if "settled d"
    using that i(5) by (auto simp: settled_def inv_kill_def split: if_splits)
  moreover have "f \<noteq> Fb_Callback dir \<and> f \<noteq> Fb_Dec dir \<and> f \<noteq> Fb_OnError" if "settled d" "f \<in> set (d_fibers d)" for f dir
  proof -
    have "d_events d dir = 0" using that(1) by (cases dir) (auto simp: settled_def)
    then have "cnt (active dir) (d_fibers d) = 0" using inv_tokenD(1) [OF i(1), of dir] by (simp add: token_def)
    moreover have "cnt (\<lambda>f. f = Fb_OnError) (d_fibers d) = 0" using i(2) that(1) by (simp add: inv_error_def settled_def)
    ultimately show ?thesis using that(2) by (auto simp: cnt_zero active_def)
  qed
  ultimately show ?thesis using len one by (auto simp: settled_def)
qed

lemmas io_run_simps = Descriptor_new_def FireEvents_def FireXxxEvent_def FireErrorEvent_def StartFiberDetached_def AddTask_def
  callback_step_def fiber_go_def dec_step_def error_step_def check_step_def loop_step_def Kill_exchange_def Kill_add_task_def
  SuppressRest_def RearmDescriptor_def DisableDescriptor_def DetachDescriptor_def Let_def

theorem descriptor_cleanup_once_witness:
  "case io_do_all ([Ev_poll True False False, Ev_kill CR_Error, Ev_kill UserInitiated, Ev_kill_task, Ev_fiber 0 Ready, Ev_fiber 0 Ready] @
       replicate 8 Ev_loop) (Descriptor_new (\<lambda>dir. dir = Rd)) of
     Inl _ \<Rightarrow> False
   | Inr d \<Rightarrow> d_cleanups d = [CR_Error] \<and> \<not> d_enabled d"
proof -
  let ?es = "[Ev_poll True False False, Ev_kill CR_Error, Ev_kill UserInitiated, Ev_kill_task, Ev_fiber 0 Ready, Ev_fiber 0 Ready] @ replicate 8 Ev_loop"
  have "\<exists>d. io_do_all ?es (Descriptor_new (\<lambda>dir. dir = Rd)) = Inr d \<and> d_cleanups d = [CR_Error]"
    by (simp add: io_run_simps numeral_eq_Suc)
  then obtain d where d: "io_do_all ?es (Descriptor_new (\<lambda>dir. dir = Rd)) = Inr d" "d_cleanups d = [CR_Error]" by blast
  show ?thesis using d(2) descriptor_cleanup_once [OF io_do_all_reach [OF io_reach.init d(1)], of Rd] unfolding d(1) by simp
qed

text \<open>
  C6. No cleanup is lost. Once a \<^verbatim>\<open>Kill\<close> has been made and there is nothing left to do (no task waits,
  the loop is idle, every fiber has returned and no \<^verbatim>\<open>Kill\<close> is half way through), \<^verbatim>\<open>OnCleanup\<close> has been
  called. While the descriptor is enabled, in such a state an event is armed exactly when the
  calls to restart it are ahead of its suppressions.
\<close>

theorem descriptor_no_lost_cleanup:
  assumes "io_reach d" "d_tasks d = []" "d_loop d = Loop_Idle" "\<forall>f \<in> set (d_fibers d). f = Fb_Done" "\<not> d_killing d"
  shows "(d_cleanup_reason d \<noteq> CR_None \<longrightarrow> d_cleanups d = [d_cleanup_reason d]) \<and>
     (d_enabled d \<longrightarrow> (\<forall>dir. d_event_mask d dir \<longleftrightarrow> 0 < d_restart_count d dir))"
proof -
  note i = io_invD [OF io_reach_inv [OF assms(1)]]
  have c0: "cnt P (d_fibers d) = 0" if "\<not> P Fb_Done" for P using assms(4) that by (auto simp: cnt_zero)
  have ev: "d_events d dir = 0" for dir
    using inv_tokenD(1) [OF i(1), of dir] c0 [of "active dir"] assms(2) by (auto simp: token_def active_def split: if_splits)
  have err: "d_error_events d = 0" using i(2) c0 [of "\<lambda>f. f = Fb_OnError"] by (simp add: inv_error_def)
  have "d_cleanups d = [d_cleanup_reason d]" if "d_cleanup_reason d \<noteq> CR_None"
  proof -
    have "d_cleanup_pending d" using i(5) that assms(2,5) by (auto simp: inv_kill_def split: if_splits)
    then have "settled d" using ev err by (simp add: settled_def)
    then have "d_cleanup_queued d" using i(8) assms(3,4) by (auto simp: inv_seen_def)
    then have "length (d_cleanups d) = 1" using i(7) c0 [of "\<lambda>f. f = Fb_Check Q_AddTask"] assms(2,3) by (simp add: inv_once_def loop_adds_def)
    then obtain r where "d_cleanups d = [r]" by (cases "d_cleanups d") auto
    with i(7) show ?thesis by (simp add: inv_once_def)
  qed
  with i(3) show ?thesis by (simp add: inv_mask_def)
qed

theorem descriptor_no_lost_cleanup_witness:
  "case io_do_all ([Ev_kill Disconnect, Ev_kill_task] @ replicate 8 Ev_loop) (Descriptor_new (\<lambda>dir. dir = Rd)) of
     Inl _ \<Rightarrow> False
   | Inr d \<Rightarrow> d_tasks d = [] \<and> d_loop d = Loop_Idle \<and> d_fibers d = [] \<and> \<not> d_killing d \<and> d_cleanups d = [d_cleanup_reason d]"
proof -
  let ?es = "[Ev_kill Disconnect, Ev_kill_task] @ replicate 8 Ev_loop"
  have "\<exists>d. io_do_all ?es (Descriptor_new (\<lambda>dir. dir = Rd)) = Inr d \<and> d_tasks d = [] \<and> d_loop d = Loop_Idle \<and> d_fibers d = [] \<and>
      \<not> d_killing d \<and> d_cleanup_reason d = Disconnect"
    by (simp add: io_run_simps numeral_eq_Suc)
  then obtain d where d: "io_do_all ?es (Descriptor_new (\<lambda>dir. dir = Rd)) = Inr d" "d_tasks d = []" "d_loop d = Loop_Idle" "d_fibers d = []"
    "\<not> d_killing d" "d_cleanup_reason d = Disconnect" by blast
  show ?thesis using d descriptor_no_lost_cleanup [OF io_do_all_reach [OF io_reach.init d(1)] d(2,3) _ d(5)] unfolding d(1) by simp
qed


end
