(* ===== verification/Stream_Connection.thy ===== *)
theory Stream_Connection
  imports Flush_To Read_At_Most Rate_Limiter Io_Descriptor
begin

text \<open>
  A connection (\<^verbatim>\<open>flare/io/native/stream_connection.{h,cc}\<close>): handshaking, writing through the writing
  buffer list under the write limiter, reading through \<^verbatim>\<open>ReadAtMost\<close> under the read limiter and handing
  the bytes to the user's handler. What the connection calls through virtual functions (the stream,
  the limiters, the handler) is the parameter \<open>conn_env\<close>; the clock is an argument. Calls of
  \<^verbatim>\<open>Descriptor\<close> and the notifications of the handler are recorded in order as events. The operations
  are modelled one at a time; the interleaving of \<^verbatim>\<open>Append\<close> with \<^verbatim>\<open>FlushTo\<close> is the subject of
  \<^verbatim>\<open>Writing_Buffer_List\<close>.

  The locale \<open>quota_source\<close> is what the connection needs of a limiter: what was granted may be
  consumed, in parts.
\<close>

section \<open>Data\<close>

datatype HandshakingStatus = HS_Success | HS_WannaRead | HS_WannaWrite | HS_Error

datatype DataConsumptionStatus = DC_Ready | DC_SuppressRead | DC_Error

datatype FlushStatus =
  Flushed | QuotaExceeded | RateLimited | SystemBufferSaturated | PartialWrite | NothingWritten | FlushError

datatype event =
    Ev_Kill CleanupReason
  | Ev_RestartReadIn nat
  | Ev_RestartWriteIn nat
  | Ev_DataWritten nat
  | Ev_WriteBufferEmpty
  | Ev_OnClose
  | Ev_OnError
  | Ev_OnDetach

record ('io, 'r, 'h) conn_env =
  e_readv :: "'io readv"
  e_writev :: "'io writev"
  e_handshake :: "'io \<Rightarrow> HandshakingStatus \<times> 'io"
  e_getq :: "'r \<Rightarrow> nat \<Rightarrow> nat \<times> 'r"
  e_cons :: "'r \<Rightarrow> nat \<Rightarrow> 'r result"
  e_on_data :: "'h \<Rightarrow> NoncontiguousBuffer \<Rightarrow> DataConsumptionStatus \<times> NoncontiguousBuffer \<times> 'h"
  e_pool :: pool
  e_iov_max :: nat
  e_fuel :: nat

record ('io, 'r, 'h) NativeStreamConnection =
  c_io :: 'io
  c_handler :: 'h
  c_read_limiter :: 'r
  c_write_limiter :: 'r
  c_read_buffer_size :: nat
  hs_done :: bool
  hs_need_restart_read :: bool
  hs_pending_restart_writes :: bool
  c_read_buffer :: NoncontiguousBuffer
  c_writing_buffers :: WritingBufferList
  c_cache :: block_cache
  c_events :: "event list"

definition NSC_new :: "'io \<Rightarrow> 'h \<Rightarrow> 'r \<Rightarrow> 'r \<Rightarrow> nat \<Rightarrow> block_cache \<Rightarrow> ('io, 'r, 'h) NativeStreamConnection" where
  "NSC_new io h rl wl buffer_size cache =
     \<lparr>c_io = io, c_handler = h, c_read_limiter = rl, c_write_limiter = wl, c_read_buffer_size = buffer_size,
      hs_done = False, hs_need_restart_read = True, hs_pending_restart_writes = False,
      c_read_buffer = NB_new, c_writing_buffers = WBL_new, c_cache = cache, c_events = []\<rparr>"

definition emit :: "event \<Rightarrow> ('io, 'r, 'h) NativeStreamConnection \<Rightarrow> ('io, 'r, 'h) NativeStreamConnection" where
  "emit ev c = c\<lparr>c_events := c_events c @ [ev]\<rparr>"

section \<open>Handshaking\<close>

definition DoHandshake ::
    "('io, 'r, 'h) conn_env \<Rightarrow> bool \<Rightarrow> ('io, 'r, 'h) NativeStreamConnection
     \<Rightarrow> (HandshakingStatus \<times> ('io, 'r, 'h) NativeStreamConnection) result" where
  "DoHandshake e from_on_readable c =
     (if hs_done c then Inr (HS_Success, c)
      else let (status, io) = e_handshake e (c_io c); c = c\<lparr>c_io := io\<rparr>
           in case status of
                HS_Error \<Rightarrow> Inr (status, c)
              | HS_Success \<Rightarrow>
                  if hs_need_restart_read c \<and> from_on_readable then Inl Check_failed
                  else let c = (if hs_need_restart_read c then emit (Ev_RestartReadIn 0) c else c);
                           c = (if hs_pending_restart_writes c \<and> from_on_readable
                                then emit (Ev_RestartWriteIn 0) c else c)
                       in Inr (status, c\<lparr>hs_done := True\<rparr>)
              | HS_WannaWrite \<Rightarrow> Inr (status, c\<lparr>hs_need_restart_read := True\<rparr>)
              | HS_WannaRead \<Rightarrow> Inr (status, c\<lparr>hs_need_restart_read := False\<rparr>))"

definition StartHandshaking ::
    "('io, 'r, 'h) conn_env \<Rightarrow> ('io, 'r, 'h) NativeStreamConnection \<Rightarrow> ('io, 'r, 'h) NativeStreamConnection result" where
  "StartHandshaking e c =
     rbind (DoHandshake e False c) (\<lambda>(status, c).
       case status of
         HS_Error \<Rightarrow> Inr (emit (Ev_Kill HandshakeFailed) c)
       | HS_Success \<Rightarrow> Inr c
       | HS_WannaRead \<Rightarrow> Inr (emit (Ev_RestartReadIn 0) c)
       | HS_WannaWrite \<Rightarrow> Inr (emit (Ev_RestartWriteIn 0) c))"

section \<open>Writing\<close>

definition ENOTCONN :: int where
  "ENOTCONN = 107"

lemma rbind_cong [fundef_cong]:
  "m = m' \<Longrightarrow> (\<And>x. m' = Inr x \<Longrightarrow> f x = g x) \<Longrightarrow> rbind m f = rbind m' g"
  by (cases m') auto

function FlushWritingBuffer_loop ::
    "('io, 'r, 'h) conn_env \<Rightarrow> nat \<Rightarrow> bool \<Rightarrow> bool \<Rightarrow> ('io, 'r, 'h) NativeStreamConnection
     \<Rightarrow> (FlushStatus \<times> ('io, 'r, 'h) NativeStreamConnection) result" where
  "FlushWritingBuffer_loop e bytes_quota rate_limited ever_succeeded c =
     (if bytes_quota = 0 then Inr (if rate_limited then RateLimited else QuotaExceeded, c)
      else rbind (FlushTo (e_fuel e) (e_iov_max e) (e_writev e) (c_io c) bytes_quota (c_writing_buffers c)) (\<lambda>r.
        let c = c\<lparr>c_io := fr_io r, c_writing_buffers := fr_list r\<rparr>; written = fr_rc r
        in if written = 0 then Inr (if ever_succeeded then PartialWrite else NothingWritten, c)
           else if written < 0
           then Inr (if fr_err r = EAGAIN \<or> fr_err r = EWOULDBLOCK \<or> fr_err r = ENOTCONN then SystemBufferSaturated
                     else if ever_succeeded then FlushError else NothingWritten, c)
           else if \<not> written \<le> int bytes_quota then Inl Check_failed
           else rbind (e_cons e (c_write_limiter c) (nat written)) (\<lambda>lim.
             let c = c\<lparr>c_write_limiter := lim, c_events := c_events c @ map Ev_DataWritten (fr_ctxs r)\<rparr>
             in if fr_short_write r \<and> fr_emptied r then Inl Check_failed
                else if fr_emptied r then check (fr_ctxs r \<noteq> []) (Inr (Flushed, c))
                else if fr_short_write r then Inr (SystemBufferSaturated, c)
                else FlushWritingBuffer_loop e (bytes_quota - nat written) rate_limited True c)))"
  by pat_completeness auto
termination by (relation "measure (\<lambda>(_, bytes_quota, _). bytes_quota)") auto

declare FlushWritingBuffer_loop.simps [simp del]

definition FlushWritingBuffer ::
    "('io, 'r, 'h) conn_env \<Rightarrow> nat \<Rightarrow> nat \<Rightarrow> ('io, 'r, 'h) NativeStreamConnection
     \<Rightarrow> (FlushStatus \<times> ('io, 'r, 'h) NativeStreamConnection) result" where
  "FlushWritingBuffer e now max_bytes c =
     (let (quota, lim) = e_getq e (c_write_limiter c) now; bytes_quota = min max_bytes quota
      in FlushWritingBuffer_loop e bytes_quota (bytes_quota \<noteq> max_bytes) False (c\<lparr>c_write_limiter := lim\<rparr>))"

definition kMaximumBytesPerCall :: nat where
  "kMaximumBytesPerCall = 1048576"

text \<open>\<open>node\<close> is the node the object pool hands out.\<close>

definition Write ::
    "('io, 'r, 'h) conn_env \<Rightarrow> nat \<Rightarrow> nat \<Rightarrow> NoncontiguousBuffer \<Rightarrow> nat \<Rightarrow> ('io, 'r, 'h) NativeStreamConnection
     \<Rightarrow> (bool \<times> ('io, 'r, 'h) NativeStreamConnection) result" where
  "Write e now node buffer ctx c =
     rbind (Append node buffer ctx (c_writing_buffers c)) (\<lambda>(first, l).
       let c = c\<lparr>c_writing_buffers := l\<rparr>
       in if \<not> first then Inr (True, c)
          else if \<not> hs_done c
          then check (\<not> hs_pending_restart_writes c) (Inr (True, c\<lparr>hs_pending_restart_writes := True\<rparr>))
          else rbind (FlushWritingBuffer e now kMaximumBytesPerCall c) (\<lambda>(status, c).
            case status of
              SystemBufferSaturated \<Rightarrow> Inr (True, emit (Ev_RestartWriteIn 0) c)
            | QuotaExceeded \<Rightarrow> Inr (True, emit (Ev_RestartWriteIn 0) c)
            | RateLimited \<Rightarrow> Inr (True, emit (Ev_RestartWriteIn 0) c)
            | Flushed \<Rightarrow> Inr (True, emit Ev_WriteBufferEmpty c)
            | PartialWrite \<Rightarrow> Inr (True, emit (Ev_Kill CR_Error) c)
            | FlushError \<Rightarrow> Inr (True, emit (Ev_Kill CR_Error) c)
            | NothingWritten \<Rightarrow> Inr (False, emit (Ev_Kill Disconnect) c)))"

definition size_t_max :: nat where
  "size_t_max = 2 ^ 64 - 1"

definition OnWritable_flush ::
    "('io, 'r, 'h) conn_env \<Rightarrow> nat \<Rightarrow> ('io, 'r, 'h) NativeStreamConnection
     \<Rightarrow> (EventAction \<times> ('io, 'r, 'h) NativeStreamConnection) result" where
  "OnWritable_flush e now c =
     rbind (FlushWritingBuffer e now size_t_max c) (\<lambda>(status, c).
       case status of
         SystemBufferSaturated \<Rightarrow> Inr (Ready, c)
       | RateLimited \<Rightarrow> Inr (Suppress, emit (Ev_RestartWriteIn 1000000) c)
       | Flushed \<Rightarrow> Inr (Suppress, emit Ev_WriteBufferEmpty c)
       | PartialWrite \<Rightarrow> Inr (Leaving, emit (Ev_Kill Disconnect) c)
       | NothingWritten \<Rightarrow> Inr (Leaving, emit (Ev_Kill Disconnect) c)
       | FlushError \<Rightarrow> Inr (Leaving, emit (Ev_Kill CR_Error) c)
       | QuotaExceeded \<Rightarrow> Inl Check_failed)"

definition OnWritable ::
    "('io, 'r, 'h) conn_env \<Rightarrow> nat \<Rightarrow> ('io, 'r, 'h) NativeStreamConnection
     \<Rightarrow> (EventAction \<times> ('io, 'r, 'h) NativeStreamConnection) result" where
  "OnWritable e now c =
     (if hs_done c then OnWritable_flush e now c
      else rbind (DoHandshake e False c) (\<lambda>(action, c).
        case action of
          HS_Error \<Rightarrow> Inr (Leaving, emit (Ev_Kill CR_Error) c)
        | HS_WannaWrite \<Rightarrow> Inr (Ready, c)
        | HS_WannaRead \<Rightarrow> Inr (Suppress, emit (Ev_RestartReadIn 0) c)
        | HS_Success \<Rightarrow> check (hs_done c) (OnWritable_flush e now c)))"

section \<open>Reading\<close>

definition ConsumeReadBuffer ::
    "('io, 'r, 'h) conn_env \<Rightarrow> ('io, 'r, 'h) NativeStreamConnection \<Rightarrow> EventAction \<times> ('io, 'r, 'h) NativeStreamConnection" where
  "ConsumeReadBuffer e c =
     (let (action, buffer, h) = e_on_data e (c_handler c) (c_read_buffer c);
          c = c\<lparr>c_read_buffer := buffer, c_handler := h\<rparr>
      in case action of
           DC_Ready \<Rightarrow> (Ready, c)
         | DC_Error \<Rightarrow> (Leaving, emit (Ev_Kill CR_Error) c)
         | DC_SuppressRead \<Rightarrow> (Suppress, c))"

text \<open>
  What follows a read that read something: the handler is called, and a full buffer it leaves is an
  error. The result is \<open>None\<close> if the loop goes on.
\<close>

definition hand_over ::
    "('io, 'r, 'h) conn_env \<Rightarrow> ('io, 'r, 'h) NativeStreamConnection \<Rightarrow> EventAction option \<times> ('io, 'r, 'h) NativeStreamConnection" where
  "hand_over e c =
     (let (rc, c) = (if NB_ByteSize (c_read_buffer c) \<noteq> 0 then ConsumeReadBuffer e c else (Ready, c))
      in if rc \<noteq> Ready then (Some rc, c)
         else if NB_ByteSize (c_read_buffer c) \<ge> c_read_buffer_size c then (Some Leaving, emit (Ev_Kill CR_Error) c)
         else (None, c))"

text \<open>The subtraction of the sizes is one of unsigned 64-bit numbers.\<close>

definition bytes_to_read :: "nat \<Rightarrow> ('io, 'r, 'h) NativeStreamConnection \<Rightarrow> nat" where
  "bytes_to_read bytes_left c =
     (let size = c_read_buffer_size c; used = NB_ByteSize (c_read_buffer c)
      in min bytes_left (if used \<le> size then size - used else size + 2 ^ 64 - used))"

definition read_some ::
    "('io, 'r, 'h) conn_env \<Rightarrow> nat \<Rightarrow> ('io, 'r, 'h) NativeStreamConnection
     \<Rightarrow> (ReadStatus \<times> nat \<times> ('io, 'r, 'h) NativeStreamConnection) result" where
  "read_some e bytes_left c =
     rbind (ReadAtMost (e_pool e) (e_readv e) (bytes_to_read bytes_left c) (c_io c) (c_cache c) (c_read_buffer c))
       (\<lambda>(status, bytes_read, io, cache, buffer).
          rbind (e_cons e (c_read_limiter c) bytes_read) (\<lambda>lim.
            Inr (status, bytes_read,
                 c\<lparr>c_io := io, c_cache := cache, c_read_buffer := buffer, c_read_limiter := lim\<rparr>)))"

lemma ReadAtMost_max: "ReadAtMost pool readv n io cache to = Inr (MaxBytesRead, k, r) \<Longrightarrow> k = n"
proof -
  have "ReadAtMost_loop pool readv m left n io cache to = Inr (MaxBytesRead, k, r) \<Longrightarrow> k = m" for m left n
  proof (induction left arbitrary: n io cache to rule: less_induct)
    case (less left)
    from less.prems show ?case
      by (subst (asm) ReadAtMost_loop.simps) (auto simp: result_iffs split: if_splits prod.splits intro: less.IH [rotated])
  qed
  then show "ReadAtMost pool readv n io cache to = Inr (MaxBytesRead, k, r) \<Longrightarrow> k = n" by (simp add: ReadAtMost_def)
qed

lemma read_some_max:
  assumes "read_some e bytes_left c = Inr (MaxBytesRead, k, c')"
  shows "k = bytes_to_read bytes_left c \<and> c_read_buffer_size c' = c_read_buffer_size c"
  using assms by (auto simp: read_some_def result_iffs dest: ReadAtMost_max split: prod.splits)

lemma hand_over_None:
  "hand_over e c = (None, c') \<Longrightarrow>
   c_read_buffer_size c' = c_read_buffer_size c \<and> NB_ByteSize (c_read_buffer c') < c_read_buffer_size c"
  by (auto simp: hand_over_def ConsumeReadBuffer_def emit_def Let_def
      split: prod.splits if_splits DataConsumptionStatus.splits)

definition buffer_full :: "('io, 'r, 'h) NativeStreamConnection \<Rightarrow> bool" where
  "buffer_full c \<longleftrightarrow> NB_ByteSize (c_read_buffer c) \<ge> c_read_buffer_size c"

function OnReadable_loop ::
    "('io, 'r, 'h) conn_env \<Rightarrow> nat \<Rightarrow> bool \<Rightarrow> ('io, 'r, 'h) NativeStreamConnection
     \<Rightarrow> (EventAction \<times> ('io, 'r, 'h) NativeStreamConnection) result" where
  "OnReadable_loop e bytes_left rate_limited c =
     (if bytes_left = 0 then Inr (Suppress, emit (Ev_RestartReadIn 1000000) c)
      else rbind (read_some e bytes_left c) (\<lambda>(status, bytes_read, c).
        let bytes_left = bytes_left - bytes_read
        in if status = ReadError then Inr (Leaving, emit (Ev_Kill CR_Error) c)
           else case hand_over e c of
                  (Some rc, c) \<Rightarrow> Inr (rc, c)
                | (None, c) \<Rightarrow>
                    if status = Drained then Inr (Ready, c)
                    else if status = PeerClosing then Inr (Leaving, emit (Ev_Kill Disconnect) c)
                    else if bytes_left \<noteq> 0 then OnReadable_loop e bytes_left rate_limited c
                    else check rate_limited (Inr (Suppress, emit (Ev_RestartReadIn 1000000) c))))"
  by pat_completeness auto
termination
proof (relation "measures [\<lambda>(_, bytes_left, _, _). bytes_left, \<lambda>(_, _, _, c). if buffer_full c then 1 else 0]", goal_cases)
  case (2 e bytes_left rate_limited c r status q bytes_read c1 left ho c2)
  then have "status = MaxBytesRead" by (cases status) auto
  with 2 read_some_max [of e bytes_left c bytes_read c1] hand_over_None [of e c1 c2]
  show ?case by (auto simp: bytes_to_read_def buffer_full_def Let_def split: if_splits)
qed simp

declare OnReadable_loop.simps [simp del]

definition OnReadable_read ::
    "('io, 'r, 'h) conn_env \<Rightarrow> nat \<Rightarrow> ('io, 'r, 'h) NativeStreamConnection
     \<Rightarrow> (EventAction \<times> ('io, 'r, 'h) NativeStreamConnection) result" where
  "OnReadable_read e now c =
     (let (bytes_left, lim) = e_getq e (c_read_limiter c) now
      in OnReadable_loop e bytes_left (bytes_left \<noteq> size_t_max) (c\<lparr>c_read_limiter := lim\<rparr>))"

definition OnReadable ::
    "('io, 'r, 'h) conn_env \<Rightarrow> nat \<Rightarrow> ('io, 'r, 'h) NativeStreamConnection
     \<Rightarrow> (EventAction \<times> ('io, 'r, 'h) NativeStreamConnection) result" where
  "OnReadable e now c =
     (if hs_done c then OnReadable_read e now c
      else rbind (DoHandshake e True c) (\<lambda>(action, c).
        case action of
          HS_Error \<Rightarrow> Inr (Leaving, emit (Ev_Kill CR_Error) c)
        | HS_WannaRead \<Rightarrow> Inr (Ready, c)
        | HS_WannaWrite \<Rightarrow> Inr (Suppress, emit (Ev_RestartWriteIn 0) c)
        | HS_Success \<Rightarrow> check (hs_done c) (OnReadable_read e now c)))"

section \<open>The rest\<close>

definition RestartRead :: "('io, 'r, 'h) NativeStreamConnection \<Rightarrow> ('io, 'r, 'h) NativeStreamConnection" where
  "RestartRead c = emit (Ev_RestartReadIn 0) c"

definition Stop :: "('io, 'r, 'h) NativeStreamConnection \<Rightarrow> ('io, 'r, 'h) NativeStreamConnection" where
  "Stop c = emit (Ev_Kill UserInitiated) c"

definition OnError :: "('io, 'r, 'h) NativeStreamConnection \<Rightarrow> ('io, 'r, 'h) NativeStreamConnection" where
  "OnError c = emit (Ev_Kill CR_Error) c"

definition OnCleanup ::
    "CleanupReason \<Rightarrow> ('io, 'r, 'h) NativeStreamConnection \<Rightarrow> ('io, 'r, 'h) NativeStreamConnection result" where
  "OnCleanup reason c =
     check (reason \<noteq> CR_None)
       (Inr (emit Ev_OnDetach
              (emit (if reason = UserInitiated \<or> reason = Disconnect then Ev_OnClose else Ev_OnError) c)))"

section \<open>What a flush does\<close>

text \<open>
  The first \<open>n\<close> pending bytes have gone to the stream, and exactly the buffers that are gone have
  been reported.
\<close>

definition flushed_to ::
    "('io \<Rightarrow> string) \<Rightarrow> ('io, 'r, 'h) NativeStreamConnection \<Rightarrow> (string \<times> nat) list
     \<Rightarrow> nat \<Rightarrow> ('io, 'r, 'h) NativeStreamConnection \<Rightarrow> (string \<times> nat) list \<Rightarrow> bool" where
  "flushed_to sent c p n c' p' \<longleftrightarrow>
     wbl_rep (c_writing_buffers c') p' \<and> n \<le> length (pending_bytes p) \<and>
     sent (c_io c') = sent (c_io c) @ take n (pending_bytes p) \<and> pending_bytes p' = drop n (pending_bytes p) \<and>
     (\<exists>cs. c_events c' = c_events c @ map Ev_DataWritten cs \<and> cs @ map snd p' = map snd p)"

lemma flushed_to_length: "flushed_to sent c p n c' p' \<Longrightarrow> length p' \<le> length p"
  unfolding flushed_to_def by (metis length_append length_map le_add2)

lemma flushed_to_refl:
  "wbl_rep (c_writing_buffers c') p \<Longrightarrow> sent (c_io c') = sent (c_io c) \<Longrightarrow> c_events c' = c_events c \<Longrightarrow>
   flushed_to sent c p 0 c' p"
  by (simp add: flushed_to_def)

lemma flushed_to_trans:
  assumes "flushed_to sent c p n c1 p1" "flushed_to sent c1 p1 m c2 p2"
  shows "flushed_to sent c p (n + m) c2 p2"
proof -
  obtain cs1 cs2 where cs: "c_events c1 = c_events c @ map Ev_DataWritten cs1" "cs1 @ map snd p1 = map snd p"
      "c_events c2 = c_events c1 @ map Ev_DataWritten cs2" "cs2 @ map snd p2 = map snd p1"
    using assms by (auto simp: flushed_to_def)
  have n: "n \<le> length (pending_bytes p)" and p1: "pending_bytes p1 = drop n (pending_bytes p)"
    and m: "m \<le> length (pending_bytes p1)" using assms by (simp_all add: flushed_to_def)
  have "m \<le> length (pending_bytes p) - n" using m unfolding p1 by simp
  then have "n + m \<le> length (pending_bytes p)" using n by simp
  moreover have "c_events c2 = c_events c @ map Ev_DataWritten (cs1 @ cs2) \<and> (cs1 @ cs2) @ map snd p2 = map snd p"
    using cs by simp
  moreover have "take n (pending_bytes p) @ take m (drop n (pending_bytes p)) = take (n + m) (pending_bytes p)"
    by (simp add: take_add)
  moreover have "sent (c_io c1) = sent (c_io c) @ take n (pending_bytes p)" "sent (c_io c2) = sent (c_io c1) @ take m (drop n (pending_bytes p))"
    using assms p1 by (simp_all add: flushed_to_def)
  moreover have "pending_bytes p2 = drop (n + m) (pending_bytes p)" "wbl_rep (c_writing_buffers c2) p2"
    using assms(2) p1 by (simp_all add: flushed_to_def add.commute)
  ultimately show ?thesis unfolding flushed_to_def by (intro conjI exI [of _ "cs1 @ cs2"]) simp_all
qed

text \<open>What the status of a flush says.\<close>

definition flush_outcome ::
    "nat \<Rightarrow> bool \<Rightarrow> bool \<Rightarrow> (string \<times> nat) list \<Rightarrow> FlushStatus \<Rightarrow> nat \<Rightarrow> (string \<times> nat) list \<Rightarrow> bool" where
  "flush_outcome quota limited ever p st n p' \<longleftrightarrow>
     n \<le> quota \<and> (st = Flushed \<longleftrightarrow> p' = []) \<and> (st = RateLimited \<longrightarrow> limited \<and> n = quota) \<and>
     (st = QuotaExceeded \<longrightarrow> \<not> limited \<and> n = quota) \<and> (st = NothingWritten \<longrightarrow> \<not> ever \<and> n = 0 \<and> p' = p)"

section \<open>What a read does\<close>

text \<open>
  The handler takes bytes from the front of the buffer, as its interface asks; \<open>consumed\<close> is what it
  has taken so far.
\<close>

definition handler_ok ::
    "('h \<Rightarrow> NoncontiguousBuffer \<Rightarrow> DataConsumptionStatus \<times> NoncontiguousBuffer \<times> 'h) \<Rightarrow> ('h \<Rightarrow> string) \<Rightarrow> bool" where
  "handler_ok on_data consumed \<longleftrightarrow>
     (\<forall>h nb st nb' h'. nb_invar nb \<longrightarrow> on_data h nb = (st, nb', h') \<longrightarrow>
        nb_invar nb' \<and> (\<exists>k. consumed h' = consumed h @ take k (nb_bytes nb) \<and> nb_bytes nb' = drop k (nb_bytes nb)))"

definition read_ok :: "nat \<Rightarrow> ('io, 'r, 'h) NativeStreamConnection \<Rightarrow> bool" where
  "read_ok block_size c \<longleftrightarrow> nb_invar (c_read_buffer c) \<and> cache_ok block_size (c_cache c) \<and>
     NB_ByteSize (c_read_buffer c) \<le> c_read_buffer_size c"

text \<open>All the bytes of the incoming stream: consumed, buffered and to come.\<close>

definition incoming :: "('io \<Rightarrow> string) \<Rightarrow> ('h \<Rightarrow> string) \<Rightarrow> ('io, 'r, 'h) NativeStreamConnection \<Rightarrow> string" where
  "incoming stream consumed c = consumed (c_handler c) @ nb_bytes (c_read_buffer c) @ stream (c_io c)"

text \<open>What \<^verbatim>\<open>Descriptor\<close> expects of an action.\<close>

definition action_events :: "EventAction \<Rightarrow> event list \<Rightarrow> bool" where
  "action_events a evs \<longleftrightarrow> (case a of
       Ready \<Rightarrow> evs = []
     | Leaving \<Rightarrow> \<exists>reason. reason \<noteq> CR_None \<and> evs = [Ev_Kill reason]
     | Suppress \<Rightarrow> evs = [] \<or> evs = [Ev_RestartReadIn 1000000])"

lemma ByteSize_length: "nb_invar nb \<Longrightarrow> NB_ByteSize nb = length (nb_bytes nb)"
  by (simp add: NB_ByteSize_def nb_invar_length)

lemma hand_over_ok:
  assumes h: "handler_ok (e_on_data e) consumed" and ok: "read_ok sz c" and r: "hand_over e c = (r, c')"
  shows "read_ok sz c' \<and> incoming stream consumed c' = incoming stream consumed c \<and> c_io c' = c_io c \<and>
     c_read_limiter c' = c_read_limiter c \<and>
     (case r of None \<Rightarrow> c_events c' = c_events c
      | Some a \<Rightarrow> \<exists>evs. c_events c' = c_events c @ evs \<and> action_events a evs)"
proof -
  obtain st nb h' where d: "e_on_data e (c_handler c) (c_read_buffer c) = (st, nb, h')"
    by (cases "e_on_data e (c_handler c) (c_read_buffer c)") auto
  obtain k where nb: "nb_invar nb" "consumed h' = consumed (c_handler c) @ take k (nb_bytes (c_read_buffer c))"
      "nb_bytes nb = drop k (nb_bytes (c_read_buffer c))"
    using h ok d unfolding handler_ok_def read_ok_def by blast
  have sz: "NB_ByteSize nb \<le> NB_ByteSize (c_read_buffer c)" using nb(1,3) ok by (simp add: ByteSize_length read_ok_def)
  show ?thesis
  proof (cases "NB_ByteSize (c_read_buffer c) = 0")
    case True
    with r ok show ?thesis by (auto simp: hand_over_def read_ok_def incoming_def emit_def action_events_def split: if_splits)
  next
    case False
    have "read_ok sz (c\<lparr>c_read_buffer := nb, c_handler := h'\<rparr>)" using ok sz nb(1) by (simp add: read_ok_def)
    moreover have "incoming stream consumed (c\<lparr>c_read_buffer := nb, c_handler := h'\<rparr>) = incoming stream consumed c"
      using nb(2,3) by (simp add: incoming_def)
    ultimately show ?thesis using r False d
      by (cases st) (auto simp: hand_over_def ConsumeReadBuffer_def read_ok_def incoming_def emit_def action_events_def split: if_splits)
  qed
qed

lemma bytes_to_read_room:
  "NB_ByteSize (c_read_buffer c) \<le> c_read_buffer_size c \<Longrightarrow>
   bytes_to_read n c = min n (c_read_buffer_size c - NB_ByteSize (c_read_buffer c))"
  by (simp add: bytes_to_read_def Let_def)

locale quota_source =
  fixes getq :: "'r \<Rightarrow> nat \<Rightarrow> nat \<times> 'r"
    and cons :: "'r \<Rightarrow> nat \<Rightarrow> 'r result"
    and fine :: "'r \<Rightarrow> bool"
    and allows :: "'r \<Rightarrow> nat \<Rightarrow> bool"
  assumes grant: "fine r \<Longrightarrow> getq r now = (q, r') \<Longrightarrow> allows r' q"
    and charge: "allows r n \<Longrightarrow> m \<le> n \<Longrightarrow> \<exists>r'. cons r m = Inr r' \<and> allows r' (n - m)"
    and narrow: "allows r n \<Longrightarrow> m \<le> n \<Longrightarrow> allows r m"
begin

lemma flush_loop:
  assumes e: "e_cons e = cons" and io: "writev_ok (e_writev e) sent"
  shows "wbl_rep (c_writing_buffers c) p \<Longrightarrow> p \<noteq> [] \<Longrightarrow> length p \<le> e_fuel e \<Longrightarrow> allows (c_write_limiter c) quota \<Longrightarrow>
    \<exists>st c' n p'. FlushWritingBuffer_loop e quota limited ever c = Inr (st, c') \<and> flushed_to sent c p n c' p' \<and>
      flush_outcome quota limited ever p st n p'"
proof (induction quota arbitrary: c p ever rule: less_induct)
  case (less quota)
  show ?case
  proof (cases "quota = 0")
    case True
    let ?st = "if limited then RateLimited else QuotaExceeded"
    have "FlushWritingBuffer_loop e quota limited ever c = Inr (?st, c)" unfolding FlushWritingBuffer_loop.simps [of e quota] using True by simp
    moreover have "flush_outcome quota limited ever p ?st 0 p" using True less.prems(2) by (simp add: flush_outcome_def)
    moreover have "flushed_to sent c p 0 c p" using less.prems by (simp add: flushed_to_refl)
    ultimately show ?thesis by blast
  next
    case False
    from FlushTo_ok [OF less.prems(1,2,3) io, of "e_iov_max e" "c_io c" quota] obtain r where
      r: "FlushTo (e_fuel e) (e_iov_max e) (e_writev e) (c_io c) quota (c_writing_buffers c) = Inr r"
      and post: "if fr_rc r \<le> 0 then fr_list r = c_writing_buffers c \<and> sent (fr_io r) = sent (c_io c)
        else \<exists>p'. drop_written (nat (fr_rc r)) p = (fr_ctxs r, p') \<and> wbl_rep (fr_list r) p' \<and>
          sent (fr_io r) = sent (c_io c) @ take (nat (fr_rc r)) (pending_bytes p) \<and>
          nat (fr_rc r) \<le> length (pending_bytes p) \<and> fr_rc r \<le> int quota \<and>
          (fr_emptied r \<longleftrightarrow> p' = []) \<and> \<not> (fr_emptied r \<and> fr_short_write r)" by blast
    note step = FlushWritingBuffer_loop.simps [of e quota limited ever c]
    show ?thesis
    proof (cases "fr_rc r \<le> 0")
      case True
      then have "flushed_to sent c p 0 (c\<lparr>c_io := fr_io r, c_writing_buffers := fr_list r\<rparr>) p"
        using post less.prems(1) by (simp add: flushed_to_refl)
      moreover define st where "st = (if fr_rc r = 0 then if ever then PartialWrite else NothingWritten
        else if fr_err r = EAGAIN \<or> fr_err r = EWOULDBLOCK \<or> fr_err r = ENOTCONN then SystemBufferSaturated
        else if ever then FlushError else NothingWritten)"
      have "FlushWritingBuffer_loop e quota limited ever c = Inr (st, c\<lparr>c_io := fr_io r, c_writing_buffers := fr_list r\<rparr>)"
        unfolding step st_def using True False r by (simp add: Let_def)
      moreover have "flush_outcome quota limited ever p st 0 p" using less.prems(2) by (simp add: flush_outcome_def st_def)
      ultimately show ?thesis by blast
    next
      case pos: False
      then obtain p1 where p1: "drop_written (nat (fr_rc r)) p = (fr_ctxs r, p1)" "wbl_rep (fr_list r) p1"
          "sent (fr_io r) = sent (c_io c) @ take (nat (fr_rc r)) (pending_bytes p)"
          "nat (fr_rc r) \<le> length (pending_bytes p)" "fr_rc r \<le> int quota"
          "fr_emptied r \<longleftrightarrow> p1 = []" "\<not> (fr_emptied r \<and> fr_short_write r)"
        using post by auto
      have "nat (fr_rc r) \<le> quota" using p1(5) by simp
      from charge [OF less.prems(4) this] obtain lim where
        lim: "cons (c_write_limiter c) (nat (fr_rc r)) = Inr lim" "allows lim (quota - nat (fr_rc r))" by blast
      let ?c = "c\<lparr>c_io := fr_io r, c_writing_buffers := fr_list r, c_write_limiter := lim,
          c_events := c_events c @ map Ev_DataWritten (fr_ctxs r)\<rparr>"
      have fl: "flushed_to sent c p (nat (fr_rc r)) ?c p1"
        using drop_written_bytes [OF p1(1)] p1 by (auto simp: flushed_to_def)
      have ctxs: "fr_ctxs r \<noteq> []" if "p1 = []" using drop_written_length [OF p1(1)] less.prems(2) that by auto
      show ?thesis
      proof (cases "fr_emptied r \<or> fr_short_write r")
        case True
        let ?st = "if fr_emptied r then Flushed else SystemBufferSaturated"
        have "FlushWritingBuffer_loop e quota limited ever c = Inr (?st, ?c)"
          unfolding step using True ctxs pos False r lim(1) e p1(5,6,7) by (auto simp: Let_def)
        moreover have "flush_outcome quota limited ever p ?st (nat (fr_rc r)) p1" using p1(5,6) by (simp add: flush_outcome_def)
        ultimately show ?thesis using fl by blast
      next
        case cont: False
        have "quota - nat (fr_rc r) < quota" using False pos by simp
        moreover have "wbl_rep (c_writing_buffers ?c) p1" "p1 \<noteq> []" "length p1 \<le> e_fuel e"
            "allows (c_write_limiter ?c) (quota - nat (fr_rc r))"
          using p1(2,6) cont lim(2) flushed_to_length [OF fl] less.prems(3) by auto
        ultimately obtain st c' n p' where IH: "FlushWritingBuffer_loop e (quota - nat (fr_rc r)) limited True ?c = Inr (st, c')"
            "flushed_to sent ?c p1 n c' p'" "flush_outcome (quota - nat (fr_rc r)) limited True p1 st n p'"
          using less.IH by blast
        have "FlushWritingBuffer_loop e quota limited ever c = Inr (st, c')"
          unfolding step using IH(1) cont pos False r lim(1) e p1(5) by (simp add: Let_def)
        moreover have "flushed_to sent c p (nat (fr_rc r) + n) c' p'" by (rule flushed_to_trans [OF fl IH(2)])
        moreover have "flush_outcome quota limited ever p st (nat (fr_rc r) + n) p'"
          using IH(3) p1(5) by (auto simp: flush_outcome_def)
        ultimately show ?thesis by blast
      qed
    qed
  qed
qed

lemma flush:
  assumes e: "e_getq e = getq" "e_cons e = cons" and io: "writev_ok (e_writev e) sent"
    and c: "wbl_rep (c_writing_buffers c) p" "p \<noteq> []" "length p \<le> e_fuel e" "fine (c_write_limiter c)"
    and q: "quota = min max_bytes (fst (getq (c_write_limiter c) now))"
  shows "\<exists>st c' n p'. FlushWritingBuffer e now max_bytes c = Inr (st, c') \<and> flushed_to sent c p n c' p' \<and>
      flush_outcome quota (quota < max_bytes) False p st n p'"
proof -
  obtain g lim where g: "getq (c_write_limiter c) now = (g, lim)" by fastforce
  have "quota \<le> g" "quota \<noteq> max_bytes \<longleftrightarrow> quota < max_bytes" using q g by auto
  then have "allows lim quota" using grant [OF c(4) g] narrow by blast
  then have "\<exists>st c' n p'. FlushWritingBuffer_loop e quota (quota < max_bytes) False (c\<lparr>c_write_limiter := lim\<rparr>) = Inr (st, c') \<and>
      flushed_to sent (c\<lparr>c_write_limiter := lim\<rparr>) p n c' p' \<and> flush_outcome quota (quota < max_bytes) False p st n p'"
    using flush_loop [OF e(2) io, of "c\<lparr>c_write_limiter := lim\<rparr>" p] c by simp
  moreover have "flushed_to sent (c\<lparr>c_write_limiter := lim\<rparr>) p n c' p' = flushed_to sent c p n c' p'" for n c' p'
    by (simp add: flushed_to_def)
  moreover have "FlushWritingBuffer e now max_bytes c =
      FlushWritingBuffer_loop e quota (quota < max_bytes) False (c\<lparr>c_write_limiter := lim\<rparr>)"
    using g q e(1) \<open>quota \<noteq> max_bytes \<longleftrightarrow> quota < max_bytes\<close> by (simp add: FlushWritingBuffer_def Let_def)
  ultimately show ?thesis by simp
qed

lemma read_some:
  assumes e: "e_cons e = cons" and io: "readv_ok (e_readv e) stream" and pool: "pool_ok sz (e_pool e)"
    and ok: "read_ok sz c" and lim: "allows (c_read_limiter c) left"
  shows "\<exists>st k c'. read_some e left c = Inr (st, k, c') \<and> k \<le> bytes_to_read left c \<and>
     (st = MaxBytesRead \<longleftrightarrow> k = bytes_to_read left c) \<and> read_ok sz c' \<and>
     incoming stream consumed c' = incoming stream consumed c \<and> length (stream (c_io c)) = length (stream (c_io c')) + k \<and>
     allows (c_read_limiter c') (left - k) \<and> c_events c' = c_events c"
proof -
  let ?n = "bytes_to_read left c"
  have nb: "nb_invar (c_read_buffer c)" "cache_ok sz (c_cache c)" "NB_ByteSize (c_read_buffer c) \<le> c_read_buffer_size c"
    using ok by (simp_all add: read_ok_def)
  from ReadAtMost_loop_ok [OF pool io nb(2,1), of 0 ?n ?n "c_io c"] obtain st k io' cache' to' bytes where
    r: "ReadAtMost (e_pool e) (e_readv e) ?n (c_io c) (c_cache c) (c_read_buffer c) = Inr (st, k, io', cache', to')"
      "cache_ok sz cache'" "nb_invar to'" "nb_bytes to' = nb_bytes (c_read_buffer c) @ bytes"
      "stream (c_io c) = bytes @ stream io'" "length bytes = k" "k \<le> ?n" "st = MaxBytesRead \<longleftrightarrow> k = ?n"
    by (auto simp: ReadAtMost_def)
  have "k \<le> left" using r(7) by (simp add: bytes_to_read_room [OF nb(3)])
  from charge [OF lim this] obtain l where l: "cons (c_read_limiter c) k = Inr l" "allows l (left - k)" by blast
  let ?c = "c\<lparr>c_io := io', c_cache := cache', c_read_buffer := to', c_read_limiter := l\<rparr>"
  have "read_some e left c = Inr (st, k, ?c)" using r(1) l(1) e by (simp add: read_some_def)
  moreover have "read_ok sz ?c"
    using r(2,3,4,6,7) nb by (auto simp: read_ok_def ByteSize_length bytes_to_read_room)
  moreover have "incoming stream consumed ?c = incoming stream consumed c" using r(4,5) by (simp add: incoming_def)
  ultimately show ?thesis using r(5-8) l(2) by (intro exI [of _ st] exI [of _ k] exI [of _ ?c]) simp
qed

text \<open>The loop of \<^verbatim>\<open>OnReadable\<close>; without a limit it does not run out of quota.\<close>

lemma read_loop:
  assumes e: "e_cons e = cons" and io: "readv_ok (e_readv e) stream" and pool: "pool_ok sz (e_pool e)"
    and h: "handler_ok (e_on_data e) consumed"
  shows "read_ok sz c \<Longrightarrow> allows (c_read_limiter c) left \<Longrightarrow> (\<not> limited \<Longrightarrow> length (stream (c_io c)) < left) \<Longrightarrow>
    \<exists>a c' evs. OnReadable_loop e left limited c = Inr (a, c') \<and> read_ok sz c' \<and>
      incoming stream consumed c' = incoming stream consumed c \<and> c_events c' = c_events c @ evs \<and> action_events a evs \<and>
      length (stream (c_io c)) \<le> length (stream (c_io c')) + left"
proof (induction "2 * left + (if buffer_full c then 1 else 0 :: nat)" arbitrary: left c rule: less_induct)
  case less
  note step = OnReadable_loop.simps [of e left limited c]
  show ?case
  proof (cases "left = 0")
    case True
    with less.prems(1) show ?thesis unfolding step
      by (auto simp: emit_def read_ok_def incoming_def action_events_def)
  next
    case False
    from read_some [OF e io pool less.prems(1,2), of consumed] obtain st k c1 where
      s: "read_some e left c = Inr (st, k, c1)" "k \<le> bytes_to_read left c" "st = MaxBytesRead \<longleftrightarrow> k = bytes_to_read left c"
        "read_ok sz c1" "incoming stream consumed c1 = incoming stream consumed c"
        "length (stream (c_io c)) = length (stream (c_io c1)) + k" "allows (c_read_limiter c1) (left - k)" "c_events c1 = c_events c"
      by blast
    have k: "k \<le> left" using s(2) less.prems(1) by (simp add: read_ok_def bytes_to_read_room)
    obtain r c2 where ho: "hand_over e c1 = (r, c2)" by fastforce
    note ho' = hand_over_ok [OF h s(4) ho, of stream]
    show ?thesis
    proof (cases "st = MaxBytesRead \<and> r = None \<and> left - k \<noteq> 0")
      case stop: False
      have eof: "limited" if "left - k = 0" using that k s(6) less.prems(3) by fastforce
      have "length (stream (c_io c)) \<le> length (stream (c_io c1)) + left" using s(6) k by simp
      moreover have "\<exists>a c' evs. OnReadable_loop e left limited c = Inr (a, c') \<and> read_ok sz c' \<and>
          incoming stream consumed c' = incoming stream consumed c1 \<and> c_events c' = c_events c1 @ evs \<and>
          action_events a evs \<and> c_io c' = c_io c1"
        using stop eof s(1,4) ho ho' False unfolding step
        by (cases r; cases st) (auto simp: Let_def emit_def read_ok_def incoming_def action_events_def)
      ultimately show ?thesis using s(5,8) by metis
    next
      case True
      then have "st = MaxBytesRead" "left - k \<noteq> 0" and r: "r = None" by auto
      from read_some_max [OF s(1) [unfolded this(1)]] hand_over_None [of e c1 c2] ho r
      have "2 * (left - k) + (if buffer_full c2 then 1 else 0) < 2 * left + (if buffer_full c then 1 else 0 :: nat)"
        using False k less.prems(1) by (auto simp: buffer_full_def read_ok_def bytes_to_read_room)
      moreover have "read_ok sz c2" "allows (c_read_limiter c2) (left - k)" "\<not> limited \<Longrightarrow> length (stream (c_io c2)) < left - k"
        using ho' s(6,7) k less.prems(3) by auto
      ultimately obtain a c' evs where IH: "OnReadable_loop e (left - k) limited c2 = Inr (a, c')" "read_ok sz c'"
          "incoming stream consumed c' = incoming stream consumed c2" "c_events c' = c_events c2 @ evs" "action_events a evs"
          "length (stream (c_io c2)) \<le> length (stream (c_io c')) + (left - k)"
        using less.hyps by blast
      have "OnReadable_loop e left limited c = Inr (a, c')"
        unfolding step using IH(1) True False s(1) ho by (simp add: Let_def)
      then show ?thesis using IH ho' s(5,6,8) k r by (intro exI [of _ a] exI [of _ c'] exI [of _ evs]) simp
    qed
  qed
qed

lemma read:
  assumes e: "e_getq e = getq" "e_cons e = cons" and io: "readv_ok (e_readv e) stream" and pool: "pool_ok sz (e_pool e)"
    and h: "handler_ok (e_on_data e) consumed"
    and c: "hs_done c" "read_ok sz c" "fine (c_read_limiter c)" "length (stream (c_io c)) < size_t_max"
  shows "\<exists>a c' evs. OnReadable e now c = Inr (a, c') \<and> read_ok sz c' \<and>
      incoming stream consumed c' = incoming stream consumed c \<and> c_events c' = c_events c @ evs \<and> action_events a evs \<and>
      length (stream (c_io c)) \<le> length (stream (c_io c')) + fst (getq (c_read_limiter c) now)"
proof -
  obtain g lim where g: "getq (c_read_limiter c) now = (g, lim)" by fastforce
  let ?c = "c\<lparr>c_read_limiter := lim\<rparr>"
  have "read_ok sz ?c" "allows (c_read_limiter ?c) g" "\<not> g \<noteq> size_t_max \<Longrightarrow> length (stream (c_io ?c)) < g"
    using c grant [OF c(3) g] by (simp_all add: read_ok_def)
  from read_loop [OF e(2) io pool h this, of "g \<noteq> size_t_max"] g e(1) c(1) show ?thesis
    by (simp add: OnReadable_def OnReadable_read_def incoming_def)
qed

text \<open>\<^verbatim>\<open>Write\<close> of a connection with nothing pending, and \<^verbatim>\<open>OnWritable\<close>.\<close>

lemma write_first:
  assumes e: "e_getq e = getq" "e_cons e = cons" "0 < e_fuel e" and io: "writev_ok (e_writev e) sent"
    and c: "hs_done c" "wbl_rep (c_writing_buffers c) []" "wl_nodes (c_writing_buffers c) node = None" "nb_invar buffer"
      "fine (c_write_limiter c)"
  shows "\<exists>b c' n p' evs. Write e now node buffer ctx c = Inr (b, c') \<and> wbl_rep (c_writing_buffers c') p' \<and>
     n \<le> length (nb_bytes buffer) \<and> n \<le> kMaximumBytesPerCall \<and>
     sent (c_io c') = sent (c_io c) @ take n (nb_bytes buffer) \<and> pending_bytes p' = drop n (nb_bytes buffer) \<and>
     (b = False \<longrightarrow> n = 0 \<and> Ev_Kill Disconnect \<in> set (c_events c'))"
proof -
  from Append_ok [OF c(2,3,4), of ctx] obtain l where
    l: "Append node buffer ctx (c_writing_buffers c) = Inr (True, l)" "wbl_rep l [(nb_bytes buffer, ctx)]" by auto
  let ?c = "c\<lparr>c_writing_buffers := l\<rparr>"
  from flush [OF e(1,2) io, of ?c "[(nb_bytes buffer, ctx)]", OF _ _ _ _ HOL.refl, of now kMaximumBytesPerCall] l(2) e(3) c(5)
  obtain st c' n p' where f: "FlushWritingBuffer e now kMaximumBytesPerCall ?c = Inr (st, c')"
      "flushed_to sent ?c [(nb_bytes buffer, ctx)] n c' p'"
      "flush_outcome (min kMaximumBytesPerCall (fst (getq (c_write_limiter c) now)))
         (min kMaximumBytesPerCall (fst (getq (c_write_limiter c) now)) < kMaximumBytesPerCall) False [(nb_bytes buffer, ctx)] st n p'"
    by auto
  have "\<exists>b ev. Write e now node buffer ctx c = Inr (b, emit ev c') \<and> (b = False \<longrightarrow> st = NothingWritten \<and> ev = Ev_Kill Disconnect)"
    using l(1) c(1) f(1) by (cases st) (auto simp: Write_def)
  then obtain b ev where w: "Write e now node buffer ctx c = Inr (b, emit ev c')" "b = False \<longrightarrow> st = NothingWritten \<and> ev = Ev_Kill Disconnect"
    by blast
  have "n \<le> kMaximumBytesPerCall" "st = NothingWritten \<longrightarrow> n = 0" using f(3) by (simp_all add: flush_outcome_def)
  moreover have "wbl_rep (c_writing_buffers (emit ev c')) p'" "n \<le> length (nb_bytes buffer)"
      "sent (c_io (emit ev c')) = sent (c_io c) @ take n (nb_bytes buffer)" "pending_bytes p' = drop n (nb_bytes buffer)"
    using f(2) by (simp_all add: flushed_to_def emit_def)
  moreover have "b = False \<longrightarrow> Ev_Kill Disconnect \<in> set (c_events (emit ev c'))" using w(2) by (simp add: emit_def)
  ultimately show ?thesis using w by blast
qed

lemma writable:
  assumes e: "e_getq e = getq" "e_cons e = cons" and io: "writev_ok (e_writev e) sent"
    and c: "hs_done c" "wbl_rep (c_writing_buffers c) p" "p \<noteq> []" "length p \<le> e_fuel e" "fine (c_write_limiter c)"
      "length (pending_bytes p) < size_t_max"
  shows "\<exists>a c' p'. OnWritable e now c = Inr (a, c') \<and> wbl_rep (c_writing_buffers c') p' \<and>
     sent (c_io c') @ pending_bytes p' = sent (c_io c) @ pending_bytes p \<and>
     (a = Ready \<longrightarrow> p' \<noteq> []) \<and> (a = Leaving \<longleftrightarrow> (\<exists>reason. last (c_events c') = Ev_Kill reason \<and> c_events c' \<noteq> c_events c))"
proof -
  from flush [OF e io c(2-5) HOL.refl, of now size_t_max] obtain st c' n p' where
    f: "FlushWritingBuffer e now size_t_max c = Inr (st, c')" "flushed_to sent c p n c' p'"
      "flush_outcome (min size_t_max (fst (getq (c_write_limiter c) now)))
         (min size_t_max (fst (getq (c_write_limiter c) now)) < size_t_max) False p st n p'" by blast
  have "st \<noteq> QuotaExceeded" using f(2,3) c(6) by (auto simp: flush_outcome_def flushed_to_def)
  moreover have sat: "p' \<noteq> []" if "st = SystemBufferSaturated" using f(3) that by (auto simp: flush_outcome_def)
  moreover obtain cs where ev: "c_events c' = c_events c @ map Ev_DataWritten cs" and rep: "wbl_rep (c_writing_buffers c') p'"
      and b: "sent (c_io c') @ pending_bytes p' = sent (c_io c) @ pending_bytes p"
    using f(2) by (auto simp: flushed_to_def)
  moreover have kill: "last (c_events c') \<noteq> Ev_Kill reason \<or> c_events c' = c_events c" for reason
    using ev by (cases cs rule: rev_cases) auto
  moreover have e: "wbl_rep (c_writing_buffers (emit ev c')) p'" "c_io (emit ev c') = c_io c'"
    "c_events (emit ev c') = c_events c' @ [ev]" "c_events (emit ev c') \<noteq> c_events c" for ev
    using rep ev by (simp_all add: emit_def) 
  have w: "OnWritable e now c = OnWritable_flush e now c" using c(1) by (simp add: OnWritable_def)
  show ?thesis
  proof (cases st)
    case SystemBufferSaturated
    then have "OnWritable e now c = Inr (Ready, c')" using w f(1) by (simp add: OnWritable_flush_def)
    with rep b kill sat SystemBufferSaturated show ?thesis by blast
  qed (use w f(1) rep b e \<open>st \<noteq> QuotaExceeded\<close> in \<open>(force simp: OnWritable_flush_def)+\<close>)
qed

end

lemma Write_queued:
  assumes "wbl_rep (c_writing_buffers c) p" "p \<noteq> []" "wl_nodes (c_writing_buffers c) node = None" "nb_invar buffer"
  shows "\<exists>l. Write e now node buffer ctx c = Inr (True, c\<lparr>c_writing_buffers := l\<rparr>)"
proof -
  from Append_ok [OF assms(1,3,4), of ctx] assms(2) obtain l where
    "Append node buffer ctx (c_writing_buffers c) = Inr (False, l)" by auto
  then show ?thesis by (auto simp: Write_def)
qed

section \<open>Limiters\<close>

text \<open>The virtual calls on the limiters of the flags.\<close>

fun RL_GetQuota :: "RateLimiter \<Rightarrow> nat \<Rightarrow> nat \<times> RateLimiter" where
  "RL_GetQuota NullLimiter now = (fst (Null_GetQuota () now), NullLimiter)"
| "RL_GetQuota (ThreadSafeRateLimiter l) now =
     (let (q, l) = TS_GetQuota TB_GetQuota l now in (q, ThreadSafeRateLimiter l))"

fun RL_ConsumeBytes :: "RateLimiter \<Rightarrow> nat \<Rightarrow> RateLimiter result" where
  "RL_ConsumeBytes NullLimiter n = Inr NullLimiter"
| "RL_ConsumeBytes (ThreadSafeRateLimiter l) n =
     rbind (TS_ConsumeBytes TB_ConsumeBytes l n) (\<lambda>l. Inr (ThreadSafeRateLimiter l))"

fun rl_fine :: "RateLimiter \<Rightarrow> bool" where
  "rl_fine NullLimiter = True"
| "rl_fine (ThreadSafeRateLimiter l) = over_consumption_allowed (ts_impl l)"

lemma TB_GetQuota_over: "over_consumption_allowed (snd (TB_GetQuota b now)) = over_consumption_allowed b"
  by (simp add: TB_GetQuota_def Let_def)

lemma TB_ConsumeBytes_over:
  "over_consumption_allowed b \<Longrightarrow> \<exists>b'. TB_ConsumeBytes b n = Inr b' \<and> over_consumption_allowed b'"
  by (simp add: TB_ConsumeBytes_def)

text \<open>The limiters of the flags let a client consume more than it was granted.\<close>

interpretation default_limiter: quota_source RL_GetQuota RL_ConsumeBytes rl_fine "\<lambda>r _. rl_fine r"
proof
  fix r :: RateLimiter and now q r'
  assume "rl_fine r" "RL_GetQuota r now = (q, r')"
  then show "rl_fine r'"
    using TB_GetQuota_over by (cases r) (auto simp: TS_GetQuota_def Let_def split: prod.splits, metis snd_conv)
next
  fix r :: RateLimiter and n m :: nat
  assume "rl_fine r" "m \<le> n"
  then show "\<exists>r'. RL_ConsumeBytes r m = Inr r' \<and> rl_fine r'"
  proof (cases r)
    case (ThreadSafeRateLimiter l)
    with \<open>rl_fine r\<close> TB_ConsumeBytes_over [of "ts_impl l" m] show ?thesis by (auto simp: TS_ConsumeBytes_def)
  qed simp
qed

text \<open>A strict bucket grants what it will let pass.\<close>

definition tb_allows :: "TokenBucket \<Rightarrow> nat \<Rightarrow> bool" where
  "tb_allows b n \<longleftrightarrow> n = 0 \<or> (int n \<le> curr_quota b \<and> curr_quota b < 2 ^ 63)"

interpretation strict_bucket: quota_source TB_GetQuota TB_ConsumeBytes "\<lambda>b. max_quota b < 2 ^ 63" tb_allows
proof
  fix b now q b'
  assume "max_quota b < 2 ^ 63" "TB_GetQuota b now = (q, b')"
  then show "tb_allows b' q" by (auto simp: TB_GetQuota_def tb_allows_def Let_def split: if_splits)
next
  fix b n m
  assume a: "tb_allows b n" "m \<le> n"
  show "\<exists>r'. TB_ConsumeBytes b m = Inr r' \<and> tb_allows r' (n - m)"
  proof (cases "n = 0")
    case True
    with a show ?thesis by (simp add: TB_ConsumeBytes_def tb_allows_def)
  next
    case False
    with a have "int n \<le> curr_quota b" "curr_quota b < 2 ^ 63" by (auto simp: tb_allows_def)
    moreover from this a have "curr_quota b mod 2 ^ 64 = curr_quota b" by simp
    moreover have "int64 (curr_quota b - int m) = curr_quota b - int m" using calculation a by (intro int64_id) auto
    ultimately show ?thesis using a by (simp add: TB_ConsumeBytes_def tb_allows_def of_nat_diff)
  qed
next
  fix b n m
  assume "tb_allows b n" "m \<le> n"
  then show "tb_allows b m" by (auto simp: tb_allows_def)
qed

lemma GetRateLimiterOf_fine: "GetRateLimiterOf bps now = Inr r \<Longrightarrow> rl_fine r"
  by (auto simp: GetRateLimiterOf_def TB_new_def TS_new_def result_iffs split: if_splits)

section \<open>Results\<close>

text \<open>
  C9. A flush of a connection under one of the limiters of the flags always returns. It has sent a
  number of the pending bytes from the front, at most the quota; what is left is still pending;
  \<^verbatim>\<open>OnDataWritten\<close> was called for exactly the buffers that are gone, in order. \<^verbatim>\<open>Flushed\<close> means that nothing is
  left, \<^verbatim>\<open>RateLimited\<close> that the whole quota was used, \<^verbatim>\<open>NothingWritten\<close> that nothing was sent.
\<close>

theorem flush_writing_buffer_exact:
  assumes "e_getq e = RL_GetQuota" and "e_cons e = RL_ConsumeBytes" and "writev_ok (e_writev e) sent"
    and "wbl_rep (c_writing_buffers c) p" and "p \<noteq> []" and "length p \<le> e_fuel e" and "rl_fine (c_write_limiter c)"
    and "quota = min max_bytes (fst (RL_GetQuota (c_write_limiter c) now))"
  shows "\<exists>st c' n p' cs. FlushWritingBuffer e now max_bytes c = Inr (st, c') \<and>
     wbl_rep (c_writing_buffers c') p' \<and> n \<le> quota \<and>
     sent (c_io c') = sent (c_io c) @ take n (pending_bytes p) \<and> pending_bytes p' = drop n (pending_bytes p) \<and>
     c_events c' = c_events c @ map Ev_DataWritten cs \<and> cs @ map snd p' = map snd p \<and>
     (st = Flushed \<longleftrightarrow> p' = []) \<and> (st = RateLimited \<longrightarrow> n = quota \<and> quota < max_bytes) \<and>
     (st = QuotaExceeded \<longrightarrow> n = max_bytes) \<and> (st = NothingWritten \<longrightarrow> n = 0 \<and> p' = p)"
proof -
  from default_limiter.flush [OF assms] obtain st c' n p' where
    f: "FlushWritingBuffer e now max_bytes c = Inr (st, c')" "flushed_to sent c p n c' p'"
       "flush_outcome quota (quota < max_bytes) False p st n p'" by blast
  from f(2) obtain cs where "c_events c' = c_events c @ map Ev_DataWritten cs" "cs @ map snd p' = map snd p"
    by (auto simp: flushed_to_def)
  moreover have "st = QuotaExceeded \<longrightarrow> n = max_bytes" using f(3) assms(8) by (auto simp: flush_outcome_def)
  ultimately show ?thesis using f by (intro exI [of _ st] exI [of _ c'] exI [of _ n] exI [of _ p'] exI [of _ cs])
      (simp add: flushed_to_def flush_outcome_def)
qed

definition demo_env :: "(string, RateLimiter, string) conn_env" where
  "demo_env = \<lparr>e_readv = string_readv, e_writev = (\<lambda>io iov. (int (length (concat iov)), 0, io @ concat iov)),
     e_handshake = (\<lambda>io. (HS_Success, io)), e_getq = RL_GetQuota, e_cons = RL_ConsumeBytes,
     e_on_data = (\<lambda>h nb. (DC_Ready, NB_new, h @ nb_bytes nb)), e_pool = (\<lambda>_. ''????''), e_iov_max = 1024, e_fuel = 8\<rparr>"

abbreviation demo_conn :: "string \<Rightarrow> (string, RateLimiter, string) NativeStreamConnection" where
  "demo_conn io \<equiv> NSC_new io [] NullLimiter NullLimiter 16 \<lparr>bc_blocks = [], bc_count = 0\<rparr>"

lemma demo_env_simps [simp]:
  "e_getq demo_env = RL_GetQuota" "e_cons demo_env = RL_ConsumeBytes" "e_fuel demo_env = 8"
  "e_readv demo_env = string_readv" "pool_ok 4 (e_pool demo_env)"
  by (simp_all add: demo_env_def pool_ok_def)

lemma demo_env_ok: "writev_ok (e_writev demo_env) id" "readv_ok (e_readv demo_env) id" "handler_ok (e_on_data demo_env) id"
proof -
  show "writev_ok (e_writev demo_env) id" by (simp add: writev_ok_def demo_env_def)
  show "readv_ok (e_readv demo_env) id" by (auto simp: readv_ok_def string_readv_def Let_def)
  show "handler_ok (e_on_data demo_env) id"
    unfolding handler_ok_def by (auto simp: demo_env_def NB_new_ok intro!: exI [of _ "length (nb_bytes _)"])
qed

lemma WBL_new_rep: "wbl_rep WBL_new []"
  by (simp add: wbl_rep_def wbl_chain_def WBL_new_def)

lemma demo_pending:
  "\<exists>l. Append 0 two_bytes 7 WBL_new = Inr (True, l) \<and> wbl_rep l [(''ab'', 7)]"
  using Append_ok [OF WBL_new_rep, of 0 two_bytes 7] by (simp add: WBL_new_def)

theorem flush_writing_buffer_exact_witness:
  "\<exists>c st c' n. wbl_rep (c_writing_buffers c) [(''ab'', 7)] \<and> c_io c = ''x'' \<and>
     FlushWritingBuffer demo_env 0 1 c = Inr (st, c') \<and> c_io c' = ''x'' @ take n ''ab'' \<and> n \<le> 1"
proof -
  obtain l where l: "wbl_rep l [(''ab'', 7)]" using demo_pending by blast
  let ?c = "(demo_conn ''x'')\<lparr>c_writing_buffers := l\<rparr>"
  have "wbl_rep (c_writing_buffers ?c) [(''ab'', 7)]" "rl_fine (c_write_limiter ?c)" "c_io ?c = ''x''"
    using l by (simp_all add: NSC_new_def)
  with flush_writing_buffer_exact [OF _ _ demo_env_ok(1) this(1) _ _ this(2) HOL.refl, of 0 1] show ?thesis
    by (intro exI [of _ ?c]) (auto simp: NSC_new_def)
qed

text \<open>
  C10. \<^verbatim>\<open>OnReadable\<close> of a connection whose handshake is done always returns. It neither loses, repeats
  nor reorders a byte of the incoming stream: what the handler has consumed, what is buffered and
  what is still to come make up the same stream as before. The buffer stays within its size, at most the
  quota is read, and the connection is killed exactly if \<^verbatim>\<open>Leaving\<close> is returned.
\<close>

theorem on_readable_exact:
  assumes "e_getq e = RL_GetQuota" and "e_cons e = RL_ConsumeBytes" and "readv_ok (e_readv e) stream"
    and "pool_ok sz (e_pool e)" and "handler_ok (e_on_data e) consumed"
    and "hs_done c" and "read_ok sz c" and "rl_fine (c_read_limiter c)" and "length (stream (c_io c)) < size_t_max"
  shows "\<exists>a c' evs. OnReadable e now c = Inr (a, c') \<and> read_ok sz c' \<and>
     incoming stream consumed c' = incoming stream consumed c \<and>
     length (stream (c_io c)) \<le> length (stream (c_io c')) + fst (RL_GetQuota (c_read_limiter c) now) \<and>
     c_events c' = c_events c @ evs \<and> (a = Leaving \<longleftrightarrow> (\<exists>reason. Ev_Kill reason \<in> set evs))"
proof -
  from default_limiter.read [OF assms, of now] obtain a c' evs where
    r: "OnReadable e now c = Inr (a, c')" "read_ok sz c'" "incoming stream consumed c' = incoming stream consumed c"
       "c_events c' = c_events c @ evs" "action_events a evs"
       "length (stream (c_io c)) \<le> length (stream (c_io c')) + fst (RL_GetQuota (c_read_limiter c) now)" by blast
  have "a = Leaving \<longleftrightarrow> (\<exists>reason. Ev_Kill reason \<in> set evs)"
    using r(5) by (cases a) (auto simp: action_events_def)
  with r show ?thesis by (intro exI [of _ a] exI [of _ c'] exI [of _ evs]) simp
qed

theorem on_readable_exact_witness:
  "\<exists>a c'. OnReadable demo_env 0 ((demo_conn ''hello'')\<lparr>hs_done := True\<rparr>) = Inr (a, c') \<and>
     c_handler c' @ nb_bytes (c_read_buffer c') @ c_io c' = ''hello'' \<and> NB_ByteSize (c_read_buffer c') \<le> c_read_buffer_size c'"
proof -
  let ?c = "(demo_conn ''hello'')\<lparr>hs_done := True\<rparr>"
  have "read_ok 4 ?c" "rl_fine (c_read_limiter ?c)" "length (id (c_io ?c)) < size_t_max" "hs_done ?c"
    by (simp_all add: read_ok_def NSC_new_def cache_ok_def NB_new_ok ByteSize_length size_t_max_def)
  from on_readable_exact [OF _ _ demo_env_ok(2) demo_env_simps(5) demo_env_ok(3) this(4,1,2,3), of 0] show ?thesis
    by (auto simp: incoming_def NSC_new_def NB_new_ok read_ok_def)
qed

text \<open>
  \<^verbatim>\<open>Write\<close> keeps the promise of its interface: if it returns false, no byte of the buffer was sent,
  and the connection is killed. Otherwise the part of the buffer that was not sent is pending.
\<close>

theorem write_false_sends_nothing:
  assumes "e_getq e = RL_GetQuota" and "e_cons e = RL_ConsumeBytes" and "0 < e_fuel e" and "writev_ok (e_writev e) sent"
    and "hs_done c" and "wbl_rep (c_writing_buffers c) []" and "wl_nodes (c_writing_buffers c) node = None"
    and "nb_invar buffer" and "rl_fine (c_write_limiter c)"
  shows "\<exists>b c' n p'. Write e now node buffer ctx c = Inr (b, c') \<and> wbl_rep (c_writing_buffers c') p' \<and>
     n \<le> kMaximumBytesPerCall \<and> sent (c_io c') = sent (c_io c) @ take n (nb_bytes buffer) \<and>
     pending_bytes p' = drop n (nb_bytes buffer) \<and> (\<not> b \<longrightarrow> n = 0 \<and> Ev_Kill Disconnect \<in> set (c_events c'))"
  using default_limiter.write_first [OF assms, of now ctx] by auto

theorem write_false_sends_nothing_witness:
  "\<exists>b c' p'. Write demo_env 0 0 two_bytes 7 ((demo_conn ''x'')\<lparr>hs_done := True\<rparr>) = Inr (b, c') \<and>
     wbl_rep (c_writing_buffers c') p' \<and> c_io c' @ pending_bytes p' = ''xab''"
proof -
  let ?c = "(demo_conn ''x'')\<lparr>hs_done := True\<rparr>"
  have "wbl_rep (c_writing_buffers ?c) []" "wl_nodes (c_writing_buffers ?c) 0 = None" "hs_done ?c" "rl_fine (c_write_limiter ?c)"
    using WBL_new_rep by (simp_all add: NSC_new_def WBL_new_def)
  from write_false_sends_nothing [OF _ _ _ demo_env_ok(1) this(3,1,2) _ this(4), of two_bytes 0 7] show ?thesis
    by (fastforce simp: NSC_new_def)
qed

text \<open>
  C30. A buffer written before \<^verbatim>\<open>StartHandshaking\<close> is never flushed if the handshake succeeds at once, as
  that of a plain socket does: \<^verbatim>\<open>StartHandshaking\<close> passes \<open>from_on_readable = false\<close>, so that \<^verbatim>\<open>DoHandshake\<close> leaves
  it to its caller to go on writing, which \<^verbatim>\<open>StartHandshaking\<close> does not do. No write event is asked for,
  then or by any later \<^verbatim>\<open>Write\<close>.
\<close>

theorem write_before_handshake_stuck:
  assumes "\<not> hs_done c" and "\<not> hs_pending_restart_writes c" and "e_handshake e (c_io c) = (HS_Success, io)"
    and "wbl_rep (c_writing_buffers c) []" and "wl_nodes (c_writing_buffers c) node = None" and "nb_invar buffer"
  shows "\<exists>c1 c2. Write e now node buffer ctx c = Inr (True, c1) \<and> StartHandshaking e c1 = Inr c2 \<and> hs_done c2 \<and>
     c_io c2 = io \<and> wbl_rep (c_writing_buffers c2) [(nb_bytes buffer, ctx)] \<and>
     c_events c2 = c_events c @ (if hs_need_restart_read c then [Ev_RestartReadIn 0] else []) \<and>
     (\<forall>node' buffer' ctx' now'. wl_nodes (c_writing_buffers c2) node' = None \<longrightarrow> nb_invar buffer' \<longrightarrow>
        (\<exists>l. Write e now' node' buffer' ctx' c2 = Inr (True, c2\<lparr>c_writing_buffers := l\<rparr>)))"
proof -
  from Append_ok [OF assms(4,5,6), of ctx] obtain l where
    l: "Append node buffer ctx (c_writing_buffers c) = Inr (True, l)" "wbl_rep l [(nb_bytes buffer, ctx)]" by auto
  let ?c1 = "c\<lparr>c_writing_buffers := l, hs_pending_restart_writes := True\<rparr>"
  have 1: "Write e now node buffer ctx c = Inr (True, ?c1)" using l(1) assms(1,2) by (simp add: Write_def)
  define c2 where "c2 = c\<lparr>c_writing_buffers := l, hs_pending_restart_writes := True, c_io := io, hs_done := True,
    c_events := c_events c @ (if hs_need_restart_read c then [Ev_RestartReadIn 0] else [])\<rparr>"
  have 2: "StartHandshaking e ?c1 = Inr c2" using assms(1,3) by (simp add: StartHandshaking_def DoHandshake_def emit_def c2_def)
  have c2: "hs_done c2" "c_io c2 = io" "c_writing_buffers c2 = l"
      "c_events c2 = c_events c @ (if hs_need_restart_read c then [Ev_RestartReadIn 0] else [])"
    by (simp_all add: c2_def)
  have rep2: "wbl_rep (c_writing_buffers c2) [(nb_bytes buffer, ctx)]" using c2(3) l(2) by simp
  with 1 2 c2 Write_queued [OF rep2] show ?thesis by (intro exI [of _ ?c1] exI [of _ c2]) blast
qed

theorem write_before_handshake_stuck_witness:
  "\<exists>c1 c2. Write demo_env 0 0 two_bytes 7 (demo_conn ''x'') = Inr (True, c1) \<and> StartHandshaking demo_env c1 = Inr c2 \<and>
     hs_done c2 \<and> c_io c2 = ''x'' \<and> wbl_rep (c_writing_buffers c2) [(''ab'', 7)] \<and> c_events c2 = [Ev_RestartReadIn 0]"
proof -
  have "\<not> hs_done (demo_conn ''x'')" "\<not> hs_pending_restart_writes (demo_conn ''x'')" "hs_need_restart_read (demo_conn ''x'')"
      "e_handshake demo_env (c_io (demo_conn ''x'')) = (HS_Success, ''x'')" "wbl_rep (c_writing_buffers (demo_conn ''x'')) []"
      "wl_nodes (c_writing_buffers (demo_conn ''x'')) 0 = None" "c_events (demo_conn ''x'') = []"
    using WBL_new_rep by (simp_all add: NSC_new_def WBL_new_def demo_env_def)
  from write_before_handshake_stuck [OF this(1,2,4,5,6), of two_bytes 0 7] this(3,7) show ?thesis by auto
qed

end
