(* ===== verification/Run_Queue.thy ===== *)
theory Run_Queue
  imports Prelude
begin

unbundle bit_operations_syntax

text \<open>
  The queue of runnable fibers (\<^verbatim>\<open>flare/fiber/detail/run_queue.{h,cc}\<close>), a bounded queue for any
  number of producers and consumers without a lock. A ring of nodes carries sequence numbers:
  the node of position \<open>p\<close> has the number \<open>p\<close> while it is free, \<open>p + 1\<close> while it is filled and
  \<open>p + capacity\<close> once it has been emptied. Every access to a shared variable is a step of its own,
  and a compare-and-exchange in a loop may fail for no reason. The sequence numbers are taken as
  unbounded.

  The proof is in two layers. The core knows four actions (claim positions for pushing, publish,
  claim a position for popping, release) and shows that they implement a first-in first-out queue.
  The threads are then shown to do nothing but these actions, each in a state in which it is
  allowed.
\<close>

section \<open>The queue\<close>

record 'f RQNode =
  rn_fiber :: "'f option"
  rn_instealable :: bool
  rn_seq :: nat

record 'f RunQueue =
  rq_capacity :: nat
  rq_mask :: nat
  rq_nodes :: "'f RQNode list"
  rq_head_seq :: nat
  rq_tail_seq :: nat

text \<open>The mask of a capacity of zero is the largest number.\<close>

definition RQ_new :: "nat \<Rightarrow> 'f RunQueue result" where
  "RQ_new capacity =
     (let mask = (if capacity = 0 then 2 ^ 64 - 1 else capacity - 1)
      in check (capacity AND mask = 0)
           (Inr \<lparr>rq_capacity = capacity, rq_mask = mask,
                 rq_nodes = map (\<lambda>i. \<lparr>rn_fiber = None, rn_instealable = False, rn_seq = i\<rparr>) [0..<capacity],
                 rq_head_seq = 0, rq_tail_seq = 0\<rparr>))"

definition rq_index :: "'f RunQueue \<Rightarrow> nat \<Rightarrow> nat" where
  "rq_index q p = p AND rq_mask q"

definition rq_load :: "'f RunQueue \<Rightarrow> nat \<Rightarrow> 'f RQNode result" where
  "rq_load q p = (if rq_index q p < length (rq_nodes q) then Inr (rq_nodes q ! rq_index q p) else Inl Undefined_behaviour)"

definition rq_store :: "('f RQNode \<Rightarrow> 'f RQNode) \<Rightarrow> nat \<Rightarrow> 'f RunQueue \<Rightarrow> 'f RunQueue result" where
  "rq_store upd p q =
     rbind (rq_load q p) (\<lambda>n. Inr (q\<lparr>rq_nodes := (rq_nodes q)[rq_index q p := upd n]\<rparr>))"

definition UnsafeEmpty :: "'f RunQueue \<Rightarrow> bool" where
  "UnsafeEmpty q \<longleftrightarrow> rq_head_seq q \<le> rq_tail_seq q"

section \<open>Threads\<close>

text \<open>
  Where a thread is. The arguments of the call come first, then what was loaded: the sequence
  number and the number of its node. \<open>slow\<close> tells \<^verbatim>\<open>PushSlow\<close> from \<^verbatim>\<open>Push\<close>. A call of \<^verbatim>\<open>Pop\<close> and its
  continuation \<^verbatim>\<open>PopSlow\<close> do the same, so that there is one loop for them and for \<^verbatim>\<open>Steal\<close>.
\<close>

datatype 'f push_pc =
    Push_Start 'f bool bool
  | Push_Loaded 'f bool bool nat
  | Push_Test 'f bool bool nat nat
  | Push_Fill 'f bool nat
  | Push_Publish nat
  | Push_Returned bool

datatype 'f batch_pc =
    Batch_Start "'f list" bool
  | Batch_Loaded "'f list" bool nat
  | Batch_Test "'f list" bool nat nat
  | Batch_Scan "'f list" bool nat nat
  | Batch_Claim "'f list" bool nat
  | Batch_Fill "'f list" bool nat nat
  | Batch_Publish "'f list" bool nat nat
  | Batch_Returned bool

datatype 'f pop_pc =
    Pop_Start bool
  | Pop_Loaded bool nat
  | Pop_Test bool nat nat
  | Pop_Claim bool nat
  | Pop_Read nat
  | Pop_Release "'f option" nat
  | Pop_Returned "'f option"

text \<open>One step of \<^verbatim>\<open>Push\<close> and \<^verbatim>\<open>PushSlow\<close>; \<open>lucky\<close> says that a weak exchange does not fail for no reason.\<close>

fun Push_step :: "bool \<Rightarrow> 'f push_pc \<Rightarrow> 'f RunQueue \<Rightarrow> ('f push_pc \<times> 'f RunQueue) result" where
  "Push_step lucky (Push_Start e inst slow) q = Inr (Push_Loaded e inst slow (rq_head_seq q), q)"
| "Push_step lucky (Push_Loaded e inst slow head) q =
     rbind (rq_load q head) (\<lambda>n. Inr (Push_Test e inst slow head (rn_seq n), q))"
| "Push_step lucky (Push_Test e inst slow head nseq) q =
     (if nseq = head
      then if rq_head_seq q = head \<and> (lucky \<or> \<not> slow)
           then Inr (Push_Fill e inst head, q\<lparr>rq_head_seq := head + 1\<rparr>)
           else Inr (Push_Start e inst True, q)
      else if slow \<and> nseq + rq_capacity q = head + 1 then Inr (Push_Returned False, q)
      else Inr (Push_Start e inst True, q))"
| "Push_step lucky (Push_Fill e inst head) q =
     rbind (rq_store (\<lambda>n. n\<lparr>rn_fiber := Some e, rn_instealable := inst\<rparr>) head q) (\<lambda>q.
       Inr (Push_Publish head, q))"
| "Push_step lucky (Push_Publish head) q =
     rbind (rq_store (\<lambda>n. n\<lparr>rn_seq := head + 1\<rparr>) head q) (\<lambda>q. Inr (Push_Returned True, q))"
| "Push_step lucky (Push_Returned r) q = Inr (Push_Returned r, q)"

fun BatchPush_step :: "bool \<Rightarrow> 'f batch_pc \<Rightarrow> 'f RunQueue \<Rightarrow> ('f batch_pc \<times> 'f RunQueue) result" where
  "BatchPush_step lucky (Batch_Start es inst) q = Inr (Batch_Loaded es inst (rq_head_seq q), q)"
| "BatchPush_step lucky (Batch_Loaded es inst head_was) q =
     rbind (rq_load q (head_was + length es)) (\<lambda>n. Inr (Batch_Test es inst head_was (rn_seq n), q))"
| "BatchPush_step lucky (Batch_Test es inst head_was hseq) q =
     (let head = head_was + length es
      in if hseq = head then Inr (Batch_Scan es inst head_was 0, q)
         else if hseq + rq_capacity q = head + 1 then Inr (Batch_Returned False, q)
         else Inr (Batch_Start es inst, q))"
| "BatchPush_step lucky (Batch_Scan es inst head_was i) q =
     (if i = length es then Inr (Batch_Claim es inst head_was, q)
      else rbind (rq_load q (head_was + i)) (\<lambda>n.
        if rn_seq n \<noteq> head_was + i \<and> rn_seq n + rq_capacity q = head_was + i + 1
        then Inr (Batch_Returned False, q)
        else Inr (Batch_Scan es inst head_was (i + 1), q)))"
| "BatchPush_step lucky (Batch_Claim es inst head_was) q =
     (if rq_head_seq q = head_was \<and> lucky
      then Inr (Batch_Fill es inst head_was 0, q\<lparr>rq_head_seq := head_was + length es\<rparr>)
      else Inr (Batch_Start es inst, q))"
| "BatchPush_step lucky (Batch_Fill es inst head_was i) q =
     (if i = length es then Inr (Batch_Returned True, q)
      else rbind (rq_load q (head_was + i)) (\<lambda>n.
        check (rn_seq n = head_was + i)
          (rbind (rq_store (\<lambda>n. n\<lparr>rn_fiber := Some (es ! i), rn_instealable := inst\<rparr>) (head_was + i) q) (\<lambda>q.
             Inr (Batch_Publish es inst head_was i, q)))))"
| "BatchPush_step lucky (Batch_Publish es inst head_was i) q =
     rbind (rq_store (\<lambda>n. n\<lparr>rn_seq := head_was + i + 1\<rparr>) (head_was + i) q) (\<lambda>q.
       Inr (Batch_Fill es inst head_was (i + 1), q))"
| "BatchPush_step lucky (Batch_Returned r) q = Inr (Batch_Returned r, q)"

fun PopIf_step :: "bool \<Rightarrow> 'f pop_pc \<Rightarrow> 'f RunQueue \<Rightarrow> ('f pop_pc \<times> 'f RunQueue) result" where
  "PopIf_step lucky (Pop_Start steal) q = Inr (Pop_Loaded steal (rq_tail_seq q), q)"
| "PopIf_step lucky (Pop_Loaded steal tail) q =
     rbind (rq_load q tail) (\<lambda>n. Inr (Pop_Test steal tail (rn_seq n), q))"
| "PopIf_step lucky (Pop_Test steal tail nseq) q =
     (if nseq = tail + 1
      then rbind (rq_load q tail) (\<lambda>n.
        if steal \<and> rn_instealable n then Inr (Pop_Returned None, q) else Inr (Pop_Claim steal tail, q))
      else if nseq = tail then Inr (Pop_Returned None, q)
      else Inr (Pop_Start steal, q))"
| "PopIf_step lucky (Pop_Claim steal tail) q =
     (if rq_tail_seq q = tail \<and> lucky then Inr (Pop_Read tail, q\<lparr>rq_tail_seq := tail + 1\<rparr>)
      else Inr (Pop_Start steal, q))"
| "PopIf_step lucky (Pop_Read tail) q = rbind (rq_load q tail) (\<lambda>n. Inr (Pop_Release (rn_fiber n) tail, q))"
| "PopIf_step lucky (Pop_Release rc tail) q =
     rbind (rq_store (\<lambda>n. n\<lparr>rn_seq := tail + rq_capacity q\<rparr>) tail q) (\<lambda>q. Inr (Pop_Returned rc, q))"
| "PopIf_step lucky (Pop_Returned r) q = Inr (Pop_Returned r, q)"

datatype 'f rq_thread =
    Outside
  | In_Push "'f push_pc"
  | In_BatchPush "'f batch_pc"
  | In_Pop "'f pop_pc"

text \<open>
  The calls under way. \<open>rs_log\<close> is what was pushed, in the order in which positions were claimed,
  \<open>rs_out\<close> what was popped, with its position.
\<close>

record 'f rq_state =
  rs_q :: "'f RunQueue"
  rs_threads :: "nat \<Rightarrow> 'f rq_thread"
  rs_log :: "('f \<times> bool) list"
  rs_out :: "(nat \<times> 'f option) list"

fun returned :: "'f rq_thread \<Rightarrow> bool" where
  "returned Outside = True"
| "returned (In_Push pc) = (case pc of Push_Returned _ \<Rightarrow> True | _ \<Rightarrow> False)"
| "returned (In_BatchPush pc) = (case pc of Batch_Returned _ \<Rightarrow> True | _ \<Rightarrow> False)"
| "returned (In_Pop pc) = (case pc of Pop_Returned _ \<Rightarrow> True | _ \<Rightarrow> False)"

definition push_entry :: "'f push_pc \<Rightarrow> ('f \<times> bool) list" where
  "push_entry pc' = (case pc' of Push_Fill e inst _ \<Rightarrow> [(e, inst)] | _ \<Rightarrow> [])"

definition batch_entries :: "'f batch_pc \<Rightarrow> 'f batch_pc \<Rightarrow> ('f \<times> bool) list" where
  "batch_entries pc pc' = (case pc of
       Batch_Claim es inst _ \<Rightarrow> (case pc' of Batch_Fill _ _ _ _ \<Rightarrow> map (\<lambda>e. (e, inst)) es | _ \<Rightarrow> [])
     | _ \<Rightarrow> [])"

definition pop_entry :: "'f pop_pc \<Rightarrow> (nat \<times> 'f option) list" where
  "pop_entry pc = (case pc of Pop_Release rc p \<Rightarrow> [(p, rc)] | _ \<Rightarrow> [])"

inductive rq_step :: "'f rq_state \<Rightarrow> 'f rq_state result \<Rightarrow> bool" where
  call_push: "returned (rs_threads s t) \<Longrightarrow>
    rq_step s (Inr (s\<lparr>rs_threads := (rs_threads s)(t := In_Push (Push_Start e inst False))\<rparr>))"
| call_batch: "returned (rs_threads s t) \<Longrightarrow>
    rq_step s (Inr (s\<lparr>rs_threads := (rs_threads s)(t := In_BatchPush (Batch_Start es inst))\<rparr>))"
| call_pop: "returned (rs_threads s t) \<Longrightarrow>
    rq_step s (Inr (s\<lparr>rs_threads := (rs_threads s)(t := In_Pop (Pop_Start steal))\<rparr>))"
| push: "rs_threads s t = In_Push pc \<Longrightarrow>
    rq_step s (rbind (Push_step lucky pc (rs_q s)) (\<lambda>(pc', q).
      Inr (s\<lparr>rs_q := q, rs_threads := (rs_threads s)(t := In_Push pc'), rs_log := rs_log s @ push_entry pc'\<rparr>)))"
| batch: "rs_threads s t = In_BatchPush pc \<Longrightarrow>
    rq_step s (rbind (BatchPush_step lucky pc (rs_q s)) (\<lambda>(pc', q).
      Inr (s\<lparr>rs_q := q, rs_threads := (rs_threads s)(t := In_BatchPush pc'), rs_log := rs_log s @ batch_entries pc pc'\<rparr>)))"
| pop: "rs_threads s t = In_Pop pc \<Longrightarrow>
    rq_step s (rbind (PopIf_step lucky pc (rs_q s)) (\<lambda>(pc', q).
      Inr (s\<lparr>rs_q := q, rs_threads := (rs_threads s)(t := In_Pop pc'), rs_out := rs_out s @ pop_entry pc\<rparr>)))"

inductive rq_reach :: "nat \<Rightarrow> 'f rq_state \<Rightarrow> bool" for capacity where
  init: "RQ_new capacity = Inr q \<Longrightarrow>
    rq_reach capacity \<lparr>rs_q = q, rs_threads = (\<lambda>_. Outside), rs_log = [], rs_out = []\<rparr>"
| step: "rq_reach capacity s \<Longrightarrow> rq_step s (Inr s') \<Longrightarrow> rq_reach capacity s'"

text \<open>A schedule, for running the queue. An event that does not apply changes nothing.\<close>

datatype 'f rq_event =
    Call_Push nat 'f bool
  | Call_BatchPush nat "'f list" bool
  | Call_Pop nat bool
  | Move nat bool

fun rq_do :: "'f rq_event \<Rightarrow> 'f rq_state \<Rightarrow> 'f rq_state result" where
  "rq_do (Call_Push t e inst) s = Inr (if returned (rs_threads s t)
     then s\<lparr>rs_threads := (rs_threads s)(t := In_Push (Push_Start e inst False))\<rparr> else s)"
| "rq_do (Call_BatchPush t es inst) s = Inr (if returned (rs_threads s t)
     then s\<lparr>rs_threads := (rs_threads s)(t := In_BatchPush (Batch_Start es inst))\<rparr> else s)"
| "rq_do (Call_Pop t steal) s = Inr (if returned (rs_threads s t)
     then s\<lparr>rs_threads := (rs_threads s)(t := In_Pop (Pop_Start steal))\<rparr> else s)"
| "rq_do (Move t lucky) s = (case rs_threads s t of
       Outside \<Rightarrow> Inr s
     | In_Push pc \<Rightarrow> rbind (Push_step lucky pc (rs_q s)) (\<lambda>(pc', q).
         Inr (s\<lparr>rs_q := q, rs_threads := (rs_threads s)(t := In_Push pc'), rs_log := rs_log s @ push_entry pc'\<rparr>))
     | In_BatchPush pc \<Rightarrow> rbind (BatchPush_step lucky pc (rs_q s)) (\<lambda>(pc', q).
         Inr (s\<lparr>rs_q := q, rs_threads := (rs_threads s)(t := In_BatchPush pc'), rs_log := rs_log s @ batch_entries pc pc'\<rparr>))
     | In_Pop pc \<Rightarrow> rbind (PopIf_step lucky pc (rs_q s)) (\<lambda>(pc', q).
         Inr (s\<lparr>rs_q := q, rs_threads := (rs_threads s)(t := In_Pop pc'), rs_out := rs_out s @ pop_entry pc\<rparr>)))"

fun rq_do_all :: "'f rq_event list \<Rightarrow> 'f rq_state \<Rightarrow> 'f rq_state result" where
  "rq_do_all [] s = Inr s"
| "rq_do_all (ev # evs) s = rbind (rq_do ev s) (rq_do_all evs)"

definition rq_run :: "nat \<Rightarrow> 'f rq_event list \<Rightarrow> 'f rq_state result" where
  "rq_run capacity evs = rbind (RQ_new capacity) (\<lambda>q.
     rq_do_all evs \<lparr>rs_q = q, rs_threads = (\<lambda>_. Outside), rs_log = [], rs_out = []\<rparr>)"

text \<open>A call with nobody in between, and no exchange failing for no reason; \<open>n\<close> bounds the steps.\<close>

fun Push_alone :: "nat \<Rightarrow> 'f push_pc \<Rightarrow> 'f RunQueue \<Rightarrow> ('f push_pc \<times> 'f RunQueue) result" where
  "Push_alone 0 pc q = Inr (pc, q)"
| "Push_alone (Suc n) pc q = rbind (Push_step True pc q) (\<lambda>(pc, q). Push_alone n pc q)"

fun BatchPush_alone :: "nat \<Rightarrow> 'f batch_pc \<Rightarrow> 'f RunQueue \<Rightarrow> ('f batch_pc \<times> 'f RunQueue) result" where
  "BatchPush_alone 0 pc q = Inr (pc, q)"
| "BatchPush_alone (Suc n) pc q = rbind (BatchPush_step True pc q) (\<lambda>(pc, q). BatchPush_alone n pc q)"

fun PopIf_alone :: "nat \<Rightarrow> 'f pop_pc \<Rightarrow> 'f RunQueue \<Rightarrow> ('f pop_pc \<times> 'f RunQueue) result" where
  "PopIf_alone 0 pc q = Inr (pc, q)"
| "PopIf_alone (Suc n) pc q = rbind (PopIf_step True pc q) (\<lambda>(pc, q). PopIf_alone n pc q)"

section \<open>The core\<close>

abbreviation node_at :: "'f RunQueue \<Rightarrow> nat \<Rightarrow> 'f RQNode" where
  "node_at q p \<equiv> rq_nodes q ! (p mod rq_capacity q)"

abbreviation seq_at :: "'f RunQueue \<Rightarrow> nat \<Rightarrow> nat" where
  "seq_at q p \<equiv> rn_seq (node_at q p)"

definition rq_shape :: "'f RunQueue \<Rightarrow> bool" where
  "rq_shape q \<longleftrightarrow> (\<exists>k. rq_capacity q = 2 ^ Suc k) \<and> rq_mask q = rq_capacity q - 1 \<and> length (rq_nodes q) = rq_capacity q"

definition holds :: "'f RunQueue \<Rightarrow> nat \<Rightarrow> 'f \<times> bool \<Rightarrow> bool" where
  "holds q p x \<longleftrightarrow> rn_fiber (node_at q p) = Some (fst x) \<and> rn_instealable (node_at q p) = snd x"

text \<open>
  \<open>push\<close> are the positions claimed by a push and not yet published, \<open>pop\<close> those claimed by a pop and
  not yet released.
\<close>

definition core_inv :: "'f RunQueue \<Rightarrow> nat set \<Rightarrow> nat set \<Rightarrow> ('f \<times> bool) list \<Rightarrow> bool" where
  "core_inv q push pop log \<longleftrightarrow>
     rq_shape q \<and> rq_tail_seq q \<le> rq_head_seq q \<and> rq_head_seq q \<le> rq_tail_seq q + rq_capacity q \<and>
     length log = rq_head_seq q \<and> push \<subseteq> {rq_tail_seq q..<rq_head_seq q} \<and>
     pop \<subseteq> {p. p < rq_tail_seq q \<and> rq_head_seq q \<le> p + rq_capacity q} \<and>
     (\<forall>p. rq_tail_seq q \<le> p \<and> p < rq_head_seq q \<longrightarrow>
        (if p \<in> push then seq_at q p = p else seq_at q p = p + 1 \<and> holds q p (log ! p))) \<and>
     (\<forall>p \<in> pop. seq_at q p = p + 1 \<and> holds q p (log ! p)) \<and>
     (\<forall>p. rq_head_seq q \<le> p \<and> p < rq_tail_seq q + rq_capacity q \<longrightarrow>
        seq_at q p = p \<or> (rq_capacity q \<le> p \<and> p - rq_capacity q \<in> pop))"

lemma shape_cap: "rq_shape q \<Longrightarrow> 2 \<le> rq_capacity q"
  by (auto simp: rq_shape_def)

lemma rq_index_mod: "rq_shape q \<Longrightarrow> rq_index q p = p mod rq_capacity q"
  by (auto simp: rq_shape_def rq_index_def take_bit_eq_mod [symmetric] take_bit_eq_mask mask_eq_exp_minus_1 simp del: power_Suc)

lemma rq_load_ok: "rq_shape q \<Longrightarrow> rq_load q p = Inr (node_at q p)"
  using rq_index_mod [of q p] by (auto simp: rq_load_def rq_shape_def)

lemma rq_store_ok:
  "rq_shape q \<Longrightarrow> rq_store f p q = Inr (q\<lparr>rq_nodes := (rq_nodes q)[p mod rq_capacity q := f (node_at q p)]\<rparr>)"
  using rq_index_mod [of q p] by (simp add: rq_store_def rq_load_ok)

lemma mod_window:
  fixes p p' c t :: nat
  assumes "p mod c = p' mod c" "t \<le> p" "p < t + c" "t \<le> p'" "p' < t + c"
  shows "p = p'"
proof (rule ccontr)
  assume "p \<noteq> p'"
  then consider "p < p'" "p' - p < c" | "p' < p" "p - p' < c" using assms by linarith
  then show False
  proof cases
    case 1
    have "(p' - p) mod c = 0" using assms(1) 1 by (metis mod_eq_dvd_iff_nat less_imp_le dvd_imp_mod_0)
    with 1 show False by simp
  next
    case 2
    have "(p - p') mod c = 0" using assms(1) 2 by (metis mod_eq_dvd_iff_nat less_imp_le dvd_imp_mod_0)
    with 2 show False by simp
  qed
qed

lemma core_facts:
  assumes "core_inv q push pop log"
  shows "rq_shape q" "2 \<le> rq_capacity q" "rq_tail_seq q \<le> rq_head_seq q" "rq_head_seq q \<le> rq_tail_seq q + rq_capacity q"
    "length log = rq_head_seq q" "push \<subseteq> {rq_tail_seq q..<rq_head_seq q}"
    "pop \<subseteq> {p. p < rq_tail_seq q \<and> rq_head_seq q \<le> p + rq_capacity q}"
    "\<And>p. p \<in> push \<Longrightarrow> seq_at q p = p"
    "\<And>p. rq_tail_seq q \<le> p \<Longrightarrow> p < rq_head_seq q \<Longrightarrow> p \<notin> push \<Longrightarrow> seq_at q p = p + 1 \<and> holds q p (log ! p)"
    "\<And>p. p \<in> pop \<Longrightarrow> seq_at q p = p + 1 \<and> holds q p (log ! p)"
    "\<And>p. rq_head_seq q \<le> p \<Longrightarrow> p < rq_tail_seq q + rq_capacity q \<Longrightarrow> seq_at q p = p \<or> (rq_capacity q \<le> p \<and> p - rq_capacity q \<in> pop)"
  using assms shape_cap by (auto simp: core_inv_def)

lemma core_invI:
  assumes "rq_shape q" "rq_tail_seq q \<le> rq_head_seq q" "rq_head_seq q \<le> rq_tail_seq q + rq_capacity q"
    "length log = rq_head_seq q" "push \<subseteq> {rq_tail_seq q..<rq_head_seq q}"
    "pop \<subseteq> {p. p < rq_tail_seq q \<and> rq_head_seq q \<le> p + rq_capacity q}"
    and "\<And>p. p \<in> push \<Longrightarrow> seq_at q p = p"
    and "\<And>p. rq_tail_seq q \<le> p \<Longrightarrow> p < rq_head_seq q \<Longrightarrow> p \<notin> push \<Longrightarrow> seq_at q p = p + 1 \<and> holds q p (log ! p)"
    and "\<And>p. p \<in> pop \<Longrightarrow> seq_at q p = p + 1 \<and> holds q p (log ! p)"
    and "\<And>p. rq_head_seq q \<le> p \<Longrightarrow> p < rq_tail_seq q + rq_capacity q \<Longrightarrow> seq_at q p = p \<or> (rq_capacity q \<le> p \<and> p - rq_capacity q \<in> pop)"
  shows "core_inv q push pop log"
  unfolding core_inv_def using assms by simp

lemma window_rep:
  fixes p t c :: nat
  assumes "t \<le> p" "0 < c"
  shows "\<exists>p'. t \<le> p' \<and> p' < t + c \<and> p' mod c = p mod c \<and> p' \<le> p"
proof (intro exI conjI)
  show "(t + (p - t) mod c) mod c = p mod c" using assms(1) by (simp add: mod_add_right_eq)
qed (use assms in \<open>auto simp: mod_less_eq_dividend add_le_imp_le_diff le_diff_conv intro: order_trans [OF add_left_mono [OF mod_less_eq_dividend]]\<close>)

lemma Suc_mod_neq: "2 \<le> c \<Longrightarrow> (p + 1) mod c \<noteq> p mod (c :: nat)"
  by (auto simp: mod_Suc)

text \<open>A node whose number is its position is free.\<close>

lemma free_window:
  assumes inv: "core_inv q push pop log" and p: "rq_head_seq q \<le> p" "seq_at q p = p"
  shows "p < rq_tail_seq q + rq_capacity q" "\<not> (rq_capacity q \<le> p \<and> p - rq_capacity q \<in> pop)"
proof -
  note f = core_facts [OF inv]
  obtain p' where p': "rq_tail_seq q \<le> p'" "p' < rq_tail_seq q + rq_capacity q" "p' mod rq_capacity q = p mod rq_capacity q" "p' \<le> p"
    using window_rep [of "rq_tail_seq q" p "rq_capacity q"] f(2,3) p(1) by auto
  have seq: "seq_at q p' = p" using p(2) p'(3) by simp
  have "p = p' \<and> \<not> (rq_capacity q \<le> p' \<and> p' - rq_capacity q \<in> pop)"
  proof (cases "p' < rq_head_seq q")
    case True
    then have "p = p' + 1" using f(8) [of p'] f(9) [of p'] seq p'(1) p(1) by (cases "p' \<in> push") auto
    with p'(3) Suc_mod_neq [OF f(2), of p'] show ?thesis by simp
  next
    case False
    have "\<not> (rq_capacity q \<le> p' \<and> p' - rq_capacity q \<in> pop)"
    proof
      assume a: "rq_capacity q \<le> p' \<and> p' - rq_capacity q \<in> pop"
      have "(p' - rq_capacity q) mod rq_capacity q = p' mod rq_capacity q" using a by (simp add: le_mod_geq)
      with f(10) [of "p' - rq_capacity q"] a seq have "p = p' - rq_capacity q + 1" by simp
      moreover have "rq_capacity q \<le> p'" using a by simp
      ultimately show False using p'(4) f(2) by arith
    qed
    with f(11) [of p'] False p'(2) seq show ?thesis by auto
  qed
  then show "p < rq_tail_seq q + rq_capacity q" "\<not> (rq_capacity q \<le> p \<and> p - rq_capacity q \<in> pop)" using p'(2) by auto
qed

lemma claim_ok:
  assumes inv: "core_inv q push pop log" and n: "length es = n"
    and free: "\<forall>i < n. seq_at q (rq_head_seq q + i) = rq_head_seq q + i"
  shows "core_inv (q\<lparr>rq_head_seq := rq_head_seq q + n\<rparr>) (push \<union> {rq_head_seq q..<rq_head_seq q + n}) pop (log @ es)"
proof -
  note f = core_facts [OF inv]
  let ?h = "rq_head_seq q" and ?t = "rq_tail_seq q" and ?c = "rq_capacity q"
  have win: "?h + i < ?t + ?c" "\<not> (?c \<le> ?h + i \<and> ?h + i - ?c \<in> pop)" if "i < n" for i
    using free_window [OF inv, of "?h + i"] free that by auto
  have "?h + n \<le> ?t + ?c" using win(1) [of "n - 1"] f(4) by (cases n) auto
  moreover have "?h + n \<le> p + ?c" if "p \<in> pop" for p
  proof (rule ccontr)
    assume "\<not> ?h + n \<le> p + ?c"
    moreover have "?h \<le> p + ?c" using that f(7) by auto
    ultimately obtain i where "i < n" "p + ?c = ?h + i" by (metis add_less_cancel_left le_iff_add not_le)
    with win(2) [of i] that show False by (metis add_diff_cancel_right' le_add2)
  qed
  moreover have "if p \<in> push \<union> {?h..<?h + n} then seq_at q p = p else seq_at q p = p + 1 \<and> holds q p ((log @ es) ! p)"
    if "?t \<le> p" "p < ?h + n" for p
  proof (cases "p < ?h")
    case True
    then show ?thesis using f(5) f(8) [of p] f(9) [of p] that by (auto simp: nth_append)
  next
    case False
    then have "seq_at q p = p" using free that(2) by (metis add_less_cancel_left le_iff_add not_le)
    with False that show ?thesis by auto
  qed
  moreover have "holds q p ((log @ es) ! p)" if "p \<in> pop" for p
    using f(10) [OF that] f(3,5,7) that by (auto simp: nth_append)
  ultimately show ?thesis using f n unfolding core_inv_def
    by (auto simp: rq_shape_def holds_def nth_append)
qed

lemma claim_pop_ok:
  assumes inv: "core_inv q push pop log" and full: "seq_at q (rq_tail_seq q) = rq_tail_seq q + 1"
  shows "core_inv (q\<lparr>rq_tail_seq := rq_tail_seq q + 1\<rparr>) push (insert (rq_tail_seq q) pop) log \<and>
     rq_tail_seq q < rq_head_seq q \<and> rq_tail_seq q \<notin> push \<and> holds q (rq_tail_seq q) (log ! rq_tail_seq q)"
proof -
  note f = core_facts [OF inv]
  let ?h = "rq_head_seq q" and ?t = "rq_tail_seq q" and ?c = "rq_capacity q"
  have "?t < ?h"
  proof (rule ccontr)
    assume "\<not> ?t < ?h"
    then have "?h \<le> ?t" by simp
    moreover have "seq_at q ?t \<noteq> ?t" using full by simp
    ultimately have a: "?c \<le> ?t" "?t - ?c \<in> pop" using f(11) [of ?t] f(2) by auto
    have "(?t - ?c) mod ?c = ?t mod ?c" using a by (simp add: le_mod_geq)
    with f(10) [OF a(2)] full have "?t - ?c = ?t" by simp
    with a(1) f(2) show False by simp
  qed
  moreover have "?t \<notin> push" using f(8) [of ?t] full by auto
  ultimately have t: "?t < ?h" "?t \<notin> push" "holds q ?t (log ! ?t)" using f(9) [of ?t] by auto
  have last: "seq_at q p = p \<or> (?c \<le> p \<and> p - ?c \<in> insert ?t pop)" if "?h \<le> p" "p < ?t + 1 + ?c" for p
    using f(11) [of p] that by (cases "p = ?t + ?c") auto
  have "push \<subseteq> {?t + 1..<?h}" using f(6) t(2) by (auto simp: le_less)
  with f t full last show ?thesis unfolding core_inv_def by (auto simp: rq_shape_def holds_def)
qed

text \<open>Storing into the node of a position leaves the nodes of the others as they are.\<close>

lemma node_at_update:
  assumes "rq_shape q"
  shows "node_at (q\<lparr>rq_nodes := (rq_nodes q)[p mod rq_capacity q := x]\<rparr>) p' =
     (if p' mod rq_capacity q = p mod rq_capacity q then x else node_at q p')"
proof -
  have "p mod rq_capacity q < length (rq_nodes q)" using assms shape_cap [OF assms] by (simp add: rq_shape_def)
  then show ?thesis by (simp add: nth_list_update)
qed

lemma shape_update: "rq_shape q \<Longrightarrow> rq_shape (q\<lparr>rq_nodes := (rq_nodes q)[i := x]\<rparr>)"
  by (simp add: rq_shape_def)

text \<open>
  Two claimed or filled positions have different nodes; the position of a pop counts as the free
  position a lap later.
\<close>

lemma slot_pop:
  assumes inv: "core_inv q push pop log" and p: "p \<in> pop"
    and p': "rq_tail_seq q \<le> p'" "p' < rq_tail_seq q + rq_capacity q" "p' mod rq_capacity q = p mod rq_capacity q"
  shows "p' = p + rq_capacity q"
proof -
  note f = core_facts [OF inv]
  have "p < rq_tail_seq q" "rq_head_seq q \<le> p + rq_capacity q" using f(7) p by auto
  then show ?thesis using mod_window [of p' "rq_capacity q" "p + rq_capacity q" "rq_tail_seq q"] p' f(3) by auto
qed

lemma slot_pop_pop:
  assumes inv: "core_inv q push pop log" and p: "p \<in> pop" "p' \<in> pop" "p' mod rq_capacity q = p mod rq_capacity q"
  shows "p' = p"
proof -
  note f = core_facts [OF inv]
  have "p' < rq_tail_seq q" "rq_head_seq q \<le> p' + rq_capacity q" using f(7) p by auto
  then have "p' + rq_capacity q = p + rq_capacity q" using slot_pop [OF inv p(1), of "p' + rq_capacity q"] f(3) p(3) by auto
  then show ?thesis by simp
qed

lemma fill_ok:
  assumes inv: "core_inv q push pop log" and p: "p \<in> push" and g: "\<And>n. rn_seq (g n) = rn_seq n"
    and q': "q' = q\<lparr>rq_nodes := (rq_nodes q)[p mod rq_capacity q := g (node_at q p)]\<rparr>"
  shows "core_inv q' push pop log"
proof -
  note f = core_facts [OF inv]
  let ?h = "rq_head_seq q" and ?t = "rq_tail_seq q" and ?c = "rq_capacity q"
  have nd: "node_at q' p' = (if p' mod ?c = p mod ?c then g (node_at q p) else node_at q p')" for p'
    unfolding q' by (rule node_at_update [OF f(1)])
  then have seq: "seq_at q' p' = seq_at q p'" for p' by (simp add: g)
  have q'': "rq_capacity q' = ?c" "rq_head_seq q' = ?h" "rq_tail_seq q' = ?t" "rq_shape q'"
    using shape_update [OF f(1)] by (simp_all add: q')
  have pos: "?t \<le> p" "p < ?h" using f(6) p by auto
  have "holds q' p' (log ! p')" if "?t \<le> p'" "p' < ?h" "p' \<notin> push" for p'
    using f(9) [OF that] nd [of p'] mod_window [of p' ?c p ?t] pos that p f(4) q''(1) by (auto simp: holds_def)
  moreover have "holds q' p' (log ! p')" if "p' \<in> pop" for p'
    using f(10) [OF that] nd [of p'] slot_pop [OF inv that, of p] pos f(4,7) that q''(1) by (fastforce simp: holds_def)
  ultimately show ?thesis using f seq q'' unfolding core_inv_def by simp
qed

lemma publish_ok:
  assumes inv: "core_inv q push pop log" and p: "p \<in> push" "holds q p (log ! p)"
    and q': "q' = q\<lparr>rq_nodes := (rq_nodes q)[p mod rq_capacity q := (node_at q p)\<lparr>rn_seq := p + 1\<rparr>]\<rparr>"
  shows "core_inv q' (push - {p}) pop log"
proof -
  note f = core_facts [OF inv]
  let ?h = "rq_head_seq q" and ?t = "rq_tail_seq q" and ?c = "rq_capacity q"
  have nd: "node_at q' p' = (if p' mod ?c = p mod ?c then (node_at q p)\<lparr>rn_seq := p + 1\<rparr> else node_at q p')" for p'
    unfolding q' by (rule node_at_update [OF f(1)])
  have q'': "rq_capacity q' = ?c" "rq_head_seq q' = ?h" "rq_tail_seq q' = ?t" "rq_shape q'"
    using shape_update [OF f(1)] by (simp_all add: q')
  have pos: "?t \<le> p" "p < ?h" using f(6) p by auto
  have holds: "holds q' p' x = holds q p' x" for p' x using nd [of p'] q''(1) by (auto simp: holds_def)
  show ?thesis
  proof (rule core_invI, unfold q''(1-3))
    show "rn_seq (rq_nodes q' ! (p' mod ?c)) = p'" if "p' \<in> push - {p}" for p'
      using f(4,6) f(8) [of p'] nd [of p'] mod_window [of p' ?c p ?t] pos that q''(1) by fastforce
    show "rn_seq (rq_nodes q' ! (p' mod ?c)) = p' + 1 \<and> holds q' p' (log ! p')"
      if "?t \<le> p'" "p' < ?h" "p' \<notin> push - {p}" for p'
      using f(4) f(9) [OF that(1,2)] nd [of p'] mod_window [of p' ?c p ?t] pos p that holds q''(1) by (cases "p' = p") auto
    show "rn_seq (rq_nodes q' ! (p' mod ?c)) = p' + 1 \<and> holds q' p' (log ! p')" if "p' \<in> pop" for p'
      using f(10) [OF that] nd [of p'] slot_pop [OF inv that, of p] pos f(4,7) that q''(1) holds by fastforce
    show "rn_seq (rq_nodes q' ! (p' mod ?c)) = p' \<or> (?c \<le> p' \<and> p' - ?c \<in> pop)" if "?h \<le> p'" "p' < ?t + ?c" for p'
      using f(11) [OF that] nd [of p'] mod_window [of p' ?c p ?t] pos that f(3) q''(1) by auto
  qed (use f q'' in auto)
qed

lemma release_ok:
  assumes inv: "core_inv q push pop log" and p: "p \<in> pop"
    and q': "q' = q\<lparr>rq_nodes := (rq_nodes q)[p mod rq_capacity q := (node_at q p)\<lparr>rn_seq := p + rq_capacity q\<rparr>]\<rparr>"
  shows "core_inv q' push (pop - {p}) log"
proof -
  note f = core_facts [OF inv]
  let ?h = "rq_head_seq q" and ?t = "rq_tail_seq q" and ?c = "rq_capacity q"
  have nd: "node_at q' p' = (if p' mod ?c = p mod ?c then (node_at q p)\<lparr>rn_seq := p + ?c\<rparr> else node_at q p')" for p'
    unfolding q' by (rule node_at_update [OF f(1)])
  have q'': "rq_capacity q' = ?c" "rq_head_seq q' = ?h" "rq_tail_seq q' = ?t" "rq_shape q'"
    using shape_update [OF f(1)] by (simp_all add: q')
  have pos: "p < ?t" "?h \<le> p + ?c" using f(7) p by auto
  have holds: "holds q' p' x = holds q p' x" for p' x using nd [of p'] q''(1) by (auto simp: holds_def)
  have other: "node_at q' p' = node_at q p'" if "?t \<le> p'" "p' < ?h" for p'
    using nd [of p'] slot_pop [OF inv p, of p'] that f(4) pos by auto
  show ?thesis
  proof (rule core_invI, unfold q''(1-3))
    show "rn_seq (rq_nodes q' ! (p' mod ?c)) = p'" if "p' \<in> push" for p'
      using f(6) f(8) [OF that] other [of p'] that q''(1) by auto
    show "rn_seq (rq_nodes q' ! (p' mod ?c)) = p' + 1 \<and> holds q' p' (log ! p')"
      if "?t \<le> p'" "p' < ?h" "p' \<notin> push" for p'
      using f(9) [OF that] other [OF that(1,2)] holds q''(1) by auto
    show "rn_seq (rq_nodes q' ! (p' mod ?c)) = p' + 1 \<and> holds q' p' (log ! p')" if "p' \<in> pop - {p}" for p'
      using f(10) [of p'] nd [of p'] slot_pop_pop [OF inv p, of p'] that q''(1) holds by auto
    show "rn_seq (rq_nodes q' ! (p' mod ?c)) = p' \<or> (?c \<le> p' \<and> p' - ?c \<in> pop - {p})" if "?h \<le> p'" "p' < ?t + ?c" for p'
    proof (cases "p' mod ?c = p mod ?c")
      case True
      then show ?thesis using nd [of p'] slot_pop [OF inv p, of p'] that f(3) q''(1) by auto
    next
      case False
      then have "p' - ?c \<noteq> p" if "?c \<le> p'" using that le_mod_geq [of ?c p'] by auto
      with False f(11) [OF that] nd [of p'] q''(1) show ?thesis by auto
    qed
  qed (use f q'' in auto)
qed

section \<open>What a thread relies on\<close>

text \<open>
  What the others leave alone: the queue moves forward, a free node stays free until its position is
  claimed, a filled front stays filled until it is claimed, and the nodes of the positions \<open>D\<close> claimed
  for pushing keep their contents.
\<close>

definition rely :: "nat set \<Rightarrow> 'f RunQueue \<Rightarrow> ('f \<times> bool) list \<Rightarrow> 'f RunQueue \<Rightarrow> ('f \<times> bool) list \<Rightarrow> bool" where
  "rely D q log q' log' \<longleftrightarrow>
     rq_capacity q' = rq_capacity q \<and> rq_head_seq q \<le> rq_head_seq q' \<and> rq_tail_seq q \<le> rq_tail_seq q' \<and>
     (\<exists>es. log' = log @ es) \<and>
     (\<forall>p \<ge> rq_head_seq q'. seq_at q p = p \<longrightarrow> seq_at q' p = p) \<and>
     (rq_tail_seq q' = rq_tail_seq q \<longrightarrow> seq_at q (rq_tail_seq q) = rq_tail_seq q + 1 \<longrightarrow>
        seq_at q' (rq_tail_seq q) = rq_tail_seq q + 1) \<and>
     (\<forall>p \<in> D. \<forall>x. holds q p x \<longrightarrow> holds q' p x)"

lemma rely_refl: "rely D q log q log"
  by (simp add: rely_def)

lemma rely_claim: "rely D q log (q\<lparr>rq_head_seq := rq_head_seq q + n\<rparr>) (log @ es)"
  by (simp add: rely_def holds_def)

lemma rely_claim_pop: "rely D q log (q\<lparr>rq_tail_seq := rq_tail_seq q + 1\<rparr>) log"
  by (simp add: rely_def holds_def)

lemma rely_fill:
  assumes inv: "core_inv q push pop log" and p: "p \<in> push" and g: "\<And>n. rn_seq (g n) = rn_seq n"
    and q': "q' = q\<lparr>rq_nodes := (rq_nodes q)[p mod rq_capacity q := g (node_at q p)]\<rparr>" and D: "D \<subseteq> push - {p}"
  shows "rely D q log q' log"
proof -
  note f = core_facts [OF inv]
  let ?c = "rq_capacity q"
  have nd: "node_at q' p' = (if p' mod ?c = p mod ?c then g (node_at q p) else node_at q p')" for p'
    unfolding q' by (rule node_at_update [OF f(1)])
  then have "seq_at q' p' = seq_at q p'" for p' by (simp add: g)
  moreover have "holds q' p' x = holds q p' x" if "p' \<in> D" for p' x
  proof -
    have "p' \<noteq> p" "p' \<in> push" using D that by auto
    then have "p' mod ?c \<noteq> p mod ?c" using mod_window [of p' ?c p "rq_tail_seq q"] f(4,6) p by fastforce
    with nd [of p'] show ?thesis by (simp add: holds_def q')
  qed
  ultimately show ?thesis by (simp add: rely_def q')
qed

lemma rely_publish:
  assumes inv: "core_inv q push pop log" and p: "p \<in> push"
    and q': "q' = q\<lparr>rq_nodes := (rq_nodes q)[p mod rq_capacity q := (node_at q p)\<lparr>rn_seq := p + 1\<rparr>]\<rparr>"
  shows "rely D q log q' log"
proof -
  note f = core_facts [OF inv]
  let ?c = "rq_capacity q"
  have nd: "node_at q' p' = (if p' mod ?c = p mod ?c then (node_at q p)\<lparr>rn_seq := p + 1\<rparr> else node_at q p')" for p'
    unfolding q' by (rule node_at_update [OF f(1)])
  have q'': "rq_capacity q' = ?c" "rq_head_seq q' = rq_head_seq q" "rq_tail_seq q' = rq_tail_seq q" by (simp_all add: q')
  have pos: "rq_tail_seq q \<le> p" "p < rq_head_seq q" "seq_at q p = p" using f(6,8) p by auto
  have "seq_at q' p' = p'" if "rq_head_seq q \<le> p'" "seq_at q p' = p'" for p'
    using nd [of p'] mod_window [of p' ?c p "rq_tail_seq q"] free_window(1) [OF inv that] pos that f(3) q''(1) by auto
  moreover have "seq_at q' (rq_tail_seq q) = rq_tail_seq q + 1" if "seq_at q (rq_tail_seq q) = rq_tail_seq q + 1"
  proof -
    have "rq_tail_seq q \<noteq> p" using that pos(3) by auto
    then have "rq_tail_seq q mod ?c \<noteq> p mod ?c" using mod_window [of "rq_tail_seq q" ?c p "rq_tail_seq q"] pos f(2,4) by fastforce
    with nd [of "rq_tail_seq q"] that q''(1) show ?thesis by simp
  qed
  moreover have "holds q' p' x = holds q p' x" for p' x using nd [of p'] q''(1) by (auto simp: holds_def)
  ultimately show ?thesis using q'' by (simp add: rely_def)
qed

lemma rely_release:
  assumes inv: "core_inv q push pop log" and p: "p \<in> pop"
    and q': "q' = q\<lparr>rq_nodes := (rq_nodes q)[p mod rq_capacity q := (node_at q p)\<lparr>rn_seq := p + rq_capacity q\<rparr>]\<rparr>"
  shows "rely D q log q' log"
proof -
  note f = core_facts [OF inv]
  let ?c = "rq_capacity q"
  have nd: "node_at q' p' = (if p' mod ?c = p mod ?c then (node_at q p)\<lparr>rn_seq := p + ?c\<rparr> else node_at q p')" for p'
    unfolding q' by (rule node_at_update [OF f(1)])
  have q'': "rq_capacity q' = ?c" "rq_head_seq q' = rq_head_seq q" "rq_tail_seq q' = rq_tail_seq q" by (simp_all add: q')
  have "seq_at q' p' = p'" if "rq_head_seq q \<le> p'" "seq_at q p' = p'" for p'
    using nd [of p'] slot_pop [OF inv p, of p'] free_window(1) [OF inv that] that f(3) q''(1) by auto
  moreover have "seq_at q' (rq_tail_seq q) = rq_tail_seq q + 1" if "seq_at q (rq_tail_seq q) = rq_tail_seq q + 1"
  proof -
    have "rq_tail_seq q < rq_head_seq q" using claim_pop_ok [OF inv that] by blast
    moreover have "rq_head_seq q \<le> p + ?c" using f(7) p by auto
    ultimately have "rq_tail_seq q mod ?c \<noteq> p mod ?c" using slot_pop [OF inv p, of "rq_tail_seq q"] f(2) by auto
    with nd [of "rq_tail_seq q"] that q''(1) show ?thesis by simp
  qed
  moreover have "holds q' p' x = holds q p' x" for p' x using nd [of p'] q''(1) by (auto simp: holds_def)
  ultimately show ?thesis using q'' by (simp add: rely_def)
qed

text \<open>The positions a thread has claimed, and what holds at each of its steps.\<close>

fun push_claims :: "'f rq_thread \<Rightarrow> nat set" where
  "push_claims (In_Push pc) = (case pc of Push_Fill _ _ p \<Rightarrow> {p} | Push_Publish p \<Rightarrow> {p} | _ \<Rightarrow> {})"
| "push_claims (In_BatchPush pc) = (case pc of
       Batch_Fill es _ h k \<Rightarrow> {h + k..<h + length es}
     | Batch_Publish es _ h k \<Rightarrow> {h + k..<h + length es}
     | _ \<Rightarrow> {})"
| "push_claims _ = {}"

fun pop_claims :: "'f rq_thread \<Rightarrow> nat set" where
  "pop_claims (In_Pop pc) = (case pc of Pop_Read p \<Rightarrow> {p} | Pop_Release _ p \<Rightarrow> {p} | _ \<Rightarrow> {})"
| "pop_claims _ = {}"

definition still_free :: "'f RunQueue \<Rightarrow> nat \<Rightarrow> nat \<Rightarrow> bool" where
  "still_free q h p \<longleftrightarrow> h \<le> rq_head_seq q \<and> (rq_head_seq q = h \<longrightarrow> seq_at q p = p)"

definition still_full :: "'f RunQueue \<Rightarrow> nat \<Rightarrow> bool" where
  "still_full q t \<longleftrightarrow> t \<le> rq_tail_seq q \<and> (rq_tail_seq q = t \<longrightarrow> seq_at q t = t + 1)"

definition batch_log :: "('f \<times> bool) list \<Rightarrow> 'f list \<Rightarrow> bool \<Rightarrow> nat \<Rightarrow> nat \<Rightarrow> bool" where
  "batch_log log es inst h k \<longleftrightarrow>
     h + length es \<le> length log \<and> k \<le> length es \<and> (\<forall>j. k \<le> j \<and> j < length es \<longrightarrow> log ! (h + j) = (es ! j, inst))"

fun push_ok :: "'f RunQueue \<Rightarrow> ('f \<times> bool) list \<Rightarrow> 'f push_pc \<Rightarrow> bool" where
  "push_ok q log (Push_Loaded e inst slow h) = (h \<le> rq_head_seq q)"
| "push_ok q log (Push_Test e inst slow h nseq) = (h \<le> rq_head_seq q \<and> (nseq = h \<longrightarrow> still_free q h h))"
| "push_ok q log (Push_Fill e inst p) = (p < length log \<and> log ! p = (e, inst))"
| "push_ok q log (Push_Publish p) = (p < length log \<and> holds q p (log ! p))"
| "push_ok q log _ = True"

fun batch_ok :: "'f RunQueue \<Rightarrow> ('f \<times> bool) list \<Rightarrow> 'f batch_pc \<Rightarrow> bool" where
  "batch_ok q log (Batch_Loaded es inst h) = (h \<le> rq_head_seq q)"
| "batch_ok q log (Batch_Test es inst h hseq) =
     (h \<le> rq_head_seq q \<and> (hseq = h + length es \<longrightarrow> still_free q h (h + length es)))"
| "batch_ok q log (Batch_Scan es inst h k) =
     (k \<le> length es \<and> still_free q h (h + length es) \<and> (\<forall>j < k. still_free q h (h + j)))"
| "batch_ok q log (Batch_Claim es inst h) = (h \<le> rq_head_seq q \<and> (\<forall>j < length es. still_free q h (h + j)))"
| "batch_ok q log (Batch_Fill es inst h k) = batch_log log es inst h k"
| "batch_ok q log (Batch_Publish es inst h k) =
     (k < length es \<and> batch_log log es inst h k \<and> holds q (h + k) (es ! k, inst))"
| "batch_ok q log _ = True"

fun pop_ok :: "'f RunQueue \<Rightarrow> ('f \<times> bool) list \<Rightarrow> 'f pop_pc \<Rightarrow> bool" where
  "pop_ok q log (Pop_Loaded steal t) = (t \<le> rq_tail_seq q)"
| "pop_ok q log (Pop_Test steal t nseq) = (t \<le> rq_tail_seq q \<and> (nseq = t + 1 \<longrightarrow> still_full q t))"
| "pop_ok q log (Pop_Claim steal t) = still_full q t"
| "pop_ok q log (Pop_Release rc p) = (p < length log \<and> rc = Some (fst (log ! p)))"
| "pop_ok q log _ = True"

fun thread_ok :: "'f RunQueue \<Rightarrow> ('f \<times> bool) list \<Rightarrow> 'f rq_thread \<Rightarrow> bool" where
  "thread_ok q log Outside = True"
| "thread_ok q log (In_Push pc) = push_ok q log pc"
| "thread_ok q log (In_BatchPush pc) = batch_ok q log pc"
| "thread_ok q log (In_Pop pc) = pop_ok q log pc"

text \<open>These assertions are stable.\<close>

lemma still_free_stable: "still_free q h p \<Longrightarrow> h \<le> p \<Longrightarrow> rely D q log q' log' \<Longrightarrow> still_free q' h p"
  by (auto simp: still_free_def rely_def)

lemma still_full_stable: "still_full q t \<Longrightarrow> rely D q log q' log' \<Longrightarrow> still_full q' t"
  by (auto simp: still_full_def rely_def)

lemma batch_log_stable: "batch_log log es inst h k \<Longrightarrow> rely D q log q' log' \<Longrightarrow> batch_log log' es inst h k"
  by (auto simp: batch_log_def rely_def nth_append)

lemma rely_mono:
  assumes "rely D q log q' log'"
  shows "n \<le> rq_head_seq q \<Longrightarrow> n \<le> rq_head_seq q'" "n \<le> rq_tail_seq q \<Longrightarrow> n \<le> rq_tail_seq q'"
    "n < length log \<Longrightarrow> n < length log' \<and> log' ! n = log ! n"
    "p \<in> D \<Longrightarrow> holds q p x \<Longrightarrow> holds q' p x"
  using assms unfolding rely_def by (auto simp: nth_append simp del: split_paired_All)

lemma thread_ok_stable:
  assumes r: "rely D q log q' log'" and ok: "thread_ok q log x" and D: "push_claims x \<subseteq> D"
  shows "thread_ok q' log' x"
proof (cases x)
  case (In_Push pc)
  with ok D show ?thesis
    by (cases pc) (auto intro: still_free_stable [OF _ _ r] rely_mono [OF r] simp: rely_mono(3) [OF r])
next
  case (In_BatchPush pc)
  have pub: "holds q' (h + k) x" if "{h + k..<h + n} \<subseteq> D" "k < n" "holds q (h + k) x" for h k n x
    by (rule rely_mono(4) [OF r _ that(3)]) (use that in auto)
  from In_BatchPush ok D show ?thesis
    by (cases pc) (auto intro: still_free_stable [OF _ _ r] batch_log_stable [OF _ r] rely_mono(1-3) [OF r] pub)
next
  case (In_Pop pc)
  with ok D show ?thesis
    by (cases pc) (auto intro: still_full_stable [OF _ r] rely_mono [OF r] simp: rely_mono(3) [OF r])
qed simp

section \<open>The invariant of the system\<close>

definition all_push :: "(nat \<Rightarrow> 'f rq_thread) \<Rightarrow> nat set" where
  "all_push th = (\<Union>t. push_claims (th t))"

definition all_pop :: "(nat \<Rightarrow> 'f rq_thread) \<Rightarrow> nat set" where
  "all_pop th = (\<Union>t. pop_claims (th t))"

definition claims_disjoint :: "(nat \<Rightarrow> 'f rq_thread) \<Rightarrow> bool" where
  "claims_disjoint th \<longleftrightarrow> (\<forall>t u. t \<noteq> u \<longrightarrow>
     push_claims (th t) \<inter> push_claims (th u) = {} \<and> pop_claims (th t) \<inter> pop_claims (th u) = {})"

definition out_ok :: "(nat \<times> 'f option) list \<Rightarrow> nat set \<Rightarrow> ('f \<times> bool) list \<Rightarrow> bool" where
  "out_ok out popped log \<longleftrightarrow> distinct (map fst out) \<and> fst ` set out = popped \<and>
     (\<forall>(p, rc) \<in> set out. p < length log \<and> rc = Some (fst (log ! p)))"

definition rq_inv :: "'f rq_state \<Rightarrow> bool" where
  "rq_inv s \<longleftrightarrow>
     core_inv (rs_q s) (all_push (rs_threads s)) (all_pop (rs_threads s)) (rs_log s) \<and>
     (\<forall>t. thread_ok (rs_q s) (rs_log s) (rs_threads s t)) \<and> claims_disjoint (rs_threads s) \<and>
     out_ok (rs_out s) ({..<rq_tail_seq (rs_q s)} - all_pop (rs_threads s)) (rs_log s)"

text \<open>A thread moves; the claims of the others stay.\<close>

lemma all_push_upd:
  "claims_disjoint th \<Longrightarrow> all_push (th(t := x)) = (all_push th - push_claims (th t)) \<union> push_claims x"
  unfolding all_push_def claims_disjoint_def by (auto split: if_splits) (metis disjoint_iff)+

lemma all_pop_upd:
  "claims_disjoint th \<Longrightarrow> all_pop (th(t := x)) = (all_pop th - pop_claims (th t)) \<union> pop_claims x"
  unfolding all_pop_def claims_disjoint_def by (auto split: if_splits) (metis disjoint_iff)+

lemma claims_disjoint_upd:
  assumes "claims_disjoint th" "push_claims x \<inter> (all_push th - push_claims (th t)) = {}"
    "pop_claims x \<inter> (all_pop th - pop_claims (th t)) = {}"
  shows "claims_disjoint (th(t := x))"
proof -
  have "push_claims x \<inter> push_claims (th u) = {} \<and> pop_claims x \<inter> pop_claims (th u) = {}" if "u \<noteq> t" for u
  proof -
    have "push_claims (th u) \<subseteq> all_push th - push_claims (th t)" "pop_claims (th u) \<subseteq> all_pop th - pop_claims (th t)"
      using assms(1) that unfolding claims_disjoint_def all_push_def all_pop_def by blast+
    with assms(2,3) show ?thesis by blast
  qed
  with assms(1) show ?thesis unfolding claims_disjoint_def by (simp add: Int_commute)
qed

lemma rq_inv_move:
  assumes inv: "rq_inv s"
    and P: "P = all_push (rs_threads s) - push_claims (rs_threads s t)"
    and O: "O' = all_pop (rs_threads s) - pop_claims (rs_threads s t)"
    and core: "core_inv q (P \<union> push_claims x) (O' \<union> pop_claims x) log"
    and r: "rely P (rs_q s) (rs_log s) q log" and ok: "thread_ok q log x"
    and dis: "push_claims x \<inter> P = {}" "pop_claims x \<inter> O' = {}"
    and out: "out_ok out ({..<rq_tail_seq q} - (O' \<union> pop_claims x)) log"
  shows "rq_inv (s\<lparr>rs_q := q, rs_threads := (rs_threads s)(t := x), rs_log := log, rs_out := out\<rparr>)"
proof -
  let ?th = "rs_threads s"
  have cd: "claims_disjoint ?th" and ok0: "\<And>u. thread_ok (rs_q s) (rs_log s) (?th u)" using inv by (simp_all add: rq_inv_def)
  have "thread_ok q log (?th u)" if "u \<noteq> t" for u
  proof (rule thread_ok_stable [OF r ok0])
    show "push_claims (?th u) \<subseteq> P" using cd that unfolding P claims_disjoint_def all_push_def by blast
  qed
  moreover have "claims_disjoint (?th(t := x))" using claims_disjoint_upd [OF cd] dis P O by simp
  ultimately show ?thesis using core ok out all_push_upd [OF cd] all_pop_upd [OF cd] P O by (simp add: rq_inv_def)
qed

text \<open>Steps that change nothing but the place of the thread.\<close>

lemma rq_inv_local:
  assumes inv: "rq_inv s" and ok: "thread_ok (rs_q s) (rs_log s) x"
    and cl: "push_claims x = push_claims (rs_threads s t)" "pop_claims x = pop_claims (rs_threads s t)"
  shows "rq_inv (s\<lparr>rs_threads := (rs_threads s)(t := x)\<rparr>)"
proof -
  let ?th = "rs_threads s"
  have sub: "push_claims (?th t) \<subseteq> all_push ?th" "pop_claims (?th t) \<subseteq> all_pop ?th" by (auto simp: all_push_def all_pop_def)
  have "all_push ?th - push_claims (?th t) \<union> push_claims x = all_push ?th"
    "all_pop ?th - pop_claims (?th t) \<union> pop_claims x = all_pop ?th" using cl sub by auto
  then have "rq_inv (s\<lparr>rs_q := rs_q s, rs_threads := ?th(t := x), rs_log := rs_log s, rs_out := rs_out s\<rparr>)"
    using inv ok cl by (intro rq_inv_move [OF inv HOL.refl HOL.refl _ rely_refl]) (auto simp: rq_inv_def)
  then show ?thesis by simp
qed

lemma out_ok_log: "out_ok out S log \<Longrightarrow> out_ok out S (log @ es)"
  by (auto simp: out_ok_def nth_append)

lemma rq_inv_facts:
  assumes "rq_inv s"
  shows "core_inv (rs_q s) (all_push (rs_threads s)) (all_pop (rs_threads s)) (rs_log s)"
    "thread_ok (rs_q s) (rs_log s) (rs_threads s t)" "claims_disjoint (rs_threads s)"
    "out_ok (rs_out s) ({..<rq_tail_seq (rs_q s)} - all_pop (rs_threads s)) (rs_log s)"
    "rq_shape (rs_q s)" "push_claims (rs_threads s t) \<subseteq> all_push (rs_threads s)" "pop_claims (rs_threads s t) \<subseteq> all_pop (rs_threads s)"
    "all_push (rs_threads s) \<subseteq> {..<rq_head_seq (rs_q s)}" "length (rs_log s) = rq_head_seq (rs_q s)"
    "all_pop (rs_threads s) \<subseteq> {..<rq_tail_seq (rs_q s)}"
  using assms core_facts(1,5,6,7) [of "rs_q s" "all_push (rs_threads s)" "all_pop (rs_threads s)" "rs_log s"]
  unfolding rq_inv_def all_push_def all_pop_def by auto

text \<open>A thread claims positions for pushing.\<close>

lemma rq_inv_claim:
  assumes inv: "rq_inv s" and free: "\<forall>i < length es. seq_at (rs_q s) (rq_head_seq (rs_q s) + i) = rq_head_seq (rs_q s) + i"
    and old: "push_claims (rs_threads s t) = {}" "pop_claims (rs_threads s t) = {}"
    and x: "push_claims x = {rq_head_seq (rs_q s)..<rq_head_seq (rs_q s) + length es}" "pop_claims x = {}"
      "thread_ok (rs_q s\<lparr>rq_head_seq := rq_head_seq (rs_q s) + length es\<rparr>) (rs_log s @ es) x"
  shows "rq_inv (s\<lparr>rs_q := rs_q s\<lparr>rq_head_seq := rq_head_seq (rs_q s) + length es\<rparr>, rs_threads := (rs_threads s)(t := x),
     rs_log := rs_log s @ es\<rparr>)"
proof -
  note f = rq_inv_facts [OF inv]
  have "rq_inv (s\<lparr>rs_q := rs_q s\<lparr>rq_head_seq := rq_head_seq (rs_q s) + length es\<rparr>, rs_threads := (rs_threads s)(t := x),
     rs_log := rs_log s @ es, rs_out := rs_out s\<rparr>)"
    using claim_ok [OF f(1) HOL.refl free] f(4,8) old x out_ok_log
    by (intro rq_inv_move [OF inv HOL.refl HOL.refl _ rely_claim]) auto
  then show ?thesis by simp
qed

text \<open>A thread stores into a node whose position it has claimed.\<close>

lemma rq_inv_fill:
  assumes inv: "rq_inv s" and p: "p \<in> push_claims (rs_threads s t)" and g: "\<And>n. rn_seq (g n) = rn_seq n"
    and q: "q = (rs_q s)\<lparr>rq_nodes := (rq_nodes (rs_q s))[p mod rq_capacity (rs_q s) := g (node_at (rs_q s) p)]\<rparr>"
    and x: "push_claims x = push_claims (rs_threads s t)" "pop_claims x = pop_claims (rs_threads s t)" "thread_ok q (rs_log s) x"
  shows "rq_inv (s\<lparr>rs_q := q, rs_threads := (rs_threads s)(t := x)\<rparr>)"
proof -
  note f = rq_inv_facts [OF inv]
  have p': "p \<in> all_push (rs_threads s)" using p f(6) [of t] by auto
  have "all_push (rs_threads s) - push_claims (rs_threads s t) \<union> push_claims x = all_push (rs_threads s)"
    "all_pop (rs_threads s) - pop_claims (rs_threads s t) \<union> pop_claims x = all_pop (rs_threads s)" using x(1,2) f(6,7) [of t] by auto
  moreover have "rq_tail_seq q = rq_tail_seq (rs_q s)" by (simp add: q)
  ultimately have "rq_inv (s\<lparr>rs_q := q, rs_threads := (rs_threads s)(t := x), rs_log := rs_log s, rs_out := rs_out s\<rparr>)"
    using fill_ok [where g = g, OF f(1) p' g q] f(4) x p
    by (intro rq_inv_move [OF inv HOL.refl HOL.refl _ rely_fill [where g = g, OF f(1) p' g q]]) auto
  then show ?thesis by simp
qed

lemma rq_inv_publish:
  assumes inv: "rq_inv s" and p: "p \<in> push_claims (rs_threads s t)" "holds (rs_q s) p (rs_log s ! p)"
    and q: "q = (rs_q s)\<lparr>rq_nodes := (rq_nodes (rs_q s))[p mod rq_capacity (rs_q s) := (node_at (rs_q s) p)\<lparr>rn_seq := p + 1\<rparr>]\<rparr>"
    and x: "push_claims x = push_claims (rs_threads s t) - {p}" "pop_claims x = pop_claims (rs_threads s t)" "thread_ok q (rs_log s) x"
  shows "rq_inv (s\<lparr>rs_q := q, rs_threads := (rs_threads s)(t := x)\<rparr>)"
proof -
  note f = rq_inv_facts [OF inv]
  have p': "p \<in> all_push (rs_threads s)" using p f(6) [of t] by auto
  have "all_push (rs_threads s) - push_claims (rs_threads s t) \<union> push_claims x = all_push (rs_threads s) - {p}"
    "all_pop (rs_threads s) - pop_claims (rs_threads s t) \<union> pop_claims x = all_pop (rs_threads s)" using x(1,2) f(6,7) [of t] p(1) by auto
  moreover have "rq_tail_seq q = rq_tail_seq (rs_q s)" by (simp add: q)
  ultimately have "rq_inv (s\<lparr>rs_q := q, rs_threads := (rs_threads s)(t := x), rs_log := rs_log s, rs_out := rs_out s\<rparr>)"
    using publish_ok [OF f(1) p' p(2) q] f(4) x p
    by (intro rq_inv_move [OF inv HOL.refl HOL.refl _ rely_publish [OF f(1) p' q]]) auto
  then show ?thesis by simp
qed

lemma holds_fill:
  "rq_shape q \<Longrightarrow> holds (q\<lparr>rq_nodes := (rq_nodes q)[p mod rq_capacity q := (node_at q p)\<lparr>rn_fiber := Some e, rn_instealable := inst\<rparr>]\<rparr>) p (e, inst)"
  using node_at_update [of q p "(node_at q p)\<lparr>rn_fiber := Some e, rn_instealable := inst\<rparr>" p] by (simp add: holds_def)

section \<open>Every step keeps the invariant\<close>

lemma rq_inv_push:
  assumes inv: "rq_inv s" and t: "rs_threads s t = In_Push pc"
  shows "\<exists>pc' q. Push_step lucky pc (rs_q s) = Inr (pc', q) \<and>
     rq_inv (s\<lparr>rs_q := q, rs_threads := (rs_threads s)(t := In_Push pc'), rs_log := rs_log s @ push_entry pc'\<rparr>)"
proof -
  note f = rq_inv_facts [OF inv]
  have ok: "push_ok (rs_q s) (rs_log s) pc" using f(2) [of t] t by simp
  have local: "\<exists>pc' q. Inr (x, rs_q s) = Inr (pc', q) \<and>
       rq_inv (s\<lparr>rs_q := q, rs_threads := (rs_threads s)(t := In_Push pc'), rs_log := rs_log s @ push_entry pc'\<rparr>)"
    if "push_ok (rs_q s) (rs_log s) x" "push_claims (In_Push x) = push_claims (In_Push pc)" "push_entry x = []" for x
    using rq_inv_local [OF inv, of "In_Push x" t] that t by simp
  show ?thesis
  proof (cases pc)
    case (Push_Start e inst slow)
    then show ?thesis using local [of "Push_Loaded e inst slow (rq_head_seq (rs_q s))"] by (simp add: push_entry_def)
  next
    case (Push_Loaded e inst slow h)
    then show ?thesis using local [of "Push_Test e inst slow h (seq_at (rs_q s) h)"] ok rq_load_ok [OF f(5)]
      by (simp add: push_entry_def still_free_def)
  next
    case (Push_Test e inst slow h nseq)
    show ?thesis
    proof (cases "nseq = h \<and> rq_head_seq (rs_q s) = h \<and> (lucky \<or> \<not> slow)")
      case True
      then have "rq_inv (s\<lparr>rs_q := rs_q s\<lparr>rq_head_seq := rq_head_seq (rs_q s) + length [(e, inst)]\<rparr>,
          rs_threads := (rs_threads s)(t := In_Push (Push_Fill e inst h)), rs_log := rs_log s @ [(e, inst)]\<rparr>)"
        using ok Push_Test t f(9) by (intro rq_inv_claim [OF inv]) (auto simp: still_free_def)
      with True Push_Test show ?thesis by (simp add: push_entry_def)
    next
      case False
      with Push_Test local [of "Push_Start e inst True"] local [of "Push_Returned False"] show ?thesis
        by (auto simp: push_entry_def)
    qed
  next
    case (Push_Fill e inst p)
    let ?q = "(rs_q s)\<lparr>rq_nodes := (rq_nodes (rs_q s))[p mod rq_capacity (rs_q s) :=
        (node_at (rs_q s) p)\<lparr>rn_fiber := Some e, rn_instealable := inst\<rparr>]\<rparr>"
    have "rq_inv (s\<lparr>rs_q := ?q, rs_threads := (rs_threads s)(t := In_Push (Push_Publish p))\<rparr>)"
      using ok Push_Fill t holds_fill [where p = p and e = e and inst = inst, OF f(5)]
      by (intro rq_inv_fill [OF inv, of p t "\<lambda>n. n\<lparr>rn_fiber := Some e, rn_instealable := inst\<rparr>"]) auto
    with Push_Fill rq_store_ok [OF f(5)] show ?thesis by (simp add: push_entry_def)
  next
    case (Push_Publish p)
    let ?q = "(rs_q s)\<lparr>rq_nodes := (rq_nodes (rs_q s))[p mod rq_capacity (rs_q s) := (node_at (rs_q s) p)\<lparr>rn_seq := p + 1\<rparr>]\<rparr>"
    have "rq_inv (s\<lparr>rs_q := ?q, rs_threads := (rs_threads s)(t := In_Push (Push_Returned True))\<rparr>)"
      using ok Push_Publish t by (intro rq_inv_publish [OF inv, of p t]) auto
    with Push_Publish rq_store_ok [OF f(5)] show ?thesis by (simp add: push_entry_def)
  next
    case (Push_Returned r)
    then show ?thesis using local [of "Push_Returned r"] by (simp add: push_entry_def)
  qed
qed

text \<open>
  If the node behind a batch is free, every node of the batch is free or still being emptied, and the
  latter is what the scan looks for.
\<close>

lemma scan_free:
  assumes inv: "core_inv q push pop log" and far: "still_free q h (h + n)" and i: "i < n"
    and seen: "\<not> (seq_at q (h + i) \<noteq> h + i \<and> seq_at q (h + i) + rq_capacity q = h + i + 1)"
  shows "still_free q h (h + i)"
proof -
  note f = core_facts [OF inv]
  have "seq_at q (h + i) = h + i" if h: "rq_head_seq q = h"
  proof -
    have "seq_at q (h + n) = h + n" using far h by (simp add: still_free_def)
    then have win: "h + i < rq_tail_seq q + rq_capacity q" using free_window(1) [OF inv, of "h + n"] h i by simp
    show ?thesis
    proof (rule ccontr)
      assume ne: "seq_at q (h + i) \<noteq> h + i"
      then have a: "rq_capacity q \<le> h + i" "h + i - rq_capacity q \<in> pop" using f(11) [of "h + i"] win h by auto
      have "(h + i - rq_capacity q) mod rq_capacity q = (h + i) mod rq_capacity q" using a(1) by (simp add: le_mod_geq)
      with f(10) [OF a(2)] have "seq_at q (h + i) = h + i - rq_capacity q + 1" by simp
      with a(1) ne seen show False by simp
    qed
  qed
  with far show ?thesis by (simp add: still_free_def)
qed

lemma rq_inv_batch:
  assumes inv: "rq_inv s" and t: "rs_threads s t = In_BatchPush pc"
  shows "\<exists>pc' q. BatchPush_step lucky pc (rs_q s) = Inr (pc', q) \<and>
     rq_inv (s\<lparr>rs_q := q, rs_threads := (rs_threads s)(t := In_BatchPush pc'), rs_log := rs_log s @ batch_entries pc pc'\<rparr>)"
proof -
  note f = rq_inv_facts [OF inv]
  have ok: "batch_ok (rs_q s) (rs_log s) pc" using f(2) [of t] t by simp
  have local: "\<exists>pc' q. Inr (x, rs_q s) = Inr (pc', q) \<and>
       rq_inv (s\<lparr>rs_q := q, rs_threads := (rs_threads s)(t := In_BatchPush pc'), rs_log := rs_log s @ batch_entries pc pc'\<rparr>)"
    if "batch_ok (rs_q s) (rs_log s) x" "push_claims (In_BatchPush x) = push_claims (In_BatchPush pc)" "batch_entries pc x = []" for x
    using rq_inv_local [OF inv, of "In_BatchPush x" t] that t by simp
  show ?thesis
  proof (cases pc)
    case (Batch_Start es inst)
    then show ?thesis using local [of "Batch_Loaded es inst (rq_head_seq (rs_q s))"] by (simp add: batch_entries_def)
  next
    case (Batch_Loaded es inst h)
    then show ?thesis using local [of "Batch_Test es inst h (seq_at (rs_q s) (h + length es))"] ok rq_load_ok [OF f(5)]
      by (simp add: batch_entries_def still_free_def)
  next
    case (Batch_Test es inst h hseq)
    then show ?thesis
      using ok local [of "Batch_Scan es inst h 0"] local [of "Batch_Returned False"] local [of "Batch_Start es inst"]
      by (auto simp: batch_entries_def Let_def)
  next
    case (Batch_Scan es inst h i)
    show ?thesis
    proof (cases "i = length es")
      case True
      then show ?thesis using Batch_Scan ok local [of "Batch_Claim es inst h"] by (auto simp: batch_entries_def still_free_def)
    next
      case False
      then have i: "i < length es" using ok Batch_Scan by simp
      show ?thesis
      proof (cases "seq_at (rs_q s) (h + i) \<noteq> h + i \<and> seq_at (rs_q s) (h + i) + rq_capacity (rs_q s) = h + i + 1")
        case True
        with False Batch_Scan local [of "Batch_Returned False"] rq_load_ok [OF f(5)] show ?thesis by (simp add: batch_entries_def)
      next
        case free: False
        have "still_free (rs_q s) h (h + i)" using scan_free [OF f(1) _ i free] ok Batch_Scan by simp
        then have "batch_ok (rs_q s) (rs_log s) (Batch_Scan es inst h (i + 1))" using ok Batch_Scan i by (auto simp: less_Suc_eq)
        with False free Batch_Scan local [of "Batch_Scan es inst h (i + 1)"] rq_load_ok [OF f(5)] show ?thesis
          by (auto simp: batch_entries_def)
      qed
    qed
  next
    case (Batch_Claim es inst h)
    show ?thesis
    proof (cases "rq_head_seq (rs_q s) = h \<and> lucky")
      case True
      have "rq_inv (s\<lparr>rs_q := rs_q s\<lparr>rq_head_seq := rq_head_seq (rs_q s) + length (map (\<lambda>e. (e, inst)) es)\<rparr>,
          rs_threads := (rs_threads s)(t := In_BatchPush (Batch_Fill es inst h 0)), rs_log := rs_log s @ map (\<lambda>e. (e, inst)) es\<rparr>)"
        using ok Batch_Claim t f(9) True
        by (intro rq_inv_claim [OF inv]) (auto simp: still_free_def batch_log_def nth_append)
      with True Batch_Claim show ?thesis by (simp add: batch_entries_def)
    next
      case False
      with Batch_Claim local [of "Batch_Start es inst"] show ?thesis by (auto simp: batch_entries_def)
    qed
  next
    case (Batch_Fill es inst h k)
    show ?thesis
    proof (cases "k = length es")
      case True
      with Batch_Fill local [of "Batch_Returned True"] show ?thesis by (simp add: batch_entries_def)
    next
      case False
      then have k: "k < length es" using ok Batch_Fill by (simp add: batch_log_def)
      let ?q = "(rs_q s)\<lparr>rq_nodes := (rq_nodes (rs_q s))[(h + k) mod rq_capacity (rs_q s) :=
          (node_at (rs_q s) (h + k))\<lparr>rn_fiber := Some (es ! k), rn_instealable := inst\<rparr>]\<rparr>"
      have "h + k \<in> all_push (rs_threads s)" using f(6) [of t] t Batch_Fill k by auto
      then have seq: "seq_at (rs_q s) (h + k) = h + k" using core_facts(8) [OF f(1)] by blast
      have "rq_inv (s\<lparr>rs_q := ?q, rs_threads := (rs_threads s)(t := In_BatchPush (Batch_Publish es inst h k))\<rparr>)"
        using ok Batch_Fill t k holds_fill [where p = "h + k" and e = "es ! k" and inst = inst, OF f(5)]
        by (intro rq_inv_fill [OF inv, of "h + k" t "\<lambda>n. n\<lparr>rn_fiber := Some (es ! k), rn_instealable := inst\<rparr>"]) auto
      with Batch_Fill False seq rq_load_ok [OF f(5)] rq_store_ok [OF f(5)] show ?thesis by (simp add: batch_entries_def)
    qed
  next
    case (Batch_Publish es inst h k)
    let ?q = "(rs_q s)\<lparr>rq_nodes := (rq_nodes (rs_q s))[(h + k) mod rq_capacity (rs_q s) := (node_at (rs_q s) (h + k))\<lparr>rn_seq := h + k + 1\<rparr>]\<rparr>"
    have k: "k < length es" "batch_log (rs_log s) es inst h k" "holds (rs_q s) (h + k) (rs_log s ! (h + k))"
      using ok Batch_Publish by (auto simp: batch_log_def)
    have "rq_inv (s\<lparr>rs_q := ?q, rs_threads := (rs_threads s)(t := In_BatchPush (Batch_Fill es inst h (k + 1)))\<rparr>)"
      using k Batch_Publish t by (intro rq_inv_publish [OF inv, of "h + k" t]) (auto simp: batch_log_def)
    with Batch_Publish rq_store_ok [OF f(5)] show ?thesis by (simp add: batch_entries_def)
  next
    case (Batch_Returned r)
    then show ?thesis using local [of "Batch_Returned r"] by (simp add: batch_entries_def)
  qed
qed

lemma rq_inv_pop:
  assumes inv: "rq_inv s" and t: "rs_threads s t = In_Pop pc"
  shows "\<exists>pc' q. PopIf_step lucky pc (rs_q s) = Inr (pc', q) \<and>
     rq_inv (s\<lparr>rs_q := q, rs_threads := (rs_threads s)(t := In_Pop pc'), rs_out := rs_out s @ pop_entry pc\<rparr>)"
proof -
  note f = rq_inv_facts [OF inv]
  note c = core_facts [OF f(1)]
  have ok: "pop_ok (rs_q s) (rs_log s) pc" using f(2) [of t] t by simp
  have local: "\<exists>pc' q. Inr (x, rs_q s) = Inr (pc', q) \<and>
       rq_inv (s\<lparr>rs_q := q, rs_threads := (rs_threads s)(t := In_Pop pc'), rs_out := rs_out s @ pop_entry pc\<rparr>)"
    if "pop_ok (rs_q s) (rs_log s) x" "pop_claims (In_Pop x) = pop_claims (In_Pop pc)" "pop_entry pc = []" for x
    using rq_inv_local [OF inv, of "In_Pop x" t] that t by simp
  show ?thesis
  proof (cases pc)
    case (Pop_Start steal)
    then show ?thesis using local [of "Pop_Loaded steal (rq_tail_seq (rs_q s))"] by (simp add: pop_entry_def)
  next
    case (Pop_Loaded steal p)
    then show ?thesis using local [of "Pop_Test steal p (seq_at (rs_q s) p)"] ok rq_load_ok [OF f(5)]
      by (simp add: pop_entry_def still_full_def)
  next
    case (Pop_Test steal p nseq)
    then show ?thesis
      using ok rq_load_ok [OF f(5)] local [of "Pop_Returned None"] local [of "Pop_Claim steal p"] local [of "Pop_Start steal"]
      by (auto simp: pop_entry_def)
  next
    case (Pop_Claim steal p)
    show ?thesis
    proof (cases "rq_tail_seq (rs_q s) = p \<and> lucky")
      case True
      have full: "seq_at (rs_q s) (rq_tail_seq (rs_q s)) = rq_tail_seq (rs_q s) + 1" using ok Pop_Claim True by (simp add: still_full_def)
      have "p \<notin> all_pop (rs_threads s)" using f(10) True by auto
      moreover have "{..<p + 1} - insert p (all_pop (rs_threads s)) = {..<p} - all_pop (rs_threads s)" by auto
      ultimately have "rq_inv (s\<lparr>rs_q := rs_q s\<lparr>rq_tail_seq := rq_tail_seq (rs_q s) + 1\<rparr>,
          rs_threads := (rs_threads s)(t := In_Pop (Pop_Read p)), rs_log := rs_log s, rs_out := rs_out s\<rparr>)"
        using claim_pop_ok [OF f(1) full] f(4) t Pop_Claim True
        by (intro rq_inv_move [OF inv HOL.refl HOL.refl _ rely_claim_pop]) auto
      with True Pop_Claim show ?thesis by (simp add: pop_entry_def)
    next
      case False
      with Pop_Claim local [of "Pop_Start steal"] show ?thesis by (auto simp: pop_entry_def)
    qed
  next
    case (Pop_Read p)
    have "p \<in> all_pop (rs_threads s)" using f(7) [of t] t Pop_Read by auto
    then have "holds (rs_q s) p (rs_log s ! p)" "p < length (rs_log s)" using c(10) [of p] c(3) f(9,10) by auto
    then show ?thesis using Pop_Read local [of "Pop_Release (rn_fiber (node_at (rs_q s) p)) p"] rq_load_ok [OF f(5)]
      by (simp add: pop_entry_def holds_def)
  next
    case (Pop_Release rc p)
    let ?q = "(rs_q s)\<lparr>rq_nodes := (rq_nodes (rs_q s))[p mod rq_capacity (rs_q s) := (node_at (rs_q s) p)\<lparr>rn_seq := p + rq_capacity (rs_q s)\<rparr>]\<rparr>"
    have p: "p \<in> all_pop (rs_threads s)" using f(7) [of t] t Pop_Release by auto
    have "p < rq_tail_seq (rs_q s)" using f(10) p by auto
    then have "{..<rq_tail_seq (rs_q s)} - (all_pop (rs_threads s) - {p}) = insert p ({..<rq_tail_seq (rs_q s)} - all_pop (rs_threads s))"
      by auto
    moreover have "out_ok (rs_out s @ [(p, rc)]) (insert p ({..<rq_tail_seq (rs_q s)} - all_pop (rs_threads s))) (rs_log s)"
      using f(4) p ok Pop_Release by (auto simp: out_ok_def)
    ultimately have "rq_inv (s\<lparr>rs_q := ?q, rs_threads := (rs_threads s)(t := In_Pop (Pop_Returned rc)), rs_log := rs_log s,
        rs_out := rs_out s @ [(p, rc)]\<rparr>)"
      using release_ok [OF f(1) p HOL.refl] t Pop_Release
      by (intro rq_inv_move [OF inv HOL.refl HOL.refl _ rely_release [OF f(1) p HOL.refl]]) auto
    with Pop_Release rq_store_ok [OF f(5)] show ?thesis by (simp add: pop_entry_def)
  next
    case (Pop_Returned r)
    then show ?thesis using local [of "Pop_Returned r"] by (simp add: pop_entry_def)
  qed
qed

section \<open>Every reachable state\<close>

lemma pow2_and_mask: "(2 :: nat) ^ k AND (2 ^ k - 1) = 0"
proof -
  have "(2 :: nat) ^ k AND mask k = 0" by (simp add: take_bit_eq_mask [symmetric])
  then show ?thesis by (simp add: mask_eq_exp_minus_1)
qed

lemma RQ_new_ok:
  "RQ_new (2 ^ Suc k) = Inr \<lparr>rq_capacity = 2 ^ Suc k, rq_mask = 2 ^ Suc k - 1,
     rq_nodes = map (\<lambda>i. \<lparr>rn_fiber = None, rn_instealable = False, rn_seq = i\<rparr>) [0..<2 ^ Suc k], rq_head_seq = 0, rq_tail_seq = 0\<rparr>"
  unfolding RQ_new_def Let_def using pow2_and_mask [of "Suc k"] by (simp add: check_def del: power_Suc)

lemma rq_inv_init:
  assumes "RQ_new (2 ^ Suc k) = Inr q"
  shows "rq_inv \<lparr>rs_q = q, rs_threads = (\<lambda>_. Outside), rs_log = [], rs_out = []\<rparr>"
proof -
  have q: "q = \<lparr>rq_capacity = 2 ^ Suc k, rq_mask = 2 ^ Suc k - 1,
     rq_nodes = map (\<lambda>i. \<lparr>rn_fiber = None, rn_instealable = False, rn_seq = i\<rparr>) [0..<2 ^ Suc k], rq_head_seq = 0, rq_tail_seq = 0\<rparr>"
    using assms unfolding RQ_new_ok by simp
  have "core_inv q {} {} []" unfolding q by (rule core_invI) (auto simp: rq_shape_def simp del: power_Suc)
  with q show ?thesis by (auto simp: rq_inv_def all_push_def all_pop_def claims_disjoint_def out_ok_def)
qed

lemma returned_claims: "returned x \<Longrightarrow> push_claims x = {} \<and> pop_claims x = {}"
  by (cases x) (auto split: push_pc.splits batch_pc.splits pop_pc.splits)

lemma rq_inv_step:
  assumes inv: "rq_inv s" and step: "rq_step s r"
  shows "\<exists>s'. r = Inr s' \<and> rq_inv s'"
  using step
proof cases
  case (call_push t e inst)
  with rq_inv_local [OF inv, of "In_Push (Push_Start e inst False)" t] returned_claims show ?thesis by auto
next
  case (call_batch t es inst)
  with rq_inv_local [OF inv, of "In_BatchPush (Batch_Start es inst)" t] returned_claims show ?thesis by auto
next
  case (call_pop t steal)
  with rq_inv_local [OF inv, of "In_Pop (Pop_Start steal)" t] returned_claims show ?thesis by auto
next
  case (push t pc lucky)
  with rq_inv_push [OF inv push(2), of lucky] show ?thesis by auto
next
  case (batch t pc lucky)
  with rq_inv_batch [OF inv batch(2), of lucky] show ?thesis by auto
next
  case (pop t pc lucky)
  with rq_inv_pop [OF inv pop(2), of lucky] show ?thesis by auto
qed

lemma rq_reach_inv: "rq_reach (2 ^ Suc k) s \<Longrightarrow> rq_inv s"
proof (induction rule: rq_reach.induct)
  case (init q)
  then show ?case by (rule rq_inv_init)
next
  case (step s s')
  then show ?case using rq_inv_step by blast
qed

lemma quiescent_claims: "\<forall>t. returned (th t) \<Longrightarrow> all_push th = {} \<and> all_pop th = {}"
  using returned_claims by (auto simp: all_push_def all_pop_def)

text \<open>With no call under way the queue is a sequence: the nodes from the tail to the head hold it.\<close>

lemma quiescent_queue:
  assumes reach: "rq_reach (2 ^ Suc k) s" and q: "\<forall>t. returned (rs_threads s t)"
  shows "rq_shape (rs_q s)" "rq_tail_seq (rs_q s) \<le> rq_head_seq (rs_q s)"
    "rq_head_seq (rs_q s) \<le> rq_tail_seq (rs_q s) + rq_capacity (rs_q s)" "length (rs_log s) = rq_head_seq (rs_q s)"
    "\<And>p. rq_tail_seq (rs_q s) \<le> p \<Longrightarrow> p < rq_head_seq (rs_q s) \<Longrightarrow> seq_at (rs_q s) p = p + 1 \<and> holds (rs_q s) p (rs_log s ! p)"
    "\<And>p. rq_head_seq (rs_q s) \<le> p \<Longrightarrow> p < rq_tail_seq (rs_q s) + rq_capacity (rs_q s) \<Longrightarrow> seq_at (rs_q s) p = p"
    "out_ok (rs_out s) {..<rq_tail_seq (rs_q s)} (rs_log s)"
  using core_facts [OF rq_inv_facts(1) [OF rq_reach_inv [OF reach]]] rq_inv_facts(4) [OF rq_reach_inv [OF reach]] quiescent_claims [OF q]
  by simp_all

lemma rq_do_step: "rq_do ev s = r \<Longrightarrow> r = Inr s \<or> rq_step s r"
  by (cases ev) (auto intro: rq_step.intros split: rq_thread.splits if_splits)

lemma rq_do_reach: "rq_reach c s \<Longrightarrow> rq_do ev s = Inr s' \<Longrightarrow> rq_reach c s'"
  using rq_do_step [of ev s "Inr s'"] rq_reach.step by fastforce

lemma rq_do_all_reach: "rq_reach c s \<Longrightarrow> rq_do_all evs s = Inr s' \<Longrightarrow> rq_reach c s'"
proof (induction evs arbitrary: s)
  case (Cons ev evs)
  then show ?case using rq_do_reach by (fastforce simp: result_iffs)
qed simp

lemma rq_run_reach: "rq_run c evs = Inr s \<Longrightarrow> rq_reach c s"
  by (auto simp: rq_run_def result_iffs intro: rq_do_all_reach [OF rq_reach.init])

text \<open>A call that runs alone on a queue that nobody else is using.\<close>

lemmas alone_simps = numeral_eq_Suc rq_load_ok rq_store_ok

lemma Push_alone_quiescent:
  assumes "rq_reach (2 ^ Suc k) s" "\<forall>t. returned (rs_threads s t)"
  shows "\<exists>q. Push_alone 6 (Push_Start e inst False) (rs_q s) =
     Inr (Push_Returned (rq_head_seq (rs_q s) < rq_tail_seq (rs_q s) + rq_capacity (rs_q s)), q)"
proof (cases "rq_head_seq (rs_q s) < rq_tail_seq (rs_q s) + rq_capacity (rs_q s)")
  case True
  then have "seq_at (rs_q s) (rq_head_seq (rs_q s)) = rq_head_seq (rs_q s)" using quiescent_queue(6) [OF assms] by simp
  moreover have "rq_shape (rs_q s\<lparr>rq_head_seq := h\<rparr>)" "rq_shape (rs_q s\<lparr>rq_head_seq := h, rq_nodes := (rq_nodes (rs_q s))[i := x]\<rparr>)" for h i x
    using quiescent_queue(1) [OF assms] by (auto simp: rq_shape_def)
  ultimately show ?thesis using True quiescent_queue(1) [OF assms] by (simp add: alone_simps)
next
  case False
  let ?t = "rq_tail_seq (rs_q s)"
  have h: "rq_head_seq (rs_q s) = ?t + rq_capacity (rs_q s)" using False quiescent_queue(3) [OF assms] by simp
  then have "seq_at (rs_q s) ?t = ?t + 1" using quiescent_queue(5) [OF assms, of ?t] shape_cap [OF quiescent_queue(1) [OF assms]] by simp
  with h False quiescent_queue(1) [OF assms] shape_cap show ?thesis by (fastforce simp: alone_simps)
qed

lemma Pop_alone_quiescent:
  assumes "rq_reach (2 ^ Suc k) s" "\<forall>t. returned (rs_threads s t)"
  shows "\<exists>q. PopIf_alone 6 (Pop_Start steal) (rs_q s) =
     Inr (Pop_Returned (if rq_tail_seq (rs_q s) < rq_head_seq (rs_q s) \<and> \<not> (steal \<and> snd (rs_log s ! rq_tail_seq (rs_q s)))
                        then Some (fst (rs_log s ! rq_tail_seq (rs_q s))) else None), q)"
proof (cases "rq_tail_seq (rs_q s) < rq_head_seq (rs_q s)")
  case True
  then have "seq_at (rs_q s) (rq_tail_seq (rs_q s)) = rq_tail_seq (rs_q s) + 1"
    "holds (rs_q s) (rq_tail_seq (rs_q s)) (rs_log s ! rq_tail_seq (rs_q s))" using quiescent_queue(5) [OF assms] by auto
  moreover have "rq_shape (rs_q s\<lparr>rq_tail_seq := h\<rparr>)" for h using quiescent_queue(1) [OF assms] by (auto simp: rq_shape_def)
  ultimately show ?thesis using True quiescent_queue(1) [OF assms] by (auto simp: alone_simps holds_def)
next
  case False
  let ?t = "rq_tail_seq (rs_q s)"
  have "seq_at (rs_q s) ?t = ?t" using False quiescent_queue(2,6) [OF assms] shape_cap [OF quiescent_queue(1) [OF assms]] by simp
  with False quiescent_queue(1) [OF assms] show ?thesis by (simp add: alone_simps)
qed

text \<open>A batch as large as the queue finds the node behind it to be its own first one.\<close>

lemma BatchPush_spins:
  assumes shape: "rq_shape q" and seq: "seq_at q (rq_head_seq q) = rq_head_seq q" and len: "length es = rq_capacity q"
    and pc: "pc \<in> {Batch_Start es inst, Batch_Loaded es inst (rq_head_seq q), Batch_Test es inst (rq_head_seq q) (rq_head_seq q)}"
  shows "\<exists>pc'. BatchPush_alone n pc q = Inr (pc', q) \<and> (\<forall>r. pc' \<noteq> Batch_Returned r)"
  using pc
proof (induction n arbitrary: pc)
  case (Suc n)
  have "\<exists>pc'. BatchPush_step True pc q = Inr (pc', q) \<and>
     pc' \<in> {Batch_Start es inst, Batch_Loaded es inst (rq_head_seq q), Batch_Test es inst (rq_head_seq q) (rq_head_seq q)}"
    using Suc.prems seq len rq_load_ok [OF shape] shape_cap [OF shape] by (auto simp: Let_def)
  with Suc.IH show ?case by auto
qed auto

section \<open>Results\<close>

text \<open>
  C5. Whatever calls of \<^verbatim>\<open>Push\<close>, \<^verbatim>\<open>BatchPush\<close>, \<^verbatim>\<open>Pop\<close> and \<^verbatim>\<open>Steal\<close> run in parallel on a queue of a
  capacity of two or more, and however their steps interleave, no step goes wrong: the
  \<^verbatim>\<open>FLARE_CHECK_EQ\<close> in \<^verbatim>\<open>BatchPush\<close> holds and no node outside of the array is used.
\<close>

theorem run_queue_never_faults:
  assumes "rq_reach (2 ^ Suc k) s" "rq_step s r"
  shows "\<exists>s'. r = Inr s'"
  using rq_inv_step [OF rq_reach_inv [OF assms(1)] assms(2)] by blast

theorem run_queue_never_faults_witness:
  "case rq_run (2 ^ Suc 1) [Call_BatchPush 0 [7, 8] False, Call_Pop 1 True, Move 0 True, Move 1 True, Move 0 True,
       Move 0 True, Move 0 True, Move 0 True, Move 0 True, Move 0 True] of
     Inl _ \<Rightarrow> False
   | Inr s \<Rightarrow> rs_threads s 0 = In_BatchPush (Batch_Fill [7, 8 :: nat] False 0 0) \<and>
       (\<exists>s'. rbind (BatchPush_step True (Batch_Fill [7, 8] False 0 0) (rs_q s)) (\<lambda>(pc', q).
          Inr (s\<lparr>rs_q := q, rs_threads := (rs_threads s)(0 := In_BatchPush pc'),
             rs_log := rs_log s @ batch_entries (Batch_Fill [7, 8] False 0 0) pc'\<rparr>)) = Inr s')"
proof -
  let ?evs = "[Call_BatchPush 0 [7, 8 :: nat] False, Call_Pop 1 True, Move 0 True, Move 1 True, Move 0 True,
       Move 0 True, Move 0 True, Move 0 True, Move 0 True, Move 0 True]"
  have "Suc (Suc 0) AND 3 = Suc (Suc 0)" by code_simp
  then have "\<exists>s. rq_run (2 ^ Suc 1) ?evs = Inr s \<and> rs_threads s 0 = In_BatchPush (Batch_Fill [7, 8] False 0 0)"
    by (simp add: rq_run_def RQ_new_def rq_load_def rq_index_def check_def Let_def batch_entries_def pop_entry_def)
  then obtain s where s: "rq_run (2 ^ Suc 1) ?evs = Inr s" "rs_threads s 0 = In_BatchPush (Batch_Fill [7, 8] False 0 0)" by blast
  show ?thesis using s(2) run_queue_never_faults [OF rq_run_reach [OF s(1)] batch [OF s(2), of True]] unfolding s(1) by simp
qed

text \<open>
  C1. The queue is first in, first out, loses nothing and delivers nothing twice. Every position is
  popped at most once, and what is popped at a position is what was pushed there. When no call is
  under way, exactly the positions below the tail have been popped.
\<close>

theorem run_queue_fifo:
  assumes "rq_reach (2 ^ Suc k) s"
  shows "distinct (map fst (rs_out s)) \<and>
     (\<forall>(p, rc) \<in> set (rs_out s). p < length (rs_log s) \<and> rc = Some (fst (rs_log s ! p))) \<and>
     ((\<forall>t. returned (rs_threads s t)) \<longrightarrow>
        fst ` set (rs_out s) = {..<rq_tail_seq (rs_q s)} \<and> length (rs_log s) = rq_head_seq (rs_q s))"
  using rq_inv_facts(4) [OF rq_reach_inv [OF assms]] quiescent_queue(4,7) [OF assms] by (auto simp: out_ok_def)

theorem run_queue_fifo_witness:
  "case rq_run (2 ^ Suc 0) ([Call_Push 0 (7 :: nat) False, Call_Push 1 8 False, Call_Pop 2 False] @ map (\<lambda>t. Move t True) 
       [0, 1, 0, 1, 1, 1, 1, 0, 0, 0, 0, 0, 0, 2, 2, 2, 2, 2, 2]) of
     Inl _ \<Rightarrow> False
   | Inr s \<Rightarrow> rs_out s = [(0, Some 8)] \<and> fst ` set (rs_out s) = {..<rq_tail_seq (rs_q s)} \<and> length (rs_log s) = rq_head_seq (rs_q s)"
proof -
  let ?evs = "[Call_Push 0 (7 :: nat) False, Call_Push 1 8 False, Call_Pop 2 False] @ map (\<lambda>t. Move t True)
       [0, 1, 0, 1, 1, 1, 1, 0, 0, 0, 0, 0, 0, 2, 2, 2, 2, 2, 2]"
  have "\<exists>s. rq_run (2 ^ Suc 0) ?evs = Inr s \<and> (\<forall>t. returned (rs_threads s t)) \<and> rs_out s = [(0, Some 8)]"
    by (simp add: rq_run_def RQ_new_def rq_load_def rq_store_def rq_index_def check_def Let_def push_entry_def pop_entry_def)
  then obtain s where s: "rq_run (2 ^ Suc 0) ?evs = Inr s" "\<forall>t. returned (rs_threads s t)" "rs_out s = [(0, Some 8)]" by blast
  show ?thesis using s run_queue_fifo [OF rq_run_reach [OF s(1)]] unfolding s(1) by simp
qed

text \<open>
  On a queue that nobody else uses, \<^verbatim>\<open>Push\<close> accepts exactly when there is room, within six
  steps, and \<^verbatim>\<open>Pop\<close> and \<^verbatim>\<open>Steal\<close> return the oldest entry, or nothing when the queue is empty or when the
  oldest entry must not be stolen.
\<close>

theorem run_queue_alone:
  assumes "rq_reach (2 ^ Suc k) s" "\<forall>t. returned (rs_threads s t)"
  shows "(\<exists>q. Push_alone 6 (Push_Start e inst False) (rs_q s) =
       Inr (Push_Returned (rq_head_seq (rs_q s) < rq_tail_seq (rs_q s) + rq_capacity (rs_q s)), q)) \<and>
     (\<exists>q. PopIf_alone 6 (Pop_Start steal) (rs_q s) =
       Inr (Pop_Returned (if rq_tail_seq (rs_q s) < rq_head_seq (rs_q s) \<and> \<not> (steal \<and> snd (rs_log s ! rq_tail_seq (rs_q s)))
                          then Some (fst (rs_log s ! rq_tail_seq (rs_q s))) else None), q))"
  using Push_alone_quiescent [OF assms] Pop_alone_quiescent [OF assms] by blast

theorem run_queue_alone_witness:
  "case rq_run (2 ^ Suc 0) [Call_Push 0 (7 :: nat) True, Move 0 True, Move 0 True, Move 0 True, Move 0 True, Move 0 True] of
     Inl _ \<Rightarrow> False
   | Inr s \<Rightarrow> (\<exists>q. PopIf_alone 6 (Pop_Start False) (rs_q s) = Inr (Pop_Returned (Some 7), q)) \<and>
       (\<exists>q. PopIf_alone 6 (Pop_Start True) (rs_q s) = Inr (Pop_Returned None, q))"
proof -
  let ?evs = "[Call_Push 0 (7 :: nat) True, Move 0 True, Move 0 True, Move 0 True, Move 0 True, Move 0 True]"
  have "\<exists>s. rq_run (2 ^ Suc 0) ?evs = Inr s \<and> (\<forall>t. returned (rs_threads s t)) \<and> rs_log s = [(7, True)] \<and>
       rq_tail_seq (rs_q s) = 0 \<and> rq_head_seq (rs_q s) = 1"
    by (simp add: rq_run_def RQ_new_def rq_load_def rq_store_def rq_index_def check_def Let_def push_entry_def)
  then obtain s where s: "rq_run (2 ^ Suc 0) ?evs = Inr s" "\<forall>t. returned (rs_threads s t)" "rs_log s = [(7, True)]"
    "rq_tail_seq (rs_q s) = 0" "rq_head_seq (rs_q s) = 1" by blast
  show ?thesis
    using s(3-5) run_queue_alone [OF rq_run_reach [OF s(1)] s(2), of _ _ False] run_queue_alone [OF rq_run_reach [OF s(1)] s(2), of _ _ True]
    unfolding s(1) by simp
qed

text \<open>
  C31. A batch of as many fibers as the queue has nodes is never refused and never accepted: on a
  queue that is not full and that nobody else uses, \<^verbatim>\<open>BatchPush\<close> tries again forever.
\<close>

theorem batch_push_spins:
  assumes "rq_reach (2 ^ Suc k) s" "\<forall>t. returned (rs_threads s t)"
    and "rq_head_seq (rs_q s) < rq_tail_seq (rs_q s) + rq_capacity (rs_q s)" "length es = rq_capacity (rs_q s)"
  shows "\<exists>pc. BatchPush_alone n (Batch_Start es inst) (rs_q s) = Inr (pc, rs_q s) \<and> (\<forall>r. pc \<noteq> Batch_Returned r)"
  using BatchPush_spins [OF quiescent_queue(1) [OF assms(1,2)] quiescent_queue(6) [OF assms(1,2) _ assms(3)] assms(4)] by simp

theorem batch_push_spins_witness:
  "case rq_run (2 ^ Suc 0) [] of
     Inl _ \<Rightarrow> False
   | Inr s \<Rightarrow> \<exists>pc. BatchPush_alone 1000 (Batch_Start [7, 8 :: nat] False) (rs_q s) = Inr (pc, rs_q s) \<and> (\<forall>r. pc \<noteq> Batch_Returned r)"
proof -
  have "\<exists>s. rq_run (2 ^ Suc 0) [] = Inr (s :: nat rq_state) \<and> (\<forall>t. returned (rs_threads s t)) \<and>
       rq_tail_seq (rs_q s) = 0 \<and> rq_head_seq (rs_q s) = 0 \<and> rq_capacity (rs_q s) = 2"
    by (simp add: rq_run_def RQ_new_def check_def Let_def)
  then obtain s :: "nat rq_state" where s: "rq_run (2 ^ Suc 0) [] = Inr s" "\<forall>t. returned (rs_threads s t)"
    "rq_tail_seq (rs_q s) = 0" "rq_head_seq (rs_q s) = 0" "rq_capacity (rs_q s) = 2" by blast
  show ?thesis using s(3-5) batch_push_spins [OF rq_run_reach [OF s(1)] s(2), of "[7, 8]" 1000 False] unfolding s(1) by simp
qed

end
