(* ===== verification/Redis_Reader.thy ===== *)
theory Redis_Reader
  imports Buffer Strings
begin

text \<open>
  Reading Redis objects from the bytes received (\<^verbatim>\<open>flare/net/redis/redis_object.h\<close> and
  \<^verbatim>\<open>flare/net/redis/reader.cc\<close>). The reader works on the non-contiguous buffer of the connection
  and is called again whenever more bytes have come. The reference is a printer for a datatype of
  replies: a printed reply is read back and nothing behind it is touched, and of every incomplete
  one the reader says that more bytes are needed.
\<close>

section \<open>Objects\<close>

text \<open>\<open>RedisUnset\<close> is the \<^verbatim>\<open>std::monostate\<close> of an object that has not been assigned.\<close>

datatype RedisObject =
    RedisUnset
  | RedisString string
  | RedisInteger int
  | RedisBytes NoncontiguousBuffer
  | RedisArray "RedisObject list"
  | RedisError string string
  | RedisNull

section \<open>The reader\<close>

definition CRLF :: string where
  "CRLF = [CHR 0x0D, CHR 0x0A]"

definition read_line :: "NoncontiguousBuffer \<Rightarrow> string result" where
  "read_line buffer = FlattenSlowUntil buffer CRLF (2 ^ 64 - 1)"

definition cut_simple_string ::
    "NoncontiguousBuffer \<Rightarrow> RedisObject \<Rightarrow> (int \<times> NoncontiguousBuffer \<times> RedisObject) result" where
  "cut_simple_string buffer object =
     rbind (read_line buffer) (\<lambda>str.
       if \<not> EndsWith str CRLF then Inr (0, buffer, object)
       else rbind (NB_Skip (length str) buffer) (\<lambda>buffer.
         Inr (1, buffer, RedisString (substr str 1 (length str - 3)))))"

definition cut_error ::
    "NoncontiguousBuffer \<Rightarrow> RedisObject \<Rightarrow> (int \<times> NoncontiguousBuffer \<times> RedisObject) result" where
  "cut_error buffer object =
     rbind (read_line buffer) (\<lambda>str.
       if \<not> EndsWith str CRLF then Inr (0, buffer, object)
       else rbind (NB_Skip (length str) buffer) (\<lambda>buffer.
         let str = butlast (butlast (tl str))
         in case sv_find '' '' str of
              Some pos \<Rightarrow> Inr (1, buffer, RedisError (take pos str) (drop (pos + 1) str))
            | None \<Rightarrow> Inr (1, buffer, RedisError [] str)))"

definition cut_integer ::
    "NoncontiguousBuffer \<Rightarrow> RedisObject \<Rightarrow> (int \<times> NoncontiguousBuffer \<times> RedisObject) result" where
  "cut_integer buffer object =
     rbind (read_line buffer) (\<lambda>str.
       if \<not> EndsWith str CRLF then Inr (0, buffer, object)
       else rbind (NB_Skip (length str) buffer) (\<lambda>buffer.
         case TryParse_integral (- (2 ^ 63)) (2 ^ 63 - 1) 10 (substr str 1 (length str - 3)) of
           Some opt \<Rightarrow> Inr (1, buffer, RedisInteger opt)
         | None \<Rightarrow> Inr (- 1, buffer, object)))"

text \<open>
  The size is an \<^verbatim>\<open>int\<close> that is converted to \<^verbatim>\<open>std::size_t\<close> in the sum and in the call of \<^verbatim>\<open>Cut\<close>.
\<close>

definition cut_bulk_string ::
    "NoncontiguousBuffer \<Rightarrow> RedisObject \<Rightarrow> (int \<times> NoncontiguousBuffer \<times> RedisObject) result" where
  "cut_bulk_string buffer object =
     rbind (read_line buffer) (\<lambda>str.
       if \<not> EndsWith str CRLF then Inr (0, buffer, object)
       else case TryParse_integral (- (2 ^ 31)) (2 ^ 31 - 1) 10 (substr str 1 (length str - 3)) of
         None \<Rightarrow> Inr (- 1, buffer, object)
       | Some size_opt \<Rightarrow>
           if size_opt = - 1
           then rbind (NB_Skip (length str) buffer) (\<lambda>buffer. Inr (1, buffer, RedisNull))
           else if int (NB_ByteSize buffer) < (int (length str) + size_opt + 2) mod 2 ^ 64
           then Inr (0, buffer, object)
           else rbind (NB_Skip (length str) buffer) (\<lambda>buffer.
             rbind (NB_Cut (nat (size_opt mod 2 ^ 64)) buffer) (\<lambda>(body, buffer).
               rbind (NB_Skip 2 buffer) (\<lambda>buffer. Inr (1, buffer, RedisBytes body)))))"

text \<open>
  The reader, and the loop over the elements of an array. Both carry a bound on the number of
  nested calls and iterations. The counter of the loop is an \<^verbatim>\<open>int\<close>.
\<close>

fun TryCutRedisObject ::
    "nat \<Rightarrow> NoncontiguousBuffer \<Rightarrow> RedisObject \<Rightarrow> (int \<times> NoncontiguousBuffer \<times> RedisObject) result"
and cut_elements ::
    "nat \<Rightarrow> int \<Rightarrow> int \<Rightarrow> NoncontiguousBuffer \<Rightarrow> RedisObject list \<Rightarrow> (int \<times> NoncontiguousBuffer \<times> RedisObject list) result" where
  "TryCutRedisObject 0 buffer object = Inl Out_of_fuel"
| "TryCutRedisObject (Suc fuel) buffer object =
     rbind (NB_Empty buffer) (\<lambda>e.
       if e then Inr (0, buffer, object)
       else rbind (NB_FirstContiguous buffer) (\<lambda>first. check (length first \<noteq> 0)
         (let type = hd first
          in if type = CHR ''+'' then cut_simple_string buffer object
             else if type = CHR ''-'' then cut_error buffer object
             else if type = CHR '':'' then cut_integer buffer object
             else if type = CHR ''$'' then cut_bulk_string buffer object
             else if type = CHR ''*''
             then rbind (read_line buffer) (\<lambda>str.
               if \<not> EndsWith str CRLF then Inr (0, buffer, object)
               else case TryParse_integral (- (2 ^ 31)) (2 ^ 31 - 1) 10 (substr str 1 (length str - 3)) of
                 None \<Rightarrow> Inr (- 1, buffer, object)
               | Some size_opt \<Rightarrow>
                   if size_opt = - 1
                   then rbind (NB_Skip (length str) buffer) (\<lambda>buffer. Inr (1, buffer, RedisNull))
                   else rbind (NB_Skip (length str) (NB_copy buffer)) (\<lambda>copy.
                     rbind (cut_elements fuel 0 size_opt copy []) (\<lambda>(rc, copy, objects).
                       if rc \<le> 0 then Inr (rc, buffer, object)
                       else rbind (NB_Skip (NB_ByteSize buffer - NB_ByteSize copy) buffer) (\<lambda>buffer.
                         Inr (1, buffer, RedisArray objects)))))
             else Inr (- 1, buffer, object))))"
| "cut_elements 0 i size_opt copy objects = Inl Out_of_fuel"
| "cut_elements (Suc fuel) i size_opt copy objects =
     (if i = size_opt then Inr (1, copy, objects)
      else rbind (TryCutRedisObject fuel copy RedisUnset) (\<lambda>(rc, copy, object).
        if rc \<le> 0 then Inr (rc, copy, objects @ [object])
        else if i = 2 ^ 31 - 1 then Inl Undefined_behaviour
        else cut_elements fuel (i + 1) size_opt copy (objects @ [object])))"

section \<open>The reference\<close>

datatype resp =
    R_Unset
  | R_Simple string
  | R_Integer int
  | R_Bulk string
  | R_Array "resp list"
  | R_Error string string
  | R_Null

fun resp_print :: "resp \<Rightarrow> string" where
  "resp_print R_Unset = []"
| "resp_print (R_Simple s) = ''+'' @ s @ CRLF"
| "resp_print (R_Integer z) = '':'' @ print_int z @ CRLF"
| "resp_print (R_Bulk s) = ''$'' @ print_nat (length s) @ CRLF @ s @ CRLF"
| "resp_print (R_Array rs) = ''*'' @ print_nat (length rs) @ CRLF @ concat (map resp_print rs)"
| "resp_print (R_Error c m) = ''-'' @ (if c = [] then m else c @ '' '' @ m) @ CRLF"
| "resp_print R_Null = ''$'' @ print_int (- 1) @ CRLF"

text \<open>What the format can express.\<close>

fun resp_ok :: "resp \<Rightarrow> bool" where
  "resp_ok R_Unset = False"
| "resp_ok (R_Simple s) \<longleftrightarrow> CHR 0x0D \<notin> set s"
| "resp_ok (R_Integer z) \<longleftrightarrow> - (2 ^ 63) \<le> z \<and> z < 2 ^ 63"
| "resp_ok (R_Bulk s) \<longleftrightarrow> length s < 2 ^ 31"
| "resp_ok (R_Array rs) \<longleftrightarrow> length rs < 2 ^ 31 \<and> list_all resp_ok rs"
| "resp_ok (R_Error c m) \<longleftrightarrow> CHR 0x0D \<notin> set c \<and> CHR 0x0D \<notin> set m \<and> CHR '' '' \<notin> set c \<and> (c = [] \<longrightarrow> CHR '' '' \<notin> set m)"
| "resp_ok R_Null = True"

fun redis_abs :: "RedisObject \<Rightarrow> resp" where
  "redis_abs RedisUnset = R_Unset"
| "redis_abs (RedisString s) = R_Simple s"
| "redis_abs (RedisInteger z) = R_Integer z"
| "redis_abs (RedisBytes nb) = R_Bulk (nb_bytes nb)"
| "redis_abs (RedisArray os) = R_Array (map redis_abs os)"
| "redis_abs (RedisError c m) = R_Error c m"
| "redis_abs RedisNull = R_Null"

section \<open>Lines\<close>

lemma length_CRLF [simp]: "length CRLF = 2" "CRLF \<noteq> []"
  by (simp_all add: CRLF_def)

lemma no_CR_no_line:
  "CHR 0x0D \<notin> set l \<Longrightarrow> sv_find CRLF l = None" "CHR 0x0D \<notin> set l \<Longrightarrow> sv_find CRLF (l @ [CHR 0x0D]) = None"
  by (induction l) (auto simp: CRLF_def)

lemma line_found: "CHR 0x0D \<notin> set l \<Longrightarrow> upto_delim CRLF (l @ CRLF @ rest) = l @ CRLF"
proof -
  assume "CHR 0x0D \<notin> set l"
  then have "sv_find CRLF (l @ CRLF @ rest) = Some (length l)" by (induction l) (auto simp: CRLF_def)
  then show ?thesis by (simp add: upto_delim_def)
qed

lemma sv_find_suffix: "suffix d s \<Longrightarrow> sv_find d s \<noteq> None"
proof -
  assume "suffix d s"
  then obtain u where "s = u @ d" by (auto simp: suffix_def)
  with sv_find_NoneD [of d s "length u"] show ?thesis by auto
qed

lemma line_missing:
  assumes "strict_prefix p (l @ CRLF)" "CHR 0x0D \<notin> set l"
  shows "upto_delim CRLF p = p" "\<not> EndsWith p CRLF"
proof -
  have "prefix p (l @ [CHR 0x0D])"
    using assms(1) prefix_snoc [of p "l @ [CHR 0x0D]" "CHR 0x0A"] by (simp add: CRLF_def strict_prefix_def)
  then have "sv_find CRLF p = None"
    using no_CR_no_line [of l] no_CR_no_line(1) [of p] assms(2) set_mono_prefix [of p l] by auto
  then show "upto_delim CRLF p = p" "\<not> EndsWith p CRLF" using sv_find_suffix [of CRLF p] by (auto simp: upto_delim_def EndsWith_suffix)
qed

lemma read_line_ok:
  assumes "nb_invar b" "length (nb_bytes b) < 2 ^ 64"
  shows "read_line b = Inr (upto_delim CRLF (nb_bytes b))"
proof -
  have "length (upto_delim CRLF (nb_bytes b)) \<le> 2 ^ 64 - 1" using assms(2) by (auto simp: upto_delim_def split: option.split)
  then show ?thesis unfolding read_line_def FlattenSlowUntil_ok [OF assms(1)] by simp
qed

text \<open>The line at the front of a buffer, complete or not.\<close>

lemma complete_line:
  assumes "nb_invar b" "length (nb_bytes b) < 2 ^ 64" "nb_bytes b = (c # l) @ CRLF @ rest" "CHR 0x0D \<notin> set (c # l)"
  shows "read_line b = Inr (c # l @ CRLF)" "EndsWith (c # l @ CRLF) CRLF"
    "\<exists>b'. NB_Skip (length (c # l @ CRLF)) b = Inr b' \<and> nb_invar b' \<and> nb_bytes b' = rest"
    "\<exists>b'. NB_Skip (length (c # l @ CRLF)) (NB_copy b) = Inr b' \<and> nb_invar b' \<and> nb_bytes b' = rest"
proof -
  show "read_line b = Inr (c # l @ CRLF)"
    using read_line_ok [OF assms(1,2)] line_found [OF assms(4)] unfolding assms(3) by simp
  show "EndsWith (c # l @ CRLF) CRLF" unfolding EndsWith_suffix by (metis append_Cons suffixI)
  show "\<exists>b'. NB_Skip (length (c # l @ CRLF)) b = Inr b' \<and> nb_invar b' \<and> nb_bytes b' = rest"
    using NB_Skip_ok [OF assms(1), of "length (c # l @ CRLF)"] assms(3) by simp
  show "\<exists>b'. NB_Skip (length (c # l @ CRLF)) (NB_copy b) = Inr b' \<and> nb_invar b' \<and> nb_bytes b' = rest"
    using NB_Skip_ok [of "NB_copy b" "length (c # l @ CRLF)"] NB_copy_ok [OF assms(1)] assms(3) by simp
qed

lemma incomplete_line:
  assumes "nb_invar b" "length (nb_bytes b) < 2 ^ 64" "strict_prefix (nb_bytes b) (l @ CRLF)" "CHR 0x0D \<notin> set l"
  shows "\<exists>str. read_line b = Inr str \<and> \<not> EndsWith str CRLF"
  using read_line_ok [OF assms(1,2)] line_missing [OF assms(3,4)] by simp

lemma line_content:
  "substr (c # l @ CRLF) 1 (length (c # l @ CRLF) - 3) = l" "butlast (butlast (tl (c # l @ CRLF))) = l"
  by (simp_all add: substr_def CRLF_def butlast_append)

lemma print_no_CR: "CHR 0x0D \<notin> set (print_nat n)" "CHR 0x0D \<notin> set (print_int z)"
proof -
  have "\<not> is_digit 10 (CHR 0x0D)" by code_simp
  then show "CHR 0x0D \<notin> set (print_nat n)" for n using print_nat_digits [of n] by (auto simp: list_all_iff)
  then show "CHR 0x0D \<notin> set (print_int z)" by (simp add: print_int_def)
qed

lemma first_char:
  assumes "nb_invar b" "nb_bytes b = c # r"
  shows "NB_Empty b = Inr False" "\<exists>first. NB_FirstContiguous b = Inr (c # first)"
proof -
  show "NB_Empty b = Inr False" using assms NB_Empty_ok by simp
  obtain p ps where ps: "nb_buffers b = p # ps" using assms(2) by (cases "nb_buffers b") (auto simp: nb_bytes_def)
  then have "length (pb_bytes p) > 0" using assms(1) by (auto simp: nb_invar_def pb_ok_def pb_bytes_def)
  moreover have "pb_bytes p @ concat (map pb_bytes ps) = c # r" using assms(2) ps by (simp add: nb_bytes_def)
  ultimately have "\<exists>f. pb_bytes p = c # f" by (cases "pb_bytes p") auto
  then show "\<exists>first. NB_FirstContiguous b = Inr (c # first)" using NB_FirstContiguous_ok [OF assms(1) ps] by simp
qed

text \<open>What the reader does, by the first byte.\<close>

definition cut_array ::
    "nat \<Rightarrow> NoncontiguousBuffer \<Rightarrow> RedisObject \<Rightarrow> (int \<times> NoncontiguousBuffer \<times> RedisObject) result" where
  "cut_array fuel buffer object =
     rbind (read_line buffer) (\<lambda>str.
       if \<not> EndsWith str CRLF then Inr (0, buffer, object)
       else case TryParse_integral (- (2 ^ 31)) (2 ^ 31 - 1) 10 (substr str 1 (length str - 3)) of
         None \<Rightarrow> Inr (- 1, buffer, object)
       | Some size_opt \<Rightarrow>
           if size_opt = - 1
           then rbind (NB_Skip (length str) buffer) (\<lambda>buffer. Inr (1, buffer, RedisNull))
           else rbind (NB_Skip (length str) (NB_copy buffer)) (\<lambda>copy.
             rbind (cut_elements fuel 0 size_opt copy []) (\<lambda>(rc, copy, objects).
               if rc \<le> 0 then Inr (rc, buffer, object)
               else rbind (NB_Skip (NB_ByteSize buffer - NB_ByteSize copy) buffer) (\<lambda>buffer.
                 Inr (1, buffer, RedisArray objects)))))"

lemma TryCutRedisObject_by_type:
  assumes "nb_invar b" "nb_bytes b = c # r"
  shows "TryCutRedisObject (Suc fuel) b obj =
     (if c = CHR ''+'' then cut_simple_string b obj
      else if c = CHR ''-'' then cut_error b obj
      else if c = CHR '':'' then cut_integer b obj
      else if c = CHR ''$'' then cut_bulk_string b obj
      else if c = CHR ''*'' then cut_array fuel b obj
      else Inr (- 1, b, obj))"
proof -
  obtain first where "NB_FirstContiguous b = Inr (c # first)" using first_char(2) [OF assms] by blast
  then show ?thesis using first_char(1) [OF assms] by (simp add: cut_array_def)
qed

lemma TryCutRedisObject_empty: "nb_invar b \<Longrightarrow> nb_bytes b = [] \<Longrightarrow> TryCutRedisObject (Suc fuel) b obj = Inr (0, b, obj)"
  by (simp add: NB_Empty_ok)

declare TryCutRedisObject.simps(2) [simp del]

section \<open>A complete reply\<close>

lemma parse_size: "n < 2 ^ 31 \<Longrightarrow> TryParse_integral (- (2 ^ 31)) (2 ^ 31 - 1) 10 (print_nat n) = Some (int n)"
  using TryParse_print [of "- (2 ^ 31)" "2 ^ 31 - 1" "int n"] by (simp add: print_int_def)

lemma sv_find_space: "CHR '' '' \<notin> set c \<Longrightarrow> sv_find '' '' (c @ '' '' @ m) = Some (length c)" "CHR '' '' \<notin> set c \<Longrightarrow> sv_find '' '' c = None"
  by (induction c) auto

lemma cut_leaf:
  assumes b: "nb_invar b" "length (nb_bytes b) < 2 ^ 64" "nb_bytes b = resp_print r @ rest" and r: "resp_ok r" "\<forall>rs. r \<noteq> R_Array rs"
  shows "\<exists>b' obj'. TryCutRedisObject (Suc fuel) b obj = Inr (1, b', obj') \<and> redis_abs obj' = r \<and> nb_invar b' \<and> nb_bytes b' = rest"
proof (cases r)
  case (R_Simple l)
  then have line: "nb_bytes b = (CHR ''+'' # l) @ CRLF @ rest" "CHR 0x0D \<notin> set (CHR ''+'' # l)" using b(3) r by auto
  note c = complete_line [OF b(1,2) line]
  show ?thesis using c line R_Simple TryCutRedisObject_by_type [OF b(1), of "CHR ''+''" "l @ CRLF @ rest"]
    by (auto simp: cut_simple_string_def line_content [simplified])
next
  case (R_Integer z)
  then have line: "nb_bytes b = (CHR '':'' # print_int z) @ CRLF @ rest" "CHR 0x0D \<notin> set (CHR '':'' # print_int z)"
    using b(3) print_no_CR by auto
  note c = complete_line [OF b(1,2) line]
  show ?thesis
    using c line R_Integer r TryCutRedisObject_by_type [OF b(1), of "CHR '':''" "print_int z @ CRLF @ rest"]
      TryParse_print [of "- (2 ^ 63)" "2 ^ 63 - 1" z]
    by (auto simp: cut_integer_def line_content [simplified])
next
  case (R_Bulk s)
  let ?l = "print_nat (length s)"
  have line: "nb_bytes b = (CHR ''$'' # ?l) @ CRLF @ (s @ CRLF @ rest)" "CHR 0x0D \<notin> set (CHR ''$'' # ?l)"
    using b(3) print_no_CR R_Bulk by auto
  note c = complete_line [OF b(1,2) line]
  obtain b1 where b1: "NB_Skip (length (CHR ''$'' # ?l @ CRLF)) b = Inr b1" "nb_invar b1" "nb_bytes b1 = s @ CRLF @ rest" using c(3) by blast
  obtain body b2 where b2: "NB_Cut (length s) b1 = Inr (body, b2)" "nb_invar b2" "nb_bytes body = s" "nb_bytes b2 = CRLF @ rest"
    using NB_Cut_ok [OF b1(2), of "length s"] b1(3) by auto
  obtain b3 where b3: "NB_Skip 2 b2 = Inr b3" "nb_invar b3" "nb_bytes b3 = rest" using NB_Skip_ok [OF b2(2), of 2] b2(4) by auto
  have len: "int (length (CHR ''$'' # ?l @ CRLF)) + int (length s) + 2 \<le> int (NB_ByteSize b)"
    using nb_invar_length [OF b(1)] line(1) by (simp add: NB_ByteSize_def)
  then have mod: "(int (length (CHR ''$'' # ?l @ CRLF)) + int (length s) + 2) mod 2 ^ 64 = int (length (CHR ''$'' # ?l @ CRLF)) + int (length s) + 2"
    "int (length s) mod 2 ^ 64 = int (length s)"
    using b(2) nb_invar_length [OF b(1)] by (auto simp: NB_ByteSize_def intro!: mod_pos_pos_trivial)
  show ?thesis
    using c(1,2) line R_Bulk r b1 b2 b3 len mod parse_size TryCutRedisObject_by_type [OF b(1), of "CHR ''$''" "?l @ CRLF @ s @ CRLF @ rest"]
    by (auto simp: cut_bulk_string_def line_content [simplified])
next
  case (R_Error c m)
  let ?l = "if c = [] then m else c @ '' '' @ m"
  have line: "nb_bytes b = (CHR ''-'' # ?l) @ CRLF @ rest" "CHR 0x0D \<notin> set (CHR ''-'' # ?l)" using b(3) r R_Error by auto
  note cl = complete_line [OF b(1,2) line]
  show ?thesis
    using cl line R_Error r TryCutRedisObject_by_type [OF b(1), of "CHR ''-''" "?l @ CRLF @ rest"] sv_find_space
    by (auto simp: cut_error_def line_content [simplified])
next
  case R_Null
  let ?l = "print_int (- 1)"
  have line: "nb_bytes b = (CHR ''$'' # ?l) @ CRLF @ rest" "CHR 0x0D \<notin> set (CHR ''$'' # ?l)" using b(3) print_no_CR R_Null by auto
  note c = complete_line [OF b(1,2) line]
  show ?thesis
    using c line R_Null TryCutRedisObject_by_type [OF b(1), of "CHR ''$''" "?l @ CRLF @ rest"] TryParse_print [of "- (2 ^ 31)" "2 ^ 31 - 1" "- 1"]
    by (auto simp: cut_bulk_string_def line_content [simplified])
qed (use r in auto)

lemma resp_print_length: "resp_ok r \<Longrightarrow> 3 \<le> length (resp_print r)"
  using print_nat_digits by (cases r) (auto simp: Suc_le_eq print_int_def)

text \<open>The fuel that is enough: one more than the bytes for a reply, two more for the elements of an array.\<close>

definition reads_all :: "nat \<Rightarrow> resp \<Rightarrow> bool" where
  "reads_all fuel r \<longleftrightarrow> (\<forall>b rest obj. nb_invar b \<and> length (nb_bytes b) < 2 ^ 64 \<and> nb_bytes b = resp_print r @ rest \<longrightarrow>
     (\<exists>b' obj'. TryCutRedisObject fuel b obj = Inr (1, b', obj') \<and> redis_abs obj' = r \<and> nb_invar b' \<and> nb_bytes b' = rest))"

lemma reads_allD:
  assumes "reads_all fuel r" "nb_invar b" "length (nb_bytes b) < 2 ^ 64" "nb_bytes b = resp_print r @ rest"
  shows "\<exists>b' obj'. TryCutRedisObject fuel b obj = Inr (1, b', obj') \<and> redis_abs obj' = r \<and> nb_invar b' \<and> nb_bytes b' = rest"
  using assms unfolding reads_all_def by blast

lemma cut_elements_all:
  assumes "\<forall>r \<in> set rs. resp_ok r \<and> (\<forall>fuel. length (resp_print r) \<le> fuel \<longrightarrow> reads_all fuel r)"
    and "nb_invar b" "length (nb_bytes b) < 2 ^ 64" "nb_bytes b = concat (map resp_print rs) @ rest"
    and "length (concat (map resp_print rs)) < fuel" "0 \<le> i" "size_opt = i + int (length rs)" "size_opt < 2 ^ 31"
  shows "\<exists>b' objs'. cut_elements fuel i size_opt b objs = Inr (1, b', objs @ objs') \<and> map redis_abs objs' = rs \<and> nb_invar b' \<and> nb_bytes b' = rest"
  using assms
proof (induction rs arbitrary: b fuel i objs)
  case Nil
  then show ?case by (cases fuel) auto
next
  case (Cons r rs)
  obtain f where f: "fuel = Suc f" using Cons.prems(5) by (cases fuel) auto
  have len: "3 \<le> length (resp_print r)" using Cons.prems(1) resp_print_length by simp
  have "reads_all f r" using Cons.prems(1,5) f by simp
  then obtain b1 obj1 where 1: "TryCutRedisObject f b RedisUnset = Inr (1, b1, obj1)" "redis_abs obj1 = r" "nb_invar b1"
    "nb_bytes b1 = concat (map resp_print rs) @ rest"
    using reads_allD [of f r b "concat (map resp_print rs) @ rest" RedisUnset] Cons.prems(2-4) by auto
  have "length (nb_bytes b1) < 2 ^ 64" using 1(4) Cons.prems(3,4) by simp
  then obtain b' objs' where "cut_elements f (i + 1) size_opt b1 (objs @ [obj1]) = Inr (1, b', (objs @ [obj1]) @ objs')"
    "map redis_abs objs' = rs" "nb_invar b'" "nb_bytes b' = rest"
    using Cons.IH [of b1 f "i + 1" "objs @ [obj1]"] Cons.prems len 1(3,4) f by auto
  with 1 f Cons.prems(6-8) show ?case by (intro exI [of _ b'] exI [of _ "obj1 # objs'"]) auto
qed

lemma cut_array_all:
  assumes b: "nb_invar b" "length (nb_bytes b) < 2 ^ 64" "nb_bytes b = resp_print (R_Array rs) @ rest" and ok: "resp_ok (R_Array rs)"
    and el: "\<forall>r \<in> set rs. resp_ok r \<and> (\<forall>fuel. length (resp_print r) \<le> fuel \<longrightarrow> reads_all fuel r)"
    and fuel: "length (concat (map resp_print rs)) < fuel"
  shows "\<exists>b' obj'. cut_array fuel b obj = Inr (1, b', obj') \<and> redis_abs obj' = R_Array rs \<and> nb_invar b' \<and> nb_bytes b' = rest"
proof -
  let ?l = "print_nat (length rs)" and ?body = "concat (map resp_print rs)"
  have line: "nb_bytes b = (CHR ''*'' # ?l) @ CRLF @ (?body @ rest)" "CHR 0x0D \<notin> set (CHR ''*'' # ?l)" using b(3) print_no_CR by auto
  note c = complete_line [OF b(1,2) line]
  obtain b1 where b1: "NB_Skip (length (CHR ''*'' # ?l @ CRLF)) (NB_copy b) = Inr b1" "nb_invar b1" "nb_bytes b1 = ?body @ rest" using c(4) by blast
  have "length (nb_bytes b1) < 2 ^ 64" using b1(3) b(2) line(1) by simp
  then obtain b2 objs where el: "cut_elements fuel 0 (int (length rs)) b1 [] = Inr (1, b2, objs)" "map redis_abs objs = rs" "nb_invar b2" "nb_bytes b2 = rest"
    using cut_elements_all [OF el b1(2) _ b1(3) fuel, of 0 "int (length rs)" "[]"] ok by auto
  have "NB_ByteSize b - NB_ByteSize b2 = length (CHR ''*'' # ?l @ CRLF @ ?body)"
    using nb_invar_length [OF b(1)] nb_invar_length [OF el(3)] line(1) el(4) by (simp add: NB_ByteSize_def)
  then obtain b3 where b3: "NB_Skip (NB_ByteSize b - NB_ByteSize b2) b = Inr b3" "nb_invar b3" "nb_bytes b3 = rest"
    using NB_Skip_ok [OF b(1), of "length (CHR ''*'' # ?l @ CRLF @ ?body)"] line(1) by auto
  show ?thesis using c(1,2) b1(1) el b3 parse_size [of "length rs"] ok by (simp add: cut_array_def line_content [simplified])
qed

lemma reads_all: "resp_ok r \<Longrightarrow> length (resp_print r) \<le> fuel \<Longrightarrow> reads_all fuel r"
proof (induction r arbitrary: fuel)
  case (R_Array rs)
  then obtain f where f: "fuel = Suc f" by (cases fuel) auto
  have el: "\<forall>r \<in> set rs. resp_ok r \<and> (\<forall>fuel. length (resp_print r) \<le> fuel \<longrightarrow> reads_all fuel r)"
    using R_Array by (auto simp: list_all_iff)
  have fuel: "length (concat (map resp_print rs)) < f" using R_Array.prems(2) f by simp
  show ?case unfolding reads_all_def
  proof (intro allI impI, elim conjE)
    fix b rest obj
    assume b: "nb_invar b" "length (nb_bytes b) < 2 ^ 64" "nb_bytes b = resp_print (R_Array rs) @ rest"
    have "TryCutRedisObject fuel b obj = cut_array f b obj" using TryCutRedisObject_by_type [OF b(1), of "CHR ''*''"] b(3) f by simp
    with cut_array_all [OF b R_Array.prems(1) el fuel, of obj]
    show "\<exists>b' obj'. TryCutRedisObject fuel b obj = Inr (1, b', obj') \<and> redis_abs obj' = R_Array rs \<and> nb_invar b' \<and> nb_bytes b' = rest"
      by simp
  qed
qed (use cut_leaf resp_print_length in \<open>fastforce simp: reads_all_def dest: Suc_le_D\<close>)+

section \<open>An incomplete reply\<close>

lemma print_nat_length: "length (print_nat n) \<le> n + 1"
proof (induction n rule: print_nat.induct)
  case (1 n)
  then show ?case by (cases "n < 10") (auto simp: print_nat.simps [of n])
qed

definition waits_for_more :: "nat \<Rightarrow> resp \<Rightarrow> bool" where
  "waits_for_more fuel r \<longleftrightarrow> (\<forall>b obj. nb_invar b \<and> length (nb_bytes b) < 2 ^ 64 \<and> strict_prefix (nb_bytes b) (resp_print r) \<longrightarrow>
     TryCutRedisObject fuel b obj = Inr (0, b, obj))"

lemma strict_prefix_split:
  assumes "strict_prefix p (xs @ ys)"
  obtains "strict_prefix p xs" | q where "p = xs @ q" "strict_prefix q ys"
proof (cases "prefix xs p")
  case True
  then obtain q where "p = xs @ q" by (auto simp: prefix_def)
  with assms that(2) show ?thesis by (auto simp: strict_prefix_def)
next
  case False
  with assms have "strict_prefix p xs" using prefix_append [of p xs ys] by (auto simp: strict_prefix_def)
  with that(1) show ?thesis .
qed

lemma no_line_yet:
  assumes b: "nb_invar b" "length (nb_bytes b) < 2 ^ 64" and p: "strict_prefix (nb_bytes b) ((c # l) @ CRLF)" and l: "CHR 0x0D \<notin> set (c # l)"
    and c: "c \<in> {CHR ''+'', CHR ''-'', CHR '':'', CHR ''$'', CHR ''*''}"
  shows "TryCutRedisObject (Suc fuel) b obj = Inr (0, b, obj)"
proof (cases "nb_bytes b")
  case Nil
  then show ?thesis using TryCutRedisObject_empty [OF b(1)] by simp
next
  case (Cons d r)
  then have d: "d = c" using p by (auto simp: strict_prefix_def)
  obtain str where "read_line b = Inr str" "\<not> EndsWith str CRLF" using incomplete_line [OF b p l] by blast
  then show ?thesis using c TryCutRedisObject_by_type [OF b(1) Cons] d
    by (auto simp: cut_simple_string_def cut_error_def cut_integer_def cut_bulk_string_def cut_array_def)
qed

lemma leaf_waits:
  assumes r: "resp_ok r" "\<forall>rs. r \<noteq> R_Array rs"
  shows "waits_for_more (Suc fuel) r"
  unfolding waits_for_more_def
proof (intro allI impI, elim conjE)
  fix b obj
  assume b: "nb_invar b" "length (nb_bytes b) < 2 ^ 64" and p: "strict_prefix (nb_bytes b) (resp_print r)"
  show "TryCutRedisObject (Suc fuel) b obj = Inr (0, b, obj)"
  proof (cases r)
    case (R_Simple l)
    then show ?thesis using no_line_yet [OF b, of "CHR ''+''" l] p r by simp
  next
    case (R_Integer z)
    then show ?thesis using no_line_yet [OF b, of "CHR '':''" "print_int z"] p print_no_CR by simp
  next
    case (R_Bulk s)
    let ?l = "print_nat (length s)"
    have "strict_prefix (nb_bytes b) (((CHR ''$'' # ?l) @ CRLF) @ (s @ CRLF))" using p R_Bulk by simp
    then show ?thesis
    proof (cases rule: strict_prefix_split)
      case 1
      then show ?thesis using no_line_yet [OF b, of "CHR ''$''" ?l] print_no_CR by simp
    next
      case (2 q)
      have line: "nb_bytes b = (CHR ''$'' # ?l) @ CRLF @ q" "CHR 0x0D \<notin> set (CHR ''$'' # ?l)" using 2 print_no_CR by auto
      note c = complete_line [OF b line]
      have "length q < length s + 2" using 2(2) prefix_length_less [OF 2(2)] by simp
      then have "int (NB_ByteSize b) < int (length (CHR ''$'' # ?l @ CRLF)) + int (length s) + 2"
        using nb_invar_length [OF b(1)] line(1) by (simp add: NB_ByteSize_def)
      moreover have "(int (length (CHR ''$'' # ?l @ CRLF)) + int (length s) + 2) mod 2 ^ 64 = int (length (CHR ''$'' # ?l @ CRLF)) + int (length s) + 2"
        using r R_Bulk print_nat_length [of "length s"] by (intro mod_pos_pos_trivial) auto
      ultimately show ?thesis
        using c(1,2) line r R_Bulk parse_size TryCutRedisObject_by_type [OF b(1), of "CHR ''$''" "?l @ CRLF @ q"] b(2)
        by (auto simp: cut_bulk_string_def line_content [simplified])
    qed
  next
    case (R_Error c m)
    then show ?thesis using no_line_yet [OF b, of "CHR ''-''" "if c = [] then m else c @ '' '' @ m"] p r by (auto split: if_splits)
  next
    case R_Null
    then show ?thesis using no_line_yet [OF b, of "CHR ''$''" "print_int (- 1)"] p print_no_CR by simp
  qed (use r in auto)
qed

lemma cut_elements_wait:
  assumes "\<forall>r \<in> set rs. resp_ok r \<and> (\<forall>fuel. length (resp_print r) \<le> fuel \<longrightarrow> waits_for_more fuel r)"
    and "nb_invar b" "length (nb_bytes b) < 2 ^ 64" "strict_prefix (nb_bytes b) (concat (map resp_print rs))"
    and "length (concat (map resp_print rs)) < fuel" "0 \<le> i" "size_opt = i + int (length rs)" "size_opt < 2 ^ 31"
  shows "\<exists>b' objs'. cut_elements fuel i size_opt b objs = Inr (0, b', objs')"
  using assms
proof (induction rs arbitrary: b fuel i objs)
  case (Cons r rs)
  obtain f where f: "fuel = Suc f" using Cons.prems(5) by (cases fuel) auto
  have r: "resp_ok r" "waits_for_more f r" "length (resp_print r) \<le> f" using Cons.prems(1,5) f by auto
  have len: "3 \<le> length (resp_print r)" using r resp_print_length by simp
  have "strict_prefix (nb_bytes b) (resp_print r @ concat (map resp_print rs))" using Cons.prems(4) by simp
  then show ?case
  proof (cases rule: strict_prefix_split)
    case 1
    then have "TryCutRedisObject f b RedisUnset = Inr (0, b, RedisUnset)" using r(2) Cons.prems(2,3) by (simp add: waits_for_more_def)
    with f Cons.prems(7) show ?thesis by auto
  next
    case (2 q)
    then obtain b1 obj1 where 1: "TryCutRedisObject f b RedisUnset = Inr (1, b1, obj1)" "nb_invar b1" "nb_bytes b1 = q"
      using reads_allD [OF reads_all [OF r(1,3)] Cons.prems(2,3), of q RedisUnset] by auto
    have "length (nb_bytes b1) < 2 ^ 64" using 1(3) 2(1) Cons.prems(3) by simp
    then have "\<exists>b' objs'. cut_elements f (i + 1) size_opt b1 (objs @ [obj1]) = Inr (0, b', objs')"
      using Cons.IH [of b1 f "i + 1" "objs @ [obj1]"] Cons.prems len 1(2,3) 2(2) f by auto
    with 1 f Cons.prems(6-8) show ?thesis by auto
  qed
qed auto

lemma waits_for_more: "resp_ok r \<Longrightarrow> length (resp_print r) \<le> fuel \<Longrightarrow> waits_for_more fuel r"
proof (induction r arbitrary: fuel)
  case (R_Array rs)
  then obtain f where f: "fuel = Suc f" by (cases fuel) auto
  have el: "\<forall>r \<in> set rs. resp_ok r \<and> (\<forall>fuel. length (resp_print r) \<le> fuel \<longrightarrow> waits_for_more fuel r)"
    using R_Array by (auto simp: list_all_iff)
  let ?l = "print_nat (length rs)" and ?body = "concat (map resp_print rs)"
  have fuel: "length ?body < f" using R_Array.prems(2) f by simp
  show ?case unfolding waits_for_more_def
  proof (intro allI impI, elim conjE)
    fix b obj
    assume b: "nb_invar b" "length (nb_bytes b) < 2 ^ 64" and p: "strict_prefix (nb_bytes b) (resp_print (R_Array rs))"
    have "strict_prefix (nb_bytes b) (((CHR ''*'' # ?l) @ CRLF) @ ?body)" using p by simp
    then show "TryCutRedisObject fuel b obj = Inr (0, b, obj)"
    proof (cases rule: strict_prefix_split)
      case 1
      then show ?thesis using no_line_yet [OF b, of "CHR ''*''" ?l] print_no_CR f by simp
    next
      case (2 q)
      have line: "nb_bytes b = (CHR ''*'' # ?l) @ CRLF @ q" "CHR 0x0D \<notin> set (CHR ''*'' # ?l)" using 2 print_no_CR by auto
      note c = complete_line [OF b line]
      obtain b1 where b1: "NB_Skip (length (CHR ''*'' # ?l @ CRLF)) (NB_copy b) = Inr b1" "nb_invar b1" "nb_bytes b1 = q" using c(4) by blast
      have "length (nb_bytes b1) < 2 ^ 64" using b1(3) b(2) line(1) by simp
      then obtain b2 objs where "cut_elements f 0 (int (length rs)) b1 [] = Inr (0, b2, objs)"
        using cut_elements_wait [OF el b1(2) _ _ fuel, of 0 "int (length rs)" "[]"] R_Array.prems(1) 2(2) b1(3) by auto
      then show ?thesis
        using c(1,2) b1(1) parse_size [of "length rs"] R_Array.prems(1) TryCutRedisObject_by_type [OF b(1), of "CHR ''*''"] line f
        by (simp add: cut_array_def line_content [simplified])
    qed
  qed
qed (use leaf_waits resp_print_length in \<open>fastforce dest: Suc_le_D\<close>)+

section \<open>Arbitrary bytes\<close>

text \<open>
  What one can rely on whatever the server sends. The one way in which the reader can fail is the
  debug check in \<^verbatim>\<open>Cut\<close>.
\<close>

definition cut_sound :: "NoncontiguousBuffer \<Rightarrow> (int \<times> NoncontiguousBuffer \<times> 'o) result \<Rightarrow> bool" where
  "cut_sound b r \<longleftrightarrow> (case r of
       Inl e \<Rightarrow> e = Dcheck_failed
     | Inr (rc, b', _) \<Rightarrow> rc \<in> {- 1, 0, 1} \<and> nb_invar b' \<and> suffix (nb_bytes b') (nb_bytes b) \<and>
         (rc = 0 \<longrightarrow> b' = b) \<and> (rc = 1 \<longrightarrow> length (nb_bytes b') < length (nb_bytes b)))"

lemma cut_sound_simps [simp]:
  "cut_sound b (Inl e) \<longleftrightarrow> e = Dcheck_failed"
  "cut_sound b (Inr (0, b, obj)) \<longleftrightarrow> nb_invar b"
  "cut_sound b (Inr (- 1, b', obj)) \<longleftrightarrow> nb_invar b' \<and> suffix (nb_bytes b') (nb_bytes b)"
  "cut_sound b (Inr (1, b', obj)) \<longleftrightarrow> nb_invar b' \<and> suffix (nb_bytes b') (nb_bytes b) \<and> length (nb_bytes b') < length (nb_bytes b)"
  by (auto simp: cut_sound_def)

text \<open>The line is a part of the buffer that can be skipped.\<close>

lemma line_prefix: "\<exists>rest. s = upto_delim CRLF s @ rest"
proof (cases "sv_find CRLF s")
  case (Some p)
  then show ?thesis by (intro exI [of _ "drop (p + 2) s"]) (simp add: upto_delim_def)
qed (simp add: upto_delim_def)

lemma skip_line:
  assumes "nb_invar b" "nb_bytes b \<noteq> []" "EndsWith (upto_delim CRLF (nb_bytes b)) CRLF"
  obtains rest b' where "nb_bytes b = upto_delim CRLF (nb_bytes b) @ rest" "2 \<le> length (upto_delim CRLF (nb_bytes b))"
    "NB_Skip (length (upto_delim CRLF (nb_bytes b))) b = Inr b'" "nb_invar b'" "nb_bytes b' = rest"
proof -
  obtain rest where r: "nb_bytes b = upto_delim CRLF (nb_bytes b) @ rest" using line_prefix by blast
  have "2 \<le> length (upto_delim CRLF (nb_bytes b))" using assms(3) suffix_length_le [of CRLF] by (simp add: EndsWith_suffix)
  moreover have "\<exists>b'. NB_Skip (length (upto_delim CRLF (nb_bytes b))) b = Inr b' \<and> nb_invar b' \<and> nb_bytes b' = rest"
    using NB_Skip_ok [OF assms(1), of "length (upto_delim CRLF (nb_bytes b))"] r
    by (metis append_eq_conv_conj length_append le_add1)
  ultimately show thesis using that r by blast
qed

lemma shrinks: "xs = ys @ zs \<Longrightarrow> 2 \<le> length ys \<Longrightarrow> suffix zs xs \<and> length zs < length xs"
  by (auto simp: suffix_def)

lemma leaves_sound:
  assumes b: "nb_invar b" "nb_bytes b \<noteq> []" "length (nb_bytes b) < 2 ^ 64"
  shows "cut_sound b (cut_simple_string b obj)" "cut_sound b (cut_error b obj)" "cut_sound b (cut_integer b obj)"
proof -
  let ?str = "upto_delim CRLF (nb_bytes b)"
  have "cut_sound b (cut_simple_string b obj) \<and> cut_sound b (cut_error b obj) \<and> cut_sound b (cut_integer b obj)"
  proof (cases "EndsWith ?str CRLF")
    case True
    obtain rest b' where "nb_bytes b = ?str @ rest" "2 \<le> length ?str" "NB_Skip (length ?str) b = Inr b'" "nb_invar b'" "nb_bytes b' = rest"
      by (rule skip_line [OF b(1,2) True])
    with shrinks [of "nb_bytes b" ?str rest] True read_line_ok [OF b(1,3)] show ?thesis
      by (simp add: cut_simple_string_def cut_error_def cut_integer_def Let_def split: option.split)
  next
    case False
    with read_line_ok [OF b(1,3)] b(1) show ?thesis by (simp add: cut_simple_string_def cut_error_def cut_integer_def)
  qed
  then show "cut_sound b (cut_simple_string b obj)" "cut_sound b (cut_error b obj)" "cut_sound b (cut_integer b obj)" by auto
qed

lemma TryParse_range: "TryParse_integral lo hi base s = Some z \<Longrightarrow> lo \<le> z \<and> z \<le> hi"
  by (auto simp: TryParse_integral_def from_chars_def Let_def split: if_splits)

lemma bulk_sound:
  assumes b: "nb_invar b" "nb_bytes b \<noteq> []" "length (nb_bytes b) < 2 ^ 63"
  shows "cut_sound b (cut_bulk_string b obj)"
proof (cases "EndsWith (upto_delim CRLF (nb_bytes b)) CRLF")
  case False
  with read_line_ok [OF b(1)] b show ?thesis by (simp add: cut_bulk_string_def)
next
  case True
  let ?str = "upto_delim CRLF (nb_bytes b)"
  have line: "read_line b = Inr ?str" using read_line_ok [OF b(1)] b(3) by simp
  obtain rest b1 where rest: "nb_bytes b = ?str @ rest" "2 \<le> length ?str" and b1: "NB_Skip (length ?str) b = Inr b1" "nb_invar b1" "nb_bytes b1 = rest"
    by (rule skip_line [OF b(1,2) True])
  note sh = shrinks [OF rest]
  show ?thesis
  proof (cases "TryParse_integral (- (2 ^ 31)) (2 ^ 31 - 1) 10 (substr ?str 1 (length ?str - 3))")
    case None
    with line True b(1) show ?thesis by (simp add: cut_bulk_string_def)
  next
    case (Some z)
    note range = TryParse_range [OF Some]
    consider "z = - 1" | "z < - 1" | "0 \<le> z" by linarith
    then show ?thesis
    proof cases
      case 1
      with Some line True b1 sh show ?thesis by (simp add: cut_bulk_string_def)
    next
      case 2
      have "z mod 2 ^ 64 = z + 2 ^ 64" using 2 range mod_pos_pos_trivial [of "z + 2 ^ 64" "2 ^ 64"] by simp
      then have "\<not> nat (z mod 2 ^ 64) \<le> NB_ByteSize b1"
        using range b(3) b1(3) nb_invar_length [OF b1(2)] sh by (simp add: NB_ByteSize_def nat_le_iff)
      with Some line True b1 sh b(1) 2 show ?thesis by (simp add: cut_bulk_string_def NB_Cut_def)
    next
      case 3
      have small: "(int (length ?str) + z + 2) mod 2 ^ 64 = int (length ?str) + z + 2" "z mod 2 ^ 64 = z"
        using 3 range b(3) arg_cong [OF rest(1), of length] by (auto intro!: mod_pos_pos_trivial)
      show ?thesis
      proof (cases "int (NB_ByteSize b) < int (length ?str) + z + 2")
        case True
        with small 3 Some line \<open>EndsWith ?str CRLF\<close> b(1) show ?thesis by (simp add: cut_bulk_string_def)
      next
        case False
        then have n: "nat z + 2 \<le> length rest" using 3 nb_invar_length [OF b(1)] arg_cong [OF rest(1), of length] by (simp add: NB_ByteSize_def)
        obtain body b2 where b2: "NB_Cut (nat z) b1 = Inr (body, b2)" "nb_invar b2" "nb_bytes b2 = drop (nat z) rest"
          using NB_Cut_ok [OF b1(2), of "nat z"] b1(3) n by auto
        obtain b3 where b3: "NB_Skip 2 b2 = Inr b3" "nb_invar b3" "nb_bytes b3 = drop (2 + nat z) rest"
          using NB_Skip_ok [OF b2(2), of 2] b2(3) n by (auto simp: le_diff_conv2)
        have "suffix (nb_bytes b3) (nb_bytes b)" "length (nb_bytes b3) < length (nb_bytes b)"
          using b3(3) sh suffix_drop [of "2 + nat z" rest] suffix_order.trans by auto
        with Some line True 3 small False b1 b2 b3 show ?thesis by (simp add: cut_bulk_string_def)
      qed
    qed
  qed
qed

definition elements_sound :: "NoncontiguousBuffer \<Rightarrow> (int \<times> NoncontiguousBuffer \<times> 'o) result \<Rightarrow> bool" where
  "elements_sound b r \<longleftrightarrow> (case r of
       Inl e \<Rightarrow> e = Dcheck_failed
     | Inr (rc, b', _) \<Rightarrow> rc \<in> {- 1, 0, 1} \<and> nb_invar b' \<and> suffix (nb_bytes b') (nb_bytes b))"

lemma array_sound:
  assumes b: "nb_invar b" "nb_bytes b \<noteq> []" "length (nb_bytes b) < 2 ^ 31"
    and el: "\<And>b' n. nb_invar b' \<Longrightarrow> length (nb_bytes b') + 2 \<le> length (nb_bytes b) \<Longrightarrow> elements_sound b' (cut_elements fuel 0 n b' [])"
  shows "cut_sound b (cut_array fuel b obj)"
proof (cases "EndsWith (upto_delim CRLF (nb_bytes b)) CRLF")
  case False
  with read_line_ok [OF b(1)] b show ?thesis by (simp add: cut_array_def)
next
  case True
  let ?str = "upto_delim CRLF (nb_bytes b)"
  have line: "read_line b = Inr ?str" using read_line_ok [OF b(1)] b(3) by simp
  obtain rest b1 where rest: "nb_bytes b = ?str @ rest" "2 \<le> length ?str" and b1: "NB_Skip (length ?str) b = Inr b1" "nb_invar b1" "nb_bytes b1 = rest"
    by (rule skip_line [OF b(1,2) True])
  note sh = shrinks [OF rest]
  have copy: "NB_copy b = b" by (simp add: NB_copy_def)
  show ?thesis
  proof (cases "TryParse_integral (- (2 ^ 31)) (2 ^ 31 - 1) 10 (substr ?str 1 (length ?str - 3))")
    case None
    with line True b(1) show ?thesis by (simp add: cut_array_def)
  next
    case (Some z)
    have es: "elements_sound b1 (cut_elements fuel 0 z b1 [])" using el [OF b1(2)] b1(3) rest(2) arg_cong [OF rest(1), of length] by simp
    show ?thesis
    proof (cases "cut_elements fuel 0 z b1 []")
      case (Inl e)
      with es Some line True b1 sh copy show ?thesis by (simp add: cut_array_def elements_sound_def)
    next
      case (Inr r)
      obtain rc b2 objs where r: "r = (rc, b2, objs)" by (cases r)
      have b2: "rc \<in> {- 1, 0, 1}" "nb_invar b2" "suffix (nb_bytes b2) rest" using es Inr r b1(3) by (auto simp: elements_sound_def)
      have "NB_ByteSize b - NB_ByteSize b2 \<le> length (nb_bytes b)" using nb_invar_length [OF b(1)] by (simp add: NB_ByteSize_def)
      then obtain b3 where b3: "NB_Skip (NB_ByteSize b - NB_ByteSize b2) b = Inr b3" "nb_invar b3"
        "nb_bytes b3 = drop (length (nb_bytes b) - length (nb_bytes b2)) (nb_bytes b)"
        using NB_Skip_ok [OF b(1), of "NB_ByteSize b - NB_ByteSize b2"] nb_invar_length [OF b(1)] nb_invar_length [OF b2(2)] by (auto simp: NB_ByteSize_def)
      have "suffix (nb_bytes b3) (nb_bytes b)" "length (nb_bytes b3) < length (nb_bytes b)"
        using b3(3) sh suffix_length_le [OF b2(3)] by (auto simp: suffix_drop)
      with Some line True b1 sh copy b2(1) Inr r b3 b(1) show ?thesis by (auto simp: cut_array_def)
    qed
  qed
qed

lemma reader_sound:
  "(\<forall>b obj. nb_invar b \<and> length (nb_bytes b) < 2 ^ 31 \<and> length (nb_bytes b) < fuel \<longrightarrow> cut_sound b (TryCutRedisObject fuel b obj)) \<and>
   (\<forall>b i n objs. nb_invar b \<and> 0 \<le> i \<and> i + int (length (nb_bytes b)) < 2 ^ 31 \<and> length (nb_bytes b) + 1 < fuel \<longrightarrow>
      elements_sound b (cut_elements fuel i n b objs))"
proof (induction fuel)
  case (Suc fuel)
  have tc: "cut_sound b (TryCutRedisObject fuel b obj)"
    if "nb_invar b" "length (nb_bytes b) < 2 ^ 31" "length (nb_bytes b) < fuel" for b obj using Suc.IH that by blast
  have ce: "elements_sound b (cut_elements fuel i n b objs)"
    if "nb_invar b" "0 \<le> i" "i + int (length (nb_bytes b)) < 2 ^ 31" "length (nb_bytes b) + 1 < fuel" for b i n objs using Suc.IH that by blast
  have "cut_sound b (TryCutRedisObject (Suc fuel) b obj)"
    if b: "nb_invar b" "length (nb_bytes b) < 2 ^ 31" "length (nb_bytes b) < Suc fuel" for b obj
  proof (cases "nb_bytes b")
    case Nil
    with b(1) show ?thesis using TryCutRedisObject_empty by simp
  next
    case (Cons c r)
    then have ne: "nb_bytes b \<noteq> []" by simp
    have "cut_sound b (cut_array fuel b obj)" using b ne by (intro array_sound ce) auto
    then show ?thesis using TryCutRedisObject_by_type [OF b(1) Cons] leaves_sound [OF b(1) ne] bulk_sound [OF b(1) ne] b(1,2) by simp
  qed
  moreover have "elements_sound b (cut_elements (Suc fuel) i n b objs)"
    if b: "nb_invar b" "0 \<le> i" "i + int (length (nb_bytes b)) < 2 ^ 31" "length (nb_bytes b) + 1 < Suc fuel" for b i n objs
  proof (cases "i = n")
    case True
    with b(1) show ?thesis by (simp add: elements_sound_def)
  next
    case False
    have cs: "cut_sound b (TryCutRedisObject fuel b RedisUnset)" using b by (intro tc) auto
    show ?thesis
    proof (cases "TryCutRedisObject fuel b RedisUnset")
      case (Inl e)
      with cs False show ?thesis by (simp add: elements_sound_def)
    next
      case (Inr r)
      obtain rc b1 obj where r: "r = (rc, b1, obj)" by (cases r)
      show ?thesis
      proof (cases "rc = 1")
        case True
        have b1: "nb_invar b1" "suffix (nb_bytes b1) (nb_bytes b)" "length (nb_bytes b1) < length (nb_bytes b)" using cs Inr r True by auto
        then have "elements_sound b1 (cut_elements fuel (i + 1) n b1 (objs @ [obj]))" using b by (intro ce) auto
        with b1 b(3) Inr r True False show ?thesis
          by (auto simp: elements_sound_def split: sum.splits intro: suffix_order.trans)
      next
        case False
        with cs Inr r \<open>i \<noteq> n\<close> show ?thesis by (auto simp: elements_sound_def cut_sound_def)
      qed
    qed
  qed
  ultimately show ?case by blast
qed simp

section \<open>Results\<close>





text \<open>
  C32. A bulk string with the size -2 makes the reader fail: the size is only compared with -1, the
  conversion to an unsigned number makes the test for missing bytes pass, and \<^verbatim>\<open>Cut\<close> is asked for
  almost \<open>2 ^ 64\<close> bytes.
\<close>

theorem redis_reader_negative_size:
  assumes "nb_invar b" "NB_ByteSize b < 2 ^ 63" "nb_bytes b = ''$-2'' @ CRLF @ rest"
  shows "TryCutRedisObject (Suc fuel) b obj = Inl Dcheck_failed"
proof -
  have len: "length (nb_bytes b) < 2 ^ 63" using assms(2) nb_invar_length [OF assms(1)] by (simp add: NB_ByteSize_def)
  have line: "nb_bytes b = (CHR ''$'' # ''-2'') @ CRLF @ rest" "CHR 0x0D \<notin> set (CHR ''$'' # ''-2'')" using assms(3) by auto
  have "length (nb_bytes b) < 2 ^ 64" using len by simp
  note c = complete_line [OF assms(1) this line]
  obtain b1 where b1: "NB_Skip (length (CHR ''$'' # ''-2'' @ CRLF)) b = Inr b1" "nb_invar b1" "nb_bytes b1 = rest" using c(3) by blast
  have z: "TryParse_integral (- (2 ^ 31)) (2 ^ 31 - 1) 10 ''-2'' = Some (- 2)" by code_simp
  have "\<not> 18446744073709551614 \<le> NB_ByteSize b1" "5 \<le> NB_ByteSize b"
    using b1(3) nb_invar_length [OF b1(2)] nb_invar_length [OF assms(1)] len line(1) by (simp_all add: NB_ByteSize_def)
  moreover have "substr (CHR ''$'' # ''-2'' @ CRLF) (Suc 0) 2 = ''-2''" by (simp add: substr_def CRLF_def)
  ultimately show ?thesis using TryCutRedisObject_by_type [OF assms(1), of "CHR ''$''"] line c(1,2) b1 z
    by (simp add: cut_bulk_string_def NB_Cut_def)
qed

theorem redis_reader_negative_size_witness:
  "TryCutRedisObject 1 (NB_AppendPB (MakeForeignBuffer (''$-2'' @ CRLF)) NB_new) RedisUnset = Inl Dcheck_failed"
proof -
  let ?b = "NB_AppendPB (MakeForeignBuffer (''$-2'' @ CRLF)) NB_new"
  have "nb_invar ?b" "NB_ByteSize ?b < 2 ^ 63" "nb_bytes ?b = ''$-2'' @ CRLF @ []"
    by (simp_all add: NB_ByteSize_def NB_AppendPB_def MakeForeignBuffer_def PB_make_def PB_move_def NB_new_def nb_invar_def nb_bytes_def pb_bytes_def pb_ok_def)
  from redis_reader_negative_size [OF this, of 0 RedisUnset] show ?thesis by simp
qed

end
