(* ===== verification/Redis_Command.thy ===== *)
theory Redis_Command
  imports Redis_Reader Buffer_Builder
begin

text \<open>
  Redis commands and the protocol of a connection (\<^verbatim>\<open>flare/net/redis/redis_command.{h,cc}\<close> and
  \<^verbatim>\<open>flare/net/redis/redis_protocol.{h,cc}\<close>). Commands are built in two ways: at once, with the
  number of components known, or step by step, with room for the first line reserved and filled in
  at the end. Both are shown to print the same array of bulk strings, which the reader of
  \<^verbatim>\<open>reader.cc\<close> reads back.
\<close>

section \<open>Commands\<close>

datatype redis_component =
    Str_component string
  | Buffer_component NoncontiguousBuffer

fun AppendRedisCommandComponent ::
    "pool \<Rightarrow> redis_component \<Rightarrow> NoncontiguousBufferBuilder \<Rightarrow> NoncontiguousBufferBuilder result" where
  "AppendRedisCommandComponent pool (Str_component component) builder =
     NBB_AppendMany pool [''$'', print_nat (length component), CRLF, component, CRLF] builder"
| "AppendRedisCommandComponent pool (Buffer_component component) builder =
     rbind (NBB_AppendMany pool [''$'', print_nat (NB_ByteSize component), CRLF] builder) (\<lambda>builder.
       rbind (NBB_AppendNB pool component builder) (\<lambda>builder.
         NBB_Append pool CRLF builder))"

fun append_components ::
    "pool \<Rightarrow> redis_component list \<Rightarrow> NoncontiguousBufferBuilder \<Rightarrow> NoncontiguousBufferBuilder result" where
  "append_components pool [] builder = Inr builder"
| "append_components pool (c # cs) builder =
     rbind (AppendRedisCommandComponent pool c builder) (append_components pool cs)"

definition RedisCommand :: "pool \<Rightarrow> string \<Rightarrow> redis_component list \<Rightarrow> NoncontiguousBuffer result" where
  "RedisCommand pool op args =
     rbind (NBB_new pool) (\<lambda>builder.
       rbind (NBB_AppendMany pool [''*'', print_nat (1 + length args), CRLF] builder) (\<lambda>builder.
         rbind (AppendRedisCommandComponent pool (Str_component op) builder) (\<lambda>builder.
           rbind (append_components pool args builder) NBB_DestructiveGet)))"

section \<open>The builder\<close>

definition kReservedHdrSize :: nat where
  "kReservedHdrSize = 32"

record RedisCommandBuilder =
  rcb_reserved_header :: "nat \<times> nat"
  rcb_components :: nat
  rcb_builder :: NoncontiguousBufferBuilder

definition RCB_new :: "pool \<Rightarrow> RedisCommandBuilder result" where
  "RCB_new pool =
     rbind (NBB_new pool) (\<lambda>builder.
       rbind (NBB_Reserve pool kReservedHdrSize builder) (\<lambda>(ptr, builder).
         Inr \<lparr>rcb_reserved_header = ptr, rcb_components = 0, rcb_builder = builder\<rparr>))"

definition RCB_Append :: "pool \<Rightarrow> redis_component \<Rightarrow> RedisCommandBuilder \<Rightarrow> RedisCommandBuilder result" where
  "RCB_Append pool component rcb =
     (let rcb = rcb\<lparr>rcb_components := rcb_components rcb + 1\<rparr>
      in rbind (AppendRedisCommandComponent pool component (rcb_builder rcb)) (\<lambda>builder.
           Inr (rcb\<lparr>rcb_builder := builder\<rparr>)))"

text \<open>
  Writing through the pointer that \<^verbatim>\<open>Reserve\<close> has returned. The block it points into is the first
  one of the pool, and the first window of the finished buffer shows this block.
\<close>

definition write_reserved :: "nat \<times> nat \<Rightarrow> nat \<Rightarrow> string \<Rightarrow> NoncontiguousBuffer \<Rightarrow> NoncontiguousBuffer result" where
  "write_reserved ptr at src nb =
     (case nb_buffers nb of
        [] \<Rightarrow> Inl Undefined_behaviour
      | first # rest \<Rightarrow>
          if fst ptr \<noteq> 0 then Inl Undefined_behaviour
          else rbind (memcpy (pb_ref first) (snd ptr + at) src) (\<lambda>block.
            Inr (nb\<lparr>nb_buffers := first\<lparr>pb_ref := block\<rparr> # rest\<rparr>)))"

definition RCB_DestructiveGet :: "RedisCommandBuilder \<Rightarrow> NoncontiguousBuffer result" where
  "RCB_DestructiveGet rcb =
     (let hdr = ''*'' @ print_nat (rcb_components rcb) @ CRLF
      in check (length hdr \<le> kReservedHdrSize)
        (rbind (NBB_DestructiveGet (rcb_builder rcb)) (\<lambda>bytes.
           let skip_size = kReservedHdrSize - length hdr
           in rbind (NB_Skip skip_size bytes) (\<lambda>bytes.
                write_reserved (rcb_reserved_header rcb) skip_size hdr bytes))))"

fun rcb_append_all :: "pool \<Rightarrow> redis_component list \<Rightarrow> RedisCommandBuilder \<Rightarrow> RedisCommandBuilder result" where
  "rcb_append_all pool [] rcb = Inr rcb"
| "rcb_append_all pool (c # cs) rcb = rbind (RCB_Append pool c rcb) (rcb_append_all pool cs)"

definition rcb_build :: "pool \<Rightarrow> redis_component list \<Rightarrow> NoncontiguousBuffer result" where
  "rcb_build pool cs = rbind (RCB_new pool) (\<lambda>rcb. rbind (rcb_append_all pool cs rcb) RCB_DestructiveGet)"

section \<open>The protocol\<close>

datatype MessageCutStatus = NotIdentified | NeedMore | Cut | ProtocolMismatch | Error

record RedisProtocol =
  rp_handshake_sent :: bool
  rp_handshake_received :: bool
  rp_username :: string
  rp_password :: string

definition RP_new :: RedisProtocol where
  "RP_new = \<lparr>rp_handshake_sent = False, rp_handshake_received = False, rp_username = [], rp_password = []\<rparr>"

definition SetCredential_password :: "string \<Rightarrow> RedisProtocol \<Rightarrow> RedisProtocol" where
  "SetCredential_password password p = p\<lparr>rp_password := password\<rparr>"

definition SetCredential :: "string \<Rightarrow> string \<Rightarrow> RedisProtocol \<Rightarrow> RedisProtocol" where
  "SetCredential username password p = p\<lparr>rp_username := username, rp_password := password\<rparr>"

text \<open>The object of the response is \<open>None\<close> unless a message is cut.\<close>

definition TryCutMessage ::
    "nat \<Rightarrow> RedisProtocol \<Rightarrow> NoncontiguousBuffer
       \<Rightarrow> (MessageCutStatus \<times> RedisProtocol \<times> NoncontiguousBuffer \<times> RedisObject option) result" where
  "TryCutMessage fuel p buffer =
     rbind (if \<not> rp_handshake_received p
            then rbind (TryCutRedisObject fuel buffer RedisUnset) (\<lambda>(rc, buffer, resp).
              if rc < 0 then Inr (Some Error, p, buffer)
              else if rc = 0 then Inr (Some NeedMore, p, buffer)
              else Inr (None, p\<lparr>rp_handshake_received := True\<rparr>, buffer))
            else Inr (None, p, buffer)) (\<lambda>(status, p, buffer).
       case status of
         Some st \<Rightarrow> Inr (st, p, buffer, None)
       | None \<Rightarrow>
           rbind (TryCutRedisObject fuel buffer RedisUnset) (\<lambda>(rc, buffer, object).
             if rc < 0 then Inr (Error, p, buffer, None)
             else if rc = 0 then Inr (NeedMore, p, buffer, None)
             else Inr (Cut, p, buffer, Some object)))"

definition WriteMessage ::
    "pool \<Rightarrow> RedisProtocol \<Rightarrow> NoncontiguousBuffer \<Rightarrow> NoncontiguousBuffer \<Rightarrow> (RedisProtocol \<times> NoncontiguousBuffer) result" where
  "WriteMessage pool p command buffer =
     rbind (if \<not> rp_handshake_sent p
            then rbind (if rp_username p \<noteq> []
                        then rbind (RedisCommand pool ''AUTH'' [Str_component (rp_username p), Str_component (rp_password p)]) (\<lambda>auth.
                               Inr (p, NB_AppendNB auth buffer))
                        else if rp_password p \<noteq> []
                        then rbind (RedisCommand pool ''AUTH'' [Str_component (rp_password p)]) (\<lambda>auth. Inr (p, NB_AppendNB auth buffer))
                        else Inr (p\<lparr>rp_handshake_received := True\<rparr>, buffer))
                   (\<lambda>(p, buffer). Inr (p\<lparr>rp_handshake_sent := True\<rparr>, buffer))
            else Inr (p, buffer)) (\<lambda>(p, buffer).
       Inr (p, NB_AppendNB command buffer))"

section \<open>What is printed\<close>

fun component_bytes :: "redis_component \<Rightarrow> string" where
  "component_bytes (Str_component s) = s"
| "component_bytes (Buffer_component nb) = nb_bytes nb"

fun component_ok :: "redis_component \<Rightarrow> bool" where
  "component_ok (Str_component s) = True"
| "component_ok (Buffer_component nb) = nb_invar nb"

definition command_resp :: "redis_component list \<Rightarrow> resp" where
  "command_resp cs = R_Array (map (\<lambda>c. R_Bulk (component_bytes c)) cs)"

lemma AppendRedisCommandComponent_ok:
  assumes "pool_ok bs pool" "nbb_invar bs b" "component_ok c"
  shows "\<exists>b'. AppendRedisCommandComponent pool c b = Inr b' \<and> nbb_invar bs b' \<and> nbb_bytes b' = nbb_bytes b @ resp_print (R_Bulk (component_bytes c))"
proof (cases c)
  case (Str_component s)
  with NBB_AppendMany_ok [OF assms(1,2), of "[''$'', print_nat (length s), CRLF, s, CRLF]"] show ?thesis by simp
next
  case (Buffer_component nb)
  obtain b1 where b1: "NBB_AppendMany pool [''$'', print_nat (NB_ByteSize nb), CRLF] b = Inr b1" "nbb_invar bs b1"
    "nbb_bytes b1 = nbb_bytes b @ ''$'' @ print_nat (NB_ByteSize nb) @ CRLF"
    using NBB_AppendMany_ok [OF assms(1,2), of "[''$'', print_nat (NB_ByteSize nb), CRLF]"] by auto
  obtain b2 where b2: "NBB_AppendNB pool nb b1 = Inr b2" "nbb_invar bs b2" "nbb_bytes b2 = nbb_bytes b1 @ nb_bytes nb"
    using NBB_AppendNB_ok [OF assms(1) b1(2)] assms(3) Buffer_component by auto
  obtain b3 where b3: "NBB_Append pool CRLF b2 = Inr b3" "nbb_invar bs b3" "nbb_bytes b3 = nbb_bytes b2 @ CRLF"
    using NBB_Append_ok [OF assms(1) b2(2)] by blast
  from b1 b2 b3 Buffer_component assms(3) nb_invar_length [of nb] show ?thesis by (simp add: NB_ByteSize_def)
qed

lemma append_components_ok:
  assumes "pool_ok bs pool" "nbb_invar bs b" "list_all component_ok cs"
  shows "\<exists>b'. append_components pool cs b = Inr b' \<and> nbb_invar bs b' \<and>
     nbb_bytes b' = nbb_bytes b @ concat (map (\<lambda>c. resp_print (R_Bulk (component_bytes c))) cs)"
  using assms
proof (induction cs arbitrary: b)
  case (Cons c cs)
  then obtain b1 where b1: "AppendRedisCommandComponent pool c b = Inr b1" "nbb_invar bs b1"
    "nbb_bytes b1 = nbb_bytes b @ resp_print (R_Bulk (component_bytes c))" using AppendRedisCommandComponent_ok [of bs pool b c] by auto
  from Cons.IH [OF Cons.prems(1) b1(2)] Cons.prems(3) b1 show ?case by auto
qed simp

lemma RedisCommand_ok:
  assumes "pool_ok bs pool" "list_all component_ok args"
  shows "\<exists>nb. RedisCommand pool op args = Inr nb \<and> nb_invar nb \<and> nb_bytes nb = resp_print (command_resp (Str_component op # args))"
proof -
  obtain b where b: "NBB_new pool = Inr b" "nbb_invar bs b" "nbb_bytes b = []" using NBB_new_ok [OF assms(1)] by blast
  obtain b1 where b1: "NBB_AppendMany pool [''*'', print_nat (1 + length args), CRLF] b = Inr b1" "nbb_invar bs b1"
    "nbb_bytes b1 = ''*'' @ print_nat (1 + length args) @ CRLF"
    using NBB_AppendMany_ok [OF assms(1) b(2), of "[''*'', print_nat (1 + length args), CRLF]"] b(3) by auto
  obtain b2 where b2: "append_components pool (Str_component op # args) b1 = Inr b2" "nbb_invar bs b2"
    "nbb_bytes b2 = nbb_bytes b1 @ concat (map (\<lambda>c. resp_print (R_Bulk (component_bytes c))) (Str_component op # args))"
    using append_components_ok [OF assms(1) b1(2), of "Str_component op # args"] assms(2) by auto
  obtain nb where "NBB_DestructiveGet b2 = Inr nb" "nb_invar nb" "nb_bytes nb = nbb_bytes b2" using NBB_DestructiveGet_ok [OF b2(2)] by blast
  moreover obtain b3 where "AppendRedisCommandComponent pool (Str_component op) b1 = Inr b3" "append_components pool args b3 = Inr b2"
    using b2(1) by (auto simp: result_iffs simp del: AppendRedisCommandComponent.simps)
  ultimately show ?thesis using b b1 b2(3)
    by (simp add: RedisCommand_def command_resp_def comp_def del: AppendRedisCommandComponent.simps)
qed

section \<open>The reserved line\<close>

text \<open>
  The reserved bytes stay at the start of the first block: while this block is the current one they
  count as used, and later it is the first window of the buffer.
\<close>

definition hdr_reserved :: "NoncontiguousBufferBuilder \<Rightarrow> bool" where
  "hdr_reserved b \<longleftrightarrow> (case nb_buffers (nbb_nb b) of
       [] \<Rightarrow> kReservedHdrSize \<le> nbb_used b
     | w # _ \<Rightarrow> pb_ptr w = 0 \<and> kReservedHdrSize \<le> pb_size w)"

definition hdr_flushed :: "NoncontiguousBufferBuilder \<Rightarrow> bool" where
  "hdr_flushed b \<longleftrightarrow> (\<exists>w ws. nb_buffers (nbb_nb b) = w # ws \<and> pb_ptr w = 0 \<and> kReservedHdrSize \<le> pb_size w)"

lemma hdr_flushed_reserved: "hdr_flushed b \<Longrightarrow> hdr_reserved b"
  by (auto simp: hdr_flushed_def hdr_reserved_def)

lemma unused_flushed: "hdr_reserved b \<Longrightarrow> nbb_used b = 0 \<Longrightarrow> hdr_flushed b"
  by (auto simp: hdr_flushed_def hdr_reserved_def kReservedHdrSize_def split: list.splits)

lemma flush_keeps_hdr:
  assumes "hdr_reserved b" "NBB_FlushCurrentBlock b = Inr b'"
  shows "hdr_flushed b'"
proof (cases "nb_buffers (nbb_nb b)")
  case Nil
  with assms show ?thesis
    by (auto simp: hdr_reserved_def hdr_flushed_def NBB_FlushCurrentBlock_def result_iffs NB_AppendPB_def PB_make_def PB_move_def kReservedHdrSize_def)
next
  case (Cons w ws)
  with assms show ?thesis
    by (auto simp: hdr_reserved_def hdr_flushed_def NBB_FlushCurrentBlock_def result_iffs NB_AppendPB_def split: if_splits)
qed

lemma init_keeps_hdr: "hdr_flushed b \<Longrightarrow> NBB_InitializeNextBlock pool b = Inr b' \<Longrightarrow> hdr_flushed b'"
  by (auto simp: hdr_flushed_def NBB_InitializeNextBlock_def result_iffs split: option.splits)

lemma mark_keeps_hdr:
  assumes "hdr_reserved b" "NBB_MarkWritten pool n b = Inr b'"
  shows "hdr_reserved b'"
proof -
  have r: "hdr_reserved (b\<lparr>nbb_used := nbb_used b + n\<rparr>)" using assms(1) by (auto simp: hdr_reserved_def split: list.splits)
  show ?thesis using assms(2) r
    by (auto simp: NBB_MarkWritten_def result_iffs Let_def split: if_splits dest: flush_keeps_hdr [OF r] init_keeps_hdr intro: hdr_flushed_reserved)
qed

lemma write_keeps_hdr: "NBB_write at s b = Inr b' \<Longrightarrow> hdr_reserved b' = hdr_reserved b"
  by (auto simp: NBB_write_def result_iffs hdr_reserved_def split: list.splits)

lemma used_keeps_hdr: "hdr_reserved b \<Longrightarrow> hdr_reserved (b\<lparr>nbb_used := nbb_used b + n\<rparr>)"
  by (auto simp: hdr_reserved_def split: list.splits)

lemma slow_keeps_hdr: "hdr_reserved b \<Longrightarrow> NBB_AppendSlow pool fuel s b = Inr b' \<Longrightarrow> hdr_reserved b'"
proof (induction fuel arbitrary: s b)
  case 0
  then show ?case by (cases s) auto
next
  case (Suc fuel)
  show ?case
  proof (cases s)
    case (Cons c t)
    then obtain n b1 b2 where b: "NBB_write (nbb_used b) (take n s) b = Inr b1" "NBB_MarkWritten pool n b1 = Inr b2"
      "NBB_AppendSlow pool fuel (drop n s) b2 = Inr b'"
      using Suc.prems(2) by (auto simp: result_iffs Let_def simp del: take_Cons drop_Cons)
    have "hdr_reserved b1" using Suc.prems(1) write_keeps_hdr [OF b(1)] by simp
    then have "hdr_reserved b2" using mark_keeps_hdr [OF _ b(2)] by simp
    with Suc.IH b(3) show ?thesis by blast
  qed (use Suc.prems in simp)
qed

lemma append_keeps_hdr: "hdr_reserved b \<Longrightarrow> NBB_Append pool s b = Inr b' \<Longrightarrow> hdr_reserved b'"
  using used_keeps_hdr [of b "length s"]
  by (auto simp: NBB_Append_def result_iffs Let_def split: if_splits dest: write_keeps_hdr slow_keeps_hdr)

lemma unchecked_keeps_hdr: "NBB_UncheckedAppend at ss b = Inr b' \<Longrightarrow> hdr_reserved b' = hdr_reserved b"
proof (induction ss arbitrary: at b)
  case (Cons s ss)
  then obtain b1 where "NBB_write at s b = Inr b1" "NBB_UncheckedAppend (at + length s) ss b1 = Inr b'" by (auto simp: result_iffs)
  then show ?case using Cons.IH write_keeps_hdr by metis
qed simp

lemma all_keep_hdr: "hdr_reserved b \<Longrightarrow> append_all (NBB_Append pool) ss b = Inr b' \<Longrightarrow> hdr_reserved b'"
proof (induction ss arbitrary: b)
  case (Cons s ss)
  then obtain b1 where "NBB_Append pool s b = Inr b1" "append_all (NBB_Append pool) ss b1 = Inr b'" by (auto simp: result_iffs)
  then show ?case using Cons append_keeps_hdr by metis
qed simp

lemma many_keep_hdr: "hdr_reserved b \<Longrightarrow> NBB_AppendMany pool ss b = Inr b' \<Longrightarrow> hdr_reserved b'"
  using used_keeps_hdr [of b "sum_list (map length ss)"]
  by (auto simp: NBB_AppendMany_def result_iffs Let_def split: if_splits dest: unchecked_keeps_hdr all_keep_hdr)

lemma chain_keeps_hdr:
  assumes "hdr_reserved b" "NBB_AppendNB pool nb b = Inr b'"
  shows "hdr_reserved b'"
proof -
  have "hdr_flushed b1" if "(if nbb_used b \<noteq> 0 then rbind (NBB_FlushCurrentBlock b) (NBB_InitializeNextBlock pool) else Inr b) = Inr b1" for b1
    using that unused_flushed [OF assms(1)] by (auto simp: result_iffs split: if_splits dest: flush_keeps_hdr [OF assms(1)] init_keeps_hdr)
  moreover have "hdr_reserved (b1\<lparr>nbb_nb := NB_AppendNB nb (nbb_nb b1)\<rparr>)" if "hdr_flushed b1" for b1
    using that by (auto simp: hdr_flushed_def hdr_reserved_def NB_AppendNB_def)
  ultimately show ?thesis using assms(2)
    by (auto simp: NBB_AppendNB_def NBB_AppendCopy_def NBB_AppendCopy_loop_eq result_iffs split: if_splits dest: all_keep_hdr [OF assms(1)])
qed

lemma component_keeps_hdr: "hdr_reserved b \<Longrightarrow> AppendRedisCommandComponent pool c b = Inr b' \<Longrightarrow> hdr_reserved b'"
proof (cases c)
  case (Buffer_component nb)
  assume b: "hdr_reserved b" "AppendRedisCommandComponent pool c b = Inr b'"
  then obtain b1 b2 where s: "NBB_AppendMany pool [''$'', print_nat (NB_ByteSize nb), CRLF] b = Inr b1" "NBB_AppendNB pool nb b1 = Inr b2"
    "NBB_Append pool CRLF b2 = Inr b'" using Buffer_component by (auto simp: result_iffs)
  show ?thesis using append_keeps_hdr [OF chain_keeps_hdr [OF many_keep_hdr [OF b(1) s(1)] s(2)] s(3)] .
qed (auto dest: many_keep_hdr)

text \<open>The reservation on a new builder.\<close>

lemma RCB_new_ok:
  assumes "pool_ok bs pool" "1024 \<le> bs"
  shows "\<exists>rcb junk. RCB_new pool = Inr rcb \<and> rcb_reserved_header rcb = (0, 0) \<and> rcb_components rcb = 0 \<and>
     nbb_invar bs (rcb_builder rcb) \<and> hdr_reserved (rcb_builder rcb) \<and> nbb_bytes (rcb_builder rcb) = junk \<and> length junk = kReservedHdrSize"
proof -
  have pool: "length (pool 0) = bs" using assms(1) by (simp add: pool_ok_def)
  then show ?thesis using assms(2)
    by (simp add: RCB_new_def NBB_new_def NBB_InitializeNextBlock_def NBB_Reserve_def NBB_SizeAvailable_def deref_current_def NBB_MarkWritten_def
        kReservedHdrSize_def nbb_invar_def nbb_bytes_def hdr_reserved_def Let_def NB_new_def nb_invar_def nb_bytes_def)
qed

lemma rcb_append_all_ok:
  assumes "pool_ok bs pool" "list_all component_ok cs" "nbb_invar bs (rcb_builder rcb)" "hdr_reserved (rcb_builder rcb)"
  shows "\<exists>rcb'. rcb_append_all pool cs rcb = Inr rcb' \<and> rcb_reserved_header rcb' = rcb_reserved_header rcb \<and>
     rcb_components rcb' = rcb_components rcb + length cs \<and> nbb_invar bs (rcb_builder rcb') \<and> hdr_reserved (rcb_builder rcb') \<and>
     nbb_bytes (rcb_builder rcb') = nbb_bytes (rcb_builder rcb) @ concat (map (\<lambda>c. resp_print (R_Bulk (component_bytes c))) cs)"
  using assms
proof (induction cs arbitrary: rcb)
  case (Cons c cs)
  then obtain b1 where b1: "AppendRedisCommandComponent pool c (rcb_builder rcb) = Inr b1" "nbb_invar bs b1"
    "nbb_bytes b1 = nbb_bytes (rcb_builder rcb) @ resp_print (R_Bulk (component_bytes c))"
    using AppendRedisCommandComponent_ok [of bs pool "rcb_builder rcb" c] by auto
  have "hdr_reserved b1" using component_keeps_hdr Cons.prems(4) b1(1) by blast
  with Cons.IH [of "rcb\<lparr>rcb_components := rcb_components rcb + 1, rcb_builder := b1\<rparr>"] Cons.prems b1 show ?case
    by (auto simp: RCB_Append_def simp del: AppendRedisCommandComponent.simps)
qed simp

lemma print_nat_digits_bound: "n < 10 ^ Suc k \<Longrightarrow> length (print_nat n) \<le> Suc k"
proof (induction k arbitrary: n)
  case 0
  then show ?case by (simp add: print_nat.simps [of n])
next
  case (Suc k)
  then have "n div 10 < 10 ^ Suc k" by (simp add: div_less_iff_less_mult)
  with Suc.IH [of "n div 10"] show ?case by (cases "n < 10") (simp_all add: print_nat.simps [of n])
qed

lemma get_keeps_hdr:
  assumes "hdr_reserved b" "NBB_DestructiveGet b = Inr nb"
  shows "\<exists>w ws. nb_buffers nb = w # ws \<and> pb_ptr w = 0 \<and> kReservedHdrSize \<le> pb_size w"
proof -
  obtain b' where "NBB_FlushCurrentBlock b = Inr b'" "nb = fst (NB_move (nbb_nb b'))" using assms(2) by (auto simp: NBB_DestructiveGet_def result_iffs)
  with flush_keeps_hdr [OF assms(1), of b'] show ?thesis by (auto simp: hdr_flushed_def NB_move_def)
qed

text \<open>The reserved bytes are cut to the size of the first line, and the line is written there.\<close>

lemma write_hdr_ok:
  assumes nb: "nb_invar nb" "nb_buffers nb = w # ws" "pb_ptr w = 0" "kReservedHdrSize \<le> pb_size w"
    and hdr: "length hdr \<le> kReservedHdrSize" "hdr \<noteq> []"
  shows "\<exists>nb'. rbind (NB_Skip (kReservedHdrSize - length hdr) nb) (write_reserved (0, 0) (kReservedHdrSize - length hdr) hdr) = Inr nb' \<and>
     nb_invar nb' \<and> nb_bytes nb' = hdr @ drop kReservedHdrSize (nb_bytes nb)"
proof -
  let ?s = "kReservedHdrSize - length hdr"
  let ?w = "w\<lparr>pb_size := pb_size w - ?s, pb_ptr := ?s\<rparr>"
  have s: "?s < pb_size w" "?s + length hdr = kReservedHdrSize" using nb(4) hdr by (cases hdr; simp add: kReservedHdrSize_def)+
  have wf: "pb_size w \<le> length (pb_ref w)" "chain_ok ws" "nb_byte_size nb = pb_size w + sum_list (map pb_size ws)"
    using nb(1,2,3) by (auto simp: nb_invar_def pb_ok_def)
  have skip: "NB_Skip ?s nb = Inr \<lparr>nb_byte_size = nb_byte_size nb - ?s, nb_buffers = ?w # ws\<rparr>"
  proof (cases "?s = 0")
    case True
    then show ?thesis using nb(2,3) by (simp add: NB_Skip_def)
  next
    case False
    then show ?thesis using nb(2,3) s wf(3) by (simp add: NB_Skip_def NB_ByteSize_def chain_front_def PB_Skip_def)
  qed
  let ?nb = "\<lparr>nb_byte_size = nb_byte_size nb - ?s,
      nb_buffers = ?w\<lparr>pb_ref := take ?s (pb_ref w) @ hdr @ drop kReservedHdrSize (pb_ref w)\<rparr> # ws\<rparr>"
  have "?s + length hdr \<le> length (pb_ref w)" using s nb(4) wf(1) by simp
  then have wr: "write_reserved (0, 0) ?s hdr \<lparr>nb_byte_size = nb_byte_size nb - ?s, nb_buffers = ?w # ws\<rparr> = Inr ?nb"
    using s(2) by (simp add: write_reserved_def memcpy_ok)
  have "nb_invar ?nb" using wf s nb(4) by (simp add: nb_invar_def pb_ok_def)
  moreover have "nb_bytes ?nb = hdr @ drop kReservedHdrSize (nb_bytes nb)"
    using nb(2,3,4) s wf(1) by (simp add: nb_bytes_def pb_bytes_def drop_take)
  ultimately show ?thesis using skip wr by simp
qed

lemma rcb_build_ok:
  assumes "pool_ok bs pool" "1024 \<le> bs" "list_all component_ok cs" "length cs < 10 ^ 29"
  shows "\<exists>nb. rcb_build pool cs = Inr nb \<and> nb_invar nb \<and> nb_bytes nb = resp_print (command_resp cs)"
proof -
  obtain rcb junk where new: "RCB_new pool = Inr rcb" "rcb_reserved_header rcb = (0, 0)" "rcb_components rcb = 0" "nbb_invar bs (rcb_builder rcb)"
    "hdr_reserved (rcb_builder rcb)" "nbb_bytes (rcb_builder rcb) = junk" "length junk = kReservedHdrSize" using RCB_new_ok [OF assms(1,2)] by blast
  obtain rcb' where app: "rcb_append_all pool cs rcb = Inr rcb'" "rcb_reserved_header rcb' = (0, 0)" "rcb_components rcb' = length cs"
    "nbb_invar bs (rcb_builder rcb')" "hdr_reserved (rcb_builder rcb')"
    "nbb_bytes (rcb_builder rcb') = junk @ concat (map (\<lambda>c. resp_print (R_Bulk (component_bytes c))) cs)"
    using rcb_append_all_ok [OF assms(1,3) new(4,5)] new(2,3,6) by auto
  obtain nb where nb: "NBB_DestructiveGet (rcb_builder rcb') = Inr nb" "nb_invar nb" "nb_bytes nb = nbb_bytes (rcb_builder rcb')"
    using NBB_DestructiveGet_ok [OF app(4)] by blast
  obtain w ws where w: "nb_buffers nb = w # ws" "pb_ptr w = 0" "kReservedHdrSize \<le> pb_size w" using get_keeps_hdr [OF app(5) nb(1)] by blast
  let ?hdr = "''*'' @ print_nat (length cs) @ CRLF"
  have hdr: "length ?hdr \<le> kReservedHdrSize" "?hdr \<noteq> []"
    using print_nat_digits_bound [of "length cs" 28] assms(4) by (auto simp: kReservedHdrSize_def)
  obtain nb' where "rbind (NB_Skip (kReservedHdrSize - length ?hdr) nb) (write_reserved (0, 0) (kReservedHdrSize - length ?hdr) ?hdr) = Inr nb'"
    "nb_invar nb'" "nb_bytes nb' = ?hdr @ drop kReservedHdrSize (nb_bytes nb)" using write_hdr_ok [OF nb(2) w hdr] by blast
  with new(1,7) app nb hdr(1) show ?thesis by (simp add: rcb_build_def RCB_DestructiveGet_def Let_def command_resp_def comp_def)
qed

lemma command_resp_ok:
  "length cs < 2 ^ 31 \<Longrightarrow> list_all (\<lambda>c. length (component_bytes c) < 2 ^ 31) cs \<Longrightarrow> resp_ok (command_resp cs)"
  by (simp add: command_resp_def list_all_iff)

lemma WriteMessage_ok:
  assumes pool: "pool_ok bs pool" and nb: "nb_invar cmd" "nb_invar buffer"
  shows "\<exists>p' out. WriteMessage pool p cmd buffer = Inr (p', out) \<and> rp_handshake_sent p' \<and> nb_invar out \<and>
     rp_handshake_received p' = (rp_handshake_received p \<or> \<not> rp_handshake_sent p \<and> rp_username p = [] \<and> rp_password p = []) \<and>
     nb_bytes out = nb_bytes buffer @
       (if rp_handshake_sent p then []
        else if rp_username p \<noteq> [] then resp_print (command_resp (map Str_component [''AUTH'', rp_username p, rp_password p]))
        else if rp_password p \<noteq> [] then resp_print (command_resp (map Str_component [''AUTH'', rp_password p]))
        else []) @ nb_bytes cmd"
proof -
  obtain a1 where a1: "RedisCommand pool ''AUTH'' [Str_component (rp_username p), Str_component (rp_password p)] = Inr a1" "nb_invar a1"
    "nb_bytes a1 = resp_print (command_resp (map Str_component [''AUTH'', rp_username p, rp_password p]))"
    using RedisCommand_ok [OF pool, of "[Str_component (rp_username p), Str_component (rp_password p)]" "''AUTH''"] by auto
  obtain a2 where a2: "RedisCommand pool ''AUTH'' [Str_component (rp_password p)] = Inr a2" "nb_invar a2"
    "nb_bytes a2 = resp_print (command_resp (map Str_component [''AUTH'', rp_password p]))"
    using RedisCommand_ok [OF pool, of "[Str_component (rp_password p)]" "''AUTH''"] by auto
  show ?thesis using a1 a2 nb NB_AppendNB_ok [OF nb(2) a1(2)] NB_AppendNB_ok [OF nb(2) a2(2)] NB_AppendNB_ok [OF nb(2,1)]
      NB_AppendNB_ok [of "NB_AppendNB a1 buffer" cmd] NB_AppendNB_ok [of "NB_AppendNB a2 buffer" cmd]
    by (simp add: WriteMessage_def)
qed

lemma TryCutMessage_received:
  assumes "rp_handshake_received p" "resp_ok r" "nb_invar b" "NB_ByteSize b < 2 ^ 64" "nb_bytes b = resp_print r @ rest" "NB_ByteSize b \<le> fuel"
  shows "\<exists>b' obj. TryCutMessage fuel p b = Inr (Cut, p, b', Some obj) \<and> redis_abs obj = r \<and> nb_invar b' \<and> nb_bytes b' = rest"
proof -
  have len: "NB_ByteSize b = length (nb_bytes b)" using nb_invar_length [OF assms(3)] by (simp add: NB_ByteSize_def)
  then have "length (resp_print r) \<le> fuel" using assms(5,6) by simp
  then obtain b' obj where "TryCutRedisObject fuel b RedisUnset = Inr (1, b', obj)" "redis_abs obj = r" "nb_invar b'" "nb_bytes b' = rest"
    using reads_allD [OF reads_all [OF assms(2)] assms(3) _ assms(5), of fuel RedisUnset] assms(4) len by auto
  with assms(1) show ?thesis by (simp add: TryCutMessage_def)
qed

lemma TryCutMessage_handshake:
  assumes "\<not> rp_handshake_received p" "resp_ok a" "resp_ok r" "nb_invar b" "NB_ByteSize b < 2 ^ 64"
    "nb_bytes b = resp_print a @ resp_print r @ rest" "NB_ByteSize b \<le> fuel"
  shows "\<exists>b' obj. TryCutMessage fuel p b = Inr (Cut, p\<lparr>rp_handshake_received := True\<rparr>, b', Some obj) \<and> redis_abs obj = r \<and>
     nb_invar b' \<and> nb_bytes b' = rest"
proof -
  have len: "NB_ByteSize b = length (nb_bytes b)" using nb_invar_length [OF assms(4)] by (simp add: NB_ByteSize_def)
  then have "length (resp_print a) \<le> fuel" using assms(6,7) by simp
  then obtain b1 obj1 where 1: "TryCutRedisObject fuel b RedisUnset = Inr (1, b1, obj1)" "nb_invar b1" "nb_bytes b1 = resp_print r @ rest"
    using reads_allD [OF reads_all [OF assms(2)] assms(4) _ assms(6), of fuel RedisUnset] assms(5) len by auto
  have "NB_ByteSize b1 \<le> NB_ByteSize b" using nb_invar_length [OF 1(2)] 1(3) len assms(6) by (simp add: NB_ByteSize_def)
  then obtain b' obj where "TryCutMessage fuel (p\<lparr>rp_handshake_received := True\<rparr>) b1 = Inr (Cut, p\<lparr>rp_handshake_received := True\<rparr>, b', Some obj)"
    "redis_abs obj = r" "nb_invar b'" "nb_bytes b' = rest"
    using TryCutMessage_received [of "p\<lparr>rp_handshake_received := True\<rparr>" r b1 rest fuel] assms(3,5,7) 1 by auto
  with 1 assms(1) show ?thesis by (simp add: TryCutMessage_def)
qed

section \<open>Results\<close>

text \<open>
  C15. A command reads back as what it was built from: the reader turns the bytes of \<^verbatim>\<open>RedisCommand\<close>,
  with anything behind them, into the array of its components, byte for byte, whatever blocks the
  builder used.
\<close>

theorem redis_command_round_trip:
  assumes "pool_ok block_size pool" "list_all component_ok args" "length args < 2 ^ 31 - 1"
    and "list_all (\<lambda>c. length (component_bytes c) < 2 ^ 31) (Str_component op # args)"
  shows "\<exists>nb. RedisCommand pool op args = Inr nb \<and> nb_invar nb \<and>
     (\<forall>b rest fuel. nb_invar b \<and> NB_ByteSize b < 2 ^ 64 \<and> nb_bytes b = nb_bytes nb @ rest \<and> NB_ByteSize b \<le> fuel \<longrightarrow>
        (\<exists>b' obj. TryCutRedisObject fuel b RedisUnset = Inr (1, b', obj) \<and> nb_bytes b' = rest \<and>
           redis_abs obj = R_Array (map (\<lambda>c. R_Bulk (component_bytes c)) (Str_component op # args))))"
proof -
  have ok: "resp_ok (command_resp (Str_component op # args))" using assms(3,4) by (intro command_resp_ok) auto
  obtain nb where nb: "RedisCommand pool op args = Inr nb" "nb_invar nb" "nb_bytes nb = resp_print (command_resp (Str_component op # args))"
    using RedisCommand_ok [OF assms(1,2), of op] by blast
  have "\<exists>b' obj. TryCutRedisObject fuel b RedisUnset = Inr (1, b', obj) \<and> nb_bytes b' = rest \<and> redis_abs obj = command_resp (Str_component op # args)"
    if "nb_invar b" "NB_ByteSize b < 2 ^ 64" "nb_bytes b = nb_bytes nb @ rest" "NB_ByteSize b \<le> fuel" for b rest fuel
    using reads_allD [OF reads_all [OF ok] that(1), of fuel rest RedisUnset] that nb(3) nb_invar_length [OF that(1)] by (auto simp: NB_ByteSize_def)
  with nb(1,2) show ?thesis unfolding command_resp_def by blast
qed

theorem redis_command_round_trip_witness:
  "\<exists>nb. RedisCommand (\<lambda>_. ''????'') ''SET'' [Str_component ''k''] = Inr nb \<and> nb_invar nb \<and>
     (\<forall>b rest fuel. nb_invar b \<and> NB_ByteSize b < 2 ^ 64 \<and> nb_bytes b = nb_bytes nb @ rest \<and> NB_ByteSize b \<le> fuel \<longrightarrow>
        (\<exists>b' obj. TryCutRedisObject fuel b RedisUnset = Inr (1, b', obj) \<and> nb_bytes b' = rest \<and>
           redis_abs obj = R_Array [R_Bulk ''SET'', R_Bulk ''k'']))"
  using redis_command_round_trip [of 4 "\<lambda>_. ''????''" "[Str_component ''k'']" "''SET''"] by (simp add: pool_ok_def)

text \<open>
  C14. Building a command step by step, with the first line filled in at the end, gives the same bytes
  as building it at once, for blocks of at least 1024 bytes and any number of components below
  \<open>10 ^ 29\<close>: the reserved bytes are still at the start of the first block, and no byte of them
  that is not part of the line is sent.
\<close>

theorem redis_builder_equivalent:
  assumes "pool_ok block_size pool" "1024 \<le> block_size" "list_all component_ok args" "length args + 1 < 10 ^ 29"
  shows "\<exists>nb nb'. rcb_build pool (Str_component op # args) = Inr nb \<and> RedisCommand pool op args = Inr nb' \<and>
     nb_invar nb \<and> nb_bytes nb = nb_bytes nb'"
proof -
  have "length (Str_component op # args) < 10 ^ 29" "list_all component_ok (Str_component op # args)" using assms(3,4) by simp_all
  with rcb_build_ok [OF assms(1,2), of "Str_component op # args"] RedisCommand_ok [OF assms(1,3), of op] show ?thesis by auto
qed

theorem redis_builder_equivalent_witness:
  "\<exists>nb nb'. rcb_build (\<lambda>_. replicate 1024 (CHR ''?'')) (map Str_component [''GET'', ''key'']) = Inr nb \<and>
     RedisCommand (\<lambda>_. replicate 1024 (CHR ''?'')) ''GET'' [Str_component ''key''] = Inr nb' \<and> nb_invar nb \<and> nb_bytes nb = nb_bytes nb'"
  using redis_builder_equivalent [of 1024 "\<lambda>_. replicate 1024 (CHR ''?'')" "[Str_component ''key'']" "''GET''"] by (simp add: pool_ok_def)

text \<open>
  A session. With credentials the first message is preceded by \<^verbatim>\<open>AUTH\<close>, and the reply to that is
  not taken for the reply to the message; without credentials nothing is sent before the
  message, and the first reply is its reply.
\<close>

theorem redis_session:
  assumes "pool_ok block_size pool" "nb_invar cmd" "resp_ok auth_reply" "resp_ok r"
    and b: "nb_invar b" "NB_ByteSize b < 2 ^ 64" "NB_ByteSize b \<le> fuel"
    and bytes: "nb_bytes b = (if username = [] \<and> password = [] then [] else resp_print auth_reply) @ resp_print r @ rest"
  shows "\<exists>p out p' b' obj. WriteMessage pool (SetCredential username password RP_new) cmd NB_new = Inr (p, out) \<and>
     nb_bytes out = (if username \<noteq> [] then resp_print (command_resp (map Str_component [''AUTH'', username, password]))
                     else if password \<noteq> [] then resp_print (command_resp (map Str_component [''AUTH'', password])) else []) @ nb_bytes cmd \<and>
     TryCutMessage fuel p b = Inr (Cut, p', b', Some obj) \<and> redis_abs obj = r \<and> nb_bytes b' = rest"
proof -
  let ?p = "SetCredential username password RP_new"
  have f: "rp_username ?p = username" "rp_password ?p = password" "rp_handshake_sent ?p = False" "rp_handshake_received ?p = False"
    by (simp_all add: SetCredential_def RP_new_def)
  obtain p out where w: "WriteMessage pool ?p cmd NB_new = Inr (p, out)" "rp_handshake_received p = (username = [] \<and> password = [])"
    "nb_bytes out = (if username \<noteq> [] then resp_print (command_resp (map Str_component [''AUTH'', username, password]))
                     else if password \<noteq> [] then resp_print (command_resp (map Str_component [''AUTH'', password])) else []) @ nb_bytes cmd"
    using WriteMessage_ok [OF assms(1,2) NB_new_ok(1), of ?p] unfolding f NB_new_ok(2) by (simp only: simp_thms if_True if_False append_Nil) blast
  have "\<exists>p' b' obj. TryCutMessage fuel p b = Inr (Cut, p', b', Some obj) \<and> redis_abs obj = r \<and> nb_bytes b' = rest"
  proof (cases "username = [] \<and> password = []")
    case True
    then show ?thesis using TryCutMessage_received [OF _ assms(4) b(1,2) _ b(3), of p rest] w(2) bytes by auto
  next
    case False
    then have "\<not> rp_handshake_received p" "nb_bytes b = resp_print auth_reply @ resp_print r @ rest" using w(2) bytes by (auto simp del: append_assoc)
    from TryCutMessage_handshake [OF this(1) assms(3,4) b(1,2) this(2) b(3)] show ?thesis by blast
  qed
  with w(1,3) show ?thesis by blast
qed

theorem redis_session_witness:
  "let b = NB_AppendPB (MakeForeignBuffer (resp_print (R_Simple ''OK'') @ resp_print (R_Integer 7))) NB_new
   in \<exists>p out p' b' obj. WriteMessage (\<lambda>_. ''????'') (SetCredential [] ''secret'' RP_new) NB_new NB_new = Inr (p, out) \<and>
     nb_bytes out = resp_print (command_resp (map Str_component [''AUTH'', ''secret''])) \<and>
     TryCutMessage 100 p b = Inr (Cut, p', b', Some obj) \<and> redis_abs obj = R_Integer 7 \<and> nb_bytes b' = []"
proof -
  let ?b = "NB_AppendPB (MakeForeignBuffer (resp_print (R_Simple ''OK'') @ resp_print (R_Integer 7))) NB_new"
  have b: "nb_invar ?b" "nb_bytes ?b = resp_print (R_Simple ''OK'') @ resp_print (R_Integer 7)"
    by (simp_all add: NB_AppendPB_def MakeForeignBuffer_def PB_make_def PB_move_def NB_new_def nb_invar_def nb_bytes_def pb_bytes_def pb_ok_def)
  have "length (resp_print (R_Simple ''OK'') @ resp_print (R_Integer 7)) = 9" by code_simp
  then have "NB_ByteSize ?b = 9" using nb_invar_length [OF b(1)] unfolding b(2) by (simp add: NB_ByteSize_def)
  then show ?thesis unfolding Let_def
    using redis_session [of 4 "\<lambda>_. ''????''" NB_new "R_Simple ''OK''" "R_Integer 7" ?b 100 "[]" "''secret''" "[]"] b
    by (simp add: pool_ok_def)
qed

end
