(* ===== verification/Fiber_Mutex.thy ===== *)
theory Fiber_Mutex
  imports Prelude
begin

text \<open>
  Waiting and the mutex of fibers (\<^verbatim>\<open>flare/fiber/detail/waitable.{h,cc}\<close>). \<^verbatim>\<open>Waitable\<close> is a chain of wait
  blocks, each with a flag that says whether its wait has been satisfied; the chain is the verified
  intrusive list of \<^verbatim>\<open>Doubly_Linked_List\<close>, here a list of the numbers of its blocks. The mutex is
  modelled as it runs: any number of fibers, one step per access to a shared variable or lock. The
  scheduler is used through \<^verbatim>\<open>Halt\<close> and \<^verbatim>\<open>ReadyFiber\<close>, which \<^verbatim>\<open>scheduler_lock\<close> orders: a fiber that is being
  readied has completed its \<^verbatim>\<open>Halt\<close>. Memory is sequentially consistent and the counter unbounded.
\<close>

section \<open>Waitables\<close>

record WaitBlock =
  wb_waiter :: "nat option"
  wb_satisfied :: bool

record Waitable =
  w_persistent_awakened :: bool
  w_waiters :: "nat list"

definition Waitable_new :: Waitable where
  "Waitable_new = \<lparr>w_persistent_awakened = False, w_waiters = []\<rparr>"

definition AddWaiter :: "(nat \<Rightarrow> WaitBlock) \<Rightarrow> nat \<Rightarrow> Waitable \<Rightarrow> (bool \<times> Waitable) result" where
  "AddWaiter blocks waiter w =
     check (wb_waiter (blocks waiter) \<noteq> None)
       (if w_persistent_awakened w then Inr (False, w)
        else Inr (True, w\<lparr>w_waiters := w_waiters w @ [waiter]\<rparr>))"

definition TryRemoveWaiter :: "nat \<Rightarrow> Waitable \<Rightarrow> bool \<times> Waitable" where
  "TryRemoveWaiter waiter w = (waiter \<in> set (w_waiters w), w\<lparr>w_waiters := remove1 waiter (w_waiters w)\<rparr>)"

text \<open>The loop of \<^verbatim>\<open>WakeOne\<close>: the fiber to wake, the flags, and what is left of the chain.\<close>

fun WakeOne_loop :: "(nat \<Rightarrow> WaitBlock) \<Rightarrow> nat list \<Rightarrow> nat option \<times> (nat \<Rightarrow> WaitBlock) \<times> nat list" where
  "WakeOne_loop blocks [] = (None, blocks, [])"
| "WakeOne_loop blocks (waiter # rest) =
     (let was = wb_satisfied (blocks waiter);
          blocks = blocks(waiter := (blocks waiter)\<lparr>wb_satisfied := True\<rparr>)
      in if was then WakeOne_loop blocks rest else (wb_waiter (blocks waiter), blocks, rest))"

definition WakeOne :: "(nat \<Rightarrow> WaitBlock) \<Rightarrow> Waitable \<Rightarrow> nat option \<times> (nat \<Rightarrow> WaitBlock) \<times> Waitable" where
  "WakeOne blocks w =
     (case WakeOne_loop blocks (w_waiters w) of (f, blocks, rest) \<Rightarrow> (f, blocks, w\<lparr>w_waiters := rest\<rparr>))"

fun SetPersistentAwakened_loop :: "(nat \<Rightarrow> WaitBlock) \<Rightarrow> nat list \<Rightarrow> nat list \<Rightarrow> nat list \<times> (nat \<Rightarrow> WaitBlock)" where
  "SetPersistentAwakened_loop blocks [] wbs = (wbs, blocks)"
| "SetPersistentAwakened_loop blocks (ptr # rest) wbs =
     (let was = wb_satisfied (blocks ptr);
          blocks = blocks(ptr := (blocks ptr)\<lparr>wb_satisfied := True\<rparr>)
      in SetPersistentAwakened_loop blocks rest
           (if was then wbs else wbs @ (case wb_waiter (blocks ptr) of None \<Rightarrow> [] | Some f \<Rightarrow> [f])))"

definition SetPersistentAwakened :: "(nat \<Rightarrow> WaitBlock) \<Rightarrow> Waitable \<Rightarrow> nat list \<times> (nat \<Rightarrow> WaitBlock) \<times> Waitable" where
  "SetPersistentAwakened blocks w =
     (case SetPersistentAwakened_loop blocks (w_waiters w) [] of
        (wbs, blocks) \<Rightarrow> (wbs, blocks, w\<lparr>w_persistent_awakened := True, w_waiters := []\<rparr>))"

definition ResetAwakened :: "Waitable \<Rightarrow> Waitable" where
  "ResetAwakened w = w\<lparr>w_persistent_awakened := False\<rparr>"

section \<open>The mutex\<close>

record Mutex =
  mx_impl :: Waitable
  mx_slow_path_lock :: "nat option"
  mx_count :: nat

text \<open>
  Where a fiber is. \<open>MX_Out\<close> and \<open>MX_Owner\<close> are outside and inside of the critical section; then come the
  steps of \<^verbatim>\<open>lock\<close> and \<^verbatim>\<open>LockSlow\<close>, and those of \<^verbatim>\<open>unlock\<close>.
\<close>

datatype mutex_pc =
    MX_Out
  | MX_Lock
  | MX_LockSlow
  | MX_SlowLock
  | MX_SlowAdd
  | MX_SlowReturn
  | MX_SlowEnqueue
  | MX_SlowUnlock
  | MX_Halted
  | MX_Woken
  | MX_Owner
  | MX_Unlock
  | MX_UnlockLock
  | MX_WakeOne
  | MX_UnlockSlow nat
  | MX_Ready nat

record mutex_sys =
  ms_mutex :: Mutex
  ms_blocks :: "nat \<Rightarrow> WaitBlock"
  ms_fibers :: "mutex_pc list"

definition mutex_init :: mutex_sys where
  "mutex_init = \<lparr>ms_mutex = \<lparr>mx_impl = Waitable_new, mx_slow_path_lock = None, mx_count = 0\<rparr>,
     ms_blocks = (\<lambda>_. \<lparr>wb_waiter = None, wb_satisfied = False\<rparr>), ms_fibers = []\<rparr>"

definition go :: "nat \<Rightarrow> mutex_pc \<Rightarrow> mutex_sys \<Rightarrow> mutex_sys" where
  "go i pc s = s\<lparr>ms_fibers := (ms_fibers s)[i := pc]\<rparr>"

definition set_mutex :: "Mutex \<Rightarrow> mutex_sys \<Rightarrow> mutex_sys" where
  "set_mutex m s = s\<lparr>ms_mutex := m\<rparr>"

definition try_lock :: "Mutex \<Rightarrow> bool \<times> Mutex" where
  "try_lock m = (if mx_count m = 0 then (True, m\<lparr>mx_count := 1\<rparr>) else (False, m))"

text \<open>The steps of \<^verbatim>\<open>lock\<close>; \<open>None\<close> means that the fiber cannot move.\<close>

fun Mutex_lock_step :: "nat \<Rightarrow> mutex_pc \<Rightarrow> mutex_sys \<Rightarrow> mutex_sys option result" where
  "Mutex_lock_step i MX_Lock s =
     (case try_lock (ms_mutex s) of (ok, m) \<Rightarrow> Inr (Some (go i (if ok then MX_Owner else MX_LockSlow) (set_mutex m s))))"
| "Mutex_lock_step i MX_LockSlow s =
     (case try_lock (ms_mutex s) of (ok, m) \<Rightarrow> Inr (Some (go i (if ok then MX_Owner else MX_SlowLock) (set_mutex m s))))"
| "Mutex_lock_step i MX_SlowLock s =
     (if mx_slow_path_lock (ms_mutex s) \<noteq> None then Inr None
      else Inr (Some (go i MX_SlowAdd (set_mutex ((ms_mutex s)\<lparr>mx_slow_path_lock := Some i\<rparr>) s))))"
| "Mutex_lock_step i MX_SlowAdd s =
     (let was = mx_count (ms_mutex s)
      in Inr (Some (go i (if was = 0 then MX_SlowReturn else MX_SlowEnqueue) (set_mutex ((ms_mutex s)\<lparr>mx_count := was + 1\<rparr>) s))))"
| "Mutex_lock_step i MX_SlowReturn s =
     Inr (Some (go i MX_Owner (set_mutex ((ms_mutex s)\<lparr>mx_slow_path_lock := None\<rparr>) s)))"
| "Mutex_lock_step i MX_SlowEnqueue s =
     (let blocks = (ms_blocks s)(i := \<lparr>wb_waiter = Some i, wb_satisfied = False\<rparr>)
      in rbind (AddWaiter blocks i (mx_impl (ms_mutex s))) (\<lambda>(added, w).
           check added
             (Inr (Some (go i MX_SlowUnlock (set_mutex ((ms_mutex s)\<lparr>mx_impl := w\<rparr>) (s\<lparr>ms_blocks := blocks\<rparr>)))))))"
| "Mutex_lock_step i MX_SlowUnlock s =
     Inr (Some (go i MX_Halted (set_mutex ((ms_mutex s)\<lparr>mx_slow_path_lock := None\<rparr>) s)))"
| "Mutex_lock_step i MX_Woken s =
     (case TryRemoveWaiter i (mx_impl (ms_mutex s)) of (removed, w) \<Rightarrow>
        dcheck (\<not> removed) (Inr (Some (go i MX_Owner (set_mutex ((ms_mutex s)\<lparr>mx_impl := w\<rparr>) s)))))"
| "Mutex_lock_step i pc s = Inr None"

text \<open>The steps of \<^verbatim>\<open>unlock\<close>.\<close>

fun Mutex_unlock_step :: "nat \<Rightarrow> mutex_pc \<Rightarrow> mutex_sys \<Rightarrow> mutex_sys option result" where
  "Mutex_unlock_step i MX_Unlock s =
     (let was = mx_count (ms_mutex s);
          s = set_mutex ((ms_mutex s)\<lparr>mx_count := was - 1\<rparr>) s
      in if was = 1 then Inr (Some (go i MX_Out s)) else check (was > 1) (Inr (Some (go i MX_UnlockLock s))))"
| "Mutex_unlock_step i MX_UnlockLock s =
     (if mx_slow_path_lock (ms_mutex s) \<noteq> None then Inr None
      else Inr (Some (go i MX_WakeOne (set_mutex ((ms_mutex s)\<lparr>mx_slow_path_lock := Some i\<rparr>) s))))"
| "Mutex_unlock_step i MX_WakeOne s =
     (case WakeOne (ms_blocks s) (mx_impl (ms_mutex s)) of (fiber, blocks, w) \<Rightarrow>
        (case fiber of
           None \<Rightarrow> Inl Check_failed
         | Some f \<Rightarrow> Inr (Some (go i (MX_UnlockSlow f) (set_mutex ((ms_mutex s)\<lparr>mx_impl := w\<rparr>) (s\<lparr>ms_blocks := blocks\<rparr>))))))"
| "Mutex_unlock_step i (MX_UnlockSlow f) s =
     Inr (Some (go i (MX_Ready f) (set_mutex ((ms_mutex s)\<lparr>mx_slow_path_lock := None\<rparr>) s)))"
| "Mutex_unlock_step i (MX_Ready f) s =
     (if f < length (ms_fibers s) \<and> ms_fibers s ! f = MX_Halted then Inr (Some (go i MX_Out (go f MX_Woken s))) else Inr None)"
| "Mutex_unlock_step i pc s = Inr None"

inductive mutex_step :: "mutex_sys \<Rightarrow> mutex_sys result \<Rightarrow> bool" where
  start: "mutex_step s (Inr (s\<lparr>ms_fibers := ms_fibers s @ [MX_Out]\<rparr>))"
| call_lock: "i < length (ms_fibers s) \<Longrightarrow> ms_fibers s ! i = MX_Out \<Longrightarrow> mutex_step s (Inr (go i MX_Lock s))"
| call_unlock: "i < length (ms_fibers s) \<Longrightarrow> ms_fibers s ! i = MX_Owner \<Longrightarrow> mutex_step s (Inr (go i MX_Unlock s))"
| in_lock: "i < length (ms_fibers s) \<Longrightarrow> Mutex_lock_step i (ms_fibers s ! i) s = Inr (Some s') \<Longrightarrow> mutex_step s (Inr s')"
| in_unlock: "i < length (ms_fibers s) \<Longrightarrow> Mutex_unlock_step i (ms_fibers s ! i) s = Inr (Some s') \<Longrightarrow> mutex_step s (Inr s')"
| lock_fault: "i < length (ms_fibers s) \<Longrightarrow> Mutex_lock_step i (ms_fibers s ! i) s = Inl e \<Longrightarrow> mutex_step s (Inl e)"
| unlock_fault: "i < length (ms_fibers s) \<Longrightarrow> Mutex_unlock_step i (ms_fibers s ! i) s = Inl e \<Longrightarrow> mutex_step s (Inl e)"

inductive mutex_reach :: "mutex_sys \<Rightarrow> bool" where
  init: "mutex_reach mutex_init"
| step: "mutex_reach s \<Longrightarrow> mutex_step s (Inr s') \<Longrightarrow> mutex_reach s'"

section \<open>The invariant\<close>

text \<open>
  The right to the mutex: with the owner, on its way into or out of the critical section, or being
  handed over.
\<close>

fun mx_token :: "mutex_pc \<Rightarrow> bool" where
  "mx_token MX_SlowReturn = True"
| "mx_token MX_Woken = True"
| "mx_token MX_Owner = True"
| "mx_token MX_Unlock = True"
| "mx_token MX_UnlockLock = True"
| "mx_token MX_WakeOne = True"
| "mx_token (MX_UnlockSlow f) = True"
| "mx_token (MX_Ready f) = True"
| "mx_token _ = False"

text \<open>Who is counted in \<^verbatim>\<open>count_\<close>, who holds \<^verbatim>\<open>slow_path_lock_\<close>, who is waiting, and who is being woken.\<close>

fun mx_counted :: "mutex_pc \<Rightarrow> bool" where
  "mx_counted MX_SlowReturn = True"
| "mx_counted MX_SlowEnqueue = True"
| "mx_counted MX_SlowUnlock = True"
| "mx_counted MX_Halted = True"
| "mx_counted MX_Woken = True"
| "mx_counted MX_Owner = True"
| "mx_counted MX_Unlock = True"
| "mx_counted _ = False"

fun mx_in_slow :: "mutex_pc \<Rightarrow> bool" where
  "mx_in_slow MX_SlowAdd = True"
| "mx_in_slow MX_SlowReturn = True"
| "mx_in_slow MX_SlowEnqueue = True"
| "mx_in_slow MX_SlowUnlock = True"
| "mx_in_slow MX_WakeOne = True"
| "mx_in_slow (MX_UnlockSlow f) = True"
| "mx_in_slow _ = False"

definition mx_waiting :: "mutex_pc \<Rightarrow> bool" where
  "mx_waiting pc \<longleftrightarrow> pc = MX_SlowUnlock \<or> pc = MX_Halted"

definition mx_wakes :: "mutex_pc \<Rightarrow> nat \<Rightarrow> bool" where
  "mx_wakes pc f \<longleftrightarrow> pc = MX_UnlockSlow f \<or> pc = MX_Ready f"

definition mx_popped :: "mutex_pc list \<Rightarrow> nat \<Rightarrow> bool" where
  "mx_popped F f \<longleftrightarrow> (\<exists>pc \<in> set F. mx_wakes pc f)"

definition inv_count :: "mutex_pc list \<Rightarrow> nat \<Rightarrow> bool" where
  "inv_count F c \<longleftrightarrow> cnt mx_token F = one (c \<noteq> 0) \<and> cnt mx_counted F = c"

definition inv_slow :: "mutex_pc list \<Rightarrow> nat option \<Rightarrow> bool" where
  "inv_slow F l \<longleftrightarrow> (\<forall>i < length F. mx_in_slow (F ! i) \<longleftrightarrow> l = Some i) \<and> (\<forall>i. l = Some i \<longrightarrow> i < length F)"

definition inv_chain :: "mutex_pc list \<Rightarrow> nat list \<Rightarrow> bool" where
  "inv_chain F ws \<longleftrightarrow> distinct ws \<and> (\<forall>i. i \<in> set ws \<longleftrightarrow> i < length F \<and> mx_waiting (F ! i) \<and> \<not> mx_popped F i) \<and>
     (\<forall>f. mx_popped F f \<longrightarrow> f < length F \<and> mx_waiting (F ! f))"

definition mutex_inv :: "mutex_sys \<Rightarrow> bool" where
  "mutex_inv s \<longleftrightarrow> inv_count (ms_fibers s) (mx_count (ms_mutex s)) \<and> inv_slow (ms_fibers s) (mx_slow_path_lock (ms_mutex s)) \<and>
     inv_chain (ms_fibers s) (w_waiters (mx_impl (ms_mutex s))) \<and> \<not> w_persistent_awakened (mx_impl (ms_mutex s)) \<and>
     (\<forall>i \<in> set (w_waiters (mx_impl (ms_mutex s))). ms_blocks s i = \<lparr>wb_waiter = Some i, wb_satisfied = False\<rparr>)"

lemma mutex_inv_init: "mutex_inv mutex_init"
  by (simp add: mutex_inv_def mutex_init_def inv_count_def inv_slow_def inv_chain_def mx_popped_def Waitable_new_def)

text \<open>A step of one fiber that neither begins nor ends a wait.\<close>

lemma inv_count_move:
  assumes "inv_count F c" "i < length F" "one (c' \<noteq> 0) + one (mx_token (F ! i)) = one (c \<noteq> 0) + one (mx_token pc)"
    "c' + one (mx_counted (F ! i)) = c + one (mx_counted pc)"
  shows "inv_count (F[i := pc]) c'"
  using assms cnt_update [OF assms(2), of mx_token pc] cnt_update [OF assms(2), of mx_counted pc] unfolding inv_count_def by linarith

lemma inv_slow_move:
  assumes "inv_slow F l" "i < length F" "mx_in_slow pc \<longleftrightarrow> l' = Some i" "\<And>j. j \<noteq> i \<Longrightarrow> l' = Some j \<longleftrightarrow> l = Some j"
  shows "inv_slow (F[i := pc]) l'"
  using assms unfolding inv_slow_def by (auto simp: nth_list_update)

lemma popped_nth: "mx_popped F f \<longleftrightarrow> (\<exists>j < length F. mx_wakes (F ! j) f)"
  unfolding mx_popped_def by (metis in_set_conv_nth)

lemma popped_move: "i < length F \<Longrightarrow> mx_wakes pc = mx_wakes (F ! i) \<Longrightarrow> mx_popped (F[i := pc]) f = mx_popped F f"
proof -
  assume "i < length F" "mx_wakes pc = mx_wakes (F ! i)"
  then have "mx_wakes (F[i := pc] ! j) = mx_wakes (F ! j)" if "j < length F" for j using that by (cases "j = i") auto
  then show ?thesis by (auto simp: popped_nth)
qed

lemma inv_chain_move:
  assumes "inv_chain F ws" "i < length F" "mx_waiting pc = mx_waiting (F ! i)" "mx_wakes pc = mx_wakes (F ! i)"
  shows "inv_chain (F[i := pc]) ws"
  using assms popped_move [OF assms(2,4)] by (auto simp: inv_chain_def nth_list_update)

lemma mutex_inv_move:
  assumes inv: "mutex_inv s" and i: "i < length (ms_fibers s)" "ms_fibers s ! i = pc"
    and s': "ms_fibers s' = (ms_fibers s)[i := pc']" "ms_blocks s' = ms_blocks s" "mx_impl (ms_mutex s') = mx_impl (ms_mutex s)"
    and c: "one (mx_count (ms_mutex s') \<noteq> 0) + one (mx_token pc) = one (mx_count (ms_mutex s) \<noteq> 0) + one (mx_token pc')"
      "mx_count (ms_mutex s') + one (mx_counted pc) = mx_count (ms_mutex s) + one (mx_counted pc')"
    and l: "mx_in_slow pc' \<longleftrightarrow> mx_slow_path_lock (ms_mutex s') = Some i"
      "\<And>j. j \<noteq> i \<Longrightarrow> mx_slow_path_lock (ms_mutex s') = Some j \<longleftrightarrow> mx_slow_path_lock (ms_mutex s) = Some j"
    and w: "mx_waiting pc' = mx_waiting pc" "mx_wakes pc' = mx_wakes pc"
  shows "mutex_inv s'"
  using inv inv_count_move [OF _ i(1) c [folded i(2)]] inv_slow_move [OF _ i(1) l] inv_chain_move [OF _ i(1) w [folded i(2)]]
  by (simp add: mutex_inv_def s')

text \<open>A fiber joins the chain.\<close>

lemma mutex_inv_enqueue:
  assumes inv: "mutex_inv s" and i: "i < length (ms_fibers s)" "ms_fibers s ! i = MX_SlowEnqueue"
  shows "\<exists>s'. Mutex_lock_step i MX_SlowEnqueue s = Inr (Some s') \<and> mutex_inv s'"
proof -
  let ?F = "ms_fibers s" and ?ws = "w_waiters (mx_impl (ms_mutex s))"
  let ?s = "s\<lparr>ms_mutex := (ms_mutex s)\<lparr>mx_impl := (mx_impl (ms_mutex s))\<lparr>w_waiters := ?ws @ [i]\<rparr>\<rparr>,
      ms_blocks := (ms_blocks s)(i := \<lparr>wb_waiter = Some i, wb_satisfied = False\<rparr>), ms_fibers := ?F[i := MX_SlowUnlock]\<rparr>"
  have ic: "inv_count ?F (mx_count (ms_mutex s))" "inv_slow ?F (mx_slow_path_lock (ms_mutex s))" "inv_chain ?F ?ws"
    and pers: "\<not> w_persistent_awakened (mx_impl (ms_mutex s))" using inv by (auto simp: mutex_inv_def)
  have eq: "Mutex_lock_step i MX_SlowEnqueue s = Inr (Some ?s)"
    using pers by (simp add: AddWaiter_def go_def set_mutex_def)
  have p: "mx_popped (?F[i := MX_SlowUnlock]) f = mx_popped ?F f" for f using i by (intro popped_move) (auto simp: mx_wakes_def fun_eq_iff)
  have np: "\<not> mx_popped ?F i" "i \<notin> set ?ws" using ic(3) i by (auto simp: inv_chain_def mx_waiting_def)
  have "inv_chain (?F[i := MX_SlowUnlock]) (?ws @ [i])"
    using ic(3) i np unfolding inv_chain_def p by (auto simp: nth_list_update mx_waiting_def)
  moreover have "inv_count (?F[i := MX_SlowUnlock]) (mx_count (ms_mutex s))" using inv_count_move [OF ic(1) i(1)] i(2) by simp
  moreover have "inv_slow (?F[i := MX_SlowUnlock]) (mx_slow_path_lock (ms_mutex s))"
    using inv_slow_move [OF ic(2) i(1), of MX_SlowUnlock "mx_slow_path_lock (ms_mutex s)"] ic(2) i by (auto simp: inv_slow_def)
  ultimately have "mutex_inv ?s" using inv by (auto simp: mutex_inv_def)
  with eq show ?thesis by blast
qed

text \<open>The next waiter leaves the chain. There is one, or else nobody would be counted.\<close>

lemma cnt_pos: "0 < cnt P xs \<longleftrightarrow> (\<exists>x \<in> set xs. P x)"
  using cnt_zero [of P xs] by auto

lemma token_unique:
  assumes "cnt P xs \<le> 1" "i < length xs" "j < length xs" "P (xs ! i)" "P (xs ! j)"
  shows "i = j"
  using assms
proof (induction xs arbitrary: i j)
  case (Cons x xs)
  show ?case
  proof (cases "P x")
    case True
    then have "cnt P xs = 0" using Cons.prems(1) by simp
    then have "\<not> P (xs ! k)" if "k < length xs" for k using that by (simp add: cnt_zero)
    with Cons.prems show ?thesis by (cases i; cases j) auto
  next
    case False
    with Cons show ?thesis by (cases i; cases j) auto
  qed
qed simp

lemma inv_token_unique:
  assumes "mutex_inv s" "j < length (ms_fibers s)" "mx_token (ms_fibers s ! j)" "i < length (ms_fibers s)" "mx_token (ms_fibers s ! i)"
  shows "j = i"
  using assms token_unique [of mx_token "ms_fibers s" j i] by (auto simp: mutex_inv_def inv_count_def split: if_splits)

lemma waiter_exists:
  assumes inv: "mutex_inv s" and i: "i < length (ms_fibers s)" "ms_fibers s ! i = MX_WakeOne"
  shows "w_waiters (mx_impl (ms_mutex s)) \<noteq> []" "\<And>f. \<not> mx_popped (ms_fibers s) f"
proof -
  let ?F = "ms_fibers s"
  have ic: "cnt mx_token ?F = one (mx_count (ms_mutex s) \<noteq> 0)" "cnt mx_counted ?F = mx_count (ms_mutex s)" "inv_slow ?F (mx_slow_path_lock (ms_mutex s))"
    "inv_chain ?F (w_waiters (mx_impl (ms_mutex s)))" using inv by (auto simp: mutex_inv_def inv_count_def)
  have tok: "j = i" if "j < length ?F" "mx_token (?F ! j)" for j using inv_token_unique [OF inv that i(1)] i(2) by simp
  show np: "\<not> mx_popped ?F f" for f
  proof
    assume "mx_popped ?F f"
    then obtain j where j: "j < length ?F" "mx_wakes (?F ! j) f" by (auto simp: popped_nth)
    then have "j = i" using tok by (auto simp: mx_wakes_def)
    with j i show False by (simp add: mx_wakes_def)
  qed
  have "0 < cnt mx_token ?F" using nth_mem [OF i(1)] i(2) by (auto simp: cnt_pos intro: bexI [of _ MX_WakeOne])
  then have "0 < cnt mx_counted ?F" using ic(1,2) by (auto split: if_splits)
  then obtain j where j: "j < length ?F" "mx_counted (?F ! j)" by (auto simp: cnt_pos in_set_conv_nth)
  have "j \<noteq> i" using j i by auto
  then have nt: "\<not> mx_token (?F ! j)" using tok j(1) by blast
  have "mx_slow_path_lock (ms_mutex s) = Some i" using ic(3) i by (auto simp: inv_slow_def)
  then have "\<not> mx_in_slow (?F ! j)" using ic(3) j(1) \<open>j \<noteq> i\<close> by (simp add: inv_slow_def)
  with j(2) nt have "?F ! j = MX_Halted" by (cases "?F ! j") auto
  with ic(4) j(1) np show "w_waiters (mx_impl (ms_mutex s)) \<noteq> []" by (auto simp: inv_chain_def mx_waiting_def)
qed

lemma mutex_inv_wake:
  assumes inv: "mutex_inv s" and i: "i < length (ms_fibers s)" "ms_fibers s ! i = MX_WakeOne"
  shows "\<exists>s'. Mutex_unlock_step i MX_WakeOne s = Inr (Some s') \<and> mutex_inv s'"
proof -
  let ?F = "ms_fibers s"
  obtain f rest where ws: "w_waiters (mx_impl (ms_mutex s)) = f # rest" using waiter_exists(1) [OF assms] by (auto simp: neq_Nil_conv)
  let ?F' = "?F[i := MX_UnlockSlow f]"
  let ?s = "s\<lparr>ms_mutex := (ms_mutex s)\<lparr>mx_impl := (mx_impl (ms_mutex s))\<lparr>w_waiters := rest\<rparr>\<rparr>,
      ms_blocks := (ms_blocks s)(f := \<lparr>wb_waiter = Some f, wb_satisfied = True\<rparr>), ms_fibers := ?F'\<rparr>"
  have ic: "inv_count ?F (mx_count (ms_mutex s))" "inv_slow ?F (mx_slow_path_lock (ms_mutex s))" "inv_chain ?F (f # rest)"
    and b: "\<forall>i \<in> set (f # rest). ms_blocks s i = \<lparr>wb_waiter = Some i, wb_satisfied = False\<rparr>" using inv ws by (auto simp: mutex_inv_def)
  have eq: "Mutex_unlock_step i MX_WakeOne s = Inr (Some ?s)" using b by (simp add: WakeOne_def ws go_def set_mutex_def)
  have np: "\<not> mx_popped ?F g" for g by (rule waiter_exists(2) [OF assms])
  then have "mx_wakes (?F' ! j) g \<longleftrightarrow> j = i \<and> g = f" if "j < length ?F" for j g
    using that i(1) by (cases "j = i") (auto simp: popped_nth mx_wakes_def)
  then have p: "mx_popped ?F' g \<longleftrightarrow> g = f" for g using i(1) by (simp add: popped_nth) blast
  have w: "mx_waiting (?F' ! j) \<longleftrightarrow> mx_waiting (?F ! j)" if "j < length ?F" for j
    using that i by (cases "j = i") (simp_all add: mx_waiting_def)
  have "inv_chain ?F' rest" using ic(3) w by (simp add: inv_chain_def p np) blast
  moreover have "inv_count ?F' (mx_count (ms_mutex s))"
    using inv_count_move [OF ic(1) i(1), of "mx_count (ms_mutex s)" "MX_UnlockSlow f"] i(2) by simp
  moreover have "inv_slow ?F' (mx_slow_path_lock (ms_mutex s))"
    using inv_slow_move [OF ic(2) i(1), of "MX_UnlockSlow f" "mx_slow_path_lock (ms_mutex s)"] ic(2) i by (auto simp: inv_slow_def)
  moreover have "f \<notin> set rest" using ic(3) by (simp add: inv_chain_def)
  ultimately have "mutex_inv ?s" using inv b by (auto simp: mutex_inv_def)
  with eq show ?thesis by blast
qed

text \<open>The fiber that was taken off the chain becomes the owner.\<close>

lemma mutex_inv_ready:
  assumes inv: "mutex_inv s" and i: "i < length (ms_fibers s)" "ms_fibers s ! i = MX_Ready f"
    and f: "f < length (ms_fibers s)" "ms_fibers s ! f = MX_Halted"
  shows "mutex_inv (go i MX_Out (go f MX_Woken s))"
proof -
  let ?F = "ms_fibers s"
  let ?F' = "?F[f := MX_Woken, i := MX_Out]"
  have ic: "inv_count ?F (mx_count (ms_mutex s))" "inv_slow ?F (mx_slow_path_lock (ms_mutex s))"
    "inv_chain ?F (w_waiters (mx_impl (ms_mutex s)))" using inv by (auto simp: mutex_inv_def)
  have ne: "i \<noteq> f" using i f by auto
  have tok: "j = i" if "j < length ?F" "mx_wakes (?F ! j) g" for j g
  proof -
    have "mx_token (?F ! j)" using that(2) by (auto simp: mx_wakes_def)
    then show ?thesis using inv_token_unique [OF inv that(1) _ i(1)] i(2) by simp
  qed
  have wk: "mx_wakes (?F ! j) g \<longleftrightarrow> j = i \<and> g = f" if "j < length ?F" for j g
    using tok [OF that, of g] i(2) by (cases "j = i") (auto simp: mx_wakes_def)
  then have p: "mx_popped ?F g \<longleftrightarrow> g = f" for g using i(1) by (simp add: popped_nth) blast
  have "\<not> mx_wakes (?F' ! j) g" if "j < length ?F" for j g
  proof -
    have "?F' ! j = (if j = i then MX_Out else if j = f then MX_Woken else ?F ! j)" using that by simp
    then show ?thesis using wk [OF that, of g] by (auto simp: mx_wakes_def)
  qed
  then have p': "\<not> mx_popped ?F' g" for g by (simp add: popped_nth)
  have w: "mx_waiting (?F' ! j) \<longleftrightarrow> mx_waiting (?F ! j) \<and> j \<noteq> f" if "j < length ?F" for j
    using that i f ne by (cases "j = i"; cases "j = f") (simp_all add: mx_waiting_def)
  have "inv_chain ?F' (w_waiters (mx_impl (ms_mutex s)))" using ic(3) w by (simp add: inv_chain_def p p') blast
  moreover have "inv_count ?F' (mx_count (ms_mutex s))"
  proof -
    have "cnt mx_token (?F[f := MX_Woken]) = Suc (cnt mx_token ?F)" "cnt mx_counted (?F[f := MX_Woken]) = cnt mx_counted ?F"
      using cnt_update [OF f(1), of mx_token MX_Woken] cnt_update [OF f(1), of mx_counted MX_Woken] f(2) by simp_all
    moreover have "Suc (cnt mx_token ?F') = cnt mx_token (?F[f := MX_Woken])" "cnt mx_counted ?F' = cnt mx_counted (?F[f := MX_Woken])"
      using cnt_update [of i "?F[f := MX_Woken]" mx_token MX_Out] cnt_update [of i "?F[f := MX_Woken]" mx_counted MX_Out] i ne by simp_all
    ultimately show ?thesis using ic(1) by (simp add: inv_count_def)
  qed
  moreover have "inv_slow ?F' (mx_slow_path_lock (ms_mutex s))"
  proof -
    have "mx_in_slow (?F' ! j) = mx_in_slow (?F ! j)" if "j < length ?F" for j
      using that i f ne by (cases "j = i"; cases "j = f") simp_all
    then show ?thesis using ic(2) by (simp add: inv_slow_def)
  qed
  ultimately show ?thesis using inv by (simp add: mutex_inv_def go_def)
qed

lemma mutex_inv_start: "mutex_inv s \<Longrightarrow> mutex_inv (s\<lparr>ms_fibers := ms_fibers s @ [MX_Out]\<rparr>)"
proof -
  let ?F = "ms_fibers s"
  assume inv: "mutex_inv s"
  have p: "mx_popped (?F @ [MX_Out]) f = mx_popped ?F f" for f by (auto simp: mx_popped_def mx_wakes_def)
  have lt: "f < length ?F" if "mx_popped ?F f" for f using inv that by (simp add: mutex_inv_def inv_chain_def)
  have l: "mx_slow_path_lock (ms_mutex s) \<noteq> Some (length ?F)" using inv by (auto simp: mutex_inv_def inv_slow_def)
  have "inv_chain (?F @ [MX_Out]) (w_waiters (mx_impl (ms_mutex s)))" using inv lt
    by (simp add: mutex_inv_def inv_chain_def p nth_append less_Suc_eq mx_waiting_def)
  then show ?thesis using inv l by (auto simp: mutex_inv_def inv_count_def inv_slow_def nth_append less_Suc_eq)
qed

text \<open>What a fiber knows of the counter and of the lock from where it is.\<close>

lemma mutex_inv_token: "mutex_inv s \<Longrightarrow> i < length (ms_fibers s) \<Longrightarrow> mx_token (ms_fibers s ! i) \<Longrightarrow> mx_count (ms_mutex s) \<noteq> 0"
  using cnt_pos [of mx_token "ms_fibers s"] nth_mem [of i "ms_fibers s"] by (auto simp: mutex_inv_def inv_count_def split: if_splits)

lemma mutex_inv_slow:
  "mutex_inv s \<Longrightarrow> i < length (ms_fibers s) \<Longrightarrow> mx_in_slow (ms_fibers s ! i) \<longleftrightarrow> mx_slow_path_lock (ms_mutex s) = Some i"
  by (simp add: mutex_inv_def inv_slow_def)

definition mutex_ok :: "mutex_sys option result \<Rightarrow> bool" where
  "mutex_ok r = (case r of Inl e \<Rightarrow> False | Inr None \<Rightarrow> True | Inr (Some s') \<Rightarrow> mutex_inv s')"

lemma mutex_ok_Inl: "\<not> mutex_ok (Inl e)"
  by (simp add: mutex_ok_def)

lemmas mutex_steps = mutex_ok_def go_def set_mutex_def try_lock_def Let_def mx_waiting_def mx_wakes_def fun_eq_iff

lemma mutex_inv_lock:
  assumes inv: "mutex_inv s" and i: "i < length (ms_fibers s)"
  shows "mutex_ok (Mutex_lock_step i (ms_fibers s ! i) s)"
proof -
  note sl = mutex_inv_slow [OF inv i] and tk = mutex_inv_token [OF inv i]
  show ?thesis
  proof (cases "ms_fibers s ! i")
    case MX_Lock
    then show ?thesis using sl by (auto simp: mutex_steps intro!: mutex_inv_move [OF inv i MX_Lock])
  next
    case MX_LockSlow
    then show ?thesis using sl by (auto simp: mutex_steps intro!: mutex_inv_move [OF inv i MX_LockSlow])
  next
    case MX_SlowLock
    then show ?thesis using sl by (auto simp: mutex_steps intro!: mutex_inv_move [OF inv i MX_SlowLock])
  next
    case MX_SlowAdd
    then show ?thesis using sl by (auto simp: mutex_steps intro!: mutex_inv_move [OF inv i MX_SlowAdd])
  next
    case MX_SlowReturn
    then show ?thesis using sl tk by (auto simp: mutex_steps intro!: mutex_inv_move [OF inv i MX_SlowReturn])
  next
    case MX_SlowEnqueue
    then show ?thesis using mutex_inv_enqueue [OF inv i] by (auto simp: mutex_ok_def)
  next
    case MX_SlowUnlock
    then show ?thesis using sl by (auto simp: mutex_steps intro!: mutex_inv_move [OF inv i MX_SlowUnlock])
  next
    case MX_Woken
    then have "i \<notin> set (w_waiters (mx_impl (ms_mutex s)))" using inv by (auto simp: mutex_inv_def inv_chain_def mx_waiting_def)
    then show ?thesis using MX_Woken sl
      by (auto simp: mutex_steps TryRemoveWaiter_def remove1_idem dcheck_def intro!: mutex_inv_move [OF inv i MX_Woken])
  qed (simp_all add: mutex_ok_def)
qed

lemma mutex_inv_unlock:
  assumes inv: "mutex_inv s" and i: "i < length (ms_fibers s)"
  shows "mutex_ok (Mutex_unlock_step i (ms_fibers s ! i) s)"
proof -
  note sl = mutex_inv_slow [OF inv i] and tk = mutex_inv_token [OF inv i]
  show ?thesis
  proof (cases "ms_fibers s ! i")
    case MX_Unlock
    then show ?thesis using sl tk by (auto simp: mutex_steps check_def intro!: mutex_inv_move [OF inv i MX_Unlock])
  next
    case MX_UnlockLock
    then show ?thesis using sl by (auto simp: mutex_steps intro!: mutex_inv_move [OF inv i MX_UnlockLock])
  next
    case MX_WakeOne
    then show ?thesis using mutex_inv_wake [OF inv i] by (auto simp: mutex_ok_def)
  next
    case (MX_UnlockSlow f)
    then show ?thesis using sl by (auto simp: mutex_steps intro!: mutex_inv_move [OF inv i MX_UnlockSlow])
  next
    case (MX_Ready f)
    then show ?thesis using mutex_inv_ready [OF inv i MX_Ready] by (simp add: mutex_ok_def)
  qed (simp_all add: mutex_ok_def)
qed

inductive_simps mutex_step_fault: "mutex_step s (Inl e)"

lemma mutex_inv_step: "mutex_inv s \<Longrightarrow> mutex_step s (Inr s') \<Longrightarrow> mutex_inv s'"
proof (erule mutex_step.cases, goal_cases)
  case (2 i t)
  then show ?case by (auto simp: mutex_steps mutex_inv_slow [symmetric] intro!: mutex_inv_move [of s i MX_Out])
next
  case (3 i t)
  then show ?case by (auto simp: mutex_steps mutex_inv_slow [symmetric] intro!: mutex_inv_move [of s i MX_Owner])
qed (auto simp: mutex_ok_def mutex_inv_start dest: mutex_inv_lock mutex_inv_unlock)

lemma mutex_reach_inv: "mutex_reach s \<Longrightarrow> mutex_inv s"
  by (induction rule: mutex_reach.induct) (auto intro: mutex_inv_init mutex_inv_step)

section \<open>Schedules\<close>

datatype mutex_act = Start | Call_lock nat | Call_unlock nat | Go nat

text \<open>One step of a schedule; \<open>None\<close> if it cannot be taken.\<close>

fun mutex_do :: "mutex_act \<Rightarrow> mutex_sys \<Rightarrow> mutex_sys option" where
  "mutex_do Start s = Some (s\<lparr>ms_fibers := ms_fibers s @ [MX_Out]\<rparr>)"
| "mutex_do (Call_lock i) s = (if i < length (ms_fibers s) \<and> ms_fibers s ! i = MX_Out then Some (go i MX_Lock s) else None)"
| "mutex_do (Call_unlock i) s = (if i < length (ms_fibers s) \<and> ms_fibers s ! i = MX_Owner then Some (go i MX_Unlock s) else None)"
| "mutex_do (Go i) s =
     (if i < length (ms_fibers s)
      then (case Mutex_lock_step i (ms_fibers s ! i) s of
              Inr (Some s') \<Rightarrow> Some s'
            | _ \<Rightarrow> (case Mutex_unlock_step i (ms_fibers s ! i) s of Inr (Some s') \<Rightarrow> Some s' | _ \<Rightarrow> None))
      else None)"

fun mutex_run :: "mutex_act list \<Rightarrow> mutex_sys \<Rightarrow> mutex_sys option" where
  "mutex_run [] s = Some s"
| "mutex_run (a # as) s = (case mutex_do a s of None \<Rightarrow> None | Some s' \<Rightarrow> mutex_run as s')"

lemma mutex_do_step: "mutex_do a s = Some s' \<Longrightarrow> mutex_step s (Inr s')"
  by (cases a) (auto intro: mutex_step.intros split: if_splits sum.splits option.splits)

lemma mutex_run_reach: "mutex_reach s \<Longrightarrow> mutex_run as s = Some s' \<Longrightarrow> mutex_reach s'"
  by (induction as arbitrary: s) (auto split: option.splits intro: mutex_reach.step dest: mutex_do_step)

lemmas mutex_eval = mutex_init_def Waitable_new_def go_def set_mutex_def try_lock_def Let_def AddWaiter_def WakeOne_def TryRemoveWaiter_def
  check_def dcheck_def

section \<open>Mutual exclusion, freedom from faults and from deadlock\<close>

text \<open>
  C2. Mutual exclusion. Whatever fibers lock and unlock a mutex, and however their steps interleave, at
  most one of them is between the return of \<^verbatim>\<open>lock\<close> and the call of \<^verbatim>\<open>unlock\<close>.
\<close>

theorem mutex_exclusive:
  assumes "mutex_reach s" "i < length (ms_fibers s)" "j < length (ms_fibers s)" "ms_fibers s ! i = MX_Owner" "ms_fibers s ! j = MX_Owner"
  shows "i = j"
  using inv_token_unique [OF mutex_reach_inv [OF assms(1)] assms(2) _ assms(3)] assms(4,5) by simp

definition mutex_waiting_state :: mutex_sys where
  "mutex_waiting_state = the (mutex_run [Start, Start, Call_lock 0, Go 0, Call_lock 1, Go 1, Go 1, Go 1, Go 1, Go 1, Go 1] mutex_init)"

lemma mutex_waiting_state_eq:
  "ms_fibers mutex_waiting_state = [MX_Owner, MX_Halted]" "mutex_reach mutex_waiting_state"
  using mutex_run_reach [OF mutex_reach.init, of "[Start, Start, Call_lock 0, Go 0, Call_lock 1, Go 1, Go 1, Go 1, Go 1, Go 1, Go 1]"]
  by (simp_all add: mutex_waiting_state_def mutex_eval)

theorem mutex_exclusive_witness:
  "ms_fibers mutex_waiting_state ! 0 = MX_Owner \<and> ms_fibers mutex_waiting_state ! 1 \<noteq> MX_Owner"
  using mutex_exclusive [OF mutex_waiting_state_eq(2), of 0 1] by (simp add: mutex_waiting_state_eq(1))

text \<open>
  No check of the mutex ever fails: \<^verbatim>\<open>unlock\<close> finds a fiber to wake whenever it has counted one, a fiber
  that was woken is no longer in the chain of waiters, and a waiter can always be added.
\<close>

theorem mutex_never_faults:
  assumes "mutex_reach s"
  shows "\<not> mutex_step s (Inl e)"
  unfolding mutex_step_fault
  using mutex_inv_lock [OF mutex_reach_inv [OF assms]] mutex_inv_unlock [OF mutex_reach_inv [OF assms]] mutex_ok_Inl by metis

theorem mutex_never_faults_witness: "\<not> mutex_step mutex_waiting_state (Inl Check_failed)"
  by (rule mutex_never_faults [OF mutex_waiting_state_eq(2)])

lemma mutex_slow_moves:
  assumes inv: "mutex_inv s" and i: "i < length (ms_fibers s)" "mx_in_slow (ms_fibers s ! i)"
  shows "Mutex_lock_step i (ms_fibers s ! i) s \<noteq> Inr None \<or> Mutex_unlock_step i (ms_fibers s ! i) s \<noteq> Inr None"
proof (cases "ms_fibers s ! i")
  case MX_SlowEnqueue
  then show ?thesis using mutex_inv_enqueue [OF inv i(1)] by auto
next
  case MX_WakeOne
  then show ?thesis using mutex_inv_wake [OF inv i(1)] by auto
qed (use i in \<open>auto simp: Let_def\<close>)

text \<open>A fiber that can take no step of its own is at rest: outside, inside, or asleep.\<close>

lemma mutex_at_rest:
  assumes inv: "mutex_inv s" and i: "i < length (ms_fibers s)"
    and stuck: "\<And>j. j < length (ms_fibers s) \<Longrightarrow>
      Mutex_lock_step j (ms_fibers s ! j) s = Inr None \<and> Mutex_unlock_step j (ms_fibers s ! j) s = Inr None"
  shows "ms_fibers s ! i \<in> {MX_Out, MX_Owner, MX_Halted}"
proof -
  have ns: "\<not> mx_in_slow (ms_fibers s ! j)" if "j < length (ms_fibers s)" for j using mutex_slow_moves [OF inv that] stuck [OF that] by blast
  have free: "mx_slow_path_lock (ms_mutex s) = None"
  proof (cases "mx_slow_path_lock (ms_mutex s)")
    case (Some j)
    then have "j < length (ms_fibers s)" using inv by (simp add: mutex_inv_def inv_slow_def)
    then show ?thesis using mutex_inv_slow [OF inv] ns Some by blast
  qed
  have "False" if "ms_fibers s ! i = MX_Ready f" for f
  proof -
    have "mx_popped (ms_fibers s) f" using i that by (auto simp: popped_nth mx_wakes_def)
    then have f: "f < length (ms_fibers s)" "mx_waiting (ms_fibers s ! f)" using inv by (auto simp: mutex_inv_def inv_chain_def)
    then have "ms_fibers s ! f = MX_Halted" using ns [OF f(1)] by (auto simp: mx_waiting_def)
    then show False using stuck [OF i] f that by simp
  qed
  then show ?thesis using stuck [OF i] ns [OF i] free by (cases "ms_fibers s ! i") (auto simp: try_lock_def Let_def check_def dcheck_def split: if_splits prod.splits)
qed

text \<open>
  C7. No lost wake-up and no deadlock. If no fiber can take another step inside of \<^verbatim>\<open>lock\<close> or \<^verbatim>\<open>unlock\<close>, and
  none of them owns the mutex, then none is waiting for it: all of them are outside.
\<close>

theorem mutex_no_deadlock:
  assumes "mutex_reach s" "\<forall>i < length (ms_fibers s). ms_fibers s ! i \<noteq> MX_Owner"
    "\<forall>i < length (ms_fibers s). Mutex_lock_step i (ms_fibers s ! i) s = Inr None \<and> Mutex_unlock_step i (ms_fibers s ! i) s = Inr None"
  shows "\<forall>i < length (ms_fibers s). ms_fibers s ! i = MX_Out"
proof -
  note inv = mutex_reach_inv [OF assms(1)]
  have rest: "pc = MX_Out \<or> pc = MX_Halted" if "pc \<in> set (ms_fibers s)" for pc
    using that mutex_at_rest [OF inv] assms(2,3) by (fastforce simp: in_set_conv_nth)
  then have "cnt mx_token (ms_fibers s) = 0" unfolding cnt_zero using mx_token.simps by blast
  then have "cnt mx_counted (ms_fibers s) = 0" using inv by (auto simp: mutex_inv_def inv_count_def split: if_splits)
  then have "MX_Halted \<notin> set (ms_fibers s)" by (auto simp: cnt_zero)
  with rest show ?thesis by (metis nth_mem)
qed

definition mutex_done_state :: mutex_sys where
  "mutex_done_state = the (mutex_run [Call_unlock 0, Go 0, Go 0, Go 0, Go 0, Go 0, Go 1, Call_unlock 1, Go 1] mutex_waiting_state)"

lemma mutex_done_state_eq: "ms_fibers mutex_done_state = [MX_Out, MX_Out]" "mutex_reach mutex_done_state"
  using mutex_run_reach [OF mutex_waiting_state_eq(2), of "[Call_unlock 0, Go 0, Go 0, Go 0, Go 0, Go 0, Go 1, Call_unlock 1, Go 1]"]
  by (simp_all add: mutex_done_state_def mutex_waiting_state_def mutex_eval)

theorem mutex_no_deadlock_witness: "ms_fibers mutex_done_state ! 0 = MX_Out \<and> ms_fibers mutex_done_state ! 1 = MX_Out"
  using mutex_no_deadlock [OF mutex_done_state_eq(2)] by (simp add: mutex_done_state_eq(1) less_Suc_eq numeral_2_eq_2)

end
