(* ===== verification/Hash_Map.thy ===== *)
theory Hash_Map
  imports Prelude
begin

unbundle bit_operations_syntax

text \<open>
  The hash map of \<^verbatim>\<open>flare/base/internal/hash_map.h\<close>: an array of buckets, each with a node stored in
  the array and a chain of further nodes behind it. A node is \<open>None\<close> while it is empty (its \<^verbatim>\<open>next\<close> is
  \<^verbatim>\<open>kEmpty\<close>). A pointer to a node is its position in its bucket: 0 is the node in the array.

  The hash function \<open>H\<close> and the equality \<open>E\<close> are arguments, as they are template arguments of the class.
  Sizes and capacities are natural numbers: the map is held in memory.
\<close>

section \<open>Data\<close>

type_synonym ('k, 'v) HM_Node = "('k \<times> 'v) option"

type_synonym ('k, 'v) Bucket = "('k, 'v) HM_Node \<times> ('k, 'v) HM_Node list"

record ('k, 'v) HashMap =
  hm_nodes :: "('k, 'v) Bucket list"
  hm_capacity :: nat
  hm_mask :: "64 word"
  hm_rehash_threshold :: nat
  hm_size :: nat

text \<open>A location, or where an iterator stands: the bucket and the node, no node at the end.\<close>

record Cursor =
  bucket_id :: nat
  cur_node :: "nat option"

definition NextPowerOfTwo :: "64 word \<Rightarrow> 64 word" where
  "NextPowerOfTwo v =
     (let v = v - 1;
          v = v OR drop_bit 1 v;
          v = v OR drop_bit 2 v;
          v = v OR drop_bit 4 v;
          v = v OR drop_bit 8 v;
          v = v OR drop_bit 16 v;
          v = v OR drop_bit 32 v
      in v + 1)"

definition IsEmpty :: "('k, 'v) HM_Node \<Rightarrow> bool" where
  "IsEmpty n \<longleftrightarrow> n = None"

definition Accept :: "'k \<Rightarrow> 'v \<Rightarrow> ('k, 'v) HM_Node \<Rightarrow> ('k, 'v) HM_Node result" where
  "Accept k v n = dcheck (IsEmpty n) (Inr (Some (k, v)))"

definition GetKV :: "('k, 'v) HM_Node \<Rightarrow> ('k \<times> 'v) result" where
  "GetKV n = (case n of None \<Rightarrow> Inl Dcheck_failed | Some kv \<Rightarrow> Inr kv)"

definition InitializeFor :: "nat \<Rightarrow> ('k, 'v) HashMap result" where
  "InitializeFor capacity =
     check (capacity \<ge> 4) (check (capacity AND (capacity - 1) = 0)
       (Inr \<lparr>hm_nodes = replicate capacity (None, []), hm_capacity = capacity, hm_mask = of_nat (capacity - 1),
             hm_rehash_threshold = capacity * 3 div 4, hm_size = 0\<rparr>))"

definition HM_new :: "nat \<Rightarrow> ('k, 'v) HashMap result" where
  "HM_new initial_capacity = InitializeFor (unat (NextPowerOfTwo (of_nat initial_capacity)))"

definition GetBucket :: "('k \<Rightarrow> 64 word) \<Rightarrow> 'k \<Rightarrow> ('k, 'v) HashMap \<Rightarrow> nat" where
  "GetBucket H key m = unat (H key AND hm_mask m)"

text \<open>Reading and writing the node behind a pointer.\<close>

definition hm_node_at :: "nat \<Rightarrow> nat \<Rightarrow> ('k, 'v) HashMap \<Rightarrow> ('k, 'v) HM_Node" where
  "hm_node_at idx pos m = (case hm_nodes m ! idx of (inline, chain) \<Rightarrow> (case pos of 0 \<Rightarrow> inline | Suc i \<Rightarrow> chain ! i))"

definition set_node :: "nat \<Rightarrow> nat \<Rightarrow> ('k, 'v) HM_Node \<Rightarrow> ('k, 'v) HashMap \<Rightarrow> ('k, 'v) HashMap" where
  "set_node idx pos n m =
     m\<lparr>hm_nodes := (hm_nodes m)[idx :=
       (case hm_nodes m ! idx of (inline, chain) \<Rightarrow> (case pos of 0 \<Rightarrow> (n, chain) | Suc i \<Rightarrow> (inline, chain[i := n])))]\<rparr>"

section \<open>Lookup\<close>

definition SentinelCursor :: "('k, 'v) HashMap \<Rightarrow> Cursor" where
  "SentinelCursor m = \<lparr>bucket_id = hm_capacity m, cur_node = None\<rparr>"

text \<open>The loop of \<^verbatim>\<open>LocateKeySlow\<close> from the node at \<open>pos\<close>, the first of those given.\<close>

fun LocateKeySlow :: "('k \<Rightarrow> 'k \<Rightarrow> bool) \<Rightarrow> 'k \<Rightarrow> ('k, 'v) HashMap \<Rightarrow> nat \<Rightarrow> nat \<Rightarrow> ('k, 'v) HM_Node list \<Rightarrow> Cursor result" where
  "LocateKeySlow E key m idx pos [] = Inr (SentinelCursor m)"
| "LocateKeySlow E key m idx pos (n # rest) =
     check (\<not> IsEmpty n) (rbind (GetKV n) (\<lambda>(k, _).
       if E k key then Inr \<lparr>bucket_id = idx, cur_node = Some pos\<rparr>
       else LocateKeySlow E key m idx (pos + 1) rest))"

definition LocateKey :: "('k \<Rightarrow> 64 word) \<Rightarrow> ('k \<Rightarrow> 'k \<Rightarrow> bool) \<Rightarrow> 'k \<Rightarrow> ('k, 'v) HashMap \<Rightarrow> Cursor result" where
  "LocateKey H E key m =
     (let idx = GetBucket H key m
      in case hm_nodes m ! idx of (inline, chain) \<Rightarrow>
           if IsEmpty inline then Inr (SentinelCursor m)
           else rbind (GetKV inline) (\<lambda>(k, _).
             if E k key then Inr \<lparr>bucket_id = idx, cur_node = Some 0\<rparr>
             else if chain = [] then Inr (SentinelCursor m)
             else LocateKeySlow E key m idx 1 chain))"

definition HM_find :: "('k \<Rightarrow> 64 word) \<Rightarrow> ('k \<Rightarrow> 'k \<Rightarrow> bool) \<Rightarrow> 'k \<Rightarrow> ('k, 'v) HashMap \<Rightarrow> Cursor result" where
  "HM_find H E key m = LocateKey H E key m"

text \<open>Iterators compare their nodes only.\<close>

definition contains :: "('k \<Rightarrow> 64 word) \<Rightarrow> ('k \<Rightarrow> 'k \<Rightarrow> bool) \<Rightarrow> 'k \<Rightarrow> ('k, 'v) HashMap \<Rightarrow> bool result" where
  "contains H E key m = rbind (HM_find H E key m) (\<lambda>c. Inr (cur_node c \<noteq> None))"

fun TryGetSlow :: "('k \<Rightarrow> 'k \<Rightarrow> bool) \<Rightarrow> 'k \<Rightarrow> ('k, 'v) HM_Node list \<Rightarrow> 'v option result" where
  "TryGetSlow E key [] = Inr None"
| "TryGetSlow E key (n # rest) =
     check (\<not> IsEmpty n) (rbind (GetKV n) (\<lambda>(k, v). if E k key then Inr (Some v) else TryGetSlow E key rest))"

definition TryGet :: "('k \<Rightarrow> 64 word) \<Rightarrow> ('k \<Rightarrow> 'k \<Rightarrow> bool) \<Rightarrow> 'k \<Rightarrow> ('k, 'v) HashMap \<Rightarrow> 'v option result" where
  "TryGet H E key m =
     (case hm_nodes m ! GetBucket H key m of (inline, chain) \<Rightarrow>
        if IsEmpty inline then Inr None
        else rbind (GetKV inline) (\<lambda>(k, v). if E k key then Inr (Some v) else TryGetSlow E key chain))"

definition HM_at :: "('k \<Rightarrow> 64 word) \<Rightarrow> ('k \<Rightarrow> 'k \<Rightarrow> bool) \<Rightarrow> 'k \<Rightarrow> ('k, 'v) HashMap \<Rightarrow> 'v result" where
  "HM_at H E key m = rbind (TryGet H E key m) (\<lambda>ptr. case ptr of None \<Rightarrow> Inl Check_failed | Some v \<Rightarrow> Inr v)"

section \<open>Iteration\<close>

text \<open>The search of \<^verbatim>\<open>NextCursor\<close> for a bucket that is not empty, from the given one on.\<close>

fun next_bucket :: "nat \<Rightarrow> ('k, 'v) Bucket list \<Rightarrow> nat option" where
  "next_bucket index [] = None"
| "next_bucket index (e # rest) = (if \<not> IsEmpty (fst e) then Some index else next_bucket (index + 1) rest)"

definition NextCursor :: "('k, 'v) HashMap \<Rightarrow> Cursor \<Rightarrow> bool \<Rightarrow> Cursor result" where
  "NextCursor m cursor initialized =
     (case cur_node cursor of
        Some pos \<Rightarrow>
          (let chain = snd (hm_nodes m ! bucket_id cursor)
           in if initialized \<and> pos < length chain
              then check (\<not> IsEmpty (chain ! pos)) (Inr (cursor\<lparr>cur_node := Some (pos + 1)\<rparr>))
              else (case next_bucket (bucket_id cursor + 1) (drop (bucket_id cursor + 1) (hm_nodes m)) of
                      Some index \<Rightarrow> Inr \<lparr>bucket_id = index, cur_node = Some 0\<rparr>
                    | None \<Rightarrow> Inr (SentinelCursor m)))
      | None \<Rightarrow> Inl Undefined_behaviour)"

definition FirstNonEmptyCursor :: "('k, 'v) HashMap \<Rightarrow> Cursor result" where
  "FirstNonEmptyCursor m =
     (if hm_size m = 0 then Inr (SentinelCursor m)
      else (let cursor = \<lparr>bucket_id = 0, cur_node = Some 0\<rparr>
            in if IsEmpty (fst (hm_nodes m ! 0)) then NextCursor m cursor False else Inr cursor))"

text \<open>
  The entries a range-based \<^verbatim>\<open>for\<close> visits from an iterator on, in their order. The fuel bounds the
  number of entries.
\<close>

fun range_from :: "nat \<Rightarrow> ('k, 'v) HashMap \<Rightarrow> Cursor \<Rightarrow> ('k \<times> 'v) list result" where
  "range_from 0 m cursor = Inl Out_of_fuel"
| "range_from (Suc fuel) m cursor =
     (case cur_node cursor of
        None \<Rightarrow> Inr []
      | Some pos \<Rightarrow> rbind (GetKV (hm_node_at (bucket_id cursor) pos m)) (\<lambda>kv.
          rbind (NextCursor m cursor True) (\<lambda>cursor.
          rbind (range_from fuel m cursor) (\<lambda>kvs. Inr (kv # kvs)))))"

definition range_entries :: "('k, 'v) HashMap \<Rightarrow> ('k \<times> 'v) list result" where
  "range_entries m = rbind (FirstNonEmptyCursor m) (range_from (hm_size m + 1) m)"

section \<open>Insertion\<close>

text \<open>
  \<^verbatim>\<open>Rehash\<close> inserts into a map of its own, which inserts as this one does. The insertion it uses is an
  argument here.
\<close>

type_synonym ('k, 'v) inserter = "'k \<Rightarrow> 'v \<Rightarrow> ('k, 'v) HashMap \<Rightarrow> (Cursor \<times> ('k, 'v) HashMap) result"

fun insert_all :: "('k, 'v) inserter \<Rightarrow> ('k \<times> 'v) list \<Rightarrow> ('k, 'v) HashMap \<Rightarrow> ('k, 'v) HashMap result" where
  "insert_all ins [] m = Inr m"
| "insert_all ins ((k, v) # kvs) m = rbind (ins k v m) (\<lambda>(_, m). insert_all ins kvs m)"

definition Rehash :: "('k, 'v) inserter \<Rightarrow> ('k, 'v) HashMap \<Rightarrow> ('k, 'v) HashMap result" where
  "Rehash ins m =
     rbind (HM_new (hm_capacity m * 2)) (\<lambda>doubled.
     rbind (range_entries m) (\<lambda>kvs.
     rbind (insert_all ins kvs doubled) (\<lambda>doubled.
       check (hm_size doubled = hm_size m) (Inr doubled))))"

definition RehashIfNecessary :: "('k, 'v) inserter \<Rightarrow> ('k, 'v) HashMap \<Rightarrow> ('k, 'v) HashMap result" where
  "RehashIfNecessary ins m = (if hm_size m \<ge> hm_rehash_threshold m then Rehash ins m else Inr m)"

text \<open>A new node, still empty, at the end of the chain of a bucket.\<close>

definition new_node :: "nat \<Rightarrow> ('k, 'v) HashMap \<Rightarrow> Cursor \<times> ('k, 'v) HashMap" where
  "new_node idx m =
     (case hm_nodes m ! idx of (inline, chain) \<Rightarrow>
        (\<lparr>bucket_id = idx, cur_node = Some (length chain + 1)\<rparr>,
         m\<lparr>hm_nodes := (hm_nodes m)[idx := (inline, chain @ [None])], hm_size := hm_size m + 1\<rparr>))"

text \<open>The loop of \<^verbatim>\<open>CreateOrLocateKeySlow\<close> at the node at \<open>pos\<close>, with those behind it.\<close>

fun CreateOrLocateKeySlow ::
  "('k \<Rightarrow> 'k \<Rightarrow> bool) \<Rightarrow> 'k \<Rightarrow> nat \<Rightarrow> nat \<Rightarrow> ('k, 'v) HM_Node \<Rightarrow> ('k, 'v) HM_Node list \<Rightarrow> ('k, 'v) HashMap \<Rightarrow>
   (Cursor \<times> ('k, 'v) HashMap) result" where
  "CreateOrLocateKeySlow E key idx pos n [] m =
     check (\<not> IsEmpty n) (rbind (GetKV n) (\<lambda>(k, _).
       if E k key then Inr (\<lparr>bucket_id = idx, cur_node = Some pos\<rparr>, m) else Inr (new_node idx m)))"
| "CreateOrLocateKeySlow E key idx pos n (n' # rest) m =
     check (\<not> IsEmpty n) (rbind (GetKV n) (\<lambda>(k, _).
       if E k key then Inr (\<lparr>bucket_id = idx, cur_node = Some pos\<rparr>, m)
       else CreateOrLocateKeySlow E key idx (pos + 1) n' rest m))"

definition CreateOrLocateKey ::
  "('k, 'v) inserter \<Rightarrow> ('k \<Rightarrow> 64 word) \<Rightarrow> ('k \<Rightarrow> 'k \<Rightarrow> bool) \<Rightarrow> 'k \<Rightarrow> ('k, 'v) HashMap \<Rightarrow> (Cursor \<times> ('k, 'v) HashMap) result" where
  "CreateOrLocateKey ins H E key m =
     rbind (RehashIfNecessary ins m) (\<lambda>m.
       let idx = GetBucket H key m
       in case hm_nodes m ! idx of (inline, chain) \<Rightarrow>
            if IsEmpty inline then Inr (\<lparr>bucket_id = idx, cur_node = Some 0\<rparr>, m\<lparr>hm_size := hm_size m + 1\<rparr>)
            else rbind (GetKV inline) (\<lambda>(k, _).
              if E k key then Inr (\<lparr>bucket_id = idx, cur_node = Some 0\<rparr>, m)
              else if chain = [] then Inr (new_node idx m)
              else CreateOrLocateKeySlow E key idx 0 inline chain m))"

definition insert_or_assign_with ::
  "('k, 'v) inserter \<Rightarrow> ('k \<Rightarrow> 64 word) \<Rightarrow> ('k \<Rightarrow> 'k \<Rightarrow> bool) \<Rightarrow> ('k, 'v) inserter" where
  "insert_or_assign_with ins H E key v m =
     rbind (CreateOrLocateKey ins H E key m) (\<lambda>(c, m).
       case cur_node c of
         None \<Rightarrow> Inl Undefined_behaviour
       | Some pos \<Rightarrow>
           (let n = hm_node_at (bucket_id c) pos m
            in if \<not> IsEmpty n
               then rbind (GetKV n) (\<lambda>(k, _). Inr (c, set_node (bucket_id c) pos (Some (k, v)) m))
               else rbind (Accept key v n) (\<lambda>n.
                 let m = set_node (bucket_id c) pos n m
                 in dcheck (GetBucket H key m = bucket_id c) (Inr (c, m)))))"

text \<open>
  The map that \<^verbatim>\<open>Rehash\<close> fills has room for what it gets and does not rehash itself, so that one level
  is enough.
\<close>

primrec insert_or_assign_fuel :: "nat \<Rightarrow> ('k \<Rightarrow> 64 word) \<Rightarrow> ('k \<Rightarrow> 'k \<Rightarrow> bool) \<Rightarrow> ('k, 'v) inserter" where
  "insert_or_assign_fuel 0 H E = insert_or_assign_with (\<lambda>_ _ _. Inl Out_of_fuel) H E"
| "insert_or_assign_fuel (Suc fuel) H E = insert_or_assign_with (insert_or_assign_fuel fuel H E) H E"

definition insert_or_assign :: "('k \<Rightarrow> 64 word) \<Rightarrow> ('k \<Rightarrow> 'k \<Rightarrow> bool) \<Rightarrow> ('k, 'v) inserter" where
  "insert_or_assign H E = insert_or_assign_fuel 1 H E"

text \<open>
  \<^verbatim>\<open>operator[]\<close>, with the value a new entry gets. The reference it returns is the location of the value;
  reading and assigning through it are operations of their own.
\<close>

definition HM_index :: "('k \<Rightarrow> 64 word) \<Rightarrow> ('k \<Rightarrow> 'k \<Rightarrow> bool) \<Rightarrow> 'v \<Rightarrow> 'k \<Rightarrow> ('k, 'v) HashMap \<Rightarrow> (Cursor \<times> ('k, 'v) HashMap) result" where
  "HM_index H E dflt key m =
     rbind (CreateOrLocateKey (insert_or_assign_fuel 0 H E) H E key m) (\<lambda>(c, m).
       case cur_node c of
         None \<Rightarrow> Inl Undefined_behaviour
       | Some pos \<Rightarrow>
           (let n = hm_node_at (bucket_id c) pos m
            in if IsEmpty n
               then rbind (Accept key dflt n) (\<lambda>n.
                 let m = set_node (bucket_id c) pos n m
                 in dcheck (GetBucket H key m = bucket_id c) (Inr (c, m)))
               else Inr (c, m)))"

definition HM_value :: "Cursor \<Rightarrow> ('k, 'v) HashMap \<Rightarrow> 'v result" where
  "HM_value c m =
     (case cur_node c of
        None \<Rightarrow> Inl Undefined_behaviour
      | Some pos \<Rightarrow> rbind (GetKV (hm_node_at (bucket_id c) pos m)) (\<lambda>(_, v). Inr v))"

definition HM_store :: "Cursor \<Rightarrow> 'v \<Rightarrow> ('k, 'v) HashMap \<Rightarrow> ('k, 'v) HashMap result" where
  "HM_store c v m =
     (case cur_node c of
        None \<Rightarrow> Inl Undefined_behaviour
      | Some pos \<Rightarrow> rbind (GetKV (hm_node_at (bucket_id c) pos m)) (\<lambda>(k, _). Inr (set_node (bucket_id c) pos (Some (k, v)) m)))"

definition MergeFrom :: "('k \<Rightarrow> 64 word) \<Rightarrow> ('k \<Rightarrow> 'k \<Rightarrow> bool) \<Rightarrow> ('k, 'v) HashMap \<Rightarrow> ('k, 'v) HashMap \<Rightarrow> ('k, 'v) HashMap result" where
  "MergeFrom H E other m = rbind (range_entries other) (\<lambda>kvs. insert_all (insert_or_assign H E) kvs m)"

section \<open>Removal\<close>

text \<open>
  The erasure of what an iterator points to. In the returned iterator the position is that in the
  map that is left: the node behind an erased one takes its place.
\<close>

definition erase_at :: "('k \<Rightarrow> 64 word) \<Rightarrow> Cursor \<Rightarrow> ('k, 'v) HashMap \<Rightarrow> (Cursor \<times> ('k, 'v) HashMap) result" where
  "erase_at H cursor m =
     (case (hm_nodes m ! bucket_id cursor, cur_node cursor) of
        (_, None) \<Rightarrow> Inl Undefined_behaviour
      | ((inline, chain), Some 0) \<Rightarrow>
          rbind (if chain = [] then NextCursor m cursor True else Inr cursor) (\<lambda>pos.
          rbind (GetKV inline) (\<lambda>_.
            (case chain of
               [] \<Rightarrow> Inr (pos, m\<lparr>hm_nodes := (hm_nodes m)[bucket_id cursor := (None, [])], hm_size := hm_size m - 1\<rparr>)
             | next # rest \<Rightarrow>
                 rbind (GetKV next) (\<lambda>(k, v).
                 rbind (Accept k v None) (\<lambda>n.
                   dcheck (GetBucket H k m = bucket_id cursor)
                     (Inr (pos, m\<lparr>hm_nodes := (hm_nodes m)[bucket_id cursor := (n, rest)], hm_size := hm_size m - 1\<rparr>)))))))
      | ((inline, chain), Some (Suc i)) \<Rightarrow>
          check (i < length chain \<and> (\<forall>n \<in> set (take i chain). \<not> IsEmpty n))
            (rbind (NextCursor m cursor True) (\<lambda>pos.
             rbind (GetKV (chain ! i)) (\<lambda>_.
               Inr (if bucket_id pos = bucket_id cursor then cursor else pos,
                    m\<lparr>hm_nodes := (hm_nodes m)[bucket_id cursor := (inline, take i chain @ drop (i + 1) chain)],
                      hm_size := hm_size m - 1\<rparr>)))))"

definition HM_erase :: "('k \<Rightarrow> 64 word) \<Rightarrow> ('k \<Rightarrow> 'k \<Rightarrow> bool) \<Rightarrow> 'k \<Rightarrow> ('k, 'v) HashMap \<Rightarrow> (nat \<times> ('k, 'v) HashMap) result" where
  "HM_erase H E key m =
     rbind (HM_find H E key m) (\<lambda>iter.
       if cur_node iter \<noteq> None then rbind (erase_at H iter m) (\<lambda>(_, m). Inr (1, m)) else Inr (0, m))"

text \<open>\<^verbatim>\<open>clear\<close>: the nodes of every bucket are destroyed; an empty node in a chain fails a check.\<close>

definition clear_bucket :: "('k, 'v) Bucket \<Rightarrow> ('k, 'v) Bucket result" where
  "clear_bucket b = (case b of (inline, chain) \<Rightarrow>
     if IsEmpty inline then Inr b else check (\<forall>n \<in> set chain. \<not> IsEmpty n) (Inr (None, [])))"

fun clear_loop :: "('k, 'v) Bucket list \<Rightarrow> ('k, 'v) Bucket list result" where
  "clear_loop [] = Inr []"
| "clear_loop (b # bs) = rbind (clear_bucket b) (\<lambda>b. rbind (clear_loop bs) (\<lambda>bs. Inr (b # bs)))"

definition HM_clear :: "('k, 'v) HashMap \<Rightarrow> ('k, 'v) HashMap result" where
  "HM_clear m = (if hm_size m = 0 then Inr m else rbind (clear_loop (hm_nodes m)) (\<lambda>ns. Inr (m\<lparr>hm_nodes := ns, hm_size := 0\<rparr>)))"

definition HM_copy :: "('k \<Rightarrow> 64 word) \<Rightarrow> ('k \<Rightarrow> 'k \<Rightarrow> bool) \<Rightarrow> ('k, 'v) HashMap \<Rightarrow> ('k, 'v) HashMap result" where
  "HM_copy H E other = rbind (HM_new 16) (MergeFrom H E other)"

definition HM_assign :: "('k \<Rightarrow> 64 word) \<Rightarrow> ('k \<Rightarrow> 'k \<Rightarrow> bool) \<Rightarrow> ('k, 'v) HashMap \<Rightarrow> ('k, 'v) HashMap \<Rightarrow> ('k, 'v) HashMap result" where
  "HM_assign H E other m = rbind (HM_clear m) (MergeFrom H E other)"

definition HM_swap :: "('k, 'v) HashMap \<Rightarrow> ('k, 'v) HashMap \<Rightarrow> ('k, 'v) HashMap \<times> ('k, 'v) HashMap" where
  "HM_swap m other = (other, m)"

text \<open>Moving from a map: the new one, and what is left of the old one.\<close>

definition HM_move :: "('k, 'v) HashMap \<Rightarrow> (('k, 'v) HashMap \<times> ('k, 'v) HashMap) result" where
  "HM_move other = rbind (HM_new 16) (\<lambda>m. Inr (HM_swap m other))"

definition HM_move_assign :: "('k, 'v) HashMap \<Rightarrow> ('k, 'v) HashMap \<Rightarrow> (('k, 'v) HashMap \<times> ('k, 'v) HashMap) result" where
  "HM_move_assign other m = rbind (HM_clear m) (\<lambda>m. Inr (HM_swap m other))"

definition HM_of_list :: "('k \<Rightarrow> 64 word) \<Rightarrow> ('k \<Rightarrow> 'k \<Rightarrow> bool) \<Rightarrow> ('k \<times> 'v) list \<Rightarrow> ('k, 'v) HashMap result" where
  "HM_of_list H E init = rbind (HM_new 16) (insert_all (insert_or_assign H E) init)"

section \<open>The invariant and the map it stands for\<close>

fun bucket_entries :: "('k, 'v) Bucket \<Rightarrow> ('k \<times> 'v) list" where
  "bucket_entries (None, chain) = []"
| "bucket_entries (Some kv, chain) = kv # map the chain"

fun mk_bucket :: "('k \<times> 'v) list \<Rightarrow> ('k, 'v) Bucket" where
  "mk_bucket [] = (None, [])"
| "mk_bucket (kv # kvs) = (Some kv, map Some kvs)"

text \<open>Only the array node of an empty bucket is empty.\<close>

definition bucket_ok :: "('k, 'v) Bucket \<Rightarrow> bool" where
  "bucket_ok b \<longleftrightarrow> (\<exists>kvs. b = mk_bucket kvs)"

lemma bucket_entries_mk [simp]: "bucket_entries (mk_bucket kvs) = kvs"
  by (cases kvs) (auto simp: comp_def)

lemma bucket_ok_mk [simp]: "bucket_ok (mk_bucket kvs)"
  by (auto simp: bucket_ok_def)

lemma bucket_ok_empty: "bucket_ok b \<Longrightarrow> IsEmpty (fst b) \<longleftrightarrow> bucket_entries b = []"
  by (cases b rule: bucket_entries.cases) (auto simp: IsEmpty_def)

definition hm_entries :: "('k, 'v) HashMap \<Rightarrow> ('k \<times> 'v) list" where
  "hm_entries m = concat (map bucket_entries (hm_nodes m))"

abbreviation hm_bucket :: "('k, 'v) HashMap \<Rightarrow> nat \<Rightarrow> ('k \<times> 'v) list" where
  "hm_bucket m i \<equiv> bucket_entries (hm_nodes m ! i)"

text \<open>
  Keys are told apart by a canonical form \<open>c\<close>: two keys are equal for the map if their forms are. The
  map sends such a form to the key it was first inserted with and to the value.
\<close>

definition keyed :: "('k \<Rightarrow> 'c) \<Rightarrow> ('k \<times> 'v) list \<Rightarrow> ('c \<times> 'k \<times> 'v) list" where
  "keyed c kvs = map (\<lambda>kv. (c (fst kv), kv)) kvs"

lemma keyed_simps [simp]: "keyed c [] = []" "keyed c (kv # kvs) = (c (fst kv), kv) # keyed c kvs" "keyed c (kvs @ kvs') = keyed c kvs @ keyed c kvs'"
  "map fst (keyed c kvs) = map (c \<circ> fst) kvs" "(x, kv) \<in> set (keyed c kvs) \<longleftrightarrow> kv \<in> set kvs \<and> x = c (fst kv)"
  by (auto simp: keyed_def)

lemma fst_keyed: "fst ` set (keyed c kvs) = (c \<circ> fst) ` set kvs"
  by (simp add: keyed_def image_image)

lemma map_of_keyed: "distinct (map (c \<circ> fst) kvs) \<Longrightarrow> map_of (keyed c kvs) x = Some kv \<longleftrightarrow> kv \<in> set kvs \<and> x = c (fst kv)"
  by (subst map_of_eq_Some_iff) auto

definition hm_map :: "('k \<Rightarrow> 'c) \<Rightarrow> ('k, 'v) HashMap \<Rightarrow> 'c \<rightharpoonup> 'k \<times> 'v" where
  "hm_map c m = map_of (keyed c (hm_entries m))"

definition hm_shape :: "('k, 'v) HashMap \<Rightarrow> bool" where
  "hm_shape m \<longleftrightarrow> (\<exists>k. 2 \<le> k \<and> k < 64 \<and> hm_capacity m = 2 ^ k) \<and> hm_mask m = of_nat (hm_capacity m - 1) \<and>
     hm_rehash_threshold m = hm_capacity m * 3 div 4 \<and> length (hm_nodes m) = hm_capacity m \<and>
     hm_size m = length (hm_entries m) \<and> hm_size m \<le> hm_rehash_threshold m"

definition hm_inv :: "('k \<Rightarrow> 64 word) \<Rightarrow> ('k \<Rightarrow> 'c) \<Rightarrow> ('k, 'v) HashMap \<Rightarrow> bool" where
  "hm_inv H c m \<longleftrightarrow> hm_shape m \<and>
     (\<forall>i < hm_capacity m. bucket_ok (hm_nodes m ! i) \<and> distinct (map (c \<circ> fst) (hm_bucket m i)) \<and>
        (\<forall>k \<in> fst ` set (hm_bucket m i). GetBucket H k m = i))"

text \<open>A location of a key.\<close>

definition hm_points :: "('k \<Rightarrow> 'c) \<Rightarrow> ('k, 'v) HashMap \<Rightarrow> Cursor \<Rightarrow> 'k \<Rightarrow> bool" where
  "hm_points c m cur key \<longleftrightarrow> (\<exists>i pos. cur = \<lparr>bucket_id = i, cur_node = Some pos\<rparr> \<and> i < hm_capacity m \<and> pos < length (hm_bucket m i) \<and>
     c (fst (hm_bucket m i ! pos)) = c key)"

text \<open>What an insertion does to the map.\<close>

definition map_insert :: "('k \<Rightarrow> 'c) \<Rightarrow> 'k \<Rightarrow> 'v \<Rightarrow> ('c \<rightharpoonup> 'k \<times> 'v) \<Rightarrow> ('c \<rightharpoonup> 'k \<times> 'v)" where
  "map_insert c key v M = M(c key \<mapsto> (case M (c key) of None \<Rightarrow> key | Some (k, _) \<Rightarrow> k, v))"

section \<open>Rounding up to a power of two\<close>

lemma bit_smear:
  fixes v w :: "64 word"
  assumes "\<And>n. bit w n \<longleftrightarrow> (\<exists>j < d. bit v (n + j))"
  shows "bit (w OR drop_bit d w) n \<longleftrightarrow> (\<exists>j < d + d. bit v (n + j))"
proof
  assume "bit (w OR drop_bit d w) n"
  then consider "bit w n" | "bit w (d + n)" by (auto simp: bit_or_iff bit_drop_bit_eq)
  then show "\<exists>j < d + d. bit v (n + j)"
  proof cases
    case 1
    then show ?thesis using assms trans_less_add1 by blast
  next
    case 2
    then obtain j where "j < d" "bit v (n + (d + j))" using assms by (auto simp: ac_simps)
    then show ?thesis by (intro exI [of _ "d + j"]) simp
  qed
next
  assume "\<exists>j < d + d. bit v (n + j)"
  then obtain j where j: "j < d + d" "bit v (n + j)" by blast
  have "bit w n \<or> bit w (d + n)"
  proof (cases "j < d")
    case True
    then show ?thesis using j assms by blast
  next
    case False
    then have "j - d < d" "n + j = d + n + (j - d)" using j by auto
    then show ?thesis using j assms by metis
  qed
  then show "bit (w OR drop_bit d w) n" by (auto simp: bit_or_iff bit_drop_bit_eq)
qed

lemma unat_pow2: "k < 64 \<Longrightarrow> unat (2 ^ k :: 64 word) = 2 ^ k"
proof -
  assume "k < 64"
  then have "(2 :: nat) ^ k < 2 ^ 64" by (intro power_strict_increasing) auto
  moreover have "unat (of_nat (2 ^ k) :: 64 word) = 2 ^ k mod 2 ^ LENGTH(64)" by (rule unat_of_nat)
  ultimately show ?thesis by simp
qed

lemma NextPowerOfTwo_eq:
  assumes k: "k < 64" and v: "0 < unat v" "unat v \<le> 2 ^ k" "k = 0 \<or> 2 ^ (k - 1) < unat v"
  shows "unat (NextPowerOfTwo v) = 2 ^ k"
proof -
  define v0 where "v0 = v - 1"
  define v1 where "v1 = v0 OR drop_bit 1 v0"
  define v2 where "v2 = v1 OR drop_bit 2 v1"
  define v3 where "v3 = v2 OR drop_bit 4 v2"
  define v4 where "v4 = v3 OR drop_bit 8 v3"
  define v5 where "v5 = v4 OR drop_bit 16 v4"
  define v6 where "v6 = v5 OR drop_bit 32 v5"
  have n: "NextPowerOfTwo v = v6 + 1"
    by (simp add: NextPowerOfTwo_def Let_def v0_def v1_def v2_def v3_def v4_def v5_def v6_def)
  have b0: "bit v0 n \<longleftrightarrow> (\<exists>j < 1. bit v0 (n + j))" for n by simp
  have b1: "bit v1 n \<longleftrightarrow> (\<exists>j < 2. bit v0 (n + j))" for n using bit_smear [of v0 1 v0, OF b0] by (simp add: v1_def numeral_2_eq_2)
  have b2: "bit v2 n \<longleftrightarrow> (\<exists>j < 4. bit v0 (n + j))" for n using bit_smear [of v1 2 v0, OF b1] by (simp add: v2_def)
  have b3: "bit v3 n \<longleftrightarrow> (\<exists>j < 8. bit v0 (n + j))" for n using bit_smear [of v2 4 v0, OF b2] by (simp add: v3_def)
  have b4: "bit v4 n \<longleftrightarrow> (\<exists>j < 16. bit v0 (n + j))" for n using bit_smear [of v3 8 v0, OF b3] by (simp add: v4_def)
  have b5: "bit v5 n \<longleftrightarrow> (\<exists>j < 32. bit v0 (n + j))" for n using bit_smear [of v4 16 v0, OF b4] by (simp add: v5_def)
  have b6: "bit v6 n \<longleftrightarrow> (\<exists>j < 64. bit v0 (n + j))" for n using bit_smear [of v5 32 v0, OF b5] by (simp add: v6_def)
  have u0: "unat v0 = unat v - 1" using v(1) by (simp add: v0_def unat_minus_one unat_gt_0)
  have hi: "\<not> bit v0 n" if "n \<ge> k" for n
  proof -
    have "unat v0 < 2 ^ n" using u0 v(1,2) power_increasing [OF that, of "2 :: nat"] by linarith
    then have "\<not> bit (unat v0) n" by (simp add: bit_iff_odd)
    then show ?thesis by (simp add: bit_unsigned_iff)
  qed
  have lo: "bit v0 (k - 1)" if "k \<noteq> 0"
  proof -
    have "2 ^ (k - 1) \<le> unat v0" "unat v0 < 2 * 2 ^ (k - 1)" using u0 v that by (auto simp: power_eq_if)
    then have "unat v0 div 2 ^ (k - 1) = 1" by (simp add: div_nat_eqI)
    then have "bit (unat v0) (k - 1)" by (simp add: bit_iff_odd)
    then show ?thesis by (simp add: bit_unsigned_iff)
  qed
  have "v6 = mask k"
  proof (rule bit_word_eqI)
    fix n assume "n < LENGTH(64)"
    show "bit v6 n = bit (mask k :: 64 word) n"
    proof (cases "n < k")
      case True
      then have "bit v0 (n + (k - 1 - n))" "k - 1 - n < 64" using lo k by auto
      then show ?thesis using True k b6 by (auto simp: bit_mask_iff)
    next
      case False
      then show ?thesis using b6 hi by (auto simp: bit_mask_iff)
    qed
  qed
  then have "NextPowerOfTwo v = 2 ^ k" unfolding n by (simp add: mask_eq_decr_exp)
  then show ?thesis using unat_pow2 [OF k] by simp
qed

lemma next_power_exists:
  fixes n :: nat
  assumes "0 < n" "n \<le> 2 ^ 62"
  shows "\<exists>k \<le> 62. n \<le> 2 ^ k \<and> (k = 0 \<or> 2 ^ (k - 1) < n)"
proof -
  define P where "P k \<longleftrightarrow> n \<le> 2 ^ k" for k :: nat
  define k where "k = (LEAST k. P k)"
  have P62: "P 62" using assms(2) by (simp add: P_def)
  have "P k" unfolding k_def using P62 by (rule LeastI)
  moreover have "k \<le> 62" unfolding k_def using P62 by (rule Least_le)
  moreover have "\<not> P (k - 1)" if "k \<noteq> 0"
    unfolding k_def by (rule not_less_Least) (use that in \<open>simp add: k_def [symmetric]\<close>)
  ultimately show ?thesis by (intro exI [of _ k]) (cases "k = 0", simp_all add: P_def)
qed

lemma NextPowerOfTwo_pow2:
  assumes "2 \<le> k" "k < 64"
  shows "unat (NextPowerOfTwo (of_nat (2 ^ k))) = 2 ^ k"
proof -
  have u: "unat (of_nat (2 ^ k) :: 64 word) = 2 ^ k" using unat_pow2 [OF assms(2)] by simp
  show ?thesis by (rule NextPowerOfTwo_eq [OF assms(2)]) (use assms(1) in \<open>simp_all only: u, simp_all\<close>)
qed

lemma HM_new_pow2:
  assumes "2 \<le> k" "k < 64"
  shows "HM_new (2 ^ k) = Inr (\<lparr>hm_nodes = replicate (2 ^ k) (None, []), hm_capacity = 2 ^ k, hm_mask = of_nat (2 ^ k - 1),
    hm_rehash_threshold = 2 ^ k * 3 div 4, hm_size = 0\<rparr> :: ('k, 'v) HashMap)"
proof -
  have "unat (NextPowerOfTwo (of_nat (2 ^ k))) = 2 ^ k" by (rule NextPowerOfTwo_pow2 [OF assms])
  moreover have "(2 ^ k :: nat) AND (2 ^ k - 1) = 0"
    unfolding mask_eq_exp_minus_1 [symmetric] take_bit_eq_mask [symmetric] by simp
  moreover have "(4 :: nat) \<le> 2 ^ k" using power_increasing [OF assms(1), of "2 :: nat"] by simp
  ultimately show ?thesis by (simp add: HM_new_def InitializeFor_def)
qed

text \<open>A capacity is rounded up to the next power of two, and refused if that is below 4.\<close>

lemma HM_new_round:
  assumes "2 < n" "n \<le> 2 ^ 62"
  shows "\<exists>k. 2 \<le> k \<and> k < 64 \<and> HM_new n = (HM_new (2 ^ k) :: ('k, 'v) HashMap result)"
proof -
  obtain k where k: "k \<le> 62" "n \<le> 2 ^ k" "k = 0 \<or> 2 ^ (k - 1) < n" using next_power_exists [of n] assms by auto
  have k2: "2 \<le> k"
  proof (rule ccontr)
    assume "\<not> 2 \<le> k"
    then have "k = 0 \<or> k = 1" by auto
    then show False using k(2) assms(1) by auto
  qed
  have un: "unat (of_nat n :: 64 word) = n"
  proof -
    have "n < 2 ^ 64" using assms(2) by (rule le_less_trans) simp
    moreover have "unat (of_nat n :: 64 word) = n mod 2 ^ LENGTH(64)" by (rule unat_of_nat)
    ultimately show ?thesis by simp
  qed
  have k64: "k < 64" using k(1) by simp
  have "unat (NextPowerOfTwo (of_nat n)) = 2 ^ k" by (rule NextPowerOfTwo_eq [OF k64]) (use k assms(1) in \<open>simp_all add: un\<close>)
  then have "HM_new n = (HM_new (2 ^ k) :: ('k, 'v) HashMap result)" unfolding HM_new_def NextPowerOfTwo_pow2 [OF k2 k64] by (rule arg_cong)
  then show ?thesis using k64 k2 by blast
qed

section \<open>Searching a bucket\<close>

fun key_pos :: "('k \<Rightarrow> 'k \<Rightarrow> bool) \<Rightarrow> 'k \<Rightarrow> ('k \<times> 'v) list \<Rightarrow> nat option" where
  "key_pos E key [] = None"
| "key_pos E key (kv # kvs) = (if E (fst kv) key then Some 0 else map_option Suc (key_pos E key kvs))"

lemma key_pos_SomeD: "key_pos E key kvs = Some i \<Longrightarrow> i < length kvs \<and> E (fst (kvs ! i)) key"
  by (induction kvs arbitrary: i) (auto split: if_splits)

lemma key_pos_NoneD: "key_pos E key kvs = None \<Longrightarrow> kv \<in> set kvs \<Longrightarrow> \<not> E (fst kv) key"
  by (induction kvs) (auto split: if_splits)

lemmas node_defs = IsEmpty_def GetKV_def Accept_def

lemma LocateKeySlow_eq:
  "LocateKeySlow E key m idx pos (map Some kvs) =
     Inr (case key_pos E key kvs of None \<Rightarrow> SentinelCursor m | Some i \<Rightarrow> \<lparr>bucket_id = idx, cur_node = Some (pos + i)\<rparr>)"
  by (induction kvs arbitrary: pos) (auto simp: node_defs split: option.splits prod.splits)

lemma LocateKey_eq:
  assumes "bucket_ok (hm_nodes m ! GetBucket H key m)"
  shows "LocateKey H E key m = Inr (case key_pos E key (hm_bucket m (GetBucket H key m)) of
     None \<Rightarrow> SentinelCursor m | Some i \<Rightarrow> \<lparr>bucket_id = GetBucket H key m, cur_node = Some i\<rparr>)"
proof -
  obtain kvs where b: "hm_nodes m ! GetBucket H key m = mk_bucket kvs" using assms by (auto simp: bucket_ok_def)
  show ?thesis unfolding LocateKey_def b
    by (cases kvs) (auto simp: b Let_def node_defs LocateKeySlow_eq split: option.splits)
qed

lemma TryGetSlow_eq: "TryGetSlow E key (map Some kvs) = Inr (map_option (\<lambda>i. snd (kvs ! i)) (key_pos E key kvs))"
  by (induction kvs) (auto simp: node_defs option.map_comp comp_def split: prod.splits)

lemma TryGet_eq:
  assumes "bucket_ok (hm_nodes m ! GetBucket H key m)"
  shows "TryGet H E key m = Inr (let kvs = hm_bucket m (GetBucket H key m) in map_option (\<lambda>i. snd (kvs ! i)) (key_pos E key kvs))"
proof -
  obtain kvs where b: "hm_nodes m ! GetBucket H key m = mk_bucket kvs" using assms by (auto simp: bucket_ok_def)
  show ?thesis unfolding TryGet_def b
    by (cases kvs) (auto simp: Let_def node_defs TryGetSlow_eq option.map_comp comp_def split: option.splits prod.splits)
qed

lemma CreateOrLocateKeySlow_eq:
  "CreateOrLocateKeySlow E key idx pos (Some kv) (map Some kvs) m =
     Inr (case key_pos E key (kv # kvs) of None \<Rightarrow> new_node idx m | Some i \<Rightarrow> (\<lparr>bucket_id = idx, cur_node = Some (pos + i)\<rparr>, m))"
  by (induction kvs arbitrary: pos kv) (auto simp: node_defs split: option.splits prod.splits)

text \<open>Nodes by their positions.\<close>

lemma node_at_mk: "hm_nodes m ! idx = mk_bucket kvs \<Longrightarrow> i < length kvs \<Longrightarrow> hm_node_at idx i m = Some (kvs ! i)"
  by (cases kvs) (auto simp: hm_node_at_def split: nat.splits)

lemma set_node_mk:
  "hm_nodes m ! idx = mk_bucket kvs \<Longrightarrow> i < length kvs \<Longrightarrow>
   set_node idx i (Some kv) m = m\<lparr>hm_nodes := (hm_nodes m)[idx := mk_bucket (kvs[i := kv])]\<rparr>"
  by (cases kvs) (auto simp: set_node_def map_update split: nat.splits)

section \<open>Buckets and entries\<close>

lemma set_hm_entries: "kv \<in> set (hm_entries m) \<longleftrightarrow> (\<exists>i < length (hm_nodes m). kv \<in> set (hm_bucket m i))"
proof -
  have "kv \<in> set (hm_entries m) \<longleftrightarrow> (\<exists>b \<in> set (hm_nodes m). kv \<in> set (bucket_entries b))" by (simp add: hm_entries_def)
  then show ?thesis by (metis in_set_conv_nth)
qed

lemma length_concat_update:
  "i < length bs \<Longrightarrow> length (concat (map f (bs[i := b]))) + length (f (bs ! i)) = length (concat (map f bs)) + length (f b)"
proof (induction bs arbitrary: i)
  case (Cons x bs)
  then show ?case by (cases i) auto
qed simp

lemma option_eqI: "(\<And>y. a = Some y \<longleftrightarrow> b = Some y) \<Longrightarrow> a = b"
  by (cases a; cases b) auto

lemma distinct_concat_nth:
  "(\<And>i. i < length bs \<Longrightarrow> distinct (f (bs ! i))) \<Longrightarrow>
   (\<And>i j. i < length bs \<Longrightarrow> j < length bs \<Longrightarrow> i \<noteq> j \<Longrightarrow> set (f (bs ! i)) \<inter> set (f (bs ! j)) = {}) \<Longrightarrow>
   distinct (concat (map f bs))"
proof (induction bs)
  case (Cons b bs)
  have "distinct (concat (map f bs))"
  proof (rule Cons.IH)
    show "distinct (f (bs ! i))" if "i < length bs" for i using Cons.prems(1) [of "Suc i"] that by simp
    show "set (f (bs ! i)) \<inter> set (f (bs ! j)) = {}" if "i < length bs" "j < length bs" "i \<noteq> j" for i j
      using Cons.prems(2) [of "Suc i" "Suc j"] that by simp
  qed
  moreover have "set (f b) \<inter> set (f (bs ! j)) = {}" if "j < length bs" for j using Cons.prems(2) [of 0 "Suc j"] that by simp
  then have "set (f b) \<inter> (\<Union>x \<in> set bs. set (f x)) = {}" by (auto simp: set_conv_nth [of bs])
  ultimately show ?case using Cons.prems(1) [of 0] by auto
qed simp

lemma GetBucket_less: "hm_shape m \<Longrightarrow> GetBucket H key m < hm_capacity m"
proof -
  assume s: "hm_shape m"
  then obtain k where k: "k < 64" "hm_capacity m = 2 ^ k" by (auto simp: hm_shape_def)
  have "H key AND hm_mask m \<le> hm_mask m" by (rule word_and_le1)
  then have "unat (H key AND hm_mask m) \<le> unat (hm_mask m)" by (simp add: word_le_nat_alt)
  also have "unat (hm_mask m) \<le> hm_capacity m - 1" using s by (simp add: hm_shape_def unat_of_nat del: of_nat_diff)
  finally show ?thesis using k zero_less_power [of "2 :: nat" k] unfolding GetBucket_def by linarith
qed

section \<open>Iteration\<close>

definition rest_entries :: "('k, 'v) HashMap \<Rightarrow> nat \<Rightarrow> ('k \<times> 'v) list" where
  "rest_entries m i = concat (map bucket_entries (drop i (hm_nodes m)))"

lemma next_bucket_None: "\<forall>b \<in> set bs. bucket_ok b \<Longrightarrow> next_bucket j bs = None \<Longrightarrow> concat (map bucket_entries bs) = []"
  by (induction bs arbitrary: j) (auto simp: bucket_ok_empty split: if_splits)

lemma next_bucket_Some:
  "\<forall>b \<in> set bs. bucket_ok b \<Longrightarrow> next_bucket j bs = Some i \<Longrightarrow>
   \<exists>n < length bs. i = j + n \<and> bucket_entries (bs ! n) \<noteq> [] \<and>
     concat (map bucket_entries bs) = bucket_entries (bs ! n) @ concat (map bucket_entries (drop (n + 1) bs))"
proof (induction bs arbitrary: j)
  case (Cons b bs)
  show ?case
  proof (cases "IsEmpty (fst b)")
    case True
    then have "bucket_entries b = []" using Cons.prems(1) by (simp add: bucket_ok_empty)
    moreover obtain n where "n < length bs" "i = j + 1 + n" "bucket_entries (bs ! n) \<noteq> []"
      "concat (map bucket_entries bs) = bucket_entries (bs ! n) @ concat (map bucket_entries (drop (n + 1) bs))"
      using Cons.IH [of "j + 1"] Cons.prems True by auto
    ultimately show ?thesis by (intro exI [of _ "Suc n"]) simp
  next
    case False
    then show ?thesis using Cons.prems by (intro exI [of _ 0]) (auto simp: bucket_ok_empty)
  qed
qed simp

text \<open>The next entry, from an entry or, at the beginning, from an empty first bucket.\<close>

lemma NextCursor_eq:
  assumes ok: "\<forall>b \<in> set (hm_nodes m). bucket_ok b" and i: "i < length (hm_nodes m)"
    and p: "if init then p < length (hm_bucket m i) else hm_bucket m i = []"
  shows "\<exists>cur. NextCursor m \<lparr>bucket_id = i, cur_node = Some p\<rparr> init = Inr cur \<and>
    (if init \<and> p + 1 < length (hm_bucket m i) then cur = \<lparr>bucket_id = i, cur_node = Some (p + 1)\<rparr>
     else (cur_node cur = None \<and> rest_entries m (i + 1) = []) \<or>
          (\<exists>j < length (hm_nodes m). cur = \<lparr>bucket_id = j, cur_node = Some 0\<rparr> \<and> hm_bucket m j \<noteq> [] \<and>
             rest_entries m (i + 1) = hm_bucket m j @ rest_entries m (j + 1)))"
proof -
  have "bucket_ok (hm_nodes m ! i)" using ok i by simp
  then obtain kvs where b: "hm_nodes m ! i = mk_bucket kvs" by (auto simp: bucket_ok_def)
  show ?thesis
  proof (cases "init \<and> p + 1 < length (hm_bucket m i)")
    case True
    then show ?thesis using p b by (cases kvs) (auto simp: NextCursor_def Let_def IsEmpty_def)
  next
    case False
    then have eq: "NextCursor m \<lparr>bucket_id = i, cur_node = Some p\<rparr> init =
      (case next_bucket (i + 1) (drop (i + 1) (hm_nodes m)) of Some index \<Rightarrow> Inr \<lparr>bucket_id = index, cur_node = Some 0\<rparr> | None \<Rightarrow> Inr (SentinelCursor m))"
      using p b by (cases kvs) (auto simp: NextCursor_def Let_def split: option.splits if_splits)
    have ok': "\<forall>b \<in> set (drop (i + 1) (hm_nodes m)). bucket_ok b" using ok by (meson in_set_dropD)
    show ?thesis
    proof (cases "next_bucket (i + 1) (drop (i + 1) (hm_nodes m))")
      case None
      then show ?thesis using eq False next_bucket_None [OF ok' None] by (auto simp: rest_entries_def SentinelCursor_def)
    next
      case (Some j)
      obtain n where n: "n < length (drop (i + 1) (hm_nodes m))" "j = i + 1 + n" "hm_bucket m j \<noteq> []"
        "rest_entries m (i + 1) = hm_bucket m j @ rest_entries m (j + 1)"
        using next_bucket_Some [OF ok' Some] by (auto simp: rest_entries_def add.commute)
      then show ?thesis using eq Some False by auto
    qed
  qed
qed

lemma range_from_eq:
  assumes ok: "\<forall>b \<in> set (hm_nodes m). bucket_ok b"
  shows "i < length (hm_nodes m) \<Longrightarrow> p < length (hm_bucket m i) \<Longrightarrow>
    length (drop p (hm_bucket m i) @ rest_entries m (i + 1)) < fuel \<Longrightarrow>
    range_from fuel m \<lparr>bucket_id = i, cur_node = Some p\<rparr> = Inr (drop p (hm_bucket m i) @ rest_entries m (i + 1))"
proof (induction fuel arbitrary: i p)
  case (Suc fuel)
  have "bucket_ok (hm_nodes m ! i)" using ok Suc.prems(1) by simp
  then obtain kvs where b: "hm_nodes m ! i = mk_bucket kvs" by (auto simp: bucket_ok_def)
  have kv: "GetKV (hm_node_at i p m) = Inr (hm_bucket m i ! p)" using Suc.prems(2) by (simp add: node_at_mk [OF b] b GetKV_def)
  obtain cur where cur: "NextCursor m \<lparr>bucket_id = i, cur_node = Some p\<rparr> True = Inr cur"
    "if p + 1 < length (hm_bucket m i) then cur = \<lparr>bucket_id = i, cur_node = Some (p + 1)\<rparr>
     else (cur_node cur = None \<and> rest_entries m (i + 1) = []) \<or>
          (\<exists>j < length (hm_nodes m). cur = \<lparr>bucket_id = j, cur_node = Some 0\<rparr> \<and> hm_bucket m j \<noteq> [] \<and>
             rest_entries m (i + 1) = hm_bucket m j @ rest_entries m (j + 1))"
    using NextCursor_eq [OF ok Suc.prems(1), of True p] Suc.prems(2) by auto
  have d: "drop p (hm_bucket m i) = hm_bucket m i ! p # drop (p + 1) (hm_bucket m i)" using Suc.prems(2) by (simp add: Cons_nth_drop_Suc)
  have f: "0 < fuel" using Suc.prems(3) by (simp add: d)
  have "range_from fuel m cur = Inr (drop (p + 1) (hm_bucket m i) @ rest_entries m (i + 1))"
  proof (cases "p + 1 < length (hm_bucket m i)")
    case True
    then show ?thesis using cur(2) Suc.IH [OF Suc.prems(1) True] Suc.prems(3) by (simp add: d)
  next
    case False
    then consider "cur_node cur = None" "rest_entries m (i + 1) = []"
      | j where "j < length (hm_nodes m)" "cur = \<lparr>bucket_id = j, cur_node = Some 0\<rparr>" "hm_bucket m j \<noteq> []"
          "rest_entries m (i + 1) = hm_bucket m j @ rest_entries m (j + 1)"
      using cur(2) by auto
    then show ?thesis
    proof cases
      case 1
      then show ?thesis using False f by (cases fuel) auto
    next
      case 2
      then show ?thesis using Suc.IH [OF 2(1), of 0] Suc.prems(3) False by (simp add: d)
    qed
  qed
  then show ?case using kv cur(1) by (simp add: d)
qed simp

lemma range_entries_eq:
  assumes ok: "\<forall>b \<in> set (hm_nodes m). bucket_ok b" and s: "hm_shape m"
  shows "range_entries m = Inr (hm_entries m)"
proof (cases "hm_size m = 0")
  case True
  then show ?thesis using s by (auto simp: range_entries_def FirstNonEmptyCursor_def SentinelCursor_def hm_shape_def)
next
  case False
  have 0: "0 < length (hm_nodes m)" using s by (auto simp: hm_shape_def)
  have sz: "length (hm_entries m) < hm_size m + 1" using s by (simp add: hm_shape_def)
  have all: "hm_entries m = hm_bucket m 0 @ rest_entries m 1"
    using 0 by (cases "hm_nodes m") (auto simp: hm_entries_def rest_entries_def)
  have e: "IsEmpty (fst (hm_nodes m ! 0)) \<longleftrightarrow> hm_bucket m 0 = []" using ok 0 by (intro bucket_ok_empty) simp
  show ?thesis
  proof (cases "hm_bucket m 0 = []")
    case True
    obtain cur where cur: "NextCursor m \<lparr>bucket_id = 0, cur_node = Some 0\<rparr> False = Inr cur"
      "(cur_node cur = None \<and> rest_entries m 1 = []) \<or>
       (\<exists>j < length (hm_nodes m). cur = \<lparr>bucket_id = j, cur_node = Some 0\<rparr> \<and> hm_bucket m j \<noteq> [] \<and>
          rest_entries m 1 = hm_bucket m j @ rest_entries m (j + 1))"
      using NextCursor_eq [OF ok 0, of False 0] True by auto
    have eq: "range_entries m = range_from (hm_size m + 1) m cur" using False True e cur(1) by (simp add: range_entries_def FirstNonEmptyCursor_def)
    show ?thesis unfolding eq using cur(2) all True sz range_from_eq [OF ok, where p = 0 and fuel = "hm_size m + 1"] by auto
  next
    case False
    then show ?thesis using \<open>hm_size m \<noteq> 0\<close> e range_from_eq [OF ok 0, of 0 "hm_size m + 1"] sz all
      by (simp add: range_entries_def FirstNonEmptyCursor_def)
  qed
qed

section \<open>The operations on the map\<close>

definition bucket_insert :: "('k \<Rightarrow> 'k \<Rightarrow> bool) \<Rightarrow> 'k \<Rightarrow> 'v \<Rightarrow> ('k \<times> 'v) list \<Rightarrow> nat \<times> bool \<times> ('k \<times> 'v) list" where
  "bucket_insert E key v kvs =
     (case key_pos E key kvs of
        None \<Rightarrow> (length kvs, True, kvs @ [(key, v)])
      | Some n \<Rightarrow> (n, False, kvs[n := (fst (kvs ! n), v)]))"

text \<open>What the map needs of its key type: keys that are equal have the same hash.\<close>

locale hash_keys =
  fixes H :: "'k \<Rightarrow> 64 word" and E :: "'k \<Rightarrow> 'k \<Rightarrow> bool" and c :: "'k \<Rightarrow> 'c"
  assumes E_iff: "E x y \<longleftrightarrow> c x = c y" and H_cong: "c x = c y \<Longrightarrow> H x = H y"
begin

lemma GetBucket_cong: "c x = c y \<Longrightarrow> GetBucket H x m = GetBucket H y m"
  using H_cong [of x y] by (simp add: GetBucket_def)

lemma inv_bucket:
  assumes "hm_inv H c m" "i < hm_capacity m"
  shows "hm_nodes m ! i = mk_bucket (hm_bucket m i)" "distinct (map (c \<circ> fst) (hm_bucket m i))"
    "(k, v) \<in> set (hm_bucket m i) \<Longrightarrow> GetBucket H k m = i"
proof -
  have b: "bucket_ok (hm_nodes m ! i) \<and> distinct (map (c \<circ> fst) (hm_bucket m i)) \<and> (\<forall>k \<in> fst ` set (hm_bucket m i). GetBucket H k m = i)"
    using assms unfolding hm_inv_def by blast
  then show "hm_nodes m ! i = mk_bucket (hm_bucket m i)" unfolding bucket_ok_def using bucket_entries_mk by metis
  show "distinct (map (c \<circ> fst) (hm_bucket m i))" using b by blast
  show "GetBucket H k m = i" if "(k, v) \<in> set (hm_bucket m i)" using b imageI [OF that, of fst] by (metis fst_conv)
qed

lemma inv_shape: "hm_inv H c m \<Longrightarrow> hm_shape m" "hm_inv H c m \<Longrightarrow> length (hm_nodes m) = hm_capacity m"
  by (simp_all add: hm_inv_def hm_shape_def)

lemma entries_distinct:
  assumes inv: "hm_inv H c m"
  shows "distinct (map (c \<circ> fst) (hm_entries m))"
proof -
  have "distinct (concat (map (\<lambda>b. map (c \<circ> fst) (bucket_entries b)) (hm_nodes m)))"
  proof (rule distinct_concat_nth)
    show "distinct (map (c \<circ> fst) (hm_bucket m i))" if "i < length (hm_nodes m)" for i
      using inv_bucket(2) [OF inv, of i] inv_shape(2) [OF inv] that by simp
    fix i j assume ij: "i < length (hm_nodes m)" "j < length (hm_nodes m)" "i \<noteq> j"
    have "c k \<noteq> c k'" if "(k, v) \<in> set (hm_bucket m i)" "(k', v') \<in> set (hm_bucket m j)" for k v k' v'
      using inv_bucket(3) [OF inv _ that(1)] inv_bucket(3) [OF inv _ that(2)] GetBucket_cong [of k k' m] ij inv_shape(2) [OF inv] by auto
    then show "set (map (c \<circ> fst) (hm_bucket m i)) \<inter> set (map (c \<circ> fst) (hm_bucket m j)) = {}" by auto
  qed
  then show ?thesis by (simp add: hm_entries_def map_concat comp_def)
qed

lemma hm_map_Some: "hm_inv H c m \<Longrightarrow> hm_map c m x = Some (k, v) \<longleftrightarrow> (k, v) \<in> set (hm_entries m) \<and> c k = x"
  using map_of_keyed [OF entries_distinct, of m x "(k, v)"] by (auto simp: hm_map_def)

lemma hm_map_bucket:
  assumes inv: "hm_inv H c m"
  shows "hm_map c m (c key) = (let kvs = hm_bucket m (GetBucket H key m) in map_option (\<lambda>i. kvs ! i) (key_pos E key kvs))"
proof -
  let ?i = "GetBucket H key m"
  have i: "?i < hm_capacity m" "?i < length (hm_nodes m)" using GetBucket_less inv_shape [OF inv] by auto
  show ?thesis
  proof (cases "key_pos E key (hm_bucket m ?i)")
    case None
    have "hm_map c m (c key) = None"
    proof (rule ccontr)
      assume "hm_map c m (c key) \<noteq> None"
      then obtain k v where "hm_map c m (c key) = Some (k, v)" by (auto simp: not_None_eq)
      then have kv: "(k, v) \<in> set (hm_entries m)" "c k = c key" using hm_map_Some [OF inv] by auto
      then obtain j where j: "j < length (hm_nodes m)" "(k, v) \<in> set (hm_bucket m j)" by (auto simp: set_hm_entries)
      then have "j = ?i" using inv_bucket(3) [OF inv _ j(2)] inv_shape(2) [OF inv] GetBucket_cong [OF kv(2), of m] j(1) by simp
      then show False using key_pos_NoneD [OF None] j kv(2) E_iff by fastforce
    qed
    then show ?thesis using None by simp
  next
    case (Some n)
    then have n: "n < length (hm_bucket m ?i)" "c (fst (hm_bucket m ?i ! n)) = c key" using key_pos_SomeD [OF Some] E_iff by auto
    obtain k v where kv: "hm_bucket m ?i ! n = (k, v)" by (cases "hm_bucket m ?i ! n")
    then have "(k, v) \<in> set (hm_entries m)" using n i nth_mem [OF n(1)] by (auto simp: set_hm_entries)
    then show ?thesis using Some kv n hm_map_Some [OF inv] by simp
  qed
qed

text \<open>The general change of a bucket.\<close>

lemma bucket_update:
  assumes inv: "hm_inv H c m" and i: "i < hm_capacity m" and kvs: "distinct (map (c \<circ> fst) kvs)" "\<And>k v. (k, v) \<in> set kvs \<Longrightarrow> GetBucket H k m = i"
    and n: "n + length (hm_bucket m i) = hm_size m + length kvs" "n \<le> hm_rehash_threshold m"
  defines "m' \<equiv> m\<lparr>hm_nodes := (hm_nodes m)[i := mk_bucket kvs], hm_size := n\<rparr>"
  shows "hm_inv H c m'"
    "hm_map c m' x = (if x \<in> (c \<circ> fst) ` set (hm_bucket m i @ kvs) then map_of (keyed c kvs) x else hm_map c m x)"
proof -
  have i': "i < length (hm_nodes m)" using i inv_shape(2) [OF inv] by simp
  have b: "hm_bucket m' j = (if j = i then kvs else hm_bucket m j)" if "j < hm_capacity m" for j
    using that i' inv_shape(2) [OF inv] by (simp add: m'_def nth_list_update)
  have "length (hm_entries m') + length (hm_bucket m i) = length (hm_entries m) + length kvs"
    using length_concat_update [OF i', of bucket_entries "mk_bucket kvs"] by (simp add: hm_entries_def m'_def)
  then have "hm_shape m'" using inv_shape(1) [OF inv] n by (auto simp: hm_shape_def m'_def)
  moreover have "GetBucket H k m' = GetBucket H k m" for k by (simp add: GetBucket_def m'_def)
  ultimately show inv': "hm_inv H c m'"
    using inv kvs i' unfolding hm_inv_def by (auto simp: b m'_def nth_list_update)
  show "hm_map c m' x = (if x \<in> (c \<circ> fst) ` set (hm_bucket m i @ kvs) then map_of (keyed c kvs) x else hm_map c m x)"
    (is "_ = ?r")
  proof (rule option_eqI, clarify)
    fix k v
    have ent: "(k, v) \<in> set (hm_entries m') \<longleftrightarrow> (k, v) \<in> set kvs \<or> (\<exists>j < hm_capacity m. j \<noteq> i \<and> (k, v) \<in> set (hm_bucket m j))"
      using b i inv_shape(2) [OF inv'] inv_shape(2) [OF inv] unfolding set_hm_entries by (auto simp: m'_def split: if_splits)
    have ent0: "(k, v) \<in> set (hm_entries m) \<longleftrightarrow> (k, v) \<in> set (hm_bucket m i) \<or> (\<exists>j < hm_capacity m. j \<noteq> i \<and> (k, v) \<in> set (hm_bucket m j))"
      using i inv_shape(2) [OF inv] unfolding set_hm_entries by auto
    have mo: "map_of (keyed c kvs) x = Some (k, v) \<longleftrightarrow> (k, v) \<in> set kvs \<and> c k = x"
      using map_of_keyed [OF kvs(1)] by auto
    show "hm_map c m' x = Some (k, v) \<longleftrightarrow> ?r = Some (k, v)"
    proof (cases "x \<in> (c \<circ> fst) ` set (hm_bucket m i @ kvs)")
      case True
      then obtain k' v' where k': "(k', v') \<in> set (hm_bucket m i) \<or> (k', v') \<in> set kvs" "c k' = x" by fastforce
      then have "GetBucket H k' m = i" using inv_bucket(3) [OF inv i] kvs(2) by blast
      then have "j = i" if "j < hm_capacity m" "(k, v) \<in> set (hm_bucket m j)" "c k = x" for j
        using GetBucket_cong [of k k' m] inv_bucket(3) [OF inv that(1,2)] that(3) k'(2) by simp
      then show ?thesis using True hm_map_Some [OF inv'] ent mo by auto
    next
      case False
      then have "(k, v) \<notin> set kvs \<and> (k, v) \<notin> set (hm_bucket m i)" if "c k = x" using that by force
      then show ?thesis using False hm_map_Some [OF inv'] hm_map_Some [OF inv] ent ent0 by auto
    qed
  qed
qed

text \<open>An insertion into a map with room: the bucket of the key changes.\<close>

lemma create_with_room:
  assumes inv: "hm_inv H c m" and r: "hm_size m < hm_rehash_threshold m" and i: "i = GetBucket H key m"
  shows "CreateOrLocateKey ins H E key m = Inr (case key_pos E key (hm_bucket m i) of
      Some n \<Rightarrow> (\<lparr>bucket_id = i, cur_node = Some n\<rparr>, m)
    | None \<Rightarrow> if hm_bucket m i = [] then (\<lparr>bucket_id = i, cur_node = Some 0\<rparr>, m\<lparr>hm_size := hm_size m + 1\<rparr>) else new_node i m)"
proof -
  have "i < hm_capacity m" using GetBucket_less inv_shape [OF inv] by (auto simp: i)
  then obtain kvs where b: "hm_nodes m ! i = mk_bucket kvs" using inv_bucket(1) [OF inv] by blast
  have "RehashIfNecessary ins m = Inr m" using r by (simp add: RehashIfNecessary_def)
  then show ?thesis using b unfolding CreateOrLocateKey_def i
    by (cases kvs) (auto simp: Let_def node_defs CreateOrLocateKeySlow_eq split: option.splits)
qed

lemma insert_with_room:
  assumes inv: "hm_inv H c m" and room: "hm_size m < hm_rehash_threshold m" and i: "i = GetBucket H key m"
  shows "insert_or_assign_with ins H E key v m =
    Inr (case bucket_insert E key v (hm_bucket m i) of (pos, fresh, kvs) \<Rightarrow>
      (\<lparr>bucket_id = i, cur_node = Some pos\<rparr>, m\<lparr>hm_nodes := (hm_nodes m)[i := mk_bucket kvs], hm_size := hm_size m + one fresh\<rparr>))"
proof -
  have il: "i < hm_capacity m" "i < length (hm_nodes m)" using GetBucket_less inv_shape [OF inv] by (auto simp: i)
  then obtain kvs where b: "hm_nodes m ! i = mk_bucket kvs" using inv_bucket(1) [OF inv] by blast
  have g: "GetBucket H key (m\<lparr>hm_nodes := ns, hm_size := n\<rparr>) = i"
    "m\<lparr>hm_size := n, hm_nodes := ns\<rparr> = m\<lparr>hm_nodes := ns, hm_size := n\<rparr>" for ns n by (simp_all add: GetBucket_def i)
  show ?thesis
  proof (cases "key_pos E key kvs")
    case (Some n)
    then have "n < length kvs" using key_pos_SomeD [OF Some] by simp
    then show ?thesis using Some unfolding insert_or_assign_with_def create_with_room [OF inv room i]
      by (auto simp: b bucket_insert_def node_at_mk [OF b] set_node_mk [OF b] node_defs split: prod.splits)
  next
    case None
    then show ?thesis unfolding insert_or_assign_with_def create_with_room [OF inv room i]
      by (cases kvs) (auto simp: b il bucket_insert_def hm_node_at_def set_node_def new_node_def node_defs Let_def g nth_append list_update_append)
  qed
qed

lemma key_pos_map: "map_of (keyed c kvs) (c key) = map_option (\<lambda>i. kvs ! i) (key_pos E key kvs)"
  by (induction kvs) (auto simp: E_iff option.map_comp comp_def)

lemma hm_map_key_bucket:
  "hm_inv H c m \<Longrightarrow> hm_map c m (c key) = map_of (keyed c (hm_bucket m (GetBucket H key m))) (c key)"
  using hm_map_bucket [of m key] key_pos_map [of "hm_bucket m (GetBucket H key m)" key] by (simp add: Let_def)

lemma hm_map_in_bucket:
  assumes "hm_inv H c m" "i < hm_capacity m" "x \<in> (c \<circ> fst) ` set (hm_bucket m i)"
  shows "hm_map c m x = map_of (keyed c (hm_bucket m i)) x"
proof -
  obtain k v where "(k, v) \<in> set (hm_bucket m i)" "x = c k" using assms(3) by auto
  then show ?thesis using hm_map_key_bucket [OF assms(1), of k] inv_bucket(3) [OF assms(1,2)] by metis
qed

lemma key_pos_update:
  "key_pos E key kvs = Some n \<Longrightarrow>
   map_of (keyed c (kvs[n := (fst (kvs ! n), v)])) = (map_of (keyed c kvs))(c key \<mapsto> (fst (kvs ! n), v))"
  by (induction kvs arbitrary: n) (auto simp: E_iff fun_upd_twist split: if_splits)

lemma key_pos_append:
  "key_pos E key kvs = None \<Longrightarrow>
   map_of (keyed c (kvs @ [(key, v)])) = (map_of (keyed c kvs))(c key \<mapsto> (key, v))"
  by (induction kvs) (auto simp: E_iff fun_upd_twist split: if_splits)

lemma bucket_insert_map:
  "bucket_insert E key v kvs = (pos, fresh, kvs') \<Longrightarrow>
   map_of (keyed c kvs') = map_insert c key v (map_of (keyed c kvs))"
proof (cases "key_pos E key kvs")
  case None
  assume "bucket_insert E key v kvs = (pos, fresh, kvs')"
  then show ?thesis using None key_pos_append [OF None, of v] by (simp add: bucket_insert_def map_insert_def key_pos_map)
next
  case (Some n)
  assume "bucket_insert E key v kvs = (pos, fresh, kvs')"
  then show ?thesis using Some key_pos_update [OF Some, of v] by (cases "kvs ! n") (auto simp: bucket_insert_def map_insert_def key_pos_map)
qed

lemma bucket_insert_keys:
  assumes "bucket_insert E key v kvs = (pos, fresh, kvs')" "distinct (map (c \<circ> fst) kvs)"
  shows "distinct (map (c \<circ> fst) kvs')" "length kvs' = length kvs + one fresh" "fresh \<longleftrightarrow> key_pos E key kvs = None"
    "fst ` set kvs' \<subseteq> insert key (fst ` set kvs)" "pos < length kvs'" "c (fst (kvs' ! pos)) = c key" "snd (kvs' ! pos) = v"
proof -
  have "distinct (map (c \<circ> fst) kvs') \<and> length kvs' = length kvs + one fresh \<and> (fresh \<longleftrightarrow> key_pos E key kvs = None) \<and>
    fst ` set kvs' \<subseteq> insert key (fst ` set kvs) \<and> pos < length kvs' \<and> c (fst (kvs' ! pos)) = c key \<and> snd (kvs' ! pos) = v"
  proof (cases "key_pos E key kvs")
    case None
    then have "c key \<notin> (c \<circ> fst) ` set kvs" by (auto simp: E_iff dest: key_pos_NoneD [OF None])
    then show ?thesis using None assms by (auto simp: bucket_insert_def)
  next
    case (Some n)
    then have n: "n < length kvs" "c (fst (kvs ! n)) = c key" using key_pos_SomeD [OF Some] E_iff by auto
    have "map (c \<circ> fst) (kvs[n := (fst (kvs ! n), v)]) = map (c \<circ> fst) kvs" using n(1) by (simp add: map_update list_update_same_conv)
    moreover have "fst ` set (kvs[n := (fst (kvs ! n), v)]) \<subseteq> fst ` insert (fst (kvs ! n), v) (set kvs)"
      by (rule image_mono [OF set_update_subset_insert])
    then have "fst ` set (kvs[n := (fst (kvs ! n), v)]) \<subseteq> fst ` set kvs"
      using imageI [OF nth_mem [OF n(1)], of fst] by (simp add: insert_absorb)
    ultimately show ?thesis using Some assms n by (auto simp: bucket_insert_def)
  qed
  then show "distinct (map (c \<circ> fst) kvs')" "length kvs' = length kvs + one fresh" "fresh \<longleftrightarrow> key_pos E key kvs = None"
    "fst ` set kvs' \<subseteq> insert key (fst ` set kvs)" "pos < length kvs'" "c (fst (kvs' ! pos)) = c key" "snd (kvs' ! pos) = v" by auto
qed

lemma bucket_insert_update:
  assumes inv: "hm_inv H c m" and bi: "bucket_insert E key v (hm_bucket m (GetBucket H key m)) = (pos, fresh, kvs')"
    and n: "n = hm_size m + one fresh" "n \<le> hm_rehash_threshold m"
  defines "m' \<equiv> m\<lparr>hm_nodes := (hm_nodes m)[GetBucket H key m := mk_bucket kvs'], hm_size := n\<rparr>"
  shows "hm_inv H c m'" "hm_map c m' = map_insert c key v (hm_map c m)" "fresh \<longleftrightarrow> hm_map c m (c key) = None"
    "hm_points c m' \<lparr>bucket_id = GetBucket H key m, cur_node = Some pos\<rparr> key"
proof -
  let ?i = "GetBucket H key m"
  have i: "?i < hm_capacity m" by (rule GetBucket_less [OF inv_shape(1) [OF inv]])
  note bk = bucket_insert_keys [OF bi inv_bucket(2) [OF inv i]]
  have kb: "GetBucket H k m = ?i" if "(k, w) \<in> set kvs'" for k w
  proof -
    have "k = key \<or> k \<in> fst ` set (hm_bucket m ?i)" using bk(4) that by force
    then show ?thesis using inv_bucket(3) [OF inv i] by auto
  qed
  have sz: "n + length (hm_bucket m ?i) = hm_size m + length kvs'" using bk(2) n(1) by simp
  note upd = bucket_update [OF inv i bk(1) kb sz n(2), folded m'_def]
  show "hm_inv H c m'" by (rule upd(1))
  have "hm_map c m' x = map_insert c key v (hm_map c m) x" for x
  proof (cases "x \<in> (c \<circ> fst) ` set (hm_bucket m ?i) \<or> x = c key")
    case True
    then have "hm_map c m x = map_of (keyed c (hm_bucket m ?i)) x" using hm_map_in_bucket [OF inv i] hm_map_key_bucket [OF inv] by metis
    moreover have "x \<in> (c \<circ> fst) ` set (hm_bucket m ?i @ kvs')" using True bk(6) nth_mem [OF bk(5)] by (auto simp: image_iff intro: bexI [of _ "kvs' ! pos"])
    ultimately show ?thesis using upd(2) [where x = x] bucket_insert_map [OF bi] hm_map_key_bucket [OF inv, of key]
      by (simp add: map_insert_def)
  next
    case False
    have "(c \<circ> fst) ` set kvs' \<subseteq> insert (c key) ((c \<circ> fst) ` set (hm_bucket m ?i))" using image_mono [OF bk(4), of c] by (simp add: image_comp)
    then have "x \<notin> (c \<circ> fst) ` set (hm_bucket m ?i @ kvs')" using False by auto
    then show ?thesis using upd(2) [where x = x] False by (simp add: map_insert_def)
  qed
  then show "hm_map c m' = map_insert c key v (hm_map c m)" by blast
  show "fresh \<longleftrightarrow> hm_map c m (c key) = None" using hm_map_bucket [OF inv] bk(3) by (simp add: Let_def)
  have "hm_bucket m' ?i = kvs'" using i inv_shape(2) [OF inv] by (simp add: m'_def)
  then show "hm_points c m' \<lparr>bucket_id = ?i, cur_node = Some pos\<rparr> key" using i bk(5,6) by (simp add: hm_points_def m'_def)
qed

lemma insert_room:
  assumes inv: "hm_inv H c m" and room: "hm_size m < hm_rehash_threshold m"
  shows "\<exists>cur m'. insert_or_assign_with ins H E key v m = Inr (cur, m') \<and> hm_inv H c m' \<and> hm_map c m' = map_insert c key v (hm_map c m) \<and>
    hm_size m' = hm_size m + one (hm_map c m (c key) = None) \<and> hm_rehash_threshold m' = hm_rehash_threshold m \<and> hm_points c m' cur key"
proof -
  let ?i = "GetBucket H key m"
  obtain pos fresh kvs' where bi: "bucket_insert E key v (hm_bucket m ?i) = (pos, fresh, kvs')" by (cases "bucket_insert E key v (hm_bucket m ?i)")
  define n where "n = hm_size m + one fresh"
  let ?m = "m\<lparr>hm_nodes := (hm_nodes m)[?i := mk_bucket kvs'], hm_size := n\<rparr>"
  have eq: "insert_or_assign_with ins H E key v m = Inr (\<lparr>bucket_id = ?i, cur_node = Some pos\<rparr>, ?m)"
    unfolding insert_with_room [OF inv room HOL.refl] bi n_def by simp
  have "n \<le> hm_rehash_threshold m" using room by (simp add: n_def)
  note upd = bucket_insert_update [OF inv bi n_def this]
  have "hm_size ?m = hm_size m + one (hm_map c m (c key) = None)" using upd(3) by (simp add: n_def)
  then show ?thesis using eq upd(1,2,4) by (intro exI [of _ "\<lparr>bucket_id = ?i, cur_node = Some pos\<rparr>"] exI [of _ ?m]) simp
qed

text \<open>Doubling the array.\<close>

lemma inv_ok: "hm_inv H c m \<Longrightarrow> \<forall>b \<in> set (hm_nodes m). bucket_ok b"
  using inv_shape(2) [of m] unfolding hm_inv_def by (metis in_set_conv_nth)

lemma new_inv:
  assumes "2 \<le> k" "k < 64"
  shows "\<exists>m :: ('k, 'v) HashMap. HM_new (2 ^ k) = Inr m \<and> hm_inv H c m \<and> hm_map c m = Map.empty \<and> hm_size m = 0 \<and>
    hm_rehash_threshold m = 2 ^ k * 3 div 4"
proof -
  have "bucket_entries (None, []) = []" by simp
  then have "concat (map bucket_entries (replicate (2 ^ k) (None, []))) = []" by (simp add: concat_eq_Nil_conv)
  moreover have "bucket_ok (None, [])" using bucket_ok_mk [of "[]"] by simp
  ultimately show ?thesis
    using assms HM_new_pow2 [OF assms] by (auto simp: hm_inv_def hm_shape_def hm_entries_def hm_map_def GetBucket_def)
qed

lemma insert_all_room:
  assumes ins: "\<And>k v m. ins k v m = insert_or_assign_with ins' H E k v m"
  shows "hm_inv H c m \<Longrightarrow> distinct (map (c \<circ> fst) kvs) \<Longrightarrow> (c \<circ> fst) ` set kvs \<inter> dom (hm_map c m) = {} \<Longrightarrow>
    hm_size m + length kvs \<le> hm_rehash_threshold m \<Longrightarrow>
    \<exists>m'. insert_all ins kvs m = Inr m' \<and> hm_inv H c m' \<and> hm_map c m' = hm_map c m ++ map_of (keyed c kvs) \<and>
      hm_size m' = hm_size m + length kvs \<and> hm_rehash_threshold m' = hm_rehash_threshold m"
proof (induction kvs arbitrary: m)
  case (Cons kv kvs)
  obtain k v where kv: "kv = (k, v)" by (cases kv)
  obtain cur m1 where m1: "ins k v m = Inr (cur, m1)" "hm_inv H c m1" "hm_map c m1 = map_insert c k v (hm_map c m)"
    "hm_size m1 = hm_size m + one (hm_map c m (c k) = None)" "hm_rehash_threshold m1 = hm_rehash_threshold m"
    using insert_room [OF Cons.prems(1), of ins' k v] Cons.prems(4) by (auto simp: ins)
  have fresh: "hm_map c m (c k) = None" using Cons.prems(3) by (auto simp: kv)
  then have mp: "hm_map c m1 = (hm_map c m)(c k \<mapsto> (k, v))" using m1(3) by (simp add: map_insert_def)
  have nk: "c k \<notin> (c \<circ> fst) ` set kvs" using Cons.prems(2) by (simp add: kv)
  have dj: "(c \<circ> fst) ` set kvs \<inter> dom (hm_map c m1) = {}" "distinct (map (c \<circ> fst) kvs)"
    using Cons.prems(2,3) nk by (auto simp: mp kv comp_def)
  obtain m2 where m2: "insert_all ins kvs m1 = Inr m2" "hm_inv H c m2" "hm_map c m2 = hm_map c m1 ++ map_of (keyed c kvs)"
    "hm_size m2 = hm_size m1 + length kvs" "hm_rehash_threshold m2 = hm_rehash_threshold m1"
    using Cons.IH [OF m1(2) dj(2,1)] Cons.prems(4) fresh m1(4,5) by auto
  have "c k \<notin> dom (map_of (keyed c kvs))" using nk by (simp add: dom_map_of_conv_image_fst image_iff keyed_def)
  then have r: "hm_map c m2 = hm_map c m ++ map_of (keyed c (kv # kvs))" by (simp add: m2(3) mp kv map_add_upd_left)
  show ?case by (intro exI [of _ m2] conjI r) (use m1 m2 fresh in \<open>simp_all add: kv\<close>)
qed simp

lemma rehash_correct:
  assumes inv: "hm_inv H c m" and full: "hm_size m \<ge> hm_rehash_threshold m" and sz: "hm_size m < 2 ^ 62"
  shows "\<exists>m'. Rehash (insert_or_assign_fuel n H E) m = Inr m' \<and> hm_inv H c m' \<and> hm_map c m' = hm_map c m \<and> hm_size m' = hm_size m \<and>
    hm_size m' < hm_rehash_threshold m'"
proof -
  obtain k where k: "2 \<le> k" "k < 64" "hm_capacity m = 2 ^ k" "hm_rehash_threshold m = 2 ^ k * 3 div 4"
    "hm_size m \<le> hm_rehash_threshold m" "hm_size m = length (hm_entries m)"
    using inv_shape(1) [OF inv] by (auto simp: hm_shape_def)
  have "k \<noteq> 63" using full sz k(4) by auto
  then have k1: "2 \<le> k + 1" "k + 1 < 64" using k by auto
  have t: "2 ^ (k + 1) * 3 div 4 = 2 * (2 ^ k * 3 div 4 :: nat)" "0 < (2 ^ k * 3 div 4 :: nat)"
  proof -
    obtain j where "k = j + 2" using k(1) by (metis add.commute le_Suc_ex)
    then show "2 ^ (k + 1) * 3 div 4 = 2 * (2 ^ k * 3 div 4 :: nat)" "0 < (2 ^ k * 3 div 4 :: nat)" by simp_all
  qed
  obtain d :: "('k, 'a) HashMap" where d: "HM_new (2 ^ (k + 1)) = Inr d" "hm_inv H c d" "hm_map c d = Map.empty" "hm_size d = 0"
    "hm_rehash_threshold d = 2 ^ (k + 1) * 3 div 4" using new_inv [OF k1] by blast
  obtain d' where d': "insert_all (insert_or_assign_fuel n H E) (hm_entries m) d = Inr d'" "hm_inv H c d'"
    "hm_map c d' = hm_map c d ++ map_of (keyed c (hm_entries m))" "hm_size d' = hm_size d + length (hm_entries m)"
    "hm_rehash_threshold d' = hm_rehash_threshold d"
  proof -
    have "hm_size d + length (hm_entries m) \<le> hm_rehash_threshold d" using d(4,5) t(1) k by simp
    then show ?thesis using insert_all_room [of "insert_or_assign_fuel n H E" _ d "hm_entries m"] d(2,3) entries_distinct [OF inv] that
      by (cases n) auto
  qed
  have "range_entries m = Inr (hm_entries m)" by (rule range_entries_eq [OF inv_ok [OF inv] inv_shape(1) [OF inv]])
  then have "Rehash (insert_or_assign_fuel n H E) m = Inr d'"
    using d d' k(3,6) by (simp add: Rehash_def mult.commute)
  then show ?thesis using d d' k t by (auto simp: hm_map_def)
qed

lemma make_room:
  assumes inv: "hm_inv H c m" and sz: "hm_size m < 2 ^ 62"
  shows "\<exists>m0. hm_inv H c m0 \<and> hm_map c m0 = hm_map c m \<and> hm_size m0 = hm_size m \<and> hm_size m0 < hm_rehash_threshold m0 \<and>
    (\<forall>key. CreateOrLocateKey (insert_or_assign_fuel 0 H E) H E key m = CreateOrLocateKey (insert_or_assign_fuel 0 H E) H E key m0)"
proof (cases "hm_size m \<ge> hm_rehash_threshold m")
  case True
  then obtain m0 where m0: "Rehash (insert_or_assign_fuel 0 H E) m = Inr m0" "hm_inv H c m0" "hm_map c m0 = hm_map c m"
    "hm_size m0 = hm_size m" "hm_size m0 < hm_rehash_threshold m0" using rehash_correct [OF inv True sz, of 0] by blast
  then have "CreateOrLocateKey (insert_or_assign_fuel 0 H E) H E key m = CreateOrLocateKey (insert_or_assign_fuel 0 H E) H E key m0" for key
    using True by (simp add: CreateOrLocateKey_def RehashIfNecessary_def)
  then show ?thesis using m0 by blast
next
  case False
  then show ?thesis using inv by (intro exI [of _ m]) simp
qed

lemma insert_correct:
  assumes inv: "hm_inv H c m" and sz: "hm_size m < 2 ^ 62"
  shows "\<exists>cur m'. insert_or_assign H E key v m = Inr (cur, m') \<and> hm_inv H c m' \<and> hm_map c m' = map_insert c key v (hm_map c m) \<and>
    hm_size m' = hm_size m + one (hm_map c m (c key) = None) \<and> hm_points c m' cur key"
proof -
  obtain m0 where m0: "hm_inv H c m0" "hm_map c m0 = hm_map c m" "hm_size m0 = hm_size m" "hm_size m0 < hm_rehash_threshold m0"
    "\<And>key. CreateOrLocateKey (insert_or_assign_fuel 0 H E) H E key m = CreateOrLocateKey (insert_or_assign_fuel 0 H E) H E key m0"
    using make_room [OF inv sz] by blast
  then have "insert_or_assign H E key v m = insert_or_assign_with (insert_or_assign_fuel 0 H E) H E key v m0"
    by (simp add: insert_or_assign_def insert_or_assign_with_def)
  then show ?thesis using insert_room [OF m0(1,4), of "insert_or_assign_fuel 0 H E" key v] m0(2,3) by auto
qed

text \<open>Looking a key up.\<close>

lemma inv_key_bucket:
  assumes "hm_inv H c m"
  shows "bucket_ok (hm_nodes m ! GetBucket H key m)" "GetBucket H key m < hm_capacity m"
  using assms GetBucket_less [OF inv_shape(1) [OF assms]] unfolding hm_inv_def by blast+

lemma TryGet_correct: "hm_inv H c m \<Longrightarrow> TryGet H E key m = Inr (map_option snd (hm_map c m (c key)))"
  by (simp add: TryGet_eq inv_key_bucket hm_map_bucket Let_def option.map_comp comp_def)

lemma at_correct: "hm_inv H c m \<Longrightarrow> HM_at H E key m = (case hm_map c m (c key) of None \<Rightarrow> Inl Check_failed | Some (_, v) \<Rightarrow> Inr v)"
  by (simp add: HM_at_def TryGet_correct split: option.splits)

lemma find_correct:
  assumes inv: "hm_inv H c m"
  shows "case hm_map c m (c key) of
      None \<Rightarrow> HM_find H E key m = Inr (SentinelCursor m)
    | Some kv \<Rightarrow> \<exists>pos. HM_find H E key m = Inr \<lparr>bucket_id = GetBucket H key m, cur_node = Some pos\<rparr> \<and>
        pos < length (hm_bucket m (GetBucket H key m)) \<and> hm_bucket m (GetBucket H key m) ! pos = kv"
  using LocateKey_eq [OF inv_key_bucket(1) [OF inv], where E = E] hm_map_bucket [OF inv, of key]
  by (auto simp: HM_find_def Let_def dest: key_pos_SomeD split: option.splits)

lemma contains_correct: "hm_inv H c m \<Longrightarrow> contains H E key m = Inr (c key \<in> dom (hm_map c m))"
  using find_correct [of m key] by (auto simp: contains_def SentinelCursor_def split: option.splits)

text \<open>Removal.\<close>

lemma erase_at_eq:
  assumes inv: "hm_inv H c m" and i: "i < hm_capacity m" and p: "p < length (hm_bucket m i)"
  shows "\<exists>cur. erase_at H \<lparr>bucket_id = i, cur_node = Some p\<rparr> m = Inr (cur,
    m\<lparr>hm_nodes := (hm_nodes m)[i := mk_bucket (take p (hm_bucket m i) @ drop (p + 1) (hm_bucket m i))], hm_size := hm_size m - 1\<rparr>)"
proof -
  have b: "hm_nodes m ! i = mk_bucket (hm_bucket m i)" by (rule inv_bucket(1) [OF inv i])
  obtain kv kvs where kvs: "hm_bucket m i = kv # kvs" using p by (cases "hm_bucket m i") auto
  obtain cur where nc: "NextCursor m \<lparr>bucket_id = i, cur_node = Some p\<rparr> True = Inr cur"
    using NextCursor_eq [OF inv_ok [OF inv], of i True p] p i inv_shape(2) [OF inv] by auto
  have nodes: "hm_nodes m ! i = (Some kv, map Some kvs)" using b kvs by simp
  show ?thesis
  proof (cases p)
    case 0
    show ?thesis
    proof (cases kvs)
      case Nil
      then show ?thesis using 0 nc nodes kvs by (auto simp: erase_at_def node_defs)
    next
      case (Cons kv' rest)
      have "GetBucket H (fst kv') m = i" using inv_bucket(3) [OF inv i, of "fst kv'" "snd kv'"] kvs Cons by simp
      then show ?thesis using 0 nodes kvs Cons by (auto simp: erase_at_def node_defs split: prod.splits)
    qed
  next
    case (Suc n)
    then have "n < length kvs" using p kvs by simp
    moreover have "\<forall>x \<in> set (take n (map Some kvs)). \<not> IsEmpty x" by (auto simp: IsEmpty_def take_map)
    ultimately show ?thesis using Suc nc nodes kvs
      by (auto simp: erase_at_def node_defs take_map drop_map)
  qed
qed

lemma erase_at_correct:
  assumes inv: "hm_inv H c m" and i: "i < hm_capacity m" and p: "p < length (hm_bucket m i)"
  shows "\<exists>cur m'. erase_at H \<lparr>bucket_id = i, cur_node = Some p\<rparr> m = Inr (cur, m') \<and> hm_inv H c m' \<and>
    hm_map c m' = (hm_map c m)(c (fst (hm_bucket m i ! p)) := None) \<and> hm_size m' + 1 = hm_size m"
proof -
  let ?b = "hm_bucket m i"
  let ?kvs = "take p ?b @ drop (p + 1) ?b" and ?x = "c (fst (?b ! p))"
  have sp: "?b = take p ?b @ ?b ! p # drop (p + 1) ?b" using p by (simp add: id_take_nth_drop)
  have d: "distinct (map (c \<circ> fst) (take p ?b @ ?b ! p # drop (p + 1) ?b))" using inv_bucket(2) [OF inv i] sp by simp
  have "?b ! p \<in> set (hm_entries m)" using nth_mem [OF p] i inv_shape(2) [OF inv] by (auto simp: set_hm_entries)
  then have "0 < hm_size m" using inv_shape(1) [OF inv] by (auto simp: hm_shape_def)
  moreover have "hm_size m \<le> hm_rehash_threshold m" using inv_shape(1) [OF inv] by (simp add: hm_shape_def)
  moreover have "length ?kvs + 1 = length ?b" using p by simp
  ultimately have sz: "hm_size m - 1 + length ?b = hm_size m + length ?kvs" "hm_size m - 1 \<le> hm_rehash_threshold m" "hm_size m - 1 + 1 = hm_size m"
    by linarith+
  have kd: "distinct (map (c \<circ> fst) ?kvs)" using d by auto
  have kb: "GetBucket H k m = i" if "(k, v) \<in> set ?kvs" for k v
    using inv_bucket(3) [OF inv i, of k v] that by (auto dest: in_set_takeD in_set_dropD)
  note upd = bucket_update [OF inv i kd kb sz(1,2)]
  let ?m = "m\<lparr>hm_nodes := (hm_nodes m)[i := mk_bucket ?kvs], hm_size := hm_size m - 1\<rparr>"
  have "hm_map c ?m x = ((hm_map c m)(?x := None)) x" for x
  proof (cases "x \<in> (c \<circ> fst) ` set ?b")
    case True
    then have "hm_map c m x = map_of (keyed c ?b) x" by (rule hm_map_in_bucket [OF inv i])
    also have "\<dots> = map_of (keyed c (take p ?b @ ?b ! p # drop (p + 1) ?b)) x" using sp by simp
    finally have hm: "hm_map c m x = (if x = ?x \<and> map_of (keyed c (take p ?b)) x = None then Some (?b ! p) else map_of (keyed c ?kvs) x)"
      by (auto simp: map_add_def split: option.splits)
    have "map_of (keyed c ?kvs) ?x = None" using d unfolding map_of_eq_None_iff fst_keyed by auto
    moreover have "x \<in> (c \<circ> fst) ` set (?b @ ?kvs)" using True by auto
    ultimately show ?thesis using upd(2) [where x = x] hm by (simp split: if_splits)
  next
    case False
    then have "x \<notin> (c \<circ> fst) ` set (?b @ ?kvs)" "x \<noteq> ?x" using nth_mem [OF p] by (auto dest: in_set_takeD in_set_dropD)
    then show ?thesis using upd(2) [where x = x] by simp
  qed
  then have mp: "hm_map c ?m = (hm_map c m)(?x := None)" by blast
  obtain cur where "erase_at H \<lparr>bucket_id = i, cur_node = Some p\<rparr> m = Inr (cur, ?m)" using erase_at_eq [OF inv i p] by blast
  then show ?thesis using upd(1) mp sz(3) by (intro exI [of _ cur] exI [of _ ?m] conjI) auto
qed

lemma erase_correct:
  assumes inv: "hm_inv H c m"
  shows "\<exists>m'. HM_erase H E key m = Inr (one (c key \<in> dom (hm_map c m)), m') \<and> hm_inv H c m' \<and> hm_map c m' = (hm_map c m)(c key := None) \<and>
    hm_size m' + one (c key \<in> dom (hm_map c m)) = hm_size m"
proof (cases "hm_map c m (c key)")
  case None
  then show ?thesis using find_correct [OF inv, of key] inv by (auto simp: HM_erase_def SentinelCursor_def fun_upd_idem)
next
  case (Some kv)
  let ?i = "GetBucket H key m"
  obtain pos where pos: "HM_find H E key m = Inr \<lparr>bucket_id = ?i, cur_node = Some pos\<rparr>" "pos < length (hm_bucket m ?i)" "hm_bucket m ?i ! pos = kv"
    using find_correct [OF inv, of key] Some by auto
  have "c (fst kv) = c key" using hm_map_Some [OF inv, of "c key" "fst kv" "snd kv"] Some by simp
  then show ?thesis using erase_at_correct [OF inv inv_key_bucket(2) [OF inv] pos(2)] pos Some by (auto simp: HM_erase_def)
qed

lemma clear_loop_eq: "\<forall>b \<in> set bs. bucket_ok b \<Longrightarrow> clear_loop bs = Inr (replicate (length bs) (None, []))"
proof (induction bs)
  case (Cons b bs)
  then obtain kvs where "b = mk_bucket kvs" by (auto simp: bucket_ok_def)
  then have "clear_bucket b = Inr (None, [])" by (cases kvs) (auto simp: clear_bucket_def IsEmpty_def)
  with Cons show ?case by simp
qed simp

lemma clear_correct:
  assumes inv: "hm_inv H c m"
  shows "\<exists>m'. HM_clear m = Inr m' \<and> hm_inv H c m' \<and> hm_map c m' = Map.empty \<and> hm_size m' = 0 \<and> hm_capacity m' = hm_capacity m"
proof (cases "hm_size m = 0")
  case True
  then have "hm_entries m = []" using inv_shape(1) [OF inv] by (simp add: hm_shape_def)
  then show ?thesis using True inv by (simp add: HM_clear_def hm_map_def)
next
  case False
  let ?m = "m\<lparr>hm_nodes := replicate (length (hm_nodes m)) (None, []), hm_size := 0\<rparr>"
  have e: "hm_entries ?m = []" by (simp add: hm_entries_def concat_eq_Nil_conv)
  have "bucket_ok (None, [])" using bucket_ok_mk [of "[]"] by simp
  then have "hm_inv H c ?m" using inv inv_shape(2) [OF inv] e by (auto simp: hm_inv_def hm_shape_def)
  moreover have "HM_clear m = Inr ?m" using False clear_loop_eq [OF inv_ok [OF inv]] by (simp add: HM_clear_def)
  moreover have "hm_map c ?m = Map.empty" using e by (simp add: hm_map_def)
  ultimately show ?thesis by (intro exI [of _ ?m] conjI) simp_all
qed

lemma keys_iff: "hm_inv H c m \<Longrightarrow> k \<in> fst ` set (hm_entries m) \<longleftrightarrow> (\<exists>v. hm_map c m (c k) = Some (k, v))"
proof -
  assume inv: "hm_inv H c m"
  have "k \<in> fst ` set (hm_entries m) \<longleftrightarrow> (\<exists>v. (k, v) \<in> set (hm_entries m))" by force
  then show ?thesis using hm_map_Some [OF inv, of "c k" k] by simp
qed

lemma keys_insert:
  assumes inv: "hm_inv H c m" and inv': "hm_inv H c m'" and m': "hm_map c m' = map_insert c key v (hm_map c m)"
  shows "fst ` set (hm_entries m') = (if \<exists>k \<in> fst ` set (hm_entries m). c k = c key then fst ` set (hm_entries m)
    else insert key (fst ` set (hm_entries m)))"
proof (cases "hm_map c m (c key)")
  case None
  then have no: "\<not> (\<exists>k \<in> fst ` set (hm_entries m). c k = c key)" using keys_iff [OF inv] by (metis option.distinct(1))
  have "k \<in> fst ` set (hm_entries m') \<longleftrightarrow> k = key \<or> k \<in> fst ` set (hm_entries m)" for k
    unfolding keys_iff [OF inv] keys_iff [OF inv'] m' using None by (cases "c k = c key") (auto simp: map_insert_def)
  with no show ?thesis by auto
next
  case (Some kv)
  obtain k0 v0 where kv: "kv = (k0, v0)" by (cases kv)
  then have c0: "c k0 = c key" "k0 \<in> fst ` set (hm_entries m)" using hm_map_Some [OF inv, of "c key" k0 v0] Some imageI [of "(k0, v0)" "set (hm_entries m)" fst] by auto
  have "k \<in> fst ` set (hm_entries m') \<longleftrightarrow> k \<in> fst ` set (hm_entries m)" for k
    unfolding keys_iff [OF inv] keys_iff [OF inv'] m' using Some kv c0(1) by (cases "c k = c key") (auto simp: map_insert_def)
  then have "fst ` set (hm_entries m') = fst ` set (hm_entries m)" by blast
  moreover have "\<exists>k \<in> fst ` set (hm_entries m). c k = c key" using c0 by blast
  ultimately show ?thesis by simp
qed

text \<open>\<^verbatim>\<open>operator[]\<close> and the insertion of many.\<close>

lemma index_correct:
  assumes inv: "hm_inv H c m" and sz: "hm_size m < 2 ^ 62"
  shows "\<exists>cur m'. HM_index H E dflt key m = Inr (cur, m') \<and> hm_inv H c m' \<and> hm_points c m' cur key \<and>
    hm_map c m' = (case hm_map c m (c key) of None \<Rightarrow> map_insert c key dflt (hm_map c m) | Some _ \<Rightarrow> hm_map c m) \<and>
    hm_size m' = hm_size m + one (hm_map c m (c key) = None)"
proof -
  let ?ins = "insert_or_assign_fuel 0 H E"
  obtain m0 where m0: "hm_inv H c m0" "hm_map c m0 = hm_map c m" "hm_size m0 = hm_size m" "hm_size m0 < hm_rehash_threshold m0"
    "\<And>key. CreateOrLocateKey ?ins H E key m = CreateOrLocateKey ?ins H E key m0" using make_room [OF inv sz] by blast
  let ?i = "GetBucket H key m0"
  note cr = create_with_room [OF m0(1,4) HOL.refl, where ins = ?ins and key = key]
  have b: "hm_nodes m0 ! ?i = mk_bucket (hm_bucket m0 ?i)" by (rule inv_bucket(1) [OF m0(1) inv_key_bucket(2) [OF m0(1)]])
  show ?thesis
  proof (cases "key_pos E key (hm_bucket m0 ?i)")
    case (Some n)
    then have hm: "hm_map c m (c key) = Some (hm_bucket m0 ?i ! n)" using hm_map_bucket [OF m0(1), of key] m0(2) by simp
    note n = key_pos_SomeD [OF Some]
    have "HM_index H E dflt key m = Inr (\<lparr>bucket_id = ?i, cur_node = Some n\<rparr>, m0)"
      using n Some node_at_mk [OF b] by (simp add: HM_index_def m0(5) cr node_defs del: insert_or_assign_fuel.simps)
    moreover have "hm_points c m0 \<lparr>bucket_id = ?i, cur_node = Some n\<rparr> key" using n E_iff inv_key_bucket(2) [OF m0(1)] by (simp add: hm_points_def)
    ultimately show ?thesis using hm m0 by auto
  next
    case None
    then have hm: "hm_map c m (c key) = None" using hm_map_bucket [OF m0(1), of key] m0(2) by simp
    obtain cur m' where m': "insert_or_assign H E key dflt m = Inr (cur, m')" "hm_inv H c m'" "hm_map c m' = map_insert c key dflt (hm_map c m)"
      "hm_size m' = hm_size m + one (hm_map c m (c key) = None)" "hm_points c m' cur key" using insert_correct [OF inv sz] by blast
    obtain pos m1 where c1: "CreateOrLocateKey ?ins H E key m = Inr (\<lparr>bucket_id = ?i, cur_node = Some pos\<rparr>, m1)" "hm_node_at ?i pos m1 = None"
    proof (cases "hm_bucket m0 ?i")
      case Nil
      then show ?thesis using that [of 0 "m0\<lparr>hm_size := hm_size m0 + 1\<rparr>"] None b by (simp add: m0(5) cr hm_node_at_def del: insert_or_assign_fuel.simps)
    next
      case (Cons kv kvs)
      then show ?thesis using that [of "length kvs + 1" "snd (new_node ?i m0)"] None b inv_key_bucket(2) [OF m0(1), of key] inv_shape(2) [OF m0(1)]
        by (simp add: m0(5) cr hm_node_at_def new_node_def nth_append del: insert_or_assign_fuel.simps)
    qed
    then have "HM_index H E dflt key m = Inr (cur, m')"
      using m'(1) by (auto simp: HM_index_def insert_or_assign_def insert_or_assign_with_def node_defs Let_def dcheck_def split: if_splits)
    then show ?thesis using hm m' by simp
  qed
qed

lemma points_node:
  assumes inv: "hm_inv H c m" and p: "hm_points c m cur key"
  shows "\<exists>pos k v. cur = \<lparr>bucket_id = GetBucket H key m, cur_node = Some pos\<rparr> \<and> key_pos E key (hm_bucket m (GetBucket H key m)) = Some pos \<and>
    hm_bucket m (GetBucket H key m) ! pos = (k, v) \<and> hm_node_at (GetBucket H key m) pos m = Some (k, v) \<and> hm_map c m (c key) = Some (k, v)"
proof -
  obtain i pos where ip: "cur = \<lparr>bucket_id = i, cur_node = Some pos\<rparr>" "i < hm_capacity m" "pos < length (hm_bucket m i)" "c (fst (hm_bucket m i ! pos)) = c key"
    using p by (auto simp: hm_points_def)
  obtain k v where kv: "hm_bucket m i ! pos = (k, v)" by (cases "hm_bucket m i ! pos")
  have i: "GetBucket H key m = i"
    using inv_bucket(3) [OF inv ip(2), of k v] nth_mem [OF ip(3)] kv GetBucket_cong [of k key m] ip(4) by simp
  have "key_pos E key (hm_bucket m i) \<noteq> None" using key_pos_NoneD [of E key "hm_bucket m i", OF _ nth_mem [OF ip(3)]] ip(4) E_iff by blast
  then obtain n where n: "key_pos E key (hm_bucket m i) = Some n" by blast
  then have n': "n < length (hm_bucket m i)" "c (fst (hm_bucket m i ! n)) = c key" using key_pos_SomeD [OF n] E_iff by auto
  then have "n = pos"
    using nth_eq_iff_index_eq [OF inv_bucket(2) [OF inv ip(2)], of n pos] ip(3,4) by simp
  then show ?thesis using ip(1,3) i n kv node_at_mk [OF inv_bucket(1) [OF inv ip(2)] ip(3)] hm_map_bucket [OF inv, of key] by simp
qed

lemma value_correct: "hm_inv H c m \<Longrightarrow> hm_points c m cur key \<Longrightarrow> \<exists>k v. hm_map c m (c key) = Some (k, v) \<and> HM_value cur m = Inr v"
  using points_node [of m cur key] by (auto simp: HM_value_def GetKV_def)

lemma store_correct:
  assumes inv: "hm_inv H c m" and p: "hm_points c m cur key"
  shows "\<exists>m'. HM_store cur v m = Inr m' \<and> hm_inv H c m' \<and> hm_map c m' = map_insert c key v (hm_map c m) \<and> hm_size m' = hm_size m"
proof -
  let ?i = "GetBucket H key m"
  obtain pos k w where n: "cur = \<lparr>bucket_id = ?i, cur_node = Some pos\<rparr>" "key_pos E key (hm_bucket m ?i) = Some pos" "hm_bucket m ?i ! pos = (k, w)"
    "hm_node_at ?i pos m = Some (k, w)" using points_node [OF inv p] by blast
  then have bi: "bucket_insert E key v (hm_bucket m ?i) = (pos, False, (hm_bucket m ?i)[pos := (k, v)])" by (simp add: bucket_insert_def)
  have sz: "hm_size m = hm_size m + one False" "hm_size m \<le> hm_rehash_threshold m" using inv_shape(1) [OF inv] by (simp_all add: hm_shape_def)
  note upd = bucket_insert_update [OF inv bi sz]
  have "HM_store cur v m = Inr (m\<lparr>hm_nodes := (hm_nodes m)[?i := mk_bucket ((hm_bucket m ?i)[pos := (k, v)])], hm_size := hm_size m\<rparr>)"
    using n key_pos_SomeD [OF n(2)] set_node_mk [OF inv_bucket(1) [OF inv inv_key_bucket(2) [OF inv]], of pos key] by (simp add: HM_store_def GetKV_def)
  then show ?thesis using upd(1,2) by auto
qed

lemma insert_all_correct:
  "hm_inv H c m \<Longrightarrow> hm_size m + length kvs \<le> 2 ^ 62 \<Longrightarrow>
   \<exists>m'. insert_all (insert_or_assign H E) kvs m = Inr m' \<and> hm_inv H c m' \<and> hm_map c m' = fold (\<lambda>(k, v). map_insert c k v) kvs (hm_map c m) \<and>
     hm_size m' \<le> hm_size m + length kvs"
proof (induction kvs arbitrary: m)
  case (Cons kv kvs)
  obtain k v where kv: "kv = (k, v)" by (cases kv)
  obtain cur m1 where m1: "insert_or_assign H E k v m = Inr (cur, m1)" "hm_inv H c m1" "hm_map c m1 = map_insert c k v (hm_map c m)"
    "hm_size m1 = hm_size m + one (hm_map c m (c k) = None)" using insert_correct [OF Cons.prems(1)] Cons.prems(2) by fastforce
  then have "hm_size m1 + length kvs \<le> 2 ^ 62" using Cons.prems(2) by (auto split: if_splits)
  then obtain m2 where "insert_all (insert_or_assign H E) kvs m1 = Inr m2" "hm_inv H c m2"
    "hm_map c m2 = fold (\<lambda>(k, v). map_insert c k v) kvs (hm_map c m1)" "hm_size m2 \<le> hm_size m1 + length kvs"
    using Cons.IH [OF m1(2)] by blast
  then show ?case using m1 by (auto simp: kv split: if_splits)
qed simp

lemma fold_map_insert:
  "distinct (map (c \<circ> fst) kvs) \<Longrightarrow> (c \<circ> fst) ` set kvs \<inter> dom M = {} \<Longrightarrow> fold (\<lambda>(k, v). map_insert c k v) kvs M = M ++ map_of (keyed c kvs)"
proof (induction kvs arbitrary: M)
  case (Cons kv kvs)
  obtain k v where kv: "kv = (k, v)" by (cases kv)
  have "M (c k) = None" using Cons.prems(2) by (auto simp: kv)
  then have m: "map_insert c k v M = M(c k \<mapsto> (k, v))" by (simp add: map_insert_def)
  have nk: "c k \<notin> (c \<circ> fst) ` set kvs" "distinct (map (c \<circ> fst) kvs)" using Cons.prems(1) by (auto simp: kv comp_def)
  have "(c \<circ> fst) ` set kvs \<inter> dom (M(c k \<mapsto> (k, v))) = {}" using Cons.prems(2) nk by auto
  then have "fold (\<lambda>(k, v). map_insert c k v) kvs (M(c k \<mapsto> (k, v))) = M(c k \<mapsto> (k, v)) ++ map_of (keyed c kvs)"
    by (rule Cons.IH [OF nk(2)])
  moreover have "c k \<notin> dom (map_of (keyed c kvs))" using nk(1) by (simp add: dom_map_of_conv_image_fst fst_keyed)
  then have "M(c k \<mapsto> (k, v)) ++ map_of (keyed c kvs) = M ++ (map_of (keyed c kvs))(c k \<mapsto> (k, v))"
    using map_add_upd_left by simp
  moreover have "map_of (keyed c (kv # kvs)) = (map_of (keyed c kvs))(c k \<mapsto> (k, v))" by (auto simp: kv)
  ultimately show ?case by (simp only: kv m fold_simps case_prod_conv)
qed simp

lemma copy_correct:
  assumes inv: "hm_inv H c m" and sz: "hm_size m \<le> 2 ^ 62"
  shows "\<exists>m'. HM_copy H E m = Inr m' \<and> hm_inv H c m' \<and> hm_map c m' = hm_map c m"
proof -
  obtain d :: "('k, 'a) HashMap" where d: "HM_new 16 = Inr d" "hm_inv H c d" "hm_map c d = Map.empty" "hm_size d = 0"
    using new_inv [of 4] by auto
  have r: "range_entries m = Inr (hm_entries m)" by (rule range_entries_eq [OF inv_ok [OF inv] inv_shape(1) [OF inv]])
  have "length (hm_entries m) \<le> 2 ^ 62" using sz inv_shape(1) [OF inv] by (simp add: hm_shape_def)
  then obtain m' where "insert_all (insert_or_assign H E) (hm_entries m) d = Inr m'" "hm_inv H c m'"
    "hm_map c m' = fold (\<lambda>(k, v). map_insert c k v) (hm_entries m) Map.empty" using insert_all_correct [OF d(2), of "hm_entries m"] d(3,4) by auto
  moreover have "fold (\<lambda>(k, v). map_insert c k v) (hm_entries m) Map.empty = hm_map c m"
    using fold_map_insert [OF entries_distinct [OF inv], of Map.empty] by (simp add: hm_map_def)
  ultimately show ?thesis using d(1) r by (auto simp: HM_copy_def MergeFrom_def)
qed

end

section \<open>Keys compared with \<open>==\<close>\<close>

interpretation std_keys: hash_keys H "(=)" id for H :: "'k \<Rightarrow> 64 word"
  by unfold_locales auto

definition hm_abs :: "('k, 'v) HashMap \<Rightarrow> 'k \<rightharpoonup> 'v" where
  "hm_abs m = map_of (hm_entries m)"

lemma hm_map_id: "hm_map id m k = map_option (Pair k) (hm_abs m k)"
proof -
  have "map_of (keyed id kvs) k = map_option (Pair k) (map_of kvs k)" for kvs :: "('a \<times> 'b) list" by (induction kvs) auto
  then show ?thesis by (simp add: hm_map_def hm_abs_def)
qed

lemma hm_abs_eqI: "(\<And>k. hm_map id m k = map_option (Pair k) (M k)) \<Longrightarrow> hm_abs m = M"
proof (rule ext)
  fix k assume "\<And>k. hm_map id m k = map_option (Pair k) (M k)"
  then have "map_option (Pair k) (hm_abs m k) = map_option (Pair k) (M k)" by (simp add: hm_map_id)
  then show "hm_abs m k = M k" by (cases "hm_abs m k"; cases "M k") auto
qed

lemma hm_size_card: "hm_inv H id m \<Longrightarrow> hm_size m = card (dom (hm_abs m)) \<and> finite (dom (hm_abs m))"
  using std_keys.entries_distinct [of H m] std_keys.inv_shape(1) [of H m] distinct_card [of "map fst (hm_entries m)"]
  by (auto simp: hm_shape_def hm_abs_def dom_map_of_conv_image_fst finite_dom_map_of)

text \<open>Calls and what they return; next to them, what they mean for a map.\<close>

datatype ('k, 'v) map_op =
    Op_insert 'k 'v
  | Op_index 'k 'v
  | Op_erase 'k
  | Op_clear
  | Op_get 'k
  | Op_contains 'k
  | Op_size

datatype 'v map_out = Out_unit | Out_value "'v option" | Out_count nat | Out_bool bool

fun hm_do :: "('k \<Rightarrow> 64 word) \<Rightarrow> ('k, 'v) map_op \<Rightarrow> ('k, 'v) HashMap \<Rightarrow> ('v map_out \<times> ('k, 'v) HashMap) result" where
  "hm_do H (Op_insert k v) m = rbind (insert_or_assign H (=) k v m) (\<lambda>(_, m). Inr (Out_unit, m))"
| "hm_do H (Op_index k d) m = rbind (HM_index H (=) d k m) (\<lambda>(cur, m). rbind (HM_value cur m) (\<lambda>v. Inr (Out_value (Some v), m)))"
| "hm_do H (Op_erase k) m = rbind (HM_erase H (=) k m) (\<lambda>(n, m). Inr (Out_count n, m))"
| "hm_do H Op_clear m = rbind (HM_clear m) (\<lambda>m. Inr (Out_unit, m))"
| "hm_do H (Op_get k) m = rbind (TryGet H (=) k m) (\<lambda>v. Inr (Out_value v, m))"
| "hm_do H (Op_contains k) m = rbind (contains H (=) k m) (\<lambda>b. Inr (Out_bool b, m))"
| "hm_do H Op_size m = Inr (Out_count (hm_size m), m)"

fun map_do :: "('k, 'v) map_op \<Rightarrow> ('k \<rightharpoonup> 'v) \<Rightarrow> 'v map_out \<times> ('k \<rightharpoonup> 'v)" where
  "map_do (Op_insert k v) M = (Out_unit, M(k \<mapsto> v))"
| "map_do (Op_index k d) M = (case M k of None \<Rightarrow> (Out_value (Some d), M(k \<mapsto> d)) | Some v \<Rightarrow> (Out_value (Some v), M))"
| "map_do (Op_erase k) M = (Out_count (if M k = None then 0 else 1), M(k := None))"
| "map_do Op_clear M = (Out_unit, Map.empty)"
| "map_do (Op_get k) M = (Out_value (M k), M)"
| "map_do (Op_contains k) M = (Out_bool (M k \<noteq> None), M)"
| "map_do Op_size M = (Out_count (card (dom M)), M)"

fun hm_run :: "('k \<Rightarrow> 64 word) \<Rightarrow> ('k, 'v) map_op list \<Rightarrow> ('k, 'v) HashMap \<Rightarrow> ('v map_out list \<times> ('k, 'v) HashMap) result" where
  "hm_run H [] m = Inr ([], m)"
| "hm_run H (op # ops) m = rbind (hm_do H op m) (\<lambda>(r, m). rbind (hm_run H ops m) (\<lambda>(rs, m). Inr (r # rs, m)))"

fun map_run :: "('k, 'v) map_op list \<Rightarrow> ('k \<rightharpoonup> 'v) \<Rightarrow> 'v map_out list \<times> ('k \<rightharpoonup> 'v)" where
  "map_run [] M = ([], M)"
| "map_run (op # ops) M = (case map_do op M of (r, M) \<Rightarrow> (case map_run ops M of (rs, M) \<Rightarrow> (r # rs, M)))"

lemma hm_do_refines:
  assumes inv: "hm_inv H id m" and sz: "hm_size m < 2 ^ 62"
  shows "\<exists>m'. hm_do H op m = Inr (fst (map_do op (hm_abs m)), m') \<and> hm_inv H id m' \<and> hm_abs m' = snd (map_do op (hm_abs m)) \<and>
    hm_size m' \<le> hm_size m + 1"
proof (cases op)
  case (Op_insert k v)
  then show ?thesis using std_keys.insert_correct [OF inv sz, of k v]
    by (fastforce simp: hm_map_id map_insert_def intro!: hm_abs_eqI split: if_splits)
next
  case (Op_index k d)
  obtain cur m' where m': "HM_index H (=) d k m = Inr (cur, m')" "hm_inv H id m'" "hm_points id m' cur k"
    "hm_map id m' = (case hm_map id m k of None \<Rightarrow> map_insert id k d (hm_map id m) | Some _ \<Rightarrow> hm_map id m)" "hm_size m' \<le> hm_size m + 1"
    using std_keys.index_correct [OF inv sz, of d k] by auto
  obtain k' v where v: "hm_map id m' k = Some (k', v)" "HM_value cur m' = Inr v" using std_keys.value_correct [OF m'(2,3)] by auto
  have "hm_abs m' = snd (map_do op (hm_abs m))" using m'(4) Op_index
    by (intro hm_abs_eqI) (auto simp: hm_map_id map_insert_def split: option.splits)
  moreover have "fst (map_do op (hm_abs m)) = Out_value (Some v)" using v m'(4) Op_index
    by (auto simp: hm_map_id map_insert_def split: option.splits)
  ultimately show ?thesis using m' v(2) Op_index by simp
next
  case (Op_erase k)
  then show ?thesis using std_keys.erase_correct [OF inv, of k]
    by (fastforce simp: hm_map_id domIff intro!: hm_abs_eqI split: if_splits)
next
  case Op_clear
  then show ?thesis using std_keys.clear_correct [OF inv] by (fastforce simp: intro!: hm_abs_eqI)
next
  case (Op_get k)
  then show ?thesis using std_keys.TryGet_correct [OF inv, of k] inv by (simp add: hm_map_id option.map_comp comp_def option.map_ident)
next
  case (Op_contains k)
  then show ?thesis using std_keys.contains_correct [OF inv, of k] inv by (simp add: hm_map_id domIff)
next
  case Op_size
  then show ?thesis using inv hm_size_card [OF inv] by simp
qed

lemma hm_run_refines:
  "hm_inv H id m \<Longrightarrow> hm_size m + length ops < 2 ^ 62 \<Longrightarrow>
   \<exists>m'. hm_run H ops m = Inr (fst (map_run ops (hm_abs m)), m') \<and> hm_inv H id m' \<and> hm_abs m' = snd (map_run ops (hm_abs m))"
proof (induction ops arbitrary: m)
  case (Cons op ops)
  obtain m1 where m1: "hm_do H op m = Inr (fst (map_do op (hm_abs m)), m1)" "hm_inv H id m1" "hm_abs m1 = snd (map_do op (hm_abs m))"
    "hm_size m1 \<le> hm_size m + 1" using hm_do_refines [OF Cons.prems(1)] Cons.prems(2) by fastforce
  then obtain m2 where "hm_run H ops m1 = Inr (fst (map_run ops (hm_abs m1)), m2)" "hm_inv H id m2" "hm_abs m2 = snd (map_run ops (hm_abs m1))"
  proof -
    have "hm_size m1 + length ops < 2 ^ 62" using m1(4) Cons.prems(2) by simp
    then show ?thesis using Cons.IH [OF m1(2)] that by blast
  qed
  moreover from this have "hm_run H (op # ops) m = Inr (fst (map_run (op # ops) (hm_abs m)), m2)" using m1 by (simp add: case_prod_unfold)
  ultimately show ?case using m1(3) by (intro exI [of _ m2] conjI) (simp_all only: map_run.simps case_prod_unfold fst_conv snd_conv)
qed simp

lemma hm_run_new:
  assumes "2 < initial_capacity" "initial_capacity \<le> 2 ^ 62" "length ops < 2 ^ 62"
  shows "\<exists>m m'. HM_new initial_capacity = Inr m \<and> hm_run H ops m = Inr (fst (map_run ops Map.empty), m') \<and>
    hm_inv H id m' \<and> hm_abs m' = snd (map_run ops Map.empty)"
proof -
  obtain k where k: "2 \<le> k" "k < 64" "HM_new initial_capacity = (HM_new (2 ^ k) :: ('a, 'b) HashMap result)"
    using HM_new_round [OF assms(1,2)] by blast
  obtain m :: "('a, 'b) HashMap" where m: "HM_new (2 ^ k) = Inr m" "hm_inv H id m" "hm_map id m = Map.empty" "hm_size m = 0"
    using std_keys.new_inv [OF k(1,2), of H] by blast
  have "hm_abs m = Map.empty" using m(3) by (intro hm_abs_eqI) simp
  then show ?thesis using hm_run_refines [OF m(2), of ops] m k(3) assms(3) by auto
qed

text \<open>
  C19. The hash map is a map. Whatever the hash function and whatever calls are made on a new map of any
  capacity, no check fails and every call returns what it would return on a map: lookups find the
  value assigned last, \<^verbatim>\<open>erase\<close> tells whether there was something to erase, \<^verbatim>\<open>operator[]\<close> adds a missing key,
  and \<^verbatim>\<open>size\<close> is the number of keys. Growing the array, chains of colliding keys and moving the second
  node of a chain into the array make no difference.
\<close>

theorem hash_map_refines_map:
  assumes "2 < initial_capacity" "initial_capacity \<le> 2 ^ 62" "length ops < 2 ^ 62"
  shows "\<exists>m m'. HM_new initial_capacity = Inr m \<and> hm_run H ops m = Inr (fst (map_run ops Map.empty), m') \<and>
    hm_abs m' = snd (map_run ops Map.empty)"
  using hm_run_new [OF assms, of H] by blast

theorem hash_map_refines_map_witness:
  "\<exists>m m'. HM_new 4 = Inr m \<and>
     hm_run (\<lambda>_ :: nat. 0) [Op_insert 1 ''a'', Op_insert 2 ''b'', Op_insert 3 ''c'', Op_insert 4 ''d'', Op_erase 1, Op_get 2, Op_size] m =
       Inr ([Out_unit, Out_unit, Out_unit, Out_unit, Out_count 1, Out_value (Some ''b''), Out_count 3], m')"
  using hash_map_refines_map [of 4 "[Op_insert 1 ''a'', Op_insert 2 ''b'', Op_insert 3 ''c'', Op_insert 4 ''d'', Op_erase 1, Op_get 2, Op_size]" "\<lambda>_ :: nat. 0"]
  by auto

lemma range_entries_abs:
  assumes "hm_inv H id m"
  shows "\<exists>kvs. range_entries m = Inr kvs \<and> distinct (map fst kvs) \<and> length kvs = hm_size m \<and> map_of kvs = hm_abs m"
  using range_entries_eq [OF std_keys.inv_ok [OF assms] std_keys.inv_shape(1) [OF assms]] std_keys.entries_distinct [OF assms]
    std_keys.inv_shape(1) [OF assms] by (auto simp: hm_abs_def hm_shape_def)

text \<open>
  C34. The map stays well-formed under every sequence of calls: the capacity is a power of two and the number of
  buckets, the mask and the threshold belong to it, the size is the number of entries and within the threshold, every
  entry is in the bucket of its hash and no bucket holds a key twice, and no node of a chain is empty. A
  range-based \<^verbatim>\<open>for\<close> then visits every entry exactly once.
\<close>

theorem hash_map_well_formed:
  assumes "2 < initial_capacity" "initial_capacity \<le> 2 ^ 62" "length ops < 2 ^ 62"
  shows "\<exists>m rs m' kvs. HM_new initial_capacity = Inr m \<and> hm_run H ops m = Inr (rs, m') \<and> hm_inv H id m' \<and>
    range_entries m' = Inr kvs \<and> distinct (map fst kvs) \<and> length kvs = hm_size m' \<and> map_of kvs = snd (map_run ops Map.empty)"
  using hm_run_new [OF assms, of H] range_entries_abs [of H] by metis

theorem hash_map_well_formed_witness:
  "\<exists>m rs m' kvs. HM_new 4 = Inr m \<and> hm_run (\<lambda>_ :: nat. 0) [Op_insert 1 ''a'', Op_insert 2 ''b'', Op_erase 1] m = Inr (rs, m') \<and>
     hm_inv (\<lambda>_. 0) id m' \<and> range_entries m' = Inr kvs \<and> map_of kvs = [2 \<mapsto> ''b'']"
proof -
  have "(2 :: nat) < 4" "(4 :: nat) \<le> 2 ^ 62" "length [Op_insert 1 ''a'', Op_insert 2 ''b'', Op_erase (1 :: nat)] < 2 ^ 62" by simp_all
  from hash_map_well_formed [OF this, of "\<lambda>_. 0"] show ?thesis by fastforce
qed

section \<open>Case-insensitive keys\<close>

text \<open>
  The hash and the equality of \<^verbatim>\<open>flare/base/internal/case_insensitive_hash_map.h\<close>. The table is indexed with
  a \<^verbatim>\<open>char\<close>; the model is that of an unsigned one. Where it is signed, bytes from 0x80 index outside of the
  table.
\<close>

definition ci_kLowerChars :: "char list" where
  "ci_kLowerChars = map (\<lambda>index. if index \<ge> 65 \<and> index \<le> 90 then char_of (index - 65 + 97) else char_of index) [0 :: nat..<256]"

definition ci_ToLower :: "char \<Rightarrow> char" where
  "ci_ToLower ch = ci_kLowerChars ! of_char ch"

lemma ci_ToLower_eq: "ci_ToLower ch = (let n = of_char ch :: nat in if n \<ge> 65 \<and> n \<le> 90 then char_of (n - 65 + 97) else ch)"
  using of_char_bound [of ch] by (simp add: ci_ToLower_def ci_kLowerChars_def Let_def nth_append)

definition CaseInsensitiveHash :: "string \<Rightarrow> 64 word" where
  "CaseInsensitiveHash s = fold (\<lambda>ch hash. hash + (push_bit 5 hash + hash + of_nat (of_char (ci_ToLower ch)))) s 5381"

fun ci_equal_loop :: "string \<Rightarrow> string \<Rightarrow> bool" where
  "ci_equal_loop (x # xs) (y # ys) = (if ci_ToLower x \<noteq> ci_ToLower y then False else ci_equal_loop xs ys)"
| "ci_equal_loop _ _ = True"

definition CaseInsensitiveEqualTo :: "string \<Rightarrow> string \<Rightarrow> bool" where
  "CaseInsensitiveEqualTo x y = (if length x \<noteq> length y then False else ci_equal_loop x y)"

lemma ci_equal_iff: "CaseInsensitiveEqualTo x y \<longleftrightarrow> map ci_ToLower x = map ci_ToLower y"
proof -
  have "length x = length y \<Longrightarrow> ci_equal_loop x y \<longleftrightarrow> map ci_ToLower x = map ci_ToLower y"
    by (induction x y rule: list_induct2) auto
  then show ?thesis by (auto simp: CaseInsensitiveEqualTo_def dest: map_eq_imp_length_eq)
qed

lemma ci_hash_cong: "map ci_ToLower x = map ci_ToLower y \<Longrightarrow> CaseInsensitiveHash x = CaseInsensitiveHash y"
proof -
  have "CaseInsensitiveHash s = fold (\<lambda>ch hash. hash + (push_bit 5 hash + hash + of_nat (of_char ch))) (map ci_ToLower s) 5381" for s
    by (simp add: CaseInsensitiveHash_def fold_map comp_def)
  then show "map ci_ToLower x = map ci_ToLower y \<Longrightarrow> ?thesis" by simp
qed

interpretation ci_keys: hash_keys CaseInsensitiveHash CaseInsensitiveEqualTo "map ci_ToLower"
  by unfold_locales (rule ci_equal_iff, rule ci_hash_cong)

text \<open>
  The case-insensitive map finds a value whatever the case of the key it is looked up with, and
  assigning to a key that is present in another case replaces the value and keeps the key as it was
  first written.
\<close>

lemma case_insensitive_map:
  assumes "hm_inv CaseInsensitiveHash (map ci_ToLower) m" "hm_size m < 2 ^ 62"
  shows "\<exists>cur m'. insert_or_assign CaseInsensitiveHash CaseInsensitiveEqualTo key v m = Inr (cur, m') \<and>
    hm_inv CaseInsensitiveHash (map ci_ToLower) m' \<and>
    (\<forall>key'. TryGet CaseInsensitiveHash CaseInsensitiveEqualTo key' m' =
       (if map ci_ToLower key' = map ci_ToLower key then Inr (Some v) else TryGet CaseInsensitiveHash CaseInsensitiveEqualTo key' m)) \<and>
    fst ` set (hm_entries m') =
      (if \<exists>k \<in> fst ` set (hm_entries m). map ci_ToLower k = map ci_ToLower key then fst ` set (hm_entries m)
       else insert key (fst ` set (hm_entries m)))"
proof -
  obtain cur m' where m': "insert_or_assign CaseInsensitiveHash CaseInsensitiveEqualTo key v m = Inr (cur, m')"
    "hm_inv CaseInsensitiveHash (map ci_ToLower) m'" "hm_map (map ci_ToLower) m' = map_insert (map ci_ToLower) key v (hm_map (map ci_ToLower) m)"
    using ci_keys.insert_correct [OF assms] by blast
  moreover have "TryGet CaseInsensitiveHash CaseInsensitiveEqualTo key' m' =
    (if map ci_ToLower key' = map ci_ToLower key then Inr (Some v) else TryGet CaseInsensitiveHash CaseInsensitiveEqualTo key' m)" for key'
    by (simp add: ci_keys.TryGet_correct [OF m'(2)] ci_keys.TryGet_correct [OF assms(1)] m'(3) map_insert_def)
  ultimately show ?thesis using ci_keys.keys_insert [OF assms(1) m'(2,3)] by blast
qed

lemma ci_example:
  "\<exists>m :: (string, nat) HashMap. HM_new 16 = Inr m \<and> hm_inv CaseInsensitiveHash (map ci_ToLower) m \<and> hm_entries m = [] \<and> hm_size m = 0"
  using ci_keys.new_inv [of 4] by (auto simp: hm_inv_def hm_shape_def)

lemma case_insensitive_map_witness:
  "\<exists>m cur m'. HM_new 16 = Inr m \<and> insert_or_assign CaseInsensitiveHash CaseInsensitiveEqualTo ''Host'' (1 :: nat) m = Inr (cur, m') \<and>
     TryGet CaseInsensitiveHash CaseInsensitiveEqualTo ''hOST'' m' = Inr (Some 1)"
proof -
  obtain m :: "(string, nat) HashMap" where m: "HM_new 16 = Inr m" "hm_inv CaseInsensitiveHash (map ci_ToLower) m" "hm_size m = 0"
    using ci_example by blast
  have sz: "hm_size m < 2 ^ 62" using m(3) by simp
  have "map ci_ToLower ''hOST'' = map ci_ToLower ''Host''" by (simp add: ci_ToLower_eq char_of_def bit_0)
  then show ?thesis using case_insensitive_map [OF m(2) sz, of "''Host''" 1] m(1) by metis
qed

end
