(* ===== verification/Http_Headers.thy ===== *)
theory Http_Headers
  imports Hash_Map Strings
begin

text \<open>
  The header fields of HTTP messages (\<^verbatim>\<open>flare/net/http/http_headers.{h,cc}\<close>): the fields in their order,
  and a case-insensitive hash map from the name of a field to the first position at which it occurs.
  The strings the views refer to are kept alive by the object and are not modelled.
\<close>

section \<open>The fields and their index\<close>

record HttpHeaders =
  hh_fields :: "(string \<times> string) list"
  hh_header_idx :: "(string, nat) HashMap"

definition HttpHeaders_new :: "HttpHeaders result" where
  "HttpHeaders_new = rbind (HM_new 16) (\<lambda>idx. Inr \<lparr>hh_fields = [], hh_header_idx = idx\<rparr>)"

definition HH_clear :: "HttpHeaders \<Rightarrow> HttpHeaders result" where
  "HH_clear h = rbind (HM_clear (hh_header_idx h)) (\<lambda>idx. Inr \<lparr>hh_fields = [], hh_header_idx = idx\<rparr>)"

definition idx_get :: "string \<Rightarrow> (string, nat) HashMap \<Rightarrow> nat option result" where
  "idx_get key idx = TryGet CaseInsensitiveHash CaseInsensitiveEqualTo key idx"

text \<open>\<^verbatim>\<open>if (!header_idx_.contains(k)) header_idx_[k] = i;\<close>\<close>

definition index_field :: "string \<Rightarrow> nat \<Rightarrow> (string, nat) HashMap \<Rightarrow> (string, nat) HashMap result" where
  "index_field k i idx =
     rbind (contains CaseInsensitiveHash CaseInsensitiveEqualTo k idx) (\<lambda>present.
       if present then Inr idx
       else rbind (HM_index CaseInsensitiveHash CaseInsensitiveEqualTo 0 k idx) (\<lambda>(ref, idx). HM_store ref i idx))"

definition HH_contains :: "string \<Rightarrow> HttpHeaders \<Rightarrow> bool result" where
  "HH_contains key h = contains CaseInsensitiveHash CaseInsensitiveEqualTo key (hh_header_idx h)"

definition HH_TryGet :: "string \<Rightarrow> HttpHeaders \<Rightarrow> string option result" where
  "HH_TryGet key h =
     rbind (idx_get key (hh_header_idx h)) (\<lambda>idx_opt.
       case idx_opt of
         None \<Rightarrow> Inr None
       | Some i \<Rightarrow> if i < length (hh_fields h) then Inr (Some (snd (hh_fields h ! i))) else Inl Undefined_behaviour)"

definition HH_TryGetMultiple :: "string \<Rightarrow> HttpHeaders \<Rightarrow> string list" where
  "HH_TryGetMultiple key h = map snd (filter (\<lambda>(k, v). CaseInsensitiveEqualTo k key) (hh_fields h))"

definition HH_Append :: "string \<Rightarrow> string \<Rightarrow> HttpHeaders \<Rightarrow> HttpHeaders result" where
  "HH_Append key v h =
     check (Trim key = key) (check (Trim v = v)
       (rbind (index_field key (length (hh_fields h)) (hh_header_idx h)) (\<lambda>idx.
          Inr \<lparr>hh_fields = hh_fields h @ [(key, v)], hh_header_idx = idx\<rparr>)))"

fun HH_AppendMany :: "(string \<times> string) list \<Rightarrow> HttpHeaders \<Rightarrow> HttpHeaders result" where
  "HH_AppendMany [] h = Inr h"
| "HH_AppendMany ((k, v) # fs) h = rbind (HH_Append k v h) (HH_AppendMany fs)"

definition HH_Set :: "string \<Rightarrow> string \<Rightarrow> HttpHeaders \<Rightarrow> HttpHeaders result" where
  "HH_Set key v h =
     check (Trim key = key) (check (Trim v = v)
       (rbind (idx_get key (hh_header_idx h)) (\<lambda>idx_opt.
          case idx_opt of
            None \<Rightarrow> HH_Append key v h
          | Some i \<Rightarrow>
              if i < length (hh_fields h) then Inr (h\<lparr>hh_fields := (hh_fields h)[i := (fst (hh_fields h ! i), v)]\<rparr>)
              else Inl Undefined_behaviour)))"

text \<open>The loop of \<^verbatim>\<open>Remove\<close>: the fields still to be looked at, how many were kept, and the index.\<close>

fun Remove_loop :: "string \<Rightarrow> (string \<times> string) list \<Rightarrow> nat \<Rightarrow> (string, nat) HashMap \<Rightarrow> ((string \<times> string) list \<times> (string, nat) HashMap) result" where
  "Remove_loop key [] i idx = Inr ([], idx)"
| "Remove_loop key ((k, v) # fs) i idx =
     (if CaseInsensitiveEqualTo k key then Remove_loop key fs i idx
      else rbind (index_field k i idx) (\<lambda>idx.
           rbind (Remove_loop key fs (i + 1) idx) (\<lambda>(kept, idx). Inr ((k, v) # kept, idx))))"

definition HH_Remove :: "string \<Rightarrow> HttpHeaders \<Rightarrow> (bool \<times> HttpHeaders) result" where
  "HH_Remove key h =
     rbind (HH_TryGet key h) (\<lambda>found.
       if found = None then Inr (False, h)
       else rbind (HM_clear (hh_header_idx h)) (\<lambda>idx.
            rbind (Remove_loop key (hh_fields h) 0 idx) (\<lambda>(fs, idx).
              Inr (True, \<lparr>hh_fields = fs, hh_header_idx = idx\<rparr>))))"

definition HH_copy :: "HttpHeaders \<Rightarrow> HttpHeaders result" where
  "HH_copy other = rbind HttpHeaders_new (HH_AppendMany (hh_fields other))"

definition HH_ToString :: "HttpHeaders \<Rightarrow> string" where
  "HH_ToString h = concat (map (\<lambda>(k, v). k @ '': '' @ v @ [CHR 0x0D, CHR 0x0A]) (hh_fields h))"

text \<open>Used by the parser: the index is emptied, then built from the fields of the message.\<close>

definition RetrieveHeaderStorage :: "HttpHeaders \<Rightarrow> HttpHeaders result" where
  "RetrieveHeaderStorage h = rbind (HM_clear (hh_header_idx h)) (\<lambda>idx. Inr (h\<lparr>hh_header_idx := idx\<rparr>))"

fun RetrieveFields_loop :: "(string \<times> string) list \<Rightarrow> nat \<Rightarrow> (string, nat) HashMap \<Rightarrow> (string, nat) HashMap result" where
  "RetrieveFields_loop [] index idx = Inr idx"
| "RetrieveFields_loop ((k, v) # fs) index idx = rbind (index_field k index idx) (RetrieveFields_loop fs (index + 1))"

definition RetrieveFields :: "(string \<times> string) list \<Rightarrow> HttpHeaders \<Rightarrow> HttpHeaders result" where
  "RetrieveFields fs h = rbind (RetrieveFields_loop fs 0 (hh_header_idx h)) (\<lambda>idx. Inr \<lparr>hh_fields = fs, hh_header_idx = idx\<rparr>)"

section \<open>The invariant\<close>

abbreviation lower :: "string \<Rightarrow> string" where
  "lower \<equiv> map ci_ToLower"

text \<open>The first position at which a name occurs.\<close>

fun first_field :: "string \<Rightarrow> (string \<times> string) list \<Rightarrow> nat option" where
  "first_field x [] = None"
| "first_field x (kv # kvs) = (if lower (fst kv) = x then Some 0 else map_option Suc (first_field x kvs))"

definition idx_ok :: "(string \<times> string) list \<Rightarrow> (string, nat) HashMap \<Rightarrow> bool" where
  "idx_ok fs idx \<longleftrightarrow> hm_inv CaseInsensitiveHash lower idx \<and> hm_size idx \<le> length fs \<and>
     (\<forall>x. map_option snd (hm_map lower idx x) = first_field x fs)"

definition hh_inv :: "HttpHeaders \<Rightarrow> bool" where
  "hh_inv h \<longleftrightarrow> idx_ok (hh_fields h) (hh_header_idx h)"

lemma first_field_append:
  "first_field x (kvs @ kvs') = (case first_field x kvs of None \<Rightarrow> map_option ((+) (length kvs)) (first_field x kvs') | Some i \<Rightarrow> Some i)"
proof (induction kvs)
  case Nil
  then show ?case by (cases "first_field x kvs'") auto
next
  case (Cons kv kvs)
  then show ?case by (cases "first_field x kvs'") (auto split: option.splits)
qed

lemma first_field_Some: "first_field x kvs = Some i \<Longrightarrow> i < length kvs \<and> lower (fst (kvs ! i)) = x"
  by (induction kvs arbitrary: i) (auto split: if_splits)

lemma first_field_None: "first_field x kvs = None \<longleftrightarrow> (\<forall>kv \<in> set kvs. lower (fst kv) \<noteq> x)"
  by (induction kvs) auto

lemma index_field_ok:
  assumes ok: "idx_ok fs idx" and len: "length fs < 2 ^ 62"
  shows "\<exists>idx'. index_field k (length fs) idx = Inr idx' \<and> idx_ok (fs @ [(k, v)]) idx'"
proof -
  have inv: "hm_inv CaseInsensitiveHash lower idx" and sz: "hm_size idx < 2 ^ 62" "hm_size idx \<le> length fs"
    and ff: "\<And>x. map_option snd (hm_map lower idx x) = first_field x fs" using ok len by (auto simp: idx_ok_def)
  have con: "contains CaseInsensitiveHash CaseInsensitiveEqualTo k idx = Inr (lower k \<in> dom (hm_map lower idx))"
    by (rule ci_keys.contains_correct [OF inv])
  show ?thesis
  proof (cases "hm_map lower idx (lower k)")
    case None
    obtain ref m1 where m1: "HM_index CaseInsensitiveHash CaseInsensitiveEqualTo 0 k idx = Inr (ref, m1)" "hm_inv CaseInsensitiveHash lower m1"
      "hm_points lower m1 ref k" "hm_map lower m1 = map_insert lower k 0 (hm_map lower idx)" "hm_size m1 = hm_size idx + 1"
      using ci_keys.index_correct [OF inv sz(1), of 0 k] None by auto
    obtain m2 where m2: "HM_store ref (length fs) m1 = Inr m2" "hm_inv CaseInsensitiveHash lower m2"
      "hm_map lower m2 = map_insert lower k (length fs) (hm_map lower m1)" "hm_size m2 = hm_size m1"
      using ci_keys.store_correct [OF m1(2,3)] by blast
    have "map_option snd (hm_map lower m2 x) = first_field x (fs @ [(k, v)])" for x
      using ff [of x] ff [of "lower k"] None m1(4) m2(3) by (auto simp: first_field_append map_insert_def split: option.splits)
    then show ?thesis using con None m1 m2 sz(2) by (auto simp: index_field_def idx_ok_def domIff)
  next
    case (Some kv)
    have "map_option snd (hm_map lower idx x) = first_field x (fs @ [(k, v)])" for x
      using ff [of x] ff [of "lower k", symmetric] Some by (auto simp: first_field_append split: option.splits)
    then show ?thesis using con Some inv sz(2) by (auto simp: index_field_def idx_ok_def domIff)
  qed
qed

lemma idx_clear_ok:
  assumes "idx_ok fs idx"
  shows "\<exists>idx'. HM_clear idx = Inr idx' \<and> idx_ok [] idx'"
  using assms ci_keys.clear_correct [of idx] by (fastforce simp: idx_ok_def)

lemma RetrieveFields_loop_ok:
  "idx_ok done idx \<Longrightarrow> length done + length fs < 2 ^ 62 \<Longrightarrow> \<exists>idx'. RetrieveFields_loop fs (length done) idx = Inr idx' \<and> idx_ok (done @ fs) idx'"
proof (induction fs arbitrary: "done" idx)
  case (Cons kv fs)
  obtain k v where kv: "kv = (k, v)" by (cases kv)
  obtain idx1 where "index_field k (length done) idx = Inr idx1" "idx_ok (done @ [(k, v)]) idx1"
    using index_field_ok [OF Cons.prems(1)] Cons.prems(2) by fastforce
  then show ?case using Cons.IH [of "done @ [(k, v)]" idx1] Cons.prems(2) by (auto simp: kv)
qed simp

lemma Remove_loop_ok:
  "idx_ok done idx \<Longrightarrow> length done + length fs < 2 ^ 62 \<Longrightarrow>
   \<exists>idx'. Remove_loop key fs (length done) idx = Inr (filter (\<lambda>(k, v). lower k \<noteq> lower key) fs, idx') \<and>
     idx_ok (done @ filter (\<lambda>(k, v). lower k \<noteq> lower key) fs) idx'"
proof (induction fs arbitrary: "done" idx)
  case (Cons kv fs)
  obtain k v where kv: "kv = (k, v)" by (cases kv)
  show ?case
  proof (cases "lower k = lower key")
    case True
    then show ?thesis using Cons by (simp add: kv ci_equal_iff)
  next
    case False
    obtain idx1 where idx1: "index_field k (length done) idx = Inr idx1" "idx_ok (done @ [(k, v)]) idx1"
      using index_field_ok [OF Cons.prems(1)] Cons.prems(2) by fastforce
    then show ?thesis using Cons.IH [of "done @ [(k, v)]" idx1] Cons.prems(2) False by (auto simp: kv ci_equal_iff)
  qed
qed simp

lemma first_field_update: "i < length fs \<Longrightarrow> first_field x (fs[i := (fst (fs ! i), v)]) = first_field x fs"
proof (induction fs arbitrary: i)
  case (Cons kv fs)
  then show ?case by (cases i) auto
qed simp

section \<open>The operations on the list of fields\<close>

lemma idx_get_ok: "hh_inv h \<Longrightarrow> idx_get key (hh_header_idx h) = Inr (first_field (lower key) (hh_fields h))"
  by (simp add: hh_inv_def idx_ok_def idx_get_def ci_keys.TryGet_correct)

lemma hh_new_ok: "\<exists>h. HttpHeaders_new = Inr h \<and> hh_inv h \<and> hh_fields h = []"
proof -
  obtain m :: "(string, nat) HashMap" where m: "HM_new 16 = Inr m" "hm_inv CaseInsensitiveHash lower m"
      "hm_map lower m = Map.empty" "hm_size m = 0"
    using ci_keys.new_inv [of 4] by auto
  then have "idx_ok [] m" by (simp add: idx_ok_def)
  then show ?thesis using m(1) by (simp add: HttpHeaders_new_def hh_inv_def)
qed

lemma hh_Append_ok:
  assumes "hh_inv h" "length (hh_fields h) < 2 ^ 62" "Trim key = key" "Trim v = v"
  shows "\<exists>h'. HH_Append key v h = Inr h' \<and> hh_inv h' \<and> hh_fields h' = hh_fields h @ [(key, v)]"
  using assms index_field_ok [of "hh_fields h" "hh_header_idx h" key v] by (auto simp: HH_Append_def hh_inv_def)

lemma hh_TryGet_ok: "hh_inv h \<Longrightarrow> HH_TryGet key h = Inr (map_option (\<lambda>i. snd (hh_fields h ! i)) (first_field (lower key) (hh_fields h)))"
  using first_field_Some [of "lower key" "hh_fields h"] by (auto simp: HH_TryGet_def idx_get_ok split: option.splits)

text \<open>What \<^verbatim>\<open>Set\<close> means for the fields.\<close>

definition fields_set :: "string \<Rightarrow> string \<Rightarrow> (string \<times> string) list \<Rightarrow> (string \<times> string) list" where
  "fields_set key v fs =
     (case first_field (lower key) fs of None \<Rightarrow> fs @ [(key, v)] | Some i \<Rightarrow> fs[i := (fst (fs ! i), v)])"

lemma hh_Set_ok:
  assumes "hh_inv h" "length (hh_fields h) < 2 ^ 62" "Trim key = key" "Trim v = v"
  shows "\<exists>h'. HH_Set key v h = Inr h' \<and> hh_inv h' \<and> hh_fields h' = fields_set key v (hh_fields h)"
proof (cases "first_field (lower key) (hh_fields h)")
  case None
  then show ?thesis using hh_Append_ok [OF assms] assms by (simp add: HH_Set_def idx_get_ok fields_set_def)
next
  case (Some i)
  then show ?thesis using first_field_Some [OF Some] assms
    by (auto simp: HH_Set_def idx_get_ok fields_set_def hh_inv_def idx_ok_def first_field_update)
qed

lemma hh_Remove_ok:
  assumes "hh_inv h" "length (hh_fields h) < 2 ^ 62"
  shows "\<exists>h'. HH_Remove key h = Inr (\<exists>kv \<in> set (hh_fields h). lower (fst kv) = lower key, h') \<and> hh_inv h' \<and>
    hh_fields h' = filter (\<lambda>(k, v). lower k \<noteq> lower key) (hh_fields h)"
proof (cases "first_field (lower key) (hh_fields h)")
  case None
  then have "\<forall>kv \<in> set (hh_fields h). lower (fst kv) \<noteq> lower key" by (simp add: first_field_None)
  moreover from this have "filter (\<lambda>(k, v). lower k \<noteq> lower key) (hh_fields h) = hh_fields h" by (auto intro!: filter_True)
  ultimately show ?thesis using None assms(1) by (auto simp: HH_Remove_def hh_TryGet_ok)
next
  case (Some i)
  then have ex: "\<exists>kv \<in> set (hh_fields h). lower (fst kv) = lower key" using first_field_Some [OF Some] nth_mem by blast
  obtain idx where idx: "HM_clear (hh_header_idx h) = Inr idx" "idx_ok [] idx" using idx_clear_ok assms(1) unfolding hh_inv_def by blast
  then show ?thesis using Remove_loop_ok [OF idx(2), of "hh_fields h" key] assms Some ex by (auto simp: HH_Remove_def hh_TryGet_ok hh_inv_def)
qed

lemma hh_Retrieve_ok:
  assumes "hh_inv h" "length fs < 2 ^ 62"
  shows "\<exists>h'. rbind (RetrieveHeaderStorage h) (RetrieveFields fs) = Inr h' \<and> hh_inv h' \<and> hh_fields h' = fs"
proof -
  obtain idx where idx: "HM_clear (hh_header_idx h) = Inr idx" "idx_ok [] idx" using idx_clear_ok assms(1) unfolding hh_inv_def by blast
  then show ?thesis using RetrieveFields_loop_ok [OF idx(2), of fs] assms(2)
    by (auto simp: RetrieveHeaderStorage_def RetrieveFields_def hh_inv_def)
qed

lemma hh_clear_ok: "hh_inv h \<Longrightarrow> \<exists>h'. HH_clear h = Inr h' \<and> hh_inv h' \<and> hh_fields h' = []"
  using idx_clear_ok [of "hh_fields h" "hh_header_idx h"] by (auto simp: HH_clear_def hh_inv_def)

lemma hh_contains_ok:
  assumes "hh_inv h"
  shows "HH_contains key h = Inr (\<exists>kv \<in> set (hh_fields h). lower (fst kv) = lower key)"
proof -
  have inv: "hm_inv CaseInsensitiveHash lower (hh_header_idx h)"
    and ff: "map_option snd (hm_map lower (hh_header_idx h) (lower key)) = first_field (lower key) (hh_fields h)"
    using assms by (auto simp: hh_inv_def idx_ok_def)
  have "hm_map lower (hh_header_idx h) (lower key) = None \<longleftrightarrow> (\<forall>kv \<in> set (hh_fields h). lower (fst kv) \<noteq> lower key)"
    unfolding first_field_None [symmetric] ff [symmetric] by simp
  then show ?thesis using ci_keys.contains_correct [OF inv, of key] by (auto simp: HH_contains_def)
qed

lemma hh_AppendMany_ok:
  "hh_inv h \<Longrightarrow> length (hh_fields h) + length fs < 2 ^ 62 \<Longrightarrow> \<forall>(k, v) \<in> set fs. Trim k = k \<and> Trim v = v \<Longrightarrow>
   \<exists>h'. HH_AppendMany fs h = Inr h' \<and> hh_inv h' \<and> hh_fields h' = hh_fields h @ fs"
proof (induction fs arbitrary: h)
  case (Cons kv fs)
  obtain k v where kv: "kv = (k, v)" by (cases kv)
  obtain h1 where h1: "HH_Append k v h = Inr h1" "hh_inv h1" "hh_fields h1 = hh_fields h @ [(k, v)]"
    using hh_Append_ok [OF Cons.prems(1), of k v] Cons.prems by (auto simp: kv)
  then show ?case using Cons.IH [OF h1(2)] Cons.prems by (simp add: kv)
qed simp

lemma hh_AppendMany_untrimmed:
  "hh_inv h \<Longrightarrow> length (hh_fields h) + length fs < 2 ^ 62 \<Longrightarrow> \<exists>(k, v) \<in> set fs. Trim k \<noteq> k \<or> Trim v \<noteq> v \<Longrightarrow>
   HH_AppendMany fs h = Inl Check_failed"
proof (induction fs arbitrary: h)
  case (Cons kv fs)
  obtain k v where kv: "kv = (k, v)" by (cases kv)
  show ?case
  proof (cases "Trim k = k \<and> Trim v = v")
    case True
    then obtain h1 where h1: "HH_Append k v h = Inr h1" "hh_inv h1" "hh_fields h1 = hh_fields h @ [(k, v)]"
      using hh_Append_ok [OF Cons.prems(1), of k v] Cons.prems by auto
    then show ?thesis using Cons.IH [OF h1(2)] Cons.prems True by (simp add: kv)
  next
    case False
    then have "HH_Append k v h = Inl Check_failed" by (auto simp: HH_Append_def check_def)
    then show ?thesis by (simp add: kv)
  qed
qed simp

section \<open>Sequences of operations\<close>

datatype hh_op = hh_Append string string | hh_Set string string | hh_Remove string | hh_Clear

fun hh_do :: "hh_op \<Rightarrow> HttpHeaders \<Rightarrow> HttpHeaders result" where
  "hh_do (hh_Append k v) h = HH_Append k v h"
| "hh_do (hh_Set k v) h = HH_Set k v h"
| "hh_do (hh_Remove k) h = rbind (HH_Remove k h) (\<lambda>(r, h). Inr h)"
| "hh_do hh_Clear h = HH_clear h"

fun hh_run :: "hh_op list \<Rightarrow> HttpHeaders \<Rightarrow> HttpHeaders result" where
  "hh_run [] h = Inr h"
| "hh_run (a # as) h = rbind (hh_do a h) (hh_run as)"

text \<open>What an operation means for the list of fields, the specification.\<close>

fun fields_do :: "hh_op \<Rightarrow> (string \<times> string) list \<Rightarrow> (string \<times> string) list" where
  "fields_do (hh_Append k v) fs = fs @ [(k, v)]"
| "fields_do (hh_Set k v) fs = fields_set k v fs"
| "fields_do (hh_Remove k) fs = filter (\<lambda>(k', v). lower k' \<noteq> lower k) fs"
| "fields_do hh_Clear fs = []"

fun hh_op_ok :: "hh_op \<Rightarrow> bool" where
  "hh_op_ok (hh_Append k v) \<longleftrightarrow> Trim k = k \<and> Trim v = v"
| "hh_op_ok (hh_Set k v) \<longleftrightarrow> Trim k = k \<and> Trim v = v"
| "hh_op_ok (hh_Remove k) \<longleftrightarrow> True"
| "hh_op_ok hh_Clear \<longleftrightarrow> True"

lemma length_fields_do: "length (fields_do a fs) \<le> length fs + 1"
proof (cases a)
  case (hh_Remove k)
  then show ?thesis by (simp add: le_SucI)
qed (simp_all add: fields_set_def split: option.splits)

lemma hh_do_ok:
  assumes "hh_inv h" "length (hh_fields h) < 2 ^ 62" "hh_op_ok a"
  shows "\<exists>h'. hh_do a h = Inr h' \<and> hh_inv h' \<and> hh_fields h' = fields_do a (hh_fields h)"
proof (cases a)
  case (hh_Append k v)
  then show ?thesis using hh_Append_ok [OF assms(1,2), of k v] assms(3) by simp
next
  case (hh_Set k v)
  then show ?thesis using hh_Set_ok [OF assms(1,2), of k v] assms(3) by simp
next
  case (hh_Remove k)
  then show ?thesis using hh_Remove_ok [OF assms(1,2), of k] by auto
next
  case hh_Clear
  then show ?thesis using hh_clear_ok [OF assms(1)] by simp
qed

lemma hh_run_ok:
  "hh_inv h \<Longrightarrow> length (hh_fields h) + length as \<le> 2 ^ 62 \<Longrightarrow> list_all hh_op_ok as \<Longrightarrow>
   \<exists>h'. hh_run as h = Inr h' \<and> hh_inv h' \<and> hh_fields h' = fold fields_do as (hh_fields h)"
proof (induction as arbitrary: h)
  case (Cons a as)
  obtain h1 where h1: "hh_do a h = Inr h1" "hh_inv h1" "hh_fields h1 = fields_do a (hh_fields h)"
    using hh_do_ok [OF Cons.prems(1), of a] Cons.prems by auto
  then show ?case using Cons.IH [OF h1(2)] Cons.prems length_fields_do [of a "hh_fields h"] by simp
qed simp

definition header_value :: "string \<Rightarrow> (string \<times> string) list \<Rightarrow> string option" where
  "header_value key fs = map_option snd (find (\<lambda>(k, v). lower k = lower key) fs)"

lemma header_value_first: "map_option (\<lambda>i. snd (fs ! i)) (first_field (lower key) fs) = header_value key fs"
  unfolding header_value_def by (induction fs) (auto simp: option.map_comp comp_def)

lemma hh_TryGetMultiple_ok: "HH_TryGetMultiple key h = map snd (filter (\<lambda>(k, v). lower k = lower key) (hh_fields h))"
  by (simp add: HH_TryGetMultiple_def ci_equal_iff)

section \<open>Properties\<close>





end
