(* ===== verification/Http_Message.thy ===== *)
theory Http_Message
  imports Http_Headers Buffer_Builder
begin

text \<open>
  The messages of the HTTP support: versions, methods and status codes with their texts
  (\<^verbatim>\<open>flare/net/http/types.{h,cc}\<close>) and requests and responses (\<^verbatim>\<open>flare/net/http/http_message.{h,cc}\<close>,
  \<^verbatim>\<open>http_request.{h,cc}\<close>, \<^verbatim>\<open>http_response.{h,cc}\<close>).

  A status is any \<^verbatim>\<open>int\<close>: the parser converts what it reads to the enumeration. Methods and versions are only
  set to enumerators.
\<close>

section \<open>Versions, methods and status codes\<close>

datatype HttpVersion = Version_Unspecified | V_1_0 | V_1_1 | V_2 | V_3

datatype HttpMethod = Method_Unspecified | Head | Get | Post | Put | Delete | Options | Trace | Connect | Patch

type_synonym HttpStatus = int

definition HttpStatus_enumerators :: "HttpStatus list" where
  "HttpStatus_enumerators = [
    100, 101, 103, 200, 201, 202, 203, 204, 205, 206, 300, 301, 302, 303, 304, 307, 308, 400, 401, 402, 403, 404,
    405, 406, 407, 408, 409, 410, 411, 412, 413, 414, 415, 416, 417, 418, 422, 425, 426, 428, 429, 431, 451, 500,
    501, 502, 503, 504, 505, 506, 507, 508, 510, 511]"

text \<open>The arrays of 600 texts, given by the entries that are set. The others are empty.\<close>

definition kStatusCodes :: "(nat \<times> string) list" where
  "kStatusCodes = [
    (100, ''Continue''), (101, ''Switching Protocols''), (103, ''Early Hints''), (200, ''OK''), (201, ''Created''),
    (202, ''Accepted''), (203, ''Non-Authoritative Information''), (204, ''No Content''), (205, ''Reset Content''),
    (206, ''Partial Content''), (300, ''Multiple Choices''), (301, ''Moved Permanently''), (302, ''Found''),
    (303, ''See Other''), (304, ''Not Modified''), (307, ''Temporary Redirect''), (308, ''Permanent Redirect''),
    (400, ''Bad Request''), (401, ''Unauthorized''), (402, ''Payment Required''), (403, ''Forbidden''),
    (404, ''Not Found''), (405, ''Method Not Allowed''), (406, ''Not Acceptable''),
    (407, ''Proxy Authentication Required''), (408, ''Request Timeout''), (409, ''Conflict''), (410, ''Gone''),
    (411, ''Length Required''), (412, ''Precondition Failed''), (413, ''Payload Too Large''),
    (414, ''URI Too Long''), (415, ''Unsupported Media Type''), (416, ''Range Not Satisfiable''),
    (417, ''Expectation Failed''), (418, ''I'' @ [CHR 0x27] @ ''m a teapot''), (422, ''Unprocessable Entity''),
    (425, ''Too Early''), (426, ''Upgrade Required''), (428, ''Precondition Required''),
    (429, ''Too Many Requests''), (431, ''Request Header Fields Too Large''),
    (451, ''Unavailable For Legal Reasons''), (500, ''Internal Server Error''), (501, ''Not Implemented''),
    (502, ''Bad Gateway''), (503, ''Service Unavailable''), (504, ''Gateway Timeout''),
    (505, ''HTTP Version Not Supported''), (506, ''Variant Also Negotiates''), (507, ''Insufficient Storage''),
    (508, ''Loop Detected''), (510, ''Not Extended''), (511, ''Network Authentication Required'')]"

definition kStatusCodeWithDesc :: "(nat \<times> string) list" where
  "kStatusCodeWithDesc = [
    (100, ''100 Continue''), (101, ''101 Switching Protocols''), (103, ''103 Early Hints''), (200, ''200 OK''),
    (201, ''201 Created''), (202, ''202 Accepted''), (203, ''203 Non-Authoritative Information''),
    (204, ''204 No Content''), (205, ''205 Reset Content''), (206, ''206 Partial Content''),
    (300, ''300 Multiple Choices''), (301, ''301 Moved Permanently''), (302, ''302 Found''),
    (303, ''303 See Other''), (304, ''304 Not Modified''), (307, ''307 Temporary Redirect''),
    (308, ''308 Permanent Redirect''), (400, ''400 Bad Request''), (401, ''401 Unauthorized''),
    (402, ''402 Payment Required''), (403, ''403 Forbidden''), (404, ''404 Not Found''),
    (405, ''405 Method Not Allowed''), (406, ''406 Not Acceptable''), (407, ''407 Proxy Authentication Required''),
    (408, ''408 Request Timeout''), (409, ''409 Conflict''), (410, ''410 Gone''), (411, ''411 Length Required''),
    (412, ''412 Precondition Failed''), (413, ''413 Payload Too Large''), (414, ''414 URI Too Long''),
    (415, ''415 Unsupported Media Type''), (416, ''416 Range Not Satisfiable''), (417, ''417 Expectation Failed''),
    (418, ''418 I'' @ [CHR 0x27] @ ''m a teapot''), (422, ''422 Unprocessable Entity''), (425, ''425 Too Early''),
    (426, ''426 Upgrade Required''), (428, ''428 Precondition Required''), (429, ''429 Too Many Requests''),
    (431, ''431 Request Header Fields Too Large''), (451, ''451 Unavailable For Legal Reasons''),
    (500, ''500 Internal Server Error''), (501, ''501 Not Implemented''), (502, ''502 Bad Gateway''),
    (503, ''503 Service Unavailable''), (504, ''504 Gateway Timeout''), (505, ''505 HTTP Version Not Supported''),
    (506, ''506 Variant Also Negotiates''), (507, ''507 Insufficient Storage''), (508, ''508 Loop Detected''),
    (510, ''510 Not Extended''), (511, ''511 Network Authentication Required'')]"

definition status_text_at :: "(nat \<times> string) list \<Rightarrow> nat \<Rightarrow> string result" where
  "status_text_at descs v = (if v < 600 then Inr (case map_of descs v of None \<Rightarrow> [] | Some s \<Rightarrow> s) else Inl Undefined_behaviour)"

definition ToStringView_Status :: "HttpStatus \<Rightarrow> string result" where
  "ToStringView_Status v = (if v < 0 \<or> v > 600 then Inr [] else status_text_at kStatusCodes (nat v))"

definition GetStatusCodeWithDescString :: "HttpStatus \<Rightarrow> string result" where
  "GetStatusCodeWithDescString v = (if v < 0 \<or> v > 600 then Inr [] else status_text_at kStatusCodeWithDesc (nat v))"

fun ToStringView_Version :: "HttpVersion \<Rightarrow> string" where
  "ToStringView_Version Version_Unspecified = ''(Unspecified)''"
| "ToStringView_Version V_1_0 = ''HTTP/1.0''"
| "ToStringView_Version V_1_1 = ''HTTP/1.1''"
| "ToStringView_Version V_2 = ''HTTP/2''"
| "ToStringView_Version V_3 = ''HTTP/3''"

fun ToStringView_Method :: "HttpMethod \<Rightarrow> string" where
  "ToStringView_Method Method_Unspecified = ''UNSPECIFIED''"
| "ToStringView_Method Head = ''HEAD''"
| "ToStringView_Method Get = ''GET''"
| "ToStringView_Method Post = ''POST''"
| "ToStringView_Method Put = ''PUT''"
| "ToStringView_Method Delete = ''DELETE''"
| "ToStringView_Method Options = ''OPTIONS''"
| "ToStringView_Method Trace = ''TRACE''"
| "ToStringView_Method Connect = ''CONNECT''"
| "ToStringView_Method Patch = ''PATCH''"

definition kMethodEnumerators :: "(string \<times> HttpMethod) list" where
  "kMethodEnumerators = [
    (''UNSPECIFIED'', Method_Unspecified), (''HEAD'', Head), (''GET'', Get), (''POST'', Post), (''PUT'', Put),
    (''DELETE'', Delete), (''TRACE'', Trace), (''CONNECT'', Connect), (''PATCH'', Patch)]"

definition TryParse_Method :: "string \<Rightarrow> HttpMethod option" where
  "TryParse_Method s = map_of kMethodEnumerators s"

section \<open>Messages\<close>

record HttpMessage =
  msg_version :: HttpVersion
  msg_headers :: HttpHeaders
  msg_body_str :: "string option"
  msg_body :: "NoncontiguousBuffer option"

record HttpRequest = HttpMessage +
  req_method :: HttpMethod
  req_uri :: string

record HttpResponse = HttpMessage +
  rsp_status :: HttpStatus

definition HttpRequest_new :: "HttpRequest result" where
  "HttpRequest_new = rbind HttpHeaders_new (\<lambda>h.
     Inr \<lparr>msg_version = Version_Unspecified, msg_headers = h, msg_body_str = None, msg_body = None,
          req_method = Method_Unspecified, req_uri = []\<rparr>)"

definition HttpResponse_new :: "HttpResponse result" where
  "HttpResponse_new = rbind HttpHeaders_new (\<lambda>h.
     Inr \<lparr>msg_version = Version_Unspecified, msg_headers = h, msg_body_str = None, msg_body = None, rsp_status = 200\<rparr>)"

definition StringifyBody :: "'a HttpMessage_scheme \<Rightarrow> string \<times> 'a HttpMessage_scheme" where
  "StringifyBody m =
     (let s = (case msg_body m of None \<Rightarrow> [] | Some b \<Rightarrow> FlattenSlow b (2 ^ 64 - 1)) in (s, m\<lparr>msg_body_str := Some s\<rparr>))"

text \<open>\<^verbatim>\<open>body()\<close> returns a pointer to the string; assigning through it is an operation of its own.\<close>

definition HttpMessage_body :: "'a HttpMessage_scheme \<Rightarrow> string \<times> 'a HttpMessage_scheme" where
  "HttpMessage_body m = (case msg_body_str m of Some s \<Rightarrow> (s, m) | None \<Rightarrow> StringifyBody m)"

definition store_body :: "string \<Rightarrow> 'a HttpMessage_scheme \<Rightarrow> 'a HttpMessage_scheme" where
  "store_body s m = (snd (HttpMessage_body m))\<lparr>msg_body_str := Some s\<rparr>"

definition set_body_nb :: "NoncontiguousBuffer \<Rightarrow> 'a HttpMessage_scheme \<Rightarrow> 'a HttpMessage_scheme" where
  "set_body_nb nb m = m\<lparr>msg_body_str := None, msg_body := Some nb\<rparr>"

definition set_body_str :: "string \<Rightarrow> 'a HttpMessage_scheme \<Rightarrow> 'a HttpMessage_scheme" where
  "set_body_str s m = m\<lparr>msg_body_str := Some s, msg_body := None\<rparr>"

definition body_size :: "'a HttpMessage_scheme \<Rightarrow> nat" where
  "body_size m =
     (case msg_body_str m of
        Some s \<Rightarrow> length s
      | None \<Rightarrow> (case msg_body m of Some b \<Rightarrow> NB_ByteSize b | None \<Rightarrow> 0))"

definition HttpMessage_clear :: "'a HttpMessage_scheme \<Rightarrow> 'a HttpMessage_scheme result" where
  "HttpMessage_clear m = rbind (HH_clear (msg_headers m)) (\<lambda>h. Inr (m\<lparr>msg_headers := h, msg_body_str := None, msg_body := None\<rparr>))"

definition HttpRequest_clear :: "HttpRequest \<Rightarrow> HttpRequest result" where
  "HttpRequest_clear m = rbind (HttpMessage_clear m) (\<lambda>m. Inr (m\<lparr>req_method := Method_Unspecified, req_uri := []\<rparr>))"

definition HttpResponse_clear :: "HttpResponse \<Rightarrow> HttpResponse result" where
  "HttpResponse_clear m = rbind (HttpMessage_clear m) (\<lambda>m. Inr (m\<lparr>rsp_status := 200\<rparr>))"

definition body_to_string :: "'a HttpMessage_scheme \<Rightarrow> string" where
  "body_to_string m = (case msg_body m of Some b \<Rightarrow> FlattenSlow b (2 ^ 64 - 1) | None \<Rightarrow> fst (HttpMessage_body m))"

definition HttpRequest_ToString :: "HttpRequest \<Rightarrow> string" where
  "HttpRequest_ToString m =
     ToStringView_Method (req_method m) @ '' '' @ req_uri m @ '' '' @ ToStringView_Version (msg_version m) @ [CHR 0x0D, CHR 0x0A] @
     concat (map (\<lambda>(k, v). k @ '': '' @ v @ [CHR 0x0D, CHR 0x0A]) (hh_fields (msg_headers m))) @
     [CHR 0x0D, CHR 0x0A] @ body_to_string m"

definition HttpResponse_ToString :: "HttpResponse \<Rightarrow> string result" where
  "HttpResponse_ToString m =
     rbind (ToStringView_Status (rsp_status m)) (\<lambda>desc. Inr (
       ToStringView_Version (msg_version m) @ '' '' @ print_int (rsp_status m) @ '' '' @ desc @ [CHR 0x0D, CHR 0x0A] @
       concat (map (\<lambda>(k, v). k @ '': '' @ v @ [CHR 0x0D, CHR 0x0A]) (hh_fields (msg_headers m))) @
       [CHR 0x0D, CHR 0x0A] @ body_to_string m))"

definition GenerateDefaultResponsePage :: "HttpStatus \<Rightarrow> HttpResponse \<Rightarrow> string \<Rightarrow> string \<Rightarrow> HttpResponse result" where
  "GenerateDefaultResponsePage status response title body =
     rbind (HH_Append ''Content-Type'' ''text/html'' (msg_headers response)) (\<lambda>h.
     rbind (if title \<noteq> [] then Inr title else rbind (GetStatusCodeWithDescString status) (\<lambda>s. Inr (''HTTP '' @ s))) (\<lambda>title.
     rbind (if body \<noteq> [] then Inr body else GetStatusCodeWithDescString status) (\<lambda>body.
       Inr (set_body_str (''<html>'' @ [CHR 0x0A] @ ''<head>'' @ [CHR 0x0A] @ ''<title>'' @ title @
              ''</title>'' @ [CHR 0x0A] @ ''</head>'' @ [CHR 0x0A] @ ''<body>'' @ body @ ''</body>'' @ [CHR 0x0A] @ ''</html>'' @ [CHR 0x0A])
            (response\<lparr>rsp_status := status, msg_headers := h\<rparr>)))))"

section \<open>The texts\<close>

lemma char_digits:
  "char_of (48 :: nat) = CHR ''0''" "char_of (49 :: nat) = CHR ''1''" "char_of (50 :: nat) = CHR ''2''" "char_of (51 :: nat) = CHR ''3''"
  "char_of (52 :: nat) = CHR ''4''" "char_of (53 :: nat) = CHR ''5''" "char_of (54 :: nat) = CHR ''6''" "char_of (55 :: nat) = CHR ''7''"
  "char_of (56 :: nat) = CHR ''8''" "char_of (57 :: nat) = CHR ''9''"
  by (simp_all add: char_of_def bit_0)

lemma status_tables:
  "list_all2 (\<lambda>(v, desc) (v', s). v' = v \<and> s = print_nat v @ '' '' @ desc \<and> desc \<noteq> [] \<and> v < 600) kStatusCodes kStatusCodeWithDesc"
  by (simp add: kStatusCodes_def kStatusCodeWithDesc_def print_nat.simps char_digits)

lemma status_enumerators: "map (int \<circ> fst) kStatusCodes = HttpStatus_enumerators"
  by (simp add: kStatusCodes_def HttpStatus_enumerators_def)

lemma map_of_related:
  "list_all2 (\<lambda>(k, a) (k', b). k' = k \<and> P k a b) xs ys \<Longrightarrow>
   (case map_of xs k of None \<Rightarrow> map_of ys k = None | Some a \<Rightarrow> \<exists>b. map_of ys k = Some b \<and> P k a b)"
proof (induction xs ys rule: list_all2_induct)
  case (Cons x xs y ys)
  then show ?case by (cases x; cases y; cases "map_of xs k") auto
qed simp

lemma status_text:
  assumes "0 \<le> v" "v < 600"
  obtains (known) desc where "v \<in> set HttpStatus_enumerators" "desc \<noteq> []" "ToStringView_Status v = Inr desc"
      "GetStatusCodeWithDescString v = Inr (print_int v @ '' '' @ desc)"
    | (unknown) "v \<notin> set HttpStatus_enumerators" "ToStringView_Status v = Inr []" "GetStatusCodeWithDescString v = Inr []"
proof -
  have bound: "nat v < 600" using assms by auto
  have mem: "v \<in> set HttpStatus_enumerators \<longleftrightarrow> nat v \<in> fst ` set kStatusCodes"
    using assms(1) unfolding status_enumerators [symmetric] by force
  have rel: "case map_of kStatusCodes (nat v) of None \<Rightarrow> map_of kStatusCodeWithDesc (nat v) = None
    | Some desc \<Rightarrow> \<exists>s. map_of kStatusCodeWithDesc (nat v) = Some s \<and> s = print_nat (nat v) @ '' '' @ desc \<and> desc \<noteq> [] \<and> nat v < 600"
    by (rule map_of_related [where P = "\<lambda>v desc s. s = print_nat v @ '' '' @ desc \<and> desc \<noteq> [] \<and> v < 600", OF status_tables])
  show ?thesis
  proof (cases "map_of kStatusCodes (nat v)")
    case None
    then have "nat v \<notin> fst ` set kStatusCodes" by (simp add: map_of_eq_None_iff)
    then show ?thesis using unknown None rel assms bound mem
      by (simp add: ToStringView_Status_def GetStatusCodeWithDescString_def status_text_at_def)
  next
    case (Some desc)
    then have "nat v \<in> fst ` set kStatusCodes" by (metis domI dom_map_of_conv_image_fst)
    then show ?thesis using known [of desc] Some rel assms bound mem
      by (simp add: ToStringView_Status_def GetStatusCodeWithDescString_def status_text_at_def print_int_def)
  qed
qed

lemma method_text: "TryParse_Method (ToStringView_Method m) = (if m = Options then None else Some m)"
  by (cases m) (simp_all add: TryParse_Method_def kMethodEnumerators_def)

text \<open>
  C36. The two tables of status texts agree for every status but 600: the text for the status line is the number, a
  space and the description for the named status codes, and both are empty for all others. For 600, which the bounds
  check lets through, both read behind the end of their arrays.
\<close>

theorem http_status_texts:
  "if v = 600 then ToStringView_Status v = Inl Undefined_behaviour \<and> GetStatusCodeWithDescString v = Inl Undefined_behaviour
   else if v \<in> set HttpStatus_enumerators
   then \<exists>desc. desc \<noteq> [] \<and> ToStringView_Status v = Inr desc \<and> GetStatusCodeWithDescString v = Inr (print_int v @ '' '' @ desc)
   else ToStringView_Status v = Inr [] \<and> GetStatusCodeWithDescString v = Inr []"
proof (cases "0 \<le> v \<and> v < 600")
  case True
  then have "0 \<le> v" "v < 600" and ne: "v \<noteq> 600" by simp_all
  from this(1,2) show ?thesis by (cases rule: status_text) (simp_all add: ne)
next
  case False
  have "v \<notin> set HttpStatus_enumerators" if "v < 0 \<or> v > 600" using that by (auto simp: HttpStatus_enumerators_def)
  then show ?thesis using False
    by (auto simp: ToStringView_Status_def GetStatusCodeWithDescString_def status_text_at_def)
qed

section \<open>The body\<close>

definition msg_bytes :: "'a HttpMessage_scheme \<Rightarrow> string" where
  "msg_bytes m = (case msg_body_str m of Some s \<Rightarrow> s | None \<Rightarrow> (case msg_body m of Some b \<Rightarrow> nb_bytes b | None \<Rightarrow> []))"

text \<open>A body that has been flattened is the same in both forms.\<close>

definition body_ok :: "'a HttpMessage_scheme \<Rightarrow> bool" where
  "body_ok m \<longleftrightarrow> (case msg_body m of None \<Rightarrow> True
     | Some b \<Rightarrow> nb_invar b \<and> length (nb_bytes b) < 2 ^ 64 \<and> (case msg_body_str m of None \<Rightarrow> True | Some s \<Rightarrow> s = nb_bytes b))"

lemma body_size_ok: "body_ok m \<Longrightarrow> body_size m = length (msg_bytes m)"
  by (auto simp: body_ok_def body_size_def msg_bytes_def NB_ByteSize_def nb_invar_length split: option.splits)

lemma HttpMessage_body_ok:
  assumes "body_ok m"
  shows "fst (HttpMessage_body m) = msg_bytes m \<and> msg_bytes (snd (HttpMessage_body m)) = msg_bytes m \<and> body_ok (snd (HttpMessage_body m))"
  using assms by (auto simp: body_ok_def HttpMessage_body_def StringifyBody_def msg_bytes_def FlattenSlow_ok Let_def split: option.splits)

lemma set_body_ok:
  "body_ok (set_body_str s m)" "msg_bytes (set_body_str s m) = s"
  "nb_invar nb \<Longrightarrow> length (nb_bytes nb) < 2 ^ 64 \<Longrightarrow> body_ok (set_body_nb nb m)" "msg_bytes (set_body_nb nb m) = nb_bytes nb"
  by (simp_all add: body_ok_def set_body_str_def set_body_nb_def msg_bytes_def)

lemma body_to_string_ok: "body_ok m \<Longrightarrow> body_to_string m = msg_bytes m"
  by (auto simp: body_to_string_def body_ok_def msg_bytes_def FlattenSlow_ok HttpMessage_body_def StringifyBody_def Let_def split: option.splits)

end
