(* ===== verification/Http_Io.thy ===== *)
theory Http_Io
  imports Http_Message
begin

text \<open>
  Reading and writing HTTP messages (\<^verbatim>\<open>flare/rpc/protocol/http/buffer_io.cc\<close>): finding the header in a buffer, looking a
  field up in it, parsing it, and writing requests and responses. The limit of the flag \<^verbatim>\<open>flare_http_max_header_size\<close> and
  whether \<^verbatim>\<open>char\<close> is signed are arguments.
\<close>

section \<open>Finding the header\<close>

abbreviation CR :: char where "CR \<equiv> CHR 0x0D"

abbreviation LF :: char where "LF \<equiv> CHR 0x0A"

definition kEndOfHeaderMarker :: string where
  "kEndOfHeaderMarker = [CR, LF, CR, LF]"

definition kLeadingWords :: "string list" where
  "kLeadingWords = [''HTTP/1.1'', ''HEAD'', ''GET '', ''POST'', ''PUT '', ''DELETE'', ''TRACE'', ''CONNECT'', ''PATCH'']"

definition EasyDetectHttp :: "string \<Rightarrow> bool" where
  "EasyDetectHttp data =
     (if length data < fold (\<lambda>e result. max result (length e)) kLeadingWords 0 then False
      else list_ex (\<lambda>e. take 4 data = take 4 e) kLeadingWords)"

text \<open>
  The loop of \<^verbatim>\<open>DetermineHeaderSizeFast\<close>; \<open>None\<close> is the result -1. Of an empty block, \<^verbatim>\<open>memchr\<close> would be asked to
  search -1 bytes.
\<close>

function DetermineHeaderSizeFast_loop :: "string \<Rightarrow> nat \<Rightarrow> nat option result" where
  "DetermineHeaderSizeFast_loop s p =
     (if length s < p then Inl Undefined_behaviour
      else case sv_find_from [LF] p s of
        None \<Rightarrow> Inr None
      | Some q \<Rightarrow>
          if length s - q < 3 then Inr None
          else if s ! (q + 2) = LF
          then check (q \<ge> 1) (if take 4 (drop (q - 1) s) = kEndOfHeaderMarker then Inr (Some (q + 3)) else Inr None)
          else DetermineHeaderSizeFast_loop s (q + 1))"
  by pat_completeness auto
termination
  by (relation "measure (\<lambda>(s, p). length s + 1 - p)") (auto simp: sv_find_from_def split: if_splits)

declare DetermineHeaderSizeFast_loop.simps [simp del]

definition DetermineHeaderSizeFast :: "string \<Rightarrow> nat option result" where
  "DetermineHeaderSizeFast s = DetermineHeaderSizeFast_loop s 1"

datatype HttpReadStatus = Read_OK | NoEnoughData | UnexpectedFormat | Read_Error

text \<open>The status, and the header on success.\<close>

definition ReadHeader :: "nat \<Rightarrow> NoncontiguousBuffer \<Rightarrow> (HttpReadStatus \<times> string) result" where
  "ReadHeader max_header_size buffer =
     rbind (NB_FirstContiguous buffer) (\<lambda>first_block.
     rbind (DetermineHeaderSizeFast first_block) (\<lambda>size_opt.
     rbind (case size_opt of
              Some n \<Rightarrow> Inr (Read_OK, take n first_block)
            | None \<Rightarrow>
                if length first_block \<ge> 10 \<and> \<not> EasyDetectHttp first_block then Inr (UnexpectedFormat, [])
                else if NB_ByteSize buffer = length first_block
                then Inr (if length first_block < max_header_size then NoEnoughData else Read_Error, [])
                else rbind (FlattenSlowUntil buffer kEndOfHeaderMarker (2 ^ 64 - 1)) (\<lambda>slow_buffer.
                  if \<not> EndsWith slow_buffer kEndOfHeaderMarker
                  then Inr (if length slow_buffer < max_header_size then NoEnoughData else Read_Error, [])
                  else Inr (Read_OK, slow_buffer)))
       (\<lambda>(status, header).
          if status \<noteq> Read_OK then Inr (status, [])
          else if \<not> EasyDetectHttp header then Inr (UnexpectedFormat, []) else Inr (Read_OK, header))))"

section \<open>Reading a field from the header\<close>

function ReadField_loop :: "bool \<Rightarrow> string \<Rightarrow> string \<Rightarrow> nat \<Rightarrow> string result" where
  "ReadField_loop char_is_signed view key pos =
     (let field = drop pos view;
          continue = (case sv_find_from [LF] (pos + 1) view of
                        None \<Rightarrow> Inr []
                      | Some q \<Rightarrow> ReadField_loop char_is_signed view key (q + 1))
      in rbind (IEquals char_is_signed (take (length key) field) key) (\<lambda>eq.
           if \<not> eq then continue
           else if length field = length key then Inr []
           else if field ! length key = CHR '':''
           then (case sv_find [CR] field of
                   None \<Rightarrow> Inl Check_failed
                 | Some last_pos \<Rightarrow>
                     check (last_pos > length key + 1)
                       (Inr (Trim (substr field (length key + 1) (last_pos - (length key + 1))))))
           else continue))"
  by pat_completeness auto
termination
proof (relation "measure (\<lambda>(_, view, _, pos). length view + 1 - pos)")
  fix view :: string and pos q :: nat
  assume "sv_find_from [LF] (pos + 1) view = Some q"
  then have "pos + 1 \<le> q" "q < length view"
    using sv_find_length [of "[LF]" "drop (pos + 1) view"] by (auto simp: sv_find_from_def split: if_splits)
  then show "((char_is_signed, view, key, q + 1), (char_is_signed, view, key, pos)) \<in> measure (\<lambda>(_, view, _, pos). length view + 1 - pos)"
    for char_is_signed :: bool and key :: string by simp
qed auto

declare ReadField_loop.simps [simp del]

definition ReadFieldFromRawBytes :: "bool \<Rightarrow> string \<Rightarrow> string \<Rightarrow> string result" where
  "ReadFieldFromRawBytes char_is_signed view key = ReadField_loop char_is_signed view key 0"

section \<open>Parsing the header\<close>

text \<open>The loop over the header fields; \<open>None\<close> is a malformed field.\<close>

function ParseFields_loop :: "string \<Rightarrow> (string \<times> string) list option result" where
  "ParseFields_loop view =
     (if view = [] then Inr (Some [])
      else case sv_find [LF] view of
          None \<Rightarrow> Inl Check_failed
        | Some pos \<Rightarrow>
            if pos < 2 \<or> view ! (pos - 1) \<noteq> CR then Inr None
            else
              let current = take (pos - 1) view
              in case sv_find '':'' current of
                   None \<Rightarrow> Inr None
                 | Some pcolon \<Rightarrow>
                     let name = take pcolon current;
                         value = drop (pcolon + 1) current
                     in if name = [] then Inr None
                        else rbind (ParseFields_loop (drop (pos + 1) view)) (\<lambda>fields.
                          Inr (map_option (\<lambda>fs. (name, Trim value) # fs) fields)))"
  by pat_completeness auto
termination
  by (relation "measure length") auto

declare ParseFields_loop.simps [simp del]

text \<open>The start line and the header fields, or \<open>None\<close> for the result \<^verbatim>\<open>false\<close>.\<close>

definition ParseMessagePartial :: "string \<Rightarrow> HttpHeaders \<Rightarrow> (string \<times> HttpHeaders) option result" where
  "ParseMessagePartial storage headers =
     rbind (RetrieveHeaderStorage headers) (\<lambda>headers.
       check (EndsWith storage kEndOfHeaderMarker)
         (let view = take (length storage - 2) storage
          in case sv_find [LF] view of
               None \<Rightarrow> Inl Check_failed
             | Some pos \<Rightarrow>
                 if pos = 1 then Inr None
                 else
                   let start_line = (if pos = 0 then view else take (pos - 1) view)
                   in rbind (ParseFields_loop (drop (pos + 1) view)) (\<lambda>fields.
                        case fields of
                          None \<Rightarrow> Inr None
                        | Some fs \<Rightarrow> rbind (RetrieveFields fs headers) (\<lambda>headers. Inr (Some (start_line, headers))))))"

definition ParseRequestStartLine :: "string \<Rightarrow> (HttpVersion \<times> HttpMethod \<times> string) option result" where
  "ParseRequestStartLine s =
     rbind (Split s '' '' False) (\<lambda>splitted.
       if length splitted \<noteq> 3 then Inr None
       else
         let version = (if splitted ! 2 = ''HTTP/1.1'' then Some V_1_1
                        else if splitted ! 2 = ''HTTP/1.0'' then Some V_1_0 else None)
         in Inr (case (version, TryParse_Method (splitted ! 0)) of
                   (Some version, Some method) \<Rightarrow> Some (version, method, splitted ! 1)
                 | _ \<Rightarrow> None))"

definition ParseResponseStartLine :: "string \<Rightarrow> HttpStatus option result" where
  "ParseResponseStartLine s =
     rbind (Split s '' '' False) (\<lambda>splitted.
       if length splitted < 2 then Inr None
       else Inr (TryParse_integral (- (2 ^ 31)) (2 ^ 31 - 1) 10 (splitted ! 1)))"

section \<open>Writing messages\<close>

fun Http_WriteHeader :: "pool \<Rightarrow> (string \<times> string) list \<Rightarrow> NoncontiguousBufferBuilder \<Rightarrow> NoncontiguousBufferBuilder result" where
  "Http_WriteHeader pool [] builder = Inr builder"
| "Http_WriteHeader pool ((k, v) # headers) builder =
     rbind (NBB_AppendMany pool [k, '': '', v, [CR, LF]] builder) (Http_WriteHeader pool headers)"

definition WriteBody :: "pool \<Rightarrow> 'a HttpMessage_scheme \<Rightarrow> NoncontiguousBufferBuilder \<Rightarrow> NoncontiguousBufferBuilder result" where
  "WriteBody pool msg builder =
     (case msg_body msg of
        Some nb \<Rightarrow> NBB_AppendNB pool nb builder
      | None \<Rightarrow> NBB_Append pool (fst (HttpMessage_body msg)) builder)"

definition WriteRequest :: "pool \<Rightarrow> HttpRequest \<Rightarrow> NoncontiguousBufferBuilder \<Rightarrow> NoncontiguousBufferBuilder result" where
  "WriteRequest pool msg builder =
     rbind (NBB_AppendMany pool
       [ToStringView_Method (req_method msg), '' '', req_uri msg, '' '', ToStringView_Version (msg_version msg), [CR, LF]] builder) (\<lambda>builder.
     rbind (Http_WriteHeader pool (hh_fields (msg_headers msg)) builder) (\<lambda>builder.
     rbind (NBB_Append pool [CR, LF] builder) (WriteBody pool msg)))"

definition WriteResponse :: "pool \<Rightarrow> HttpResponse \<Rightarrow> NoncontiguousBufferBuilder \<Rightarrow> NoncontiguousBufferBuilder result" where
  "WriteResponse pool msg builder =
     rbind (GetStatusCodeWithDescString (rsp_status msg)) (\<lambda>status.
     rbind (NBB_AppendMany pool [ToStringView_Version (msg_version msg), '' '', status, [CR, LF]] builder) (\<lambda>builder.
     rbind (Http_WriteHeader pool (hh_fields (msg_headers msg)) builder) (\<lambda>builder.
     rbind (NBB_Append pool [CR, LF] builder) (WriteBody pool msg))))"

section \<open>Lines\<close>

definition line_ok :: "string \<Rightarrow> bool" where
  "line_ok l \<longleftrightarrow> l \<noteq> [] \<and> CR \<notin> set l \<and> LF \<notin> set l"

definition lines_bytes :: "string list \<Rightarrow> string" where
  "lines_bytes ls = concat (map (\<lambda>l. l @ [CR, LF]) ls)"

definition head_bytes :: "string list \<Rightarrow> string" where
  "head_bytes ls = lines_bytes ls @ [CR, LF]"

lemma lines_bytes_simps [simp]: "lines_bytes [] = []" "lines_bytes (l # ls) = l @ CR # LF # lines_bytes ls"
  by (simp_all add: lines_bytes_def)

lemma head_bytes_Cons: "head_bytes (l # ls) = l @ CR # LF # head_bytes ls"
  by (simp add: head_bytes_def)

lemma sv_find_char: "c \<notin> set u \<Longrightarrow> sv_find [c] (u @ c # v) = Some (length u)"
  by (induction u) auto

lemma sv_find_char_None: "c \<notin> set u \<Longrightarrow> sv_find [c] u = None"
  by (induction u) auto

lemma sv_find_from_char: "c \<notin> set u \<Longrightarrow> sv_find_from [c] (length pre) (pre @ u @ c # v) = Some (length pre + length u)"
  by (simp add: sv_find_from_def sv_find_char)

lemma sv_find_from_char_None: "c \<notin> set u \<Longrightarrow> sv_find_from [c] (length pre) (pre @ u) = None"
  by (simp add: sv_find_from_def sv_find_char_None)

lemma marker_skip: "CR \<notin> set l \<Longrightarrow> sv_find kEndOfHeaderMarker (l @ s) = map_option ((+) (length l)) (sv_find kEndOfHeaderMarker s)"
proof (induction l)
  case Nil
  then show ?case by (cases "sv_find kEndOfHeaderMarker s") auto
next
  case (Cons c l)
  then have "\<not> prefix kEndOfHeaderMarker (c # l @ s)" by (auto simp: kEndOfHeaderMarker_def)
  then show ?case using Cons by (cases "sv_find kEndOfHeaderMarker s") auto
qed

lemma marker_line:
  assumes "CR \<notin> set l" "s \<noteq> []" "hd s \<noteq> CR"
  shows "sv_find kEndOfHeaderMarker (l @ CR # LF # s) = map_option ((+) (length l + 2)) (sv_find kEndOfHeaderMarker s)"
proof -
  have "\<not> prefix kEndOfHeaderMarker (CR # LF # s)" using assms(2,3) by (cases s) (auto simp: kEndOfHeaderMarker_def)
  moreover have "\<not> prefix kEndOfHeaderMarker (LF # s)" by (simp add: kEndOfHeaderMarker_def)
  ultimately show ?thesis unfolding marker_skip [OF assms(1)] by (cases "sv_find kEndOfHeaderMarker s") auto
qed

lemma marker_find:
  "ls \<noteq> [] \<Longrightarrow> list_all line_ok ls \<Longrightarrow> sv_find kEndOfHeaderMarker (head_bytes ls @ rest) = Some (length (lines_bytes ls) - 2)"
proof (induction ls)
  case (Cons l ls)
  then have l: "CR \<notin> set l" by (simp add: line_ok_def)
  show ?case
  proof (cases ls)
    case Nil
    then show ?thesis using marker_skip [OF l, of "CR # LF # CR # LF # rest"] by (simp add: head_bytes_def kEndOfHeaderMarker_def)
  next
    case (Cons l' ls')
    have nl: "l' \<noteq> []" "CR \<notin> set l'" using Cons.prems Cons by (auto simp: line_ok_def)
    then have hd: "head_bytes ls @ rest \<noteq> []" "hd (head_bytes ls @ rest) \<noteq> CR" by (cases l'; auto simp: Cons head_bytes_Cons)+
    have "2 \<le> length (lines_bytes ls)" by (simp add: Cons)
    then show ?thesis using marker_line [OF l hd] Cons.IH Cons.prems Cons by (simp add: head_bytes_Cons)
  qed
qed simp

lemma marker_find_partial:
  assumes "ls \<noteq> []" "list_all line_ok ls" "n < length (head_bytes ls)"
  shows "sv_find kEndOfHeaderMarker (take n (head_bytes ls)) = None"
proof (cases "sv_find kEndOfHeaderMarker (take n (head_bytes ls))")
  case (Some j)
  have "sv_find kEndOfHeaderMarker (head_bytes ls) = Some j"
    using sv_find_append_Some [OF Some, of "drop n (head_bytes ls)"] by simp
  then have "j = length (lines_bytes ls) - 2" using marker_find [OF assms(1,2), of "[]"] by simp
  moreover have "j + 4 \<le> n" using sv_find_length [OF Some] assms(3) by (simp add: kEndOfHeaderMarker_def)
  ultimately show ?thesis using assms(3) by (simp add: head_bytes_def)
qed

lemma head_bytes_suffix: "ls \<noteq> [] \<Longrightarrow> EndsWith (head_bytes ls) kEndOfHeaderMarker"
proof (induction ls)
  case (Cons l ls)
  then show ?case
    by (cases ls) (auto simp: EndsWith_suffix head_bytes_Cons suffix_ConsI suffix_appendI head_bytes_def kEndOfHeaderMarker_def)
qed simp

lemma not_EndsWith_marker: "sv_find kEndOfHeaderMarker s = None \<Longrightarrow> \<not> EndsWith s kEndOfHeaderMarker"
proof
  assume "sv_find kEndOfHeaderMarker s = None" "EndsWith s kEndOfHeaderMarker"
  then obtain u where "s = u @ kEndOfHeaderMarker" by (auto simp: EndsWith_suffix suffix_def)
  then have "prefix kEndOfHeaderMarker (drop (length u) s)" "length u \<le> length s" by auto
  then show False using sv_find_NoneD [OF \<open>sv_find kEndOfHeaderMarker s = None\<close>] by blast
qed

lemma fast_no_LF: "LF \<notin> set t \<Longrightarrow> DetermineHeaderSizeFast_loop (pre @ t) (length pre) = Inr None"
  by (subst DetermineHeaderSizeFast_loop.simps) (simp add: sv_find_from_char_None)

lemma fast_line:
  assumes "LF \<notin> set l"
  shows "DetermineHeaderSizeFast_loop (pre @ l @ CR # LF # t) (length pre) =
    (if length t < 2 then Inr None
     else if t ! 1 = LF then Inr (if t ! 0 = CR then Some (length pre + length l + 4) else None)
     else DetermineHeaderSizeFast_loop (pre @ l @ CR # LF # t) (length pre + length l + 2))"
proof -
  let ?s = "pre @ l @ CR # LF # t"
  have q: "sv_find_from [LF] (length pre) ?s = Some (length pre + length l + 1)"
    using sv_find_from_char [of LF "l @ [CR]" pre] assms by simp
  have t: "2 \<le> length t \<Longrightarrow> take 2 t = [t ! 0, t ! 1]" by (cases t; cases "tl t") auto
  have "?s ! (length pre + length l + 1 + 2) = t ! 1" by (simp add: nth_append)
  then show ?thesis using q t by (subst DetermineHeaderSizeFast_loop.simps) (auto simp: kEndOfHeaderMarker_def)
qed

lemma fast_complete:
  "LF \<notin> set l \<Longrightarrow> list_all line_ok ls \<Longrightarrow>
   DetermineHeaderSizeFast_loop (pre @ head_bytes (l # ls) @ rest) (length pre) = Inr (Some (length pre + length (head_bytes (l # ls))))"
proof (induction ls arbitrary: pre l)
  case Nil
  then show ?case using fast_line [OF Nil.prems(1), of pre "CR # LF # rest"] by (simp add: head_bytes_def)
next
  case (Cons l' ls)
  have l': "l' \<noteq> []" "LF \<notin> set l'" "list_all line_ok ls" using Cons.prems(2) by (simp_all add: line_ok_def [of l'])
  have "(head_bytes (l' # ls) @ rest) ! 1 \<noteq> LF" using l' by (cases l'; cases "tl l'") (auto simp: head_bytes_Cons)
  then show ?case
    using fast_line [OF Cons.prems(1), of pre "head_bytes (l' # ls) @ rest"] Cons.IH [OF l'(2,3), of "pre @ l @ [CR, LF]"]
    by (simp add: head_bytes_Cons ac_simps)
qed

lemma take_line:
  "take n (head_bytes (l # ls)) = (if n < length l + 2 then take n (l @ [CR]) else l @ CR # LF # take (n - (length l + 2)) (head_bytes ls))"
  by (auto simp: head_bytes_Cons take_Cons' Suc_diff_le not_less)

lemma fast_partial:
  "LF \<notin> set l \<Longrightarrow> list_all line_ok ls \<Longrightarrow> n < length (head_bytes (l # ls)) \<Longrightarrow>
   DetermineHeaderSizeFast_loop (pre @ take n (head_bytes (l # ls))) (length pre) = Inr None"
proof (induction ls arbitrary: pre l n)
  case Nil
  have "length (take (n - (length l + 2)) [CR, LF]) < 2" using Nil.prems(3) by (auto simp: head_bytes_def)
  moreover have "LF \<notin> set (take n (l @ [CR]))" using Nil.prems(1) by (auto dest: in_set_takeD)
  ultimately show ?case
    unfolding take_line using fast_line [OF Nil.prems(1)] fast_no_LF by (auto simp: head_bytes_def)
next
  case (Cons l' ls)
  have l': "l' \<noteq> []" "LF \<notin> set l'" "list_all line_ok ls" using Cons.prems(2) by (simp_all add: line_ok_def [of l'])
  let ?t = "take (n - (length l + 2)) (head_bytes (l' # ls))"
  show ?case
  proof (cases "n < length l + 2")
    case True
    moreover have "LF \<notin> set (take n (l @ [CR]))" using Cons.prems(1) by (auto dest: in_set_takeD)
    ultimately show ?thesis unfolding take_line by (simp add: fast_no_LF del: take_append)
  next
    case False
    have "?t ! 1 \<noteq> LF" if "\<not> length ?t < 2" using that l' by (cases l'; cases "tl l'") (auto simp: head_bytes_Cons nth_append)
    moreover have "DetermineHeaderSizeFast_loop (pre @ l @ CR # LF # ?t) (length pre + length l + 2) = Inr None"
      using Cons.IH [OF l'(2,3), of "n - (length l + 2)" "pre @ l @ [CR, LF]"] Cons.prems(3) False by (simp add: head_bytes_Cons ac_simps)
    ultimately have "DetermineHeaderSizeFast_loop (pre @ l @ CR # LF # ?t) (length pre) = Inr None"
      unfolding fast_line [OF Cons.prems(1)] by (cases "length ?t < 2") (simp_all only: if_True if_False not_False_eq_True)
    then show ?thesis unfolding take_line [of n l] if_not_P [OF False] .
  qed
qed

section \<open>The header of a buffer\<close>

lemma EasyDetectHttp_iff: "EasyDetectHttp s \<longleftrightarrow> 8 \<le> length s \<and> take 4 s \<in> take 4 ` set kLeadingWords"
proof -
  have "fold (\<lambda>e result. max result (length e)) kLeadingWords 0 = 8" by (simp add: kLeadingWords_def)
  then show ?thesis by (auto simp: EasyDetectHttp_def list_ex_iff)
qed

lemma EasyDetectHttp_prefix: "EasyDetectHttp (s @ t) \<Longrightarrow> 8 \<le> length s \<Longrightarrow> EasyDetectHttp s"
  by (simp add: EasyDetectHttp_iff)

text \<open>A buffer that is not empty starts with a block that is not empty.\<close>

lemma first_block:
  assumes "nb_invar buf" "nb_bytes buf \<noteq> []"
  obtains u v where "NB_FirstContiguous buf = Inr u" "u \<noteq> []" "nb_bytes buf = u @ v"
proof (cases "nb_buffers buf")
  case Nil
  then show ?thesis using assms(2) by (simp add: nb_bytes_def)
next
  case (Cons b bs)
  have "pb_ok b" "0 < pb_size b" using assms(1) by (simp_all add: nb_invar_def Cons)
  then have "pb_bytes b \<noteq> []" using length_pb_bytes [of b] by fastforce
  then show ?thesis using that [OF NB_FirstContiguous_ok [OF assms(1) Cons]] by (simp add: nb_bytes_def Cons)
qed

lemma fast_block:
  assumes "ls \<noteq> []" "list_all line_ok ls" "s \<noteq> []" "s @ t = head_bytes ls @ rest"
  shows "DetermineHeaderSizeFast s = Inr (if length s < length (head_bytes ls) then None else Some (length (head_bytes ls)))"
proof -
  obtain c l ls' where ls: "ls = (c # l) # ls'" and l: "LF \<notin> set l" "list_all line_ok ls'"
    using assms(1,2) by (cases ls; cases "hd ls") (auto simp: line_ok_def)
  have head: "head_bytes ls = [c] @ head_bytes (l # ls')" by (simp add: ls head_bytes_Cons)
  show ?thesis
  proof (cases "length s < length (head_bytes ls)")
    case True
    then have "s = take (length s) (head_bytes ls)" using arg_cong [OF assms(4), of "take (length s)"] by simp
    then have "s = [c] @ take (length s - 1) (head_bytes (l # ls'))" using assms(3) head by (cases s) auto
    moreover have "length s - 1 < length (head_bytes (l # ls'))" using True head assms(3) by (cases s) auto
    ultimately show ?thesis using fast_partial [OF l, of "length s - 1" "[c]"] True by (simp add: DetermineHeaderSizeFast_def)
  next
    case False
    then have "take (length (head_bytes ls)) s = head_bytes ls" using arg_cong [OF assms(4), of "take (length (head_bytes ls))"] by simp
    then obtain r where "s = head_bytes ls @ r" by (metis append_take_drop_id)
    then show ?thesis using fast_complete [OF l, of "[c]" r] by (simp add: DetermineHeaderSizeFast_def head)
  qed
qed

lemma upto_marker:
  assumes "ls \<noteq> []" "list_all line_ok ls"
  shows "upto_delim kEndOfHeaderMarker (head_bytes ls @ rest) = head_bytes ls"
proof -
  have "2 \<le> length (lines_bytes ls)" using assms(1) by (cases ls) auto
  then have "length (lines_bytes ls) - 2 + length kEndOfHeaderMarker = length (head_bytes ls)"
    by (simp add: kEndOfHeaderMarker_def head_bytes_def)
  then show ?thesis unfolding upto_delim_def marker_find [OF assms] by simp
qed

lemma ReadHeader_complete:
  assumes inv: "nb_invar buf" and ls: "ls \<noteq> []" "list_all line_ok ls" and bytes: "nb_bytes buf = head_bytes ls @ rest"
    and det: "EasyDetectHttp (head_bytes ls)" and len: "length (head_bytes ls) < 2 ^ 64"
  shows "ReadHeader max_size buf = Inr (Read_OK, head_bytes ls)"
proof -
  have "nb_bytes buf \<noteq> []" by (simp add: bytes head_bytes_def)
  then obtain u v where u: "NB_FirstContiguous buf = Inr u" "u \<noteq> []" "u @ v = head_bytes ls @ rest"
    using first_block [OF inv] bytes by metis
  note fast = fast_block [OF ls u(2,3)]
  show ?thesis
  proof (cases "length u < length (head_bytes ls)")
    case True
    then have "take (length u) (head_bytes ls) = u" using arg_cong [OF u(3), of "take (length u)"] by simp
    then obtain w where w: "head_bytes ls = u @ w" by (metis append_take_drop_id)
    have d: "\<not> (10 \<le> length u \<and> \<not> EasyDetectHttp u)" using EasyDetectHttp_prefix det w by fastforce
    have "NB_ByteSize buf \<noteq> length u" using True nb_invar_length [OF inv] bytes by (simp add: NB_ByteSize_def)
    moreover have "upto_delim kEndOfHeaderMarker (nb_bytes buf) = head_bytes ls" unfolding bytes by (rule upto_marker [OF ls])
    ultimately show ?thesis using u(1) fast True d det len head_bytes_suffix [OF ls(1)]
      by (simp add: ReadHeader_def FlattenSlowUntil_ok [OF inv])
  next
    case False
    then have "take (length (head_bytes ls)) u = head_bytes ls" using arg_cong [OF u(3), of "take (length (head_bytes ls))"] by simp
    then show ?thesis using u(1) fast False det by (simp add: ReadHeader_def)
  qed
qed

lemma ReadHeader_partial:
  assumes inv: "nb_invar buf" and ls: "ls \<noteq> []" "list_all line_ok ls" and bytes: "nb_bytes buf = take n (head_bytes ls)"
    and n: "0 < n" "n < length (head_bytes ls)" "n < max_size" and det: "EasyDetectHttp (head_bytes ls)" and len: "length (head_bytes ls) < 2 ^ 64"
  shows "ReadHeader max_size buf = Inr (NoEnoughData, [])"
proof -
  have total: "nb_bytes buf @ drop n (head_bytes ls) = head_bytes ls" by (simp add: bytes)
  have "nb_bytes buf \<noteq> []" using n by (auto simp: bytes)
  then obtain u v where u: "NB_FirstContiguous buf = Inr u" "u \<noteq> []" "nb_bytes buf = u @ v" using first_block [OF inv] by metis
  have uv: "u @ v @ drop n (head_bytes ls) = head_bytes ls @ []" using total u(3) by simp
  have short: "length (nb_bytes buf) = n" using n bytes by simp
  then have "length u < length (head_bytes ls)" "length u \<le> n" using n u(3) by auto
  then have fast: "DetermineHeaderSizeFast u = Inr None" using fast_block [OF ls u(2) uv] by simp
  have d: "\<not> (10 \<le> length u \<and> \<not> EasyDetectHttp u)" using EasyDetectHttp_prefix [of u "v @ drop n (head_bytes ls)"] det uv by fastforce
  note none = marker_find_partial [OF ls n(2), folded bytes]
  then have "upto_delim kEndOfHeaderMarker (nb_bytes buf) = nb_bytes buf" by (simp add: upto_delim_def)
  then show ?thesis using u(1) fast d not_EndsWith_marker [OF none] short n \<open>length u \<le> n\<close> len
    by (auto simp: ReadHeader_def FlattenSlowUntil_ok [OF inv])
qed

section \<open>Fields\<close>

lemma Trim_fixed:
  assumes "Trim v = v" "v \<noteq> []"
  shows "hd v \<noteq> CHR '' ''" "last v \<noteq> CHR '' ''"
proof -
  let ?sp = "\<lambda>c. c = CHR '' ''"
  define m where "m = rev (dropWhile ?sp (rev (dropWhile ?sp v)))"
  define a where "a = length (takeWhile ?sp v)"
  define b where "b = length (takeWhile ?sp (rev (dropWhile ?sp v)))"
  have rep: "takeWhile ?sp xs = replicate (length (takeWhile ?sp xs)) (CHR '' '')" for xs by (induction xs) auto
  have "dropWhile ?sp v = m @ rev (takeWhile ?sp (rev (dropWhile ?sp v)))"
    unfolding m_def rev_append [symmetric] takeWhile_dropWhile_id by simp
  then have "dropWhile ?sp v = m @ replicate b (CHR '' '')" using rep [of "rev (dropWhile ?sp v)"] by (simp add: b_def) (metis rev_replicate)
  then have v: "v = replicate a (CHR '' '') @ m @ replicate b (CHR '' '')"
    using takeWhile_dropWhile_id [of ?sp v] rep [of v] by (metis a_def)
  have "m \<noteq> [] \<and> hd m \<noteq> CHR '' '' \<and> last m \<noteq> CHR '' ''"
  proof (cases "dropWhile ?sp v = []")
    case True
    then have "v = takeWhile ?sp v" using takeWhile_dropWhile_id [of ?sp v] by (metis append_Nil2)
    then have "v = replicate a (CHR '' '')" using rep [of v] by (metis a_def)
    then show ?thesis using Trim_blank [of a] assms by simp
  next
    case False
    then have hd: "hd (dropWhile ?sp v) \<noteq> CHR '' ''" using hd_dropWhile [of ?sp v] by blast
    then have "dropWhile ?sp (rev (dropWhile ?sp v)) \<noteq> []" 
      unfolding dropWhile_eq_Nil_conv set_rev using bspec [of _ "\<lambda>c. c = CHR '' ''", OF _ hd_in_set [OF False]] by (rule contrapos_nn)
    moreover from this have "hd (dropWhile ?sp (rev (dropWhile ?sp v))) \<noteq> CHR '' ''" using hd_dropWhile by blast
    ultimately have "m \<noteq> []" "last m \<noteq> CHR '' ''" by (simp_all add: m_def last_rev)
    moreover from this have "hd m = hd (dropWhile ?sp v)" using \<open>dropWhile ?sp v = m @ replicate b (CHR '' '')\<close> by simp
    ultimately show ?thesis using hd by simp
  qed
  moreover from this have "Trim v = m" using Trim_ok [of m a b] v by simp
  ultimately show "hd v \<noteq> CHR '' ''" "last v \<noteq> CHR '' ''" using assms(1) by simp_all
qed

lemma Trim_leading_space: "Trim v = v \<Longrightarrow> Trim (CHR '' '' # v) = v"
proof (cases "v = []")
  case False
  assume "Trim v = v"
  then show ?thesis using Trim_ok [of v 1 0] Trim_fixed [of v] False by simp
qed (use Trim_blank [of 1] in simp)

definition field_line :: "string \<times> string \<Rightarrow> string" where
  "field_line kv = fst kv @ '': '' @ snd kv"

definition field_ok :: "string \<times> string \<Rightarrow> bool" where
  "field_ok kv \<longleftrightarrow> fst kv \<noteq> [] \<and> CHR '':'' \<notin> set (fst kv) \<and> CR \<notin> set (fst kv @ snd kv) \<and> LF \<notin> set (fst kv @ snd kv) \<and> Trim (snd kv) = snd kv"

lemma line_ok_field: "field_ok kv \<Longrightarrow> line_ok (field_line kv)"
  by (auto simp: field_ok_def field_line_def line_ok_def)

lemma lines_ok_fields: "list_all field_ok fs \<Longrightarrow> list_all line_ok (map field_line fs)"
  by (induction fs) (simp_all add: line_ok_field)

lemma ParseFields_ok: "list_all field_ok fs \<Longrightarrow> ParseFields_loop (lines_bytes (map field_line fs)) = Inr (Some fs)"
proof (induction fs)
  case (Cons kv fs)
  obtain k v where kv: "kv = (k, v)" by (cases kv)
  then have ok: "k \<noteq> []" "CHR '':'' \<notin> set k" "LF \<notin> set (field_line kv @ [CR])" "Trim v = v"
    using Cons.prems by (auto simp: field_ok_def field_line_def)
  let ?view = "lines_bytes (map field_line (kv # fs))"
  have "sv_find [LF] ?view = Some (length (field_line kv) + 1)"
    using sv_find_char [OF ok(3), of "lines_bytes (map field_line fs)"] by simp
  moreover have "sv_find '':'' (field_line kv) = Some (length k)" "take (length k) (field_line kv) = k"
      "drop (length k + 1) (field_line kv) = CHR '' '' # v" "field_line kv \<noteq> []"
    using sv_find_char [OF ok(2), of "CHR '' '' # v"] by (simp_all add: field_line_def kv)
  moreover have "take (length (field_line kv)) ?view = field_line kv" "?view ! length (field_line kv) = CR"
      "drop (length (field_line kv) + 1 + 1) ?view = lines_bytes (map field_line fs)" "?view \<noteq> []"
    by simp_all
  ultimately show ?case using ok(1,4) Cons.IH Cons.prems
    by (subst ParseFields_loop.simps) (simp add: Let_def Trim_leading_space kv del: list.map lines_bytes_simps)
qed (simp add: ParseFields_loop.simps)

lemma ParseMessagePartial_ok:
  assumes "hh_inv h" "line_ok l" "list_all field_ok fs" "length fs < 2 ^ 62"
  shows "\<exists>h'. ParseMessagePartial (head_bytes (l # map field_line fs)) h = Inr (Some (l, h')) \<and> hh_inv h' \<and> hh_fields h' = fs"
proof -
  obtain h1 where h1: "RetrieveHeaderStorage h = Inr h1" using hh_Retrieve_ok [OF assms(1), of "[]"] by (auto simp: rbind_eq_Inr_iff)
  obtain h2 where h2: "RetrieveFields fs h1 = Inr h2" "hh_inv h2" "hh_fields h2 = fs"
    using hh_Retrieve_ok [OF assms(1,4)] h1 by auto
  have l: "l \<noteq> []" "LF \<notin> set (l @ [CR])" using assms(2) by (auto simp: line_ok_def)
  let ?s = "head_bytes (l # map field_line fs)"
  have view: "take (length ?s - 2) ?s = (l @ [CR]) @ LF # lines_bytes (map field_line fs)" by (simp add: head_bytes_def)
  have "EndsWith ?s kEndOfHeaderMarker" by (rule head_bytes_suffix) simp
  then show ?thesis using h1 h2 l ParseFields_ok [OF assms(3)] sv_find_char [OF l(2), of "lines_bytes (map field_line fs)"]
    by (simp add: ParseMessagePartial_def view Let_def)
qed

text \<open>Comparing without regard to case is safe for 7-bit characters, and for all where \<^verbatim>\<open>char\<close> is unsigned.\<close>

definition bytes_ok :: "bool \<Rightarrow> string \<Rightarrow> bool" where
  "bytes_ok char_is_signed s \<longleftrightarrow> \<not> char_is_signed \<or> list_all (\<lambda>c. of_char c < (128 :: nat)) s"

lemma bytes_ok_simps [simp]: "bytes_ok sg []" "bytes_ok sg (s @ t) \<longleftrightarrow> bytes_ok sg s \<and> bytes_ok sg t"
  by (auto simp: bytes_ok_def)

lemma bytes_ok_Cons: "bytes_ok sg (c # s) \<longleftrightarrow> bytes_ok sg [c] \<and> bytes_ok sg s"
  by (auto simp: bytes_ok_def)

lemma bytes_ok_take: "bytes_ok sg s \<Longrightarrow> bytes_ok sg (take n s)"
  by (auto simp: bytes_ok_def list_all_iff dest: in_set_takeD)

lemma ToLower_char_ok: "bytes_ok sg [c] \<Longrightarrow> ToLower_char sg c = Inr (ci_ToLower c)"
  using of_char_bound [of c]
  by (auto simp: ToLower_char_def char_index_def array_at_def bytes_ok_def kLowerChars_def ci_ToLower_def ci_kLowerChars_def Let_def)

lemma IEquals_ok: "bytes_ok sg x \<Longrightarrow> bytes_ok sg y \<Longrightarrow> IEquals sg x y = Inr (lower x = lower y)"
proof -
  have "length x = length y \<Longrightarrow> bytes_ok sg x \<Longrightarrow> bytes_ok sg y \<Longrightarrow> IEquals_loop sg x y = Inr (lower x = lower y)"
  proof (induction x y rule: list_induct2)
    case (Cons x xs y ys)
    have "bytes_ok sg [x]" "bytes_ok sg [y]" "bytes_ok sg xs" "bytes_ok sg ys"
      using Cons.prems bytes_ok_Cons [of sg x xs] bytes_ok_Cons [of sg y ys] by blast+
    then show ?case using Cons.IH by (simp add: ToLower_char_ok)
  qed simp
  then show "bytes_ok sg x \<Longrightarrow> bytes_ok sg y \<Longrightarrow> ?thesis" by (auto simp: IEquals_def dest: map_eq_imp_length_eq)
qed

section \<open>Looking a field up in the header\<close>

definition key_line :: "string \<Rightarrow> string \<Rightarrow> bool" where
  "key_line key l \<longleftrightarrow> length key < length l \<and> lower (take (length key) l) = lower key \<and> l ! length key = CHR '':''"

lemma lower_special [simp]: "ci_ToLower c = CR \<longleftrightarrow> c = CR" "ci_ToLower c = CHR '':'' \<longleftrightarrow> c = CHR '':''" "ci_ToLower c = CHR '' '' \<longleftrightarrow> c = CHR '' ''"
proof -
  have lt: "of_char c < (256 :: nat)" by (rule of_char_bound)
  have "ci_ToLower c = d \<longleftrightarrow> c = d" if d: "of_char d < (65 :: nat)" for d
  proof
    assume "ci_ToLower c = d"
    then have "of_char (ci_ToLower c) = (of_char d :: nat)" by simp
    then show "c = d" using d lt \<open>ci_ToLower c = d\<close> by (auto simp: ci_ToLower_eq Let_def split: if_splits)
  next
    assume "c = d"
    then show "ci_ToLower c = d" using d by (simp add: ci_ToLower_eq)
  qed
  then show "ci_ToLower c = CR \<longleftrightarrow> c = CR" "ci_ToLower c = CHR '':'' \<longleftrightarrow> c = CHR '':''" "ci_ToLower c = CHR '' '' \<longleftrightarrow> c = CHR '' ''"
    by simp_all
qed

lemma lower_special_sym [simp]: "CR = ci_ToLower c \<longleftrightarrow> c = CR" "CHR '':'' = ci_ToLower c \<longleftrightarrow> c = CHR '':''" "CHR '' '' = ci_ToLower c \<longleftrightarrow> c = CHR '' ''"
  using lower_special [of c] by metis+

lemma in_lower_special:
  "CR \<in> set (lower s) \<longleftrightarrow> CR \<in> set s" "CHR '':'' \<in> set (lower s) \<longleftrightarrow> CHR '':'' \<in> set s" "CHR '' '' \<in> set (lower s) \<longleftrightarrow> CHR '' '' \<in> set s"
  by (induction s) (simp_all, simp_all add: eq_commute)

lemma field_key_line:
  assumes "CHR '':'' \<notin> set k" "CHR '':'' \<notin> set key"
  shows "key_line key (field_line (k, v)) \<longleftrightarrow> lower k = lower key"
proof
  assume "lower k = lower key"
  moreover from this have "length k = length key" by (rule map_eq_imp_length_eq)
  ultimately show "key_line key (field_line (k, v))" by (simp add: key_line_def field_line_def nth_append flip: \<open>length k = length key\<close>)
next
  let ?l = "field_line (k, v)"
  assume "key_line key ?l"
  then have kl: "length key < length ?l" "lower (take (length key) ?l) = lower key" "?l ! length key = CHR '':''" by (auto simp: key_line_def)
  have "CHR '':'' \<notin> set (take (length key) ?l)" 
  proof -
    have "CHR '':'' \<notin> set (lower (take (length key) ?l))" unfolding kl(2) using in_lower_special(2) [of key] assms(2) by blast
    then show ?thesis using in_lower_special(2) [of "take (length key) ?l"] by blast
  qed
  then have "length key \<le> length k" by (auto simp: field_line_def take_Cons' split: if_splits)
  moreover have "\<not> length key < length k" 
  proof
    assume "length key < length k"
    then have "k ! length key = CHR '':''" using kl(3) by (simp add: field_line_def nth_append)
    then show False using nth_mem [OF \<open>length key < length k\<close>] assms(1) by metis
  qed
  ultimately have "length key = length k" by simp
  then show "lower k = lower key" using kl(2) by (simp add: field_line_def)
qed

lemma ReadField_next:
  assumes "line_ok l" "\<not> key_line key l" "bytes_ok sg (l @ [CR, LF] @ s)" "bytes_ok sg key" "CR \<notin> set key"
  shows "ReadField_loop sg (pre @ l @ CR # LF # s) key (length pre) = ReadField_loop sg (pre @ l @ CR # LF # s) key (length pre + length l + 2)"
proof -
  let ?view = "pre @ l @ CR # LF # s"
  let ?field = "l @ CR # LF # s"
  obtain c l' where l: "l = c # l'" "LF \<notin> set (l' @ [CR])" "CR \<notin> set l" using assms(1) by (cases l) (auto simp: line_ok_def)
  have q: "sv_find_from [LF] (length pre + 1) ?view = Some (length pre + length l + 1)"
    using sv_find_from_char [OF l(2), of "pre @ [c]" s] by (simp add: l(1))
  have eq: "IEquals sg (take (length key) ?field) key = Inr (lower (take (length key) ?field) = lower key)"
    using assms(3,4) by (intro IEquals_ok bytes_ok_take) simp_all
  have "?field ! length key \<noteq> CHR '':'' \<and> length ?field \<noteq> length key" if low: "lower (take (length key) ?field) = lower key"
  proof -
    have "CR \<notin> set (take (length key) ?field)" 
    proof -
      have "CR \<notin> set (lower (take (length key) ?field))" unfolding low using in_lower_special(1) [of key] assms(5) by blast
      then show ?thesis using in_lower_special(1) [of "take (length key) ?field"] by blast
    qed
    then have le: "length key \<le> length l" by (auto simp: take_Cons' split: if_splits)
    then show ?thesis using assms(2) low by (cases "length key = length l") (auto simp: key_line_def nth_append)
  qed
  then show ?thesis using q eq by (subst ReadField_loop.simps) (auto simp: Let_def)
qed

lemma ReadField_found:
  assumes "line_ok l" "key_line key l" "bytes_ok sg l" "bytes_ok sg key"
  shows "ReadField_loop sg (pre @ l @ CR # LF # s) key (length pre) =
    (if length l = length key + 1 then Inl Check_failed else Inr (Trim (drop (length key + 1) l)))"
proof -
  let ?field = "l @ CR # LF # s"
  have kl: "length key < length l" "lower (take (length key) l) = lower key" "l ! length key = CHR '':''" using assms(2) by (auto simp: key_line_def)
  have "IEquals sg (take (length key) ?field) key = Inr True"
    using IEquals_ok [OF bytes_ok_take [OF assms(3)] assms(4)] kl(1,2) by simp
  moreover have "sv_find [CR] ?field = Some (length l)" using assms(1) by (simp add: line_ok_def sv_find_char)
  ultimately show ?thesis using kl(1,3)
    by (subst ReadField_loop.simps) (auto simp: Let_def nth_append substr_def check_def)
qed

lemma ReadField_ok:
  assumes "bytes_ok sg key" "CR \<notin> set key" "2 < length key"
  shows "list_all line_ok ls \<Longrightarrow> bytes_ok sg (head_bytes ls) \<Longrightarrow>
   ReadField_loop sg (pre @ head_bytes ls) key (length pre) =
     (case find (key_line key) ls of
        None \<Rightarrow> Inr []
      | Some l \<Rightarrow> if length l = length key + 1 then Inl Check_failed else Inr (Trim (drop (length key + 1) l)))"
proof (induction ls arbitrary: pre)
  case Nil
  let ?v = "pre @ [CR, LF]"
  have "IEquals sg [] key = Inr False" "sv_find_from [LF] (length pre + 2 + 1) ?v = None" "drop (length pre + 2) ?v = []"
    using assms(3) by (auto simp: IEquals_def sv_find_from_def)
  then have stop: "ReadField_loop sg ?v key (length pre + 2) = Inr []"
    by (subst ReadField_loop.simps) (simp add: Let_def del: drop_append)
  have "IEquals sg (take (length key) [CR, LF]) key = Inr False" "sv_find_from [LF] (length pre + 1) ?v = Some (length pre + 1)"
    using assms(3) sv_find_from_char [of LF "[]" "pre @ [CR]" "[]"] by (auto simp: IEquals_def)
  then have "ReadField_loop sg ?v key (length pre) = Inr []" using stop by (subst ReadField_loop.simps) (simp add: Let_def)
  then show ?case by (simp add: head_bytes_def)
next
  case (Cons l ls)
  have ok: "line_ok l" "list_all line_ok ls" using Cons.prems(1) by simp_all
  have b: "bytes_ok sg l" "bytes_ok sg (l @ [CR, LF] @ head_bytes ls)" "bytes_ok sg (head_bytes ls)"
    using Cons.prems(2) by (auto simp: head_bytes_Cons bytes_ok_def)
  show ?case
  proof (cases "key_line key l")
    case True
    then show ?thesis using ReadField_found [OF ok(1) True b(1) assms(1), of pre "head_bytes ls"] by (simp add: head_bytes_Cons)
  next
    case False
    have len: "length pre + length l + 2 = length (pre @ l @ [CR, LF])" and view: "pre @ l @ CR # LF # head_bytes ls = (pre @ l @ [CR, LF]) @ head_bytes ls"
      by simp_all
    have "find (key_line key) (l # ls) = find (key_line key) ls" using False by simp
    then show ?thesis
      unfolding head_bytes_Cons ReadField_next [OF ok(1) False b(2) assms(1,2)] unfolding len view Cons.IH [OF ok(2) b(3)] by simp
  qed
qed

end
