(* ===== verification/Http_Protocol.thy ===== *)
theory Http_Protocol
  imports Http_Io
begin

text \<open>
  The HTTP/1.1 protocol (\<^verbatim>\<open>flare/rpc/protocol/http/http11_protocol.cc\<close>): cutting messages out of what has been received, parsing
  and writing them. The protocol object keeps a header that has been read until the message is complete.
\<close>

section \<open>The protocol\<close>

datatype HttpCutStatus = ProtocolMismatch | NotIdentified | NeedMore | Cut | Cut_Error

record OnWireMessage =
  header_block :: string
  wire_body :: NoncontiguousBuffer

datatype HttpBaseMessage = HttpRequestMessage HttpRequest | HttpResponseMessage HttpResponse

definition kClobberedStartLines :: "string list" where
  "kClobberedStartLines = [''POST /rpc/'', ''POST /__rpc_service__'']"

definition IsMessageClobbered :: "string \<Rightarrow> bool" where
  "IsMessageClobbered view = list_ex (StartsWith view) kClobberedStartLines"

definition ExpectingContentLength :: "string \<Rightarrow> bool" where
  "ExpectingContentLength view =
     (if StartsWith view ''GET'' \<or> StartsWith view ''HEAD'' then False
      else if StartsWith view ''HTTP/1.1 ''
      then (case TryParse_integral (- (2 ^ 31)) (2 ^ 31 - 1) 10 (substr view 9 3) of
              Some status \<Rightarrow> \<not> (status = 204 \<or> (status \<ge> 100 \<and> status < 200))
            | None \<Rightarrow> True)
      else True)"

text \<open>
  The state of the protocol object is the header that has been read but not been cut yet. The result is the status, what
  is left in the buffer, the state and the message. The size of a message wraps around.
\<close>

definition Http_TryCutMessage ::
  "nat \<Rightarrow> bool \<Rightarrow> string option \<Rightarrow> NoncontiguousBuffer \<Rightarrow>
   (HttpCutStatus \<times> NoncontiguousBuffer \<times> string option \<times> OnWireMessage option) result" where
  "Http_TryCutMessage max_header_size char_is_signed parsed_header_block buffer =
     rbind (case parsed_header_block of
              Some block \<Rightarrow> Inr (Inr block)
            | None \<Rightarrow>
                rbind (ReadHeader max_header_size buffer) (\<lambda>(status, header).
                  case status of
                    UnexpectedFormat \<Rightarrow> Inr (Inl ProtocolMismatch)
                  | Read_Error \<Rightarrow> Inr (Inl Cut_Error)
                  | NoEnoughData \<Rightarrow> Inr (Inl NotIdentified)
                  | Read_OK \<Rightarrow> Inr (if IsMessageClobbered header then Inl ProtocolMismatch else Inr header)))
       (\<lambda>r. case r of
          Inl status \<Rightarrow> Inr (status, buffer, None, None)
        | Inr header_view \<Rightarrow>
            rbind (ReadFieldFromRawBytes char_is_signed header_view ''Content-Length'') (\<lambda>value.
              let body_size_opt = (case TryParse_integral 0 (2 ^ 64 - 1) 10 value of
                                 Some n \<Rightarrow> Some (nat n)
                               | None \<Rightarrow> if ExpectingContentLength header_view then None else Some 0)
              in case body_size_opt of
                   None \<Rightarrow> Inr (Cut_Error, buffer, Some header_view, None)
                 | Some n \<Rightarrow>
                     if NB_ByteSize buffer < (length header_view + n) mod 2 ^ 64
                     then Inr (NeedMore, buffer, Some header_view, None)
                     else rbind (NB_Skip (length header_view) buffer) (\<lambda>buffer.
                          rbind (NB_Cut n buffer) (\<lambda>(body, buffer).
                            Inr (Cut, buffer, None, Some \<lparr>header_block = header_view, wire_body = body\<rparr>)))))"

definition Http_TryParse :: "bool \<Rightarrow> OnWireMessage \<Rightarrow> HttpBaseMessage option result" where
  "Http_TryParse server_side msg =
     (if server_side
      then rbind HttpRequest_new (\<lambda>parsed.
           rbind (ParseMessagePartial (header_block msg) (msg_headers parsed)) (\<lambda>r.
             case r of
               None \<Rightarrow> Inr None
             | Some (start_line, headers) \<Rightarrow>
                 rbind (ParseRequestStartLine start_line) (\<lambda>r.
                   case r of
                     None \<Rightarrow> Inr None
                   | Some (version, method, uri) \<Rightarrow>
                       Inr (Some (HttpRequestMessage (set_body_nb (wire_body msg)
                         (parsed\<lparr>msg_headers := headers, msg_version := version, req_method := method, req_uri := uri\<rparr>)))))))
      else rbind HttpResponse_new (\<lambda>parsed.
           rbind (ParseMessagePartial (header_block msg) (msg_headers parsed)) (\<lambda>r.
             case r of
               None \<Rightarrow> Inr None
             | Some (start_line, headers) \<Rightarrow>
                 rbind (ParseResponseStartLine start_line) (\<lambda>r.
                   case r of
                     None \<Rightarrow> Inr None
                   | Some status \<Rightarrow>
                       Inr (Some (HttpResponseMessage (set_body_nb (wire_body msg)
                         (parsed\<lparr>msg_headers := headers, rsp_status := status\<rparr>))))))))"

definition Http_WriteMessage :: "pool \<Rightarrow> HttpBaseMessage \<Rightarrow> NoncontiguousBuffer result" where
  "Http_WriteMessage pool message =
     rbind (NBB_new pool) (\<lambda>builder.
     rbind (case message of HttpRequestMessage m \<Rightarrow> WriteRequest pool m builder | HttpResponseMessage m \<Rightarrow> WriteResponse pool m builder)
       NBB_DestructiveGet)"

section \<open>Messages on the wire\<close>

text \<open>A message as lines and a body, and what makes it one that the protocol cuts.\<close>

definition kContentLength :: string where
  "kContentLength = ''Content-Length''"

abbreviation wire_head :: "string \<Rightarrow> (string \<times> string) list \<Rightarrow> string" where
  "wire_head l fs \<equiv> head_bytes (l # map field_line fs)"

definition length_ok :: "string \<Rightarrow> (string \<times> string) list \<Rightarrow> string \<Rightarrow> bool" where
  "length_ok l fs body \<longleftrightarrow>
     (case header_value kContentLength fs of
        Some v \<Rightarrow> TryParse_integral 0 (2 ^ 64 - 1) 10 v = Some (int (length body))
      | None \<Rightarrow> \<not> ExpectingContentLength (wire_head l fs) \<and> body = [])"

definition wire_ok :: "bool \<Rightarrow> string \<Rightarrow> (string \<times> string) list \<Rightarrow> string \<Rightarrow> bool" where
  "wire_ok char_is_signed l fs body \<longleftrightarrow>
     line_ok l \<and> CHR '' '' \<in> set (take 14 l) \<and> list_all field_ok fs \<and> bytes_ok char_is_signed (wire_head l fs) \<and>
     EasyDetectHttp (wire_head l fs) \<and> \<not> IsMessageClobbered (wire_head l fs) \<and> length_ok l fs body \<and>
     length (wire_head l fs) + length body < 2 ^ 64"

lemma wire_lines: "wire_ok sg l fs body \<Longrightarrow> list_all line_ok (l # map field_line fs)"
  by (simp add: wire_ok_def lines_ok_fields)

lemma find_key_line:
  assumes "list_all field_ok fs" "CHR '':'' \<notin> set key"
  shows "find (key_line key) (map field_line fs) = map_option field_line (find (\<lambda>(k, v). lower k = lower key) fs)"
  using assms(1)
proof (induction fs)
  case (Cons kv fs)
  obtain k v where kv: "kv = (k, v)" by (cases kv)
  have "CHR '':'' \<notin> set k" using Cons.prems by (simp add: kv field_ok_def)
  then have "key_line key (field_line kv) \<longleftrightarrow> lower k = lower key" using field_key_line [OF _ assms(2)] by (simp add: kv)
  then show ?case using Cons by (simp add: kv)
qed simp

lemma kContentLength_facts: "bytes_ok sg kContentLength" "CR \<notin> set kContentLength" "length kContentLength = 14" "CHR '':'' \<notin> set kContentLength"
    "CHR '' '' \<notin> set (lower kContentLength)"
  by (simp_all add: kContentLength_def bytes_ok_def ci_ToLower_eq char_of_def bit_0)

lemma start_line_key:
  assumes "CHR '' '' \<in> set (take 14 l)"
  shows "\<not> key_line kContentLength l"
proof
  assume "key_line kContentLength l"
  then have "lower (take 14 l) = lower kContentLength" by (simp add: key_line_def kContentLength_facts(3))
  moreover have "CHR '' '' \<in> set (lower (take 14 l))" using assms in_lower_special(3) [of "take 14 l"] by blast
  ultimately show False using kContentLength_facts(5) by metis
qed

lemma header_value_ok: "list_all field_ok fs \<Longrightarrow> header_value key fs = Some v \<Longrightarrow> Trim v = v"
  by (auto simp: header_value_def find_Some_iff list_all_length field_ok_def)

lemma ReadContentLength:
  assumes "line_ok l" "CHR '' '' \<in> set (take 14 l)" "list_all field_ok fs" "bytes_ok sg (wire_head l fs)"
  shows "ReadFieldFromRawBytes sg (wire_head l fs) kContentLength = Inr (case header_value kContentLength fs of None \<Rightarrow> [] | Some v \<Rightarrow> v)"
proof -
  let ?key = kContentLength
  have lines: "list_all line_ok (l # map field_line fs)" using assms(1,3) by (simp add: lines_ok_fields)
  have find: "find (key_line ?key) (l # map field_line fs) = map_option field_line (find (\<lambda>(k, v). lower k = lower ?key) fs)"
    using start_line_key [OF assms(2)] find_key_line [OF assms(3) kContentLength_facts(4)] by simp
  have read: "ReadFieldFromRawBytes sg (wire_head l fs) ?key =
    (case find (key_line ?key) (l # map field_line fs) of None \<Rightarrow> Inr []
     | Some l \<Rightarrow> if length l = length ?key + 1 then Inl Check_failed else Inr (Trim (drop (length ?key + 1) l)))"
    using ReadField_ok [OF kContentLength_facts(1,2) _ lines assms(4), of "[]"] by (simp add: ReadFieldFromRawBytes_def kContentLength_facts(3))
  show ?thesis
  proof (cases "find (\<lambda>(k, v). lower k = lower ?key) fs")
    case None
    then show ?thesis using read find by (simp add: header_value_def)
  next
    case (Some kv)
    obtain k v where kv: "kv = (k, v)" by (cases kv)
    have "lower k = lower ?key" using Some by (auto simp: find_Some_iff kv)
    then have len: "length k = length ?key" by (rule map_eq_imp_length_eq)
    have "Trim v = v" using header_value_ok [OF assms(3), of ?key v] Some by (simp add: header_value_def kv)
    then show ?thesis using read find Some len by (simp add: header_value_def kv field_line_def Trim_leading_space)
  qed
qed

text \<open>The header that has been kept from an earlier call, if any, is that of the message.\<close>

lemma cut_known_header:
  assumes ok: "wire_ok sg l fs body"
  shows "Http_TryCutMessage max_size sg (Some (wire_head l fs)) buf =
    (if NB_ByteSize buf < length (wire_head l fs) + length body then Inr (NeedMore, buf, Some (wire_head l fs), None)
     else rbind (NB_Skip (length (wire_head l fs)) buf) (\<lambda>buf. rbind (NB_Cut (length body) buf) (\<lambda>(b, buf).
       Inr (Cut, buf, None, Some \<lparr>header_block = wire_head l fs, wire_body = b\<rparr>))))"
proof -
  have "ReadFieldFromRawBytes sg (wire_head l fs) ''Content-Length'' = Inr (case header_value kContentLength fs of None \<Rightarrow> [] | Some v \<Rightarrow> v)"
    using ReadContentLength [of l fs sg] ok by (simp add: wire_ok_def kContentLength_def [symmetric])
  moreover have "(case TryParse_integral 0 (2 ^ 64 - 1) 10 (case header_value kContentLength fs of None \<Rightarrow> [] | Some v \<Rightarrow> v) of
      Some n \<Rightarrow> Some (nat n) | None \<Rightarrow> if ExpectingContentLength (wire_head l fs) then None else Some 0) = Some (length body)"
  proof (cases "header_value kContentLength fs")
    case None
    have "TryParse_integral 0 (2 ^ 64 - 1) 10 [] = None" by (simp add: TryParse_integral_def from_chars_def)
    then show ?thesis using ok None by (simp add: wire_ok_def length_ok_def)
  next
    case (Some v)
    then show ?thesis using ok by (simp add: wire_ok_def length_ok_def)
  qed
  moreover have "(length (wire_head l fs) + length body) mod 2 ^ 64 = length (wire_head l fs) + length body"
    using ok by (intro mod_less) (simp add: wire_ok_def)
  ultimately show ?thesis unfolding Http_TryCutMessage_def by (simp only: option.case rbind_Inr sum.case Let_def)
qed

lemma cut_from_state:
  assumes "wire_ok sg l fs body" "nb_invar buf" "nb_bytes buf = wire_head l fs @ rest" "st = None \<or> st = Some (wire_head l fs)"
  shows "Http_TryCutMessage max_size sg st buf = Http_TryCutMessage max_size sg (Some (wire_head l fs)) buf"
proof (cases st)
  case None
  have "ReadHeader max_size buf = Inr (Read_OK, wire_head l fs)"
    using ReadHeader_complete [OF assms(2) _ wire_lines [OF assms(1)] assms(3)] assms(1) by (simp add: wire_ok_def)
  then show ?thesis using assms(1) None by (simp add: Http_TryCutMessage_def wire_ok_def)
next
  case (Some h)
  then show ?thesis using assms(4) by simp
qed

lemma cut_complete:
  assumes ok: "wire_ok sg l fs body" and inv: "nb_invar buf" and bytes: "nb_bytes buf = wire_head l fs @ body @ rest"
    and st: "st = None \<or> st = Some (wire_head l fs)"
  shows "\<exists>b buf'. Http_TryCutMessage max_size sg st buf = Inr (Cut, buf', None, Some \<lparr>header_block = wire_head l fs, wire_body = b\<rparr>) \<and>
    nb_invar b \<and> nb_bytes b = body \<and> nb_invar buf' \<and> nb_bytes buf' = rest"
proof -
  have size: "NB_ByteSize buf = length (nb_bytes buf)" using nb_invar_length [OF inv] by (simp add: NB_ByteSize_def)
  obtain buf1 where b1: "NB_Skip (length (wire_head l fs)) buf = Inr buf1" "nb_invar buf1" "nb_bytes buf1 = body @ rest"
    using NB_Skip_ok [OF inv, of "length (wire_head l fs)"] bytes by auto
  obtain b buf' where b2: "NB_Cut (length body) buf1 = Inr (b, buf')" "nb_invar b" "nb_invar buf'" "nb_bytes b = body" "nb_bytes buf' = rest"
    using NB_Cut_ok [OF b1(2), of "length body"] b1(3) by auto
  have "\<not> NB_ByteSize buf < length (wire_head l fs) + length body" using size bytes by simp
  then show ?thesis using cut_from_state [OF ok inv bytes st] cut_known_header [OF ok, of max_size buf] b1(1) b2 by simp
qed

lemma cut_partial:
  assumes ok: "wire_ok sg l fs body" and inv: "nb_invar buf" and bytes: "nb_bytes buf = take n (wire_head l fs @ body)"
    and n: "0 < n" "n < length (wire_head l fs @ body)" and max: "length (wire_head l fs) \<le> max_size"
    and st: "st = None \<or> st = Some (wire_head l fs)"
  shows "\<exists>status st'. Http_TryCutMessage max_size sg st buf = Inr (status, buf, st', None) \<and>
    (status = NotIdentified \<or> status = NeedMore) \<and> (st' = None \<or> st' = Some (wire_head l fs))"
proof -
  have size: "NB_ByteSize buf = n" using nb_invar_length [OF inv] bytes n by (simp add: NB_ByteSize_def)
  have known: "Http_TryCutMessage max_size sg (Some (wire_head l fs)) buf = Inr (NeedMore, buf, Some (wire_head l fs), None)"
    using cut_known_header [OF ok, of max_size buf] size n(2) by simp
  show ?thesis
  proof (cases "st = None \<and> n < length (wire_head l fs)")
    case True
    then have "nb_bytes buf = take n (wire_head l fs)" using bytes by simp
    then have "ReadHeader max_size buf = Inr (NoEnoughData, [])"
      using ReadHeader_partial [OF inv _ wire_lines [OF ok] _ n(1)] True max ok by (simp add: wire_ok_def)
    then show ?thesis using True by (simp add: Http_TryCutMessage_def)
  next
    case False
    show ?thesis
    proof (cases st)
      case None
      then have "nb_bytes buf = wire_head l fs @ take (n - length (wire_head l fs)) body" using False bytes by simp
      then show ?thesis using cut_from_state [OF ok inv _ st] known by auto
    next
      case (Some h)
      then show ?thesis using st known by auto
    qed
  qed
qed

section \<open>Receiving in pieces\<close>

text \<open>What a connection does with the bytes it receives: each piece is appended to the buffer and the protocol is asked for a message.\<close>

fun http_receive ::
  "nat \<Rightarrow> bool \<Rightarrow> string option \<Rightarrow> NoncontiguousBuffer \<Rightarrow> NoncontiguousBuffer list \<Rightarrow>
   (OnWireMessage \<times> NoncontiguousBuffer \<times> NoncontiguousBuffer list) option result" where
  "http_receive max_size sg st buf [] = Inr None"
| "http_receive max_size sg st buf (piece # pieces) =
     rbind (Http_TryCutMessage max_size sg st (NB_AppendNB piece buf)) (\<lambda>(status, buf, st, msg).
       case (status, msg) of
         (Cut, Some m) \<Rightarrow> Inr (Some (m, buf, pieces))
       | (NotIdentified, _) \<Rightarrow> http_receive max_size sg st buf pieces
       | (NeedMore, _) \<Rightarrow> http_receive max_size sg st buf pieces
       | _ \<Rightarrow> Inr None)"

lemma http_receive_ok:
  assumes ok: "wire_ok sg l fs body" and max: "length (wire_head l fs) \<le> max_size"
  shows "nb_invar buf \<Longrightarrow> list_all (\<lambda>p. nb_invar p \<and> nb_bytes p \<noteq> []) pieces \<Longrightarrow> st = None \<or> st = Some (wire_head l fs) \<Longrightarrow>
    nb_bytes buf @ concat (map nb_bytes pieces) = wire_head l fs @ body @ rest \<Longrightarrow> length (nb_bytes buf) < length (wire_head l fs @ body) \<Longrightarrow>
    \<exists>b buf' pieces'. http_receive max_size sg st buf pieces = Inr (Some (\<lparr>header_block = wire_head l fs, wire_body = b\<rparr>, buf', pieces')) \<and>
      nb_invar b \<and> nb_bytes b = body \<and> nb_bytes buf' @ concat (map nb_bytes pieces') = rest"
proof (induction pieces arbitrary: buf st)
  case Nil
  then show ?case by simp
next
  case (Cons p pieces)
  let ?m = "wire_head l fs @ body"
  let ?buf = "NB_AppendNB p buf"
  have p: "nb_invar p" "nb_bytes p \<noteq> []" using Cons.prems(2) by simp_all
  have inv: "nb_invar ?buf" and b: "nb_bytes ?buf = nb_bytes buf @ nb_bytes p" using NB_AppendNB_ok [OF Cons.prems(1) p(1)] by simp_all
  have all: "nb_bytes ?buf @ concat (map nb_bytes pieces) = ?m @ rest" using Cons.prems(4) by (simp add: b)
  show ?case
  proof (cases "length (nb_bytes ?buf) < length ?m")
    case True
    have "nb_bytes ?buf = take (length (nb_bytes ?buf)) ?m" using arg_cong [OF all, of "take (length (nb_bytes ?buf))"] True by simp
    moreover have "0 < length (nb_bytes ?buf)" using p(2) by (simp add: b)
    ultimately obtain status st' where r: "Http_TryCutMessage max_size sg st ?buf = Inr (status, ?buf, st', None)"
        "status = NotIdentified \<or> status = NeedMore" "st' = None \<or> st' = Some (wire_head l fs)"
      using cut_partial [OF ok inv _ _ True max Cons.prems(3)] by blast
    then show ?thesis using Cons.IH [OF inv _ r(3)] Cons.prems(2) all True by auto
  next
    case False
    have "take (length ?m) (nb_bytes ?buf) = ?m" using arg_cong [OF all, of "take (length ?m)"] False by simp
    then obtain r where r: "nb_bytes ?buf = wire_head l fs @ body @ r" by (metis append_assoc append_take_drop_id)
    then have "r @ concat (map nb_bytes pieces) = rest" using all by simp
    moreover obtain b buf' where "Http_TryCutMessage max_size sg st ?buf = Inr (Cut, buf', None, Some \<lparr>header_block = wire_head l fs, wire_body = b\<rparr>)"
        "nb_invar b" "nb_bytes b = body" "nb_bytes buf' = r"
      using cut_complete [OF ok inv r Cons.prems(3), of max_size] by blast
    ultimately show ?thesis by auto
  qed
qed

section \<open>Writing\<close>

lemma Http_WriteHeader_ok:
  "pool_ok bs pool \<Longrightarrow> nbb_invar bs b \<Longrightarrow>
   \<exists>b'. Http_WriteHeader pool fs b = Inr b' \<and> nbb_invar bs b' \<and> nbb_bytes b' = nbb_bytes b @ lines_bytes (map field_line fs)"
proof (induction fs arbitrary: b)
  case (Cons kv fs)
  obtain k v where kv: "kv = (k, v)" by (cases kv)
  obtain b1 where b1: "NBB_AppendMany pool [k, '': '', v, [CR, LF]] b = Inr b1" "nbb_invar bs b1" "nbb_bytes b1 = nbb_bytes b @ field_line kv @ [CR, LF]"
    using NBB_AppendMany_ok [OF Cons.prems, of "[k, '': '', v, [CR, LF]]"] by (auto simp: kv field_line_def)
  then show ?case using Cons.IH [OF Cons.prems(1) b1(2)] by (auto simp: kv)
qed simp

text \<open>The body that is written: the buffer, where there is one.\<close>

definition written_body :: "'a HttpMessage_scheme \<Rightarrow> string" where
  "written_body m = (case msg_body m of Some nb \<Rightarrow> nb_bytes nb | None \<Rightarrow> msg_bytes m)"

lemma written_body_ok: "body_ok m \<Longrightarrow> written_body m = msg_bytes m \<and> pred_option nb_invar (msg_body m)"
  by (auto simp: written_body_def body_ok_def msg_bytes_def split: option.splits)

lemma WriteBody_ok:
  assumes "pool_ok bs pool" "nbb_invar bs b" "pred_option nb_invar (msg_body m)"
  shows "\<exists>b'. WriteBody pool m b = Inr b' \<and> nbb_invar bs b' \<and> nbb_bytes b' = nbb_bytes b @ written_body m"
proof (cases "msg_body m")
  case None
  then have "body_ok m" by (simp add: body_ok_def)
  then show ?thesis using None NBB_Append_ok [OF assms(1,2), of "fst (HttpMessage_body m)"] HttpMessage_body_ok [of m]
    by (simp add: WriteBody_def written_body_def)
next
  case (Some nb)
  then show ?thesis using NBB_AppendNB_ok [OF assms(1,2)] assms(3) by (simp add: WriteBody_def written_body_def)
qed

lemma write_parts_ok:
  assumes pool: "pool_ok bs pool" and b: "nbb_invar bs b" and body: "pred_option nb_invar (msg_body m)"
  shows "\<exists>b'. rbind (NBB_AppendMany pool parts b) (\<lambda>b. rbind (Http_WriteHeader pool fs b) (\<lambda>b. rbind (NBB_Append pool [CR, LF] b) (WriteBody pool m))) = Inr b' \<and>
    nbb_invar bs b' \<and> nbb_bytes b' = nbb_bytes b @ concat parts @ lines_bytes (map field_line fs) @ [CR, LF] @ written_body m"
proof -
  obtain b1 where b1: "NBB_AppendMany pool parts b = Inr b1" "nbb_invar bs b1" "nbb_bytes b1 = nbb_bytes b @ concat parts"
    using NBB_AppendMany_ok [OF pool b, of parts] by blast
  obtain b2 where b2: "Http_WriteHeader pool fs b1 = Inr b2" "nbb_invar bs b2" "nbb_bytes b2 = nbb_bytes b1 @ lines_bytes (map field_line fs)"
    using Http_WriteHeader_ok [OF pool b1(2), of fs] by blast
  obtain b3 where b3: "NBB_Append pool [CR, LF] b2 = Inr b3" "nbb_invar bs b3" "nbb_bytes b3 = nbb_bytes b2 @ [CR, LF]"
    using NBB_Append_ok [OF pool b2(2), of "[CR, LF]"] by blast
  then show ?thesis using WriteBody_ok [OF pool b3(2) body] b1 b2 by auto
qed

definition request_line :: "HttpRequest \<Rightarrow> string" where
  "request_line m = ToStringView_Method (req_method m) @ '' '' @ req_uri m @ '' '' @ ToStringView_Version (msg_version m)"

lemma Http_WriteMessage_request:
  assumes pool: "pool_ok bs pool" and body: "pred_option nb_invar (msg_body m)"
  shows "\<exists>out. Http_WriteMessage pool (HttpRequestMessage m) = Inr out \<and> nb_invar out \<and>
    nb_bytes out = wire_head (request_line m) (hh_fields (msg_headers m)) @ written_body m"
proof -
  obtain b where b: "NBB_new pool = Inr b" "nbb_invar bs b" "nbb_bytes b = []" using NBB_new_ok [OF pool] by blast
  obtain b' where b': "WriteRequest pool m b = Inr b'" "nbb_invar bs b'" "nbb_bytes b' = wire_head (request_line m) (hh_fields (msg_headers m)) @ written_body m"
    using write_parts_ok [OF pool b(2) body] b(3) unfolding WriteRequest_def by (fastforce simp: head_bytes_def request_line_def)
  then show ?thesis using b(1) NBB_DestructiveGet_ok [OF b'(2)] by (auto simp: Http_WriteMessage_def)
qed

lemma Http_WriteMessage_response:
  assumes pool: "pool_ok bs pool" and body: "pred_option nb_invar (msg_body m)" and st: "GetStatusCodeWithDescString (rsp_status m) = Inr s"
  shows "\<exists>out. Http_WriteMessage pool (HttpResponseMessage m) = Inr out \<and> nb_invar out \<and>
    nb_bytes out = wire_head (ToStringView_Version (msg_version m) @ '' '' @ s) (hh_fields (msg_headers m)) @ written_body m"
proof -
  obtain b where b: "NBB_new pool = Inr b" "nbb_invar bs b" "nbb_bytes b = []" using NBB_new_ok [OF pool] by blast
  obtain b' where b': "WriteResponse pool m b = Inr b'" "nbb_invar bs b'"
      "nbb_bytes b' = wire_head (ToStringView_Version (msg_version m) @ '' '' @ s) (hh_fields (msg_headers m)) @ written_body m"
    using write_parts_ok [OF pool b(2) body] b(3) st unfolding WriteResponse_def by (fastforce simp: head_bytes_def)
  then show ?thesis using b(1) NBB_DestructiveGet_ok [OF b'(2)] by (auto simp: Http_WriteMessage_def)
qed

section \<open>Start lines\<close>

lemma Split_word:
  assumes "a \<noteq> []" "CHR '' '' \<notin> set a" "s \<noteq> []"
  shows "Split_loop (a @ CHR '' '' # s) '' '' False = rbind (Split_loop s '' '' False) (\<lambda>ps. Inr (a # ps))"
  using assms sv_find_char [OF assms(2), of s] by (subst Split_loop.simps) simp

lemma Split_last: "CHR '' '' \<notin> set a \<Longrightarrow> Split_loop a '' '' False = Inr [a]"
  by (subst Split_loop.simps) (simp add: sv_find_char_None)

lemma version_text: "ToStringView_Version v \<noteq> []" "CHR '' '' \<notin> set (ToStringView_Version v)" "CR \<notin> set (ToStringView_Version v)" "LF \<notin> set (ToStringView_Version v)"
  by (cases v; simp)+

lemma method_text_facts: "ToStringView_Method m \<noteq> []" "CHR '' '' \<notin> set (ToStringView_Method m)" "CR \<notin> set (ToStringView_Method m)"
    "LF \<notin> set (ToStringView_Method m)" "length (ToStringView_Method m) < 14"
  by (cases m; simp)+

lemma ParseRequestStartLine_ok:
  assumes "req_method m \<noteq> Options" "msg_version m = V_1_0 \<or> msg_version m = V_1_1" "req_uri m \<noteq> []" "CHR '' '' \<notin> set (req_uri m)"
  shows "ParseRequestStartLine (request_line m) = Inr (Some (msg_version m, req_method m, req_uri m))"
proof -
  have "Split (request_line m) '' '' False = Inr [ToStringView_Method (req_method m), req_uri m, ToStringView_Version (msg_version m)]"
    using assms(3,4) method_text_facts [of "req_method m"] version_text [of "msg_version m"]
    by (simp add: Split_def request_line_def Split_word Split_last)
  then show ?thesis using assms(1,2) method_text [of "req_method m"] by (auto simp: ParseRequestStartLine_def)
qed

lemma prefix_before: "prefix p (u @ c # w) \<Longrightarrow> c \<notin> set p \<Longrightarrow> prefix p u"
  by (auto simp: prefix_append prefix_Cons)

section \<open>Requests\<close>

text \<open>The requests that survive the wire.\<close>

definition request_ok :: "bool \<Rightarrow> HttpRequest \<Rightarrow> bool" where
  "request_ok char_is_signed m \<longleftrightarrow>
     (let fs = hh_fields (msg_headers m); uri = req_uri m
      in req_method m \<noteq> Method_Unspecified \<and> req_method m \<noteq> Options \<and> (msg_version m = V_1_0 \<or> msg_version m = V_1_1) \<and>
         uri \<noteq> [] \<and> CHR '' '' \<notin> set uri \<and> CR \<notin> set uri \<and> LF \<notin> set uri \<and>
         \<not> (req_method m = Post \<and> (prefix ''/rpc/'' uri \<or> prefix ''/__rpc_service__'' uri)) \<and>
         list_all field_ok fs \<and> length fs < 2 ^ 62 \<and> body_ok m \<and>
         (case header_value kContentLength fs of
            Some v \<Rightarrow> v = print_nat (length (msg_bytes m))
          | None \<Rightarrow> (req_method m = Get \<or> req_method m = Head) \<and> msg_bytes m = []) \<and>
         bytes_ok char_is_signed (wire_head (request_line m) fs) \<and> length (wire_head (request_line m) fs) + length (msg_bytes m) < 2 ^ 64)"

definition same_request :: "HttpRequest \<Rightarrow> HttpRequest \<Rightarrow> bool" where
  "same_request m m' \<longleftrightarrow> req_method m' = req_method m \<and> req_uri m' = req_uri m \<and> msg_version m' = msg_version m \<and>
     hh_fields (msg_headers m') = hh_fields (msg_headers m) \<and> hh_inv (msg_headers m') \<and> msg_bytes m' = msg_bytes m \<and> body_ok m'"

lemma request_detected:
  assumes "req_method m \<noteq> Method_Unspecified" "req_method m \<noteq> Options"
  shows "EasyDetectHttp (wire_head (request_line m) fs)"
  using assms by (cases "req_method m"; cases "msg_version m") (simp_all add: EasyDetectHttp_iff kLeadingWords_def request_line_def head_bytes_Cons)

lemma request_clobbered:
  assumes "IsMessageClobbered (wire_head (request_line m) fs)"
  shows "req_method m = Post \<and> (prefix ''/rpc/'' (req_uri m) \<or> prefix ''/__rpc_service__'' (req_uri m))"
proof -
  have "prefix p (req_uri m @ CHR '' '' # w) \<Longrightarrow> CHR '' '' \<notin> set p \<Longrightarrow> prefix p (req_uri m)" for p w by (rule prefix_before)
  note pre = this [of "''/rpc/''"] this [of "''/__rpc_service__''"]
  show ?thesis using assms pre
    by (cases "req_method m") (auto simp: IsMessageClobbered_def kClobberedStartLines_def StartsWith_prefix request_line_def head_bytes_Cons)
qed

lemma TryParse_length: "n < 2 ^ 64 \<Longrightarrow> TryParse_integral 0 (2 ^ 64 - 1) 10 (print_nat n) = Some (int n)"
  using TryParse_print [of 0 "2 ^ 64 - 1" "int n"] by (simp add: print_int_def)

lemma request_wire_ok:
  assumes "request_ok sg m"
  shows "wire_ok sg (request_line m) (hh_fields (msg_headers m)) (msg_bytes m)"
proof -
  let ?l = "request_line m" and ?fs = "hh_fields (msg_headers m)"
  note ok = assms [unfolded request_ok_def Let_def]
  have "line_ok ?l" using ok method_text_facts [of "req_method m"] version_text [of "msg_version m"]
    by (simp add: line_ok_def request_line_def)
  moreover have "CHR '' '' \<in> set (take 14 ?l)" using method_text_facts(5) [of "req_method m"]
    by (simp add: request_line_def take_Cons')
  moreover have "length_ok ?l ?fs (msg_bytes m)"
  proof (cases "header_value kContentLength ?fs")
    case None
    then have "req_method m = Get \<or> req_method m = Head" "msg_bytes m = []" using ok by simp_all
    then show ?thesis using None by (auto simp: length_ok_def ExpectingContentLength_def StartsWith_prefix request_line_def head_bytes_Cons)
  next
    case (Some v)
    then have "v = print_nat (length (msg_bytes m))" "length (msg_bytes m) < 2 ^ 64" using ok by simp_all
    then show ?thesis using Some TryParse_length by (simp add: length_ok_def)
  qed
  ultimately show ?thesis using ok request_detected [of m ?fs] request_clobbered [of m ?fs] by (auto simp: wire_ok_def)
qed

lemma Http_TryParse_request:
  assumes ok: "request_ok sg m" and b: "nb_invar b" "nb_bytes b = msg_bytes m"
  shows "\<exists>m'. Http_TryParse True \<lparr>header_block = wire_head (request_line m) (hh_fields (msg_headers m)), wire_body = b\<rparr> = Inr (Some (HttpRequestMessage m')) \<and>
    same_request m m'"
proof -
  let ?l = "request_line m" and ?fs = "hh_fields (msg_headers m)"
  note r = ok [unfolded request_ok_def Let_def]
  obtain h where h: "HttpHeaders_new = Inr h" "hh_inv h" using hh_new_ok by blast
  obtain h' where h': "ParseMessagePartial (wire_head ?l ?fs) h = Inr (Some (?l, h'))" "hh_inv h'" "hh_fields h' = ?fs"
    using ParseMessagePartial_ok [OF h(2), of ?l ?fs] request_wire_ok [OF ok] r by (auto simp: wire_ok_def)
  have line: "ParseRequestStartLine ?l = Inr (Some (msg_version m, req_method m, req_uri m))" using r by (intro ParseRequestStartLine_ok) simp_all
  have "length (msg_bytes m) < 2 ^ 64" using r by simp
  then show ?thesis unfolding Http_TryParse_def HttpRequest_new_def h(1) using h' line b
    by (simp add: same_request_def set_body_ok)(simp add: set_body_nb_def)
qed

section \<open>Responses\<close>

definition response_line :: "HttpResponse \<Rightarrow> string" where
  "response_line m = ToStringView_Version (msg_version m) @ '' '' @ (case GetStatusCodeWithDescString (rsp_status m) of Inr s \<Rightarrow> s | Inl e \<Rightarrow> [])"

definition response_ok :: "bool \<Rightarrow> HttpResponse \<Rightarrow> bool" where
  "response_ok char_is_signed m \<longleftrightarrow>
     (let fs = hh_fields (msg_headers m); status = rsp_status m
      in status \<in> set HttpStatus_enumerators \<and> (msg_version m = V_1_0 \<or> msg_version m = V_1_1) \<and>
         list_all field_ok fs \<and> length fs < 2 ^ 62 \<and> body_ok m \<and>
         (case header_value kContentLength fs of
            Some v \<Rightarrow> v = print_nat (length (msg_bytes m))
          | None \<Rightarrow> msg_version m = V_1_1 \<and> (status = 204 \<or> (100 \<le> status \<and> status < 200)) \<and> msg_bytes m = []) \<and>
         bytes_ok char_is_signed (wire_head (response_line m) fs) \<and> length (wire_head (response_line m) fs) + length (msg_bytes m) < 2 ^ 64)"

definition same_response :: "HttpResponse \<Rightarrow> HttpResponse \<Rightarrow> bool" where
  "same_response m m' \<longleftrightarrow> rsp_status m' = rsp_status m \<and> hh_fields (msg_headers m') = hh_fields (msg_headers m) \<and>
     hh_inv (msg_headers m') \<and> msg_bytes m' = msg_bytes m \<and> body_ok m'"

lemma status_range: "v \<in> set HttpStatus_enumerators \<Longrightarrow> 100 \<le> v \<and> v < 600"
  by (auto simp: HttpStatus_enumerators_def)

lemma status_digits: "v \<in> set HttpStatus_enumerators \<Longrightarrow> length (print_int v) = 3"
proof -
  assume "v \<in> set HttpStatus_enumerators"
  then have "100 \<le> nat v" "nat v < 1000" "0 \<le> v" using status_range [of v] by auto
  then have "nat v div 10 div 10 < 10" "\<not> nat v div 10 < 10" "\<not> nat v < 10" by auto
  then show ?thesis using \<open>0 \<le> v\<close> by (simp add: print_int_def print_nat.simps [of "nat v"] print_nat.simps [of "nat v div 10"] print_nat.simps [of "nat v div 10 div 10"])
qed

lemma print_nat_plain: "c \<in> set (print_nat n) \<Longrightarrow> is_digit 10 c"
  using print_nat_digits [of n] by (auto simp: list_all_iff)

lemma status_desc_plain: "list_all (\<lambda>(v, s). CR \<notin> set s \<and> LF \<notin> set s) kStatusCodeWithDesc"
  by (simp add: kStatusCodeWithDesc_def)

lemma response_line_ok:
  assumes "rsp_status m \<in> set HttpStatus_enumerators"
  obtains desc where "response_line m = ToStringView_Version (msg_version m) @ CHR '' '' # print_int (rsp_status m) @ CHR '' '' # desc"
    "GetStatusCodeWithDescString (rsp_status m) = Inr (print_int (rsp_status m) @ CHR '' '' # desc)" "desc \<noteq> []" "line_ok (response_line m)"
proof -
  let ?v = "rsp_status m"
  have "0 \<le> ?v" "?v < 600" using status_range [OF assms] by auto
  then obtain desc where d: "desc \<noteq> []" "GetStatusCodeWithDescString ?v = Inr (print_int ?v @ '' '' @ desc)"
    by (rule status_text) (use assms in auto)
  let ?s = "print_int ?v @ '' '' @ desc"
  have "map_of kStatusCodeWithDesc (nat ?v) = Some ?s"
    using d(2) \<open>0 \<le> ?v\<close> \<open>?v < 600\<close> by (auto simp: GetStatusCodeWithDescString_def status_text_at_def split: option.splits if_splits)
  then have "CR \<notin> set ?s \<and> LF \<notin> set ?s" using status_desc_plain map_of_SomeD by (fastforce simp: list_all_iff)
  then show ?thesis using that [of desc] d version_text [of "msg_version m"] by (simp add: response_line_def line_ok_def)
qed

lemma response_wire_ok:
  assumes "response_ok sg m"
  shows "wire_ok sg (response_line m) (hh_fields (msg_headers m)) (msg_bytes m)"
proof -
  let ?l = "response_line m" and ?fs = "hh_fields (msg_headers m)"
  note ok = assms [unfolded response_ok_def Let_def]
  obtain desc where l: "?l = ToStringView_Version (msg_version m) @ CHR '' '' # print_int (rsp_status m) @ CHR '' '' # desc" "line_ok ?l"
    using response_line_ok [of m] ok by blast
  have ver: "ToStringView_Version (msg_version m) = ''HTTP/1.1'' \<or> ToStringView_Version (msg_version m) = ''HTTP/1.0''" using ok by auto
  then have "EasyDetectHttp (wire_head ?l ?fs)" "CHR '' '' \<in> set (take 14 ?l)" "\<not> IsMessageClobbered (wire_head ?l ?fs)"
    by (auto simp: l(1) EasyDetectHttp_iff kLeadingWords_def head_bytes_Cons IsMessageClobbered_def kClobberedStartLines_def StartsWith_prefix)
  moreover have "length_ok ?l ?fs (msg_bytes m)"
  proof (cases "header_value kContentLength ?fs")
    case None
    let ?v = "rsp_status m"
    have v: "msg_version m = V_1_1" "?v = 204 \<or> (100 \<le> ?v \<and> ?v < 200)" "msg_bytes m = []" "?v \<in> set HttpStatus_enumerators" using ok None by simp_all
    have "wire_head ?l ?fs = ''HTTP/1.1 '' @ print_int ?v @ (CHR '' '' # desc @ CR # LF # head_bytes (map field_line ?fs))"
      using v(1) by (simp add: l(1) head_bytes_Cons)
    then have w: "StartsWith (wire_head ?l ?fs) ''HTTP/1.1 ''" "substr (wire_head ?l ?fs) 9 3 = print_int ?v"
        "\<not> StartsWith (wire_head ?l ?fs) ''GET''" "\<not> StartsWith (wire_head ?l ?fs) ''HEAD''"
      using status_digits [OF v(4)] by (simp_all add: StartsWith_prefix substr_def)
    have "TryParse_integral (- (2 ^ 31)) (2 ^ 31 - 1) 10 (print_int ?v) = Some ?v"
      using TryParse_print [of "- (2 ^ 31)" "2 ^ 31 - 1" ?v] status_range [OF v(4)] by simp
    then have "\<not> ExpectingContentLength (wire_head ?l ?fs)" unfolding ExpectingContentLength_def w(2) using w v(2) by auto
    then show ?thesis using None v(3) by (simp add: length_ok_def)
  next
    case (Some v)
    then have "v = print_nat (length (msg_bytes m))" "length (msg_bytes m) < 2 ^ 64" using ok by simp_all
    then show ?thesis using Some TryParse_length by (simp add: length_ok_def)
  qed
  ultimately show ?thesis using ok l(2) by (auto simp: wire_ok_def)
qed

lemma Http_TryParse_response:
  assumes ok: "response_ok sg m" and b: "nb_invar b" "nb_bytes b = msg_bytes m"
  shows "\<exists>m'. Http_TryParse False \<lparr>header_block = wire_head (response_line m) (hh_fields (msg_headers m)), wire_body = b\<rparr> = Inr (Some (HttpResponseMessage m')) \<and>
    same_response m m' \<and> msg_version m' = Version_Unspecified"
proof -
  let ?l = "response_line m" and ?fs = "hh_fields (msg_headers m)" and ?v = "rsp_status m"
  note r = ok [unfolded response_ok_def Let_def]
  obtain h where h: "HttpHeaders_new = Inr h" "hh_inv h" using hh_new_ok by blast
  obtain h' where h': "ParseMessagePartial (wire_head ?l ?fs) h = Inr (Some (?l, h'))" "hh_inv h'" "hh_fields h' = ?fs"
    using ParseMessagePartial_ok [OF h(2), of ?l ?fs] response_wire_ok [OF ok] r by (auto simp: wire_ok_def)
  have v: "?v \<in> set HttpStatus_enumerators" using r by blast
  obtain desc where l: "?l = ToStringView_Version (msg_version m) @ CHR '' '' # print_int ?v @ CHR '' '' # desc" "desc \<noteq> []"
    using response_line_ok [OF v] by blast
  obtain ps where ps: "Split_loop desc '' '' False = Inr ps" using Split_loop_ok [of "'' ''" desc] l(2) by auto
  have "\<not> is_digit 10 (CHR '' '')" by code_simp
  then have "CHR '' '' \<notin> set (print_int ?v)" using print_nat_plain [of "CHR '' ''" "nat ?v"] status_range [OF v] by (auto simp: print_int_def)
  moreover have "print_int ?v \<noteq> []" using status_digits [OF v] by auto
  ultimately have "Split ?l '' '' False = Inr (ToStringView_Version (msg_version m) # print_int ?v # ps)"
    using ps l(2) version_text [of "msg_version m"] by (simp add: l(1) Split_def Split_word)
  then have line: "ParseResponseStartLine ?l = Inr (Some ?v)"
    using TryParse_print [of "- (2 ^ 31)" "2 ^ 31 - 1" ?v] status_range [OF v] by (simp add: ParseResponseStartLine_def)
  have "length (msg_bytes m) < 2 ^ 64" using r by simp
  then show ?thesis unfolding Http_TryParse_def HttpResponse_new_def h(1) using h' line b
    by (simp add: same_response_def set_body_ok) (simp add: set_body_nb_def)
qed

section \<open>Malformed messages\<close>

lemma ReadHeader_mismatch:
  assumes inv: "nb_invar buf" and ls: "ls \<noteq> []" "list_all line_ok ls" and bytes: "nb_bytes buf = head_bytes ls @ rest"
    and det: "\<not> EasyDetectHttp (head_bytes ls)" and len: "length (head_bytes ls) < 2 ^ 64"
  shows "ReadHeader max_size buf = Inr (UnexpectedFormat, [])"
proof -
  have "nb_bytes buf \<noteq> []" by (simp add: bytes head_bytes_def)
  then obtain u v where u: "NB_FirstContiguous buf = Inr u" "u \<noteq> []" "u @ v = head_bytes ls @ rest"
    using first_block [OF inv] bytes by metis
  note fast = fast_block [OF ls u(2,3)]
  show ?thesis
  proof (cases "length u < length (head_bytes ls)")
    case True
    have "NB_ByteSize buf \<noteq> length u" using True nb_invar_length [OF inv] bytes by (simp add: NB_ByteSize_def)
    then show ?thesis using u(1) fast True det len head_bytes_suffix [OF ls(1)] upto_marker [OF ls, of rest]
      by (simp add: ReadHeader_def FlattenSlowUntil_ok [OF inv] bytes)
  next
    case False
    then have "take (length (head_bytes ls)) u = head_bytes ls" using arg_cong [OF u(3), of "take (length (head_bytes ls))"] by simp
    then show ?thesis using u(1) fast False det by (simp add: ReadHeader_def)
  qed
qed

text \<open>\<^verbatim>\<open>OPTIONS\<close> is a method of its own, but the protocol takes a request with it for something that is not HTTP.\<close>

lemma options_rejected:
  assumes "nb_invar buf" "nb_bytes buf = wire_head (request_line m) fs @ rest" "req_method m = Options"
    and "line_ok (request_line m)" "list_all field_ok fs" "length (wire_head (request_line m) fs) < 2 ^ 64"
  shows "Http_TryCutMessage max_size sg None buf = Inr (ProtocolMismatch, buf, None, None)"
proof -
  have "\<not> EasyDetectHttp (wire_head (request_line m) fs)"
    using assms(3) by (simp add: EasyDetectHttp_iff kLeadingWords_def request_line_def head_bytes_Cons)
  then have "ReadHeader max_size buf = Inr (UnexpectedFormat, [])"
    using ReadHeader_mismatch [OF assms(1) _ _ assms(2) _ assms(6)] assms(4,5) by (simp add: lines_ok_fields)
  then show ?thesis by (simp add: Http_TryCutMessage_def)
qed

section \<open>Properties\<close>

text \<open>A buffer of one block, as bytes arrive.\<close>

lemma piece_ok: "s \<noteq> [] \<Longrightarrow> nb_invar (NB_AppendPB (MakeForeignBuffer s) NB_new) \<and> nb_bytes (NB_AppendPB (MakeForeignBuffer s) NB_new) = s"
  using NB_AppendPB_ok [of NB_new "MakeForeignBuffer s"]
  by (simp add: MakeForeignBuffer_def PB_make_def pb_ok_def pb_bytes_def Let_def)

lemma example_pool: "pool_ok 8 (\<lambda>_. replicate 8 (CHR ''?''))"
  by (simp add: pool_ok_def)

text \<open>
  C12. A request written by one side arrives at the other. For every request that HTTP/1.1 can express and that the protocol
  supports, no check fails when it is written, and however the bytes are cut into pieces on their way and whatever
  follows them, the receiver asks for more until the request is complete, cuts off exactly its bytes, leaves what follows
  for the next message, and parses it into a request with the same method, URI, version, header fields and body.
\<close>

theorem http_request_round_trip:
  assumes "pool_ok bs pool" "request_ok sg m" "length (wire_head (request_line m) (hh_fields (msg_headers m))) \<le> max_size"
    and "list_all (\<lambda>p. nb_invar p \<and> nb_bytes p \<noteq> []) pieces"
    and "concat (map nb_bytes pieces) = wire_head (request_line m) (hh_fields (msg_headers m)) @ msg_bytes m @ rest"
  shows "(\<exists>out. Http_WriteMessage pool (HttpRequestMessage m) = Inr out \<and>
      nb_bytes out = wire_head (request_line m) (hh_fields (msg_headers m)) @ msg_bytes m) \<and>
    (\<exists>wire buf' pieces' m'. http_receive max_size sg None NB_new pieces = Inr (Some (wire, buf', pieces')) \<and>
      nb_bytes buf' @ concat (map nb_bytes pieces') = rest \<and>
      Http_TryParse True wire = Inr (Some (HttpRequestMessage m')) \<and> same_request m m')"
proof -
  have body: "body_ok m" using assms(2) by (simp add: request_ok_def Let_def)
  obtain b buf' pieces' where r: "http_receive max_size sg None NB_new pieces =
      Inr (Some (\<lparr>header_block = wire_head (request_line m) (hh_fields (msg_headers m)), wire_body = b\<rparr>, buf', pieces'))"
      "nb_invar b" "nb_bytes b = msg_bytes m" "nb_bytes buf' @ concat (map nb_bytes pieces') = rest"
    using http_receive_ok [OF request_wire_ok [OF assms(2)] assms(3) _ assms(4), of NB_new None rest] assms(5) by (auto simp: head_bytes_Cons)
  then show ?thesis
    using Http_TryParse_request [OF assms(2) r(2,3)] Http_WriteMessage_request [OF assms(1), of m] written_body_ok [OF body] by auto
qed

definition example_fields :: "(string \<times> string) list" where
  "example_fields = [(''Host'', ''a''), (''Content-Length'', ''2'')]"

lemma example_headers: "\<exists>h. rbind HttpHeaders_new (HH_AppendMany example_fields) = Inr h \<and> hh_fields h = example_fields"
proof -
  obtain h0 where h0: "HttpHeaders_new = Inr h0" "hh_inv h0" "hh_fields h0 = []" using hh_new_ok by blast
  have "\<forall>(k, v) \<in> set example_fields. Trim k = k \<and> Trim v = v" by (simp add: example_fields_def Trim_def substr_def)
  then show ?thesis using hh_AppendMany_ok [OF h0(2), of example_fields] unfolding h0(1) by (auto simp: h0(3) example_fields_def)
qed

lemma example_fields_ok: "list_all field_ok example_fields" "header_value kContentLength example_fields = Some (print_nat (Suc (Suc 0)))" "length example_fields < 2 ^ 62"
proof -
  show "header_value kContentLength example_fields = Some (print_nat (Suc (Suc 0)))"
    by (simp add: header_value_def example_fields_def kContentLength_def ci_ToLower_eq char_of_def bit_0 print_nat.simps)
qed (simp_all add: example_fields_def field_ok_def Trim_def substr_def)

definition example_request :: "HttpHeaders \<Rightarrow> HttpRequest" where
  "example_request h = \<lparr>msg_version = V_1_1, msg_headers = h, msg_body_str = Some ''ok'', msg_body = None, req_method = Post, req_uri = ''/x''\<rparr>"

lemma example_request_ok:
  assumes "hh_fields h = example_fields"
  shows "request_ok True (example_request h)" "msg_bytes (example_request h) = ''ok''"
    "wire_head (request_line (example_request h)) (hh_fields (msg_headers (example_request h))) =
       ''POST /x HTTP/1.1'' @ [CR, LF] @ ''Host: a'' @ [CR, LF] @ ''Content-Length: 2'' @ [CR, LF, CR, LF]"
proof -
  show body: "msg_bytes (example_request h) = ''ok''" by (simp add: example_request_def msg_bytes_def)
  show head: "wire_head (request_line (example_request h)) (hh_fields (msg_headers (example_request h))) =
       ''POST /x HTTP/1.1'' @ [CR, LF] @ ''Host: a'' @ [CR, LF] @ ''Content-Length: 2'' @ [CR, LF, CR, LF]"
    using assms by (simp add: example_request_def request_line_def head_bytes_def field_line_def example_fields_def)
  show "request_ok True (example_request h)"
    unfolding request_ok_def Let_def head body
    using example_fields_ok assms by (simp add: example_request_def body_ok_def bytes_ok_def)
qed

definition pieces_of :: "string list \<Rightarrow> NoncontiguousBuffer list" where
  "pieces_of = map (\<lambda>s. NB_AppendPB (MakeForeignBuffer s) NB_new)"

lemma pieces_of_ok: "[] \<notin> set ss \<Longrightarrow> list_all (\<lambda>p. nb_invar p \<and> nb_bytes p \<noteq> []) (pieces_of ss) \<and> concat (map nb_bytes (pieces_of ss)) = concat ss"
  by (induction ss) (auto simp: pieces_of_def piece_ok)

theorem http_request_round_trip_witness:
  "\<exists>h out wire buf' pieces' m'. rbind HttpHeaders_new (HH_AppendMany example_fields) = Inr h \<and>
     Http_WriteMessage (\<lambda>_. replicate 8 (CHR ''?'')) (HttpRequestMessage (example_request h)) = Inr out \<and>
     nb_bytes out = ''POST /x HTTP/1.1'' @ [CR, LF] @ ''Host: a'' @ [CR, LF] @ ''Content-Length: 2'' @ [CR, LF, CR, LF] @ ''ok'' \<and>
     http_receive 8192 True None NB_new (pieces_of
       [''POST /x HTTP'', ''/1.1'' @ [CR, LF] @ ''Host: a'' @ [CR], [LF] @ ''Content-Length: 2'' @ [CR, LF, CR, LF] @ ''okGET '']) = Inr (Some (wire, buf', pieces')) \<and>
     nb_bytes buf' @ concat (map nb_bytes pieces') = ''GET '' \<and>
     Http_TryParse True wire = Inr (Some (HttpRequestMessage m')) \<and> same_request (example_request h) m'"
proof -
  obtain h where h: "rbind HttpHeaders_new (HH_AppendMany example_fields) = Inr h" "hh_fields h = example_fields" using example_headers by blast
  let ?ss = "[''POST /x HTTP'', ''/1.1'' @ [CR, LF] @ ''Host: a'' @ [CR], [LF] @ ''Content-Length: 2'' @ [CR, LF, CR, LF] @ ''okGET '']"
  note ok = example_request_ok [OF h(2)]
  have len: "length (wire_head (request_line (example_request h)) (hh_fields (msg_headers (example_request h)))) \<le> 8192" unfolding ok(3) by simp
  have "[] \<notin> set ?ss" by simp
  note p = pieces_of_ok [OF this]
  have "concat (map nb_bytes (pieces_of ?ss)) =
      wire_head (request_line (example_request h)) (hh_fields (msg_headers (example_request h))) @ msg_bytes (example_request h) @ ''GET ''"
    unfolding ok(2,3) conjunct2 [OF p] by simp
  from http_request_round_trip [OF example_pool ok(1) len conjunct1 [OF p] this] h(1) show ?thesis unfolding ok(2,3) by auto
qed

text \<open>
  C37. A response arrives in the same way, with the same status, header fields and body. The version is written but
  not read back: the parsed response has none.
\<close>

theorem http_response_round_trip:
  assumes "pool_ok bs pool" "response_ok sg m" "length (wire_head (response_line m) (hh_fields (msg_headers m))) \<le> max_size"
    and "list_all (\<lambda>p. nb_invar p \<and> nb_bytes p \<noteq> []) pieces"
    and "concat (map nb_bytes pieces) = wire_head (response_line m) (hh_fields (msg_headers m)) @ msg_bytes m @ rest"
  shows "(\<exists>out. Http_WriteMessage pool (HttpResponseMessage m) = Inr out \<and>
      nb_bytes out = wire_head (response_line m) (hh_fields (msg_headers m)) @ msg_bytes m) \<and>
    (\<exists>wire buf' pieces' m'. http_receive max_size sg None NB_new pieces = Inr (Some (wire, buf', pieces')) \<and>
      nb_bytes buf' @ concat (map nb_bytes pieces') = rest \<and>
      Http_TryParse False wire = Inr (Some (HttpResponseMessage m')) \<and> same_response m m' \<and> msg_version m' = Version_Unspecified)"
proof -
  have body: "body_ok m" and status: "rsp_status m \<in> set HttpStatus_enumerators" using assms(2) by (simp_all add: response_ok_def Let_def)
  obtain s where s: "GetStatusCodeWithDescString (rsp_status m) = Inr s" using response_line_ok [OF status] by blast
  have out: "\<exists>out. Http_WriteMessage pool (HttpResponseMessage m) = Inr out \<and> nb_bytes out = wire_head (response_line m) (hh_fields (msg_headers m)) @ msg_bytes m"
    using Http_WriteMessage_response [OF assms(1) _ s] written_body_ok [OF body] by (auto simp: response_line_def s)
  obtain b buf' pieces' where r: "http_receive max_size sg None NB_new pieces =
      Inr (Some (\<lparr>header_block = wire_head (response_line m) (hh_fields (msg_headers m)), wire_body = b\<rparr>, buf', pieces'))"
      "nb_invar b" "nb_bytes b = msg_bytes m" "nb_bytes buf' @ concat (map nb_bytes pieces') = rest"
    using http_receive_ok [OF response_wire_ok [OF assms(2)] assms(3) _ assms(4), of NB_new None rest] assms(5) by (auto simp: head_bytes_Cons)
  then show ?thesis using Http_TryParse_response [OF assms(2) r(2,3)] out by blast
qed

definition example_response :: "HttpHeaders \<Rightarrow> HttpResponse" where
  "example_response h = \<lparr>msg_version = V_1_1, msg_headers = h, msg_body_str = Some ''ok'', msg_body = None, rsp_status = 404\<rparr>"

theorem http_response_round_trip_witness:
  "\<exists>h wire buf' pieces' m'. rbind HttpHeaders_new (HH_AppendMany example_fields) = Inr h \<and>
     http_receive 8192 True None NB_new (pieces_of
       [''HTTP/1.1 404 Not Found'' @ [CR, LF] @ ''Host: a'' @ [CR, LF], ''Content-Length: 2'' @ [CR, LF, CR, LF] @ ''o'', ''k'']) = Inr (Some (wire, buf', pieces')) \<and>
     nb_bytes buf' @ concat (map nb_bytes pieces') = [] \<and>
     Http_TryParse False wire = Inr (Some (HttpResponseMessage m')) \<and> same_response (example_response h) m'"
proof -
  obtain h where h: "rbind HttpHeaders_new (HH_AppendMany example_fields) = Inr h" "hh_fields h = example_fields" using example_headers by blast
  let ?m = "example_response h"
  let ?ss = "[''HTTP/1.1 404 Not Found'' @ [CR, LF] @ ''Host: a'' @ [CR, LF], ''Content-Length: 2'' @ [CR, LF, CR, LF] @ ''o'', ''k'']"
  have "GetStatusCodeWithDescString 404 = Inr ''404 Not Found''" by (simp add: GetStatusCodeWithDescString_def status_text_at_def kStatusCodeWithDesc_def)
  then have head: "wire_head (response_line ?m) (hh_fields (msg_headers ?m)) =
      ''HTTP/1.1 404 Not Found'' @ [CR, LF] @ ''Host: a'' @ [CR, LF] @ ''Content-Length: 2'' @ [CR, LF, CR, LF]"
    using h(2) by (simp add: example_response_def response_line_def head_bytes_def field_line_def example_fields_def)
  have body: "msg_bytes ?m = ''ok''" by (simp add: example_response_def msg_bytes_def)
  have ok: "response_ok True ?m" unfolding response_ok_def Let_def head body
    using example_fields_ok h(2) by (simp add: example_response_def body_ok_def bytes_ok_def HttpStatus_enumerators_def)
  have len: "length (wire_head (response_line ?m) (hh_fields (msg_headers ?m))) \<le> 8192" unfolding head by simp
  have "[] \<notin> set ?ss" by simp
  note p = pieces_of_ok [OF this]
  have "concat (map nb_bytes (pieces_of ?ss)) = wire_head (response_line ?m) (hh_fields (msg_headers ?m)) @ msg_bytes ?m @ []"
    unfolding body head conjunct2 [OF p] by simp
  from http_response_round_trip [OF example_pool ok len conjunct1 [OF p] this] h(1) show ?thesis by blast
qed


lemma example_get:
  "line_ok ''GET / HTTP/1.1''" "CHR '' '' \<in> set (take 14 ''GET / HTTP/1.1'')"
  "EasyDetectHttp (''GET / HTTP/1.1'' @ s)" "\<not> IsMessageClobbered (''GET / HTTP/1.1'' @ s)"
  by (simp_all add: line_ok_def EasyDetectHttp_iff kLeadingWords_def IsMessageClobbered_def kClobberedStartLines_def StartsWith_prefix)


text \<open>
  C39. A \<^verbatim>\<open>Content-Length\<close> so large that header and body together exceed \<^verbatim>\<open>std::size_t\<close> is taken for a complete message: the
  sum wraps around, and the body is cut although the buffer does not hold it, which fails the check in \<^verbatim>\<open>Cut\<close>.
\<close>

theorem http_content_length_overflow:
  assumes "nb_invar buf" "nb_bytes buf = wire_head l fs @ rest"
    and "line_ok l" "CHR '' '' \<in> set (take 14 l)" "list_all field_ok fs" "bytes_ok sg (wire_head l fs)"
    and "EasyDetectHttp (wire_head l fs)" "\<not> IsMessageClobbered (wire_head l fs)"
    and "header_value kContentLength fs = Some v" "TryParse_integral 0 (2 ^ 64 - 1) 10 v = Some (int n)"
    and "length (wire_head l fs) < 2 ^ 64" "2 ^ 64 \<le> length (wire_head l fs) + n" "length rest < n"
  shows "Http_TryCutMessage max_size sg None buf = Inl Dcheck_failed"
proof -
  let ?h = "wire_head l fs"
  have lines: "list_all line_ok (l # map field_line fs)" using assms(3,5) by (simp add: lines_ok_fields)
  have "ReadHeader max_size buf = Inr (Read_OK, ?h)"
    using ReadHeader_complete [OF assms(1) _ lines assms(2,7,11)] by simp
  moreover have "ReadFieldFromRawBytes sg ?h ''Content-Length'' = Inr v"
    using ReadContentLength [OF assms(3-6)] assms(9) by (simp add: kContentLength_def)
  moreover have "n < 2 ^ 64"
    using assms(10) by (auto simp: TryParse_integral_def from_chars_def Let_def split: if_splits)
  then have "(length ?h + n) mod 2 ^ 64 = length ?h + n - 2 ^ 64" using assms(11,12) by (simp add: mod_if)
  then have "\<not> NB_ByteSize buf < (length ?h + n) mod 2 ^ 64"
    using nb_invar_length [OF assms(1)] assms(2) \<open>n < 2 ^ 64\<close> by (simp add: NB_ByteSize_def)
  moreover obtain buf1 where b1: "NB_Skip (length ?h) buf = Inr buf1" "nb_invar buf1" "nb_bytes buf1 = rest"
    using NB_Skip_ok [OF assms(1), of "length ?h"] assms(2) by auto
  moreover have "NB_Cut n buf1 = Inl Dcheck_failed"
    using nb_invar_length [OF b1(2)] b1(3) assms(13) by (simp add: NB_Cut_def NB_ByteSize_def dcheck_def)
  ultimately show ?thesis using assms(8,10) by (simp add: Http_TryCutMessage_def)
qed

theorem http_content_length_overflow_witness:
  "Http_TryCutMessage 8192 True None
     (NB_AppendPB (MakeForeignBuffer (''GET / HTTP/1.1'' @ [CR, LF] @ ''Content-Length: 18446744073709551615'' @ [CR, LF, CR, LF])) NB_new) = Inl Dcheck_failed"
proof (rule http_content_length_overflow)
  let ?l = "''GET / HTTP/1.1''" and ?v = "''18446744073709551615''"
  let ?fs = "[(kContentLength, ?v)]"
  let ?s = "?l @ [CR, LF] @ ''Content-Length: 18446744073709551615'' @ [CR, LF, CR, LF]"
  have head: "wire_head ?l ?fs = ?s" by (simp add: head_bytes_def field_line_def kContentLength_def)
  note p = piece_ok [of ?s]
  show "nb_invar (NB_AppendPB (MakeForeignBuffer ?s) NB_new)" using p by simp
  show "nb_bytes (NB_AppendPB (MakeForeignBuffer ?s) NB_new) = wire_head ?l ?fs @ []" unfolding head using p by simp
  show "line_ok ?l" "CHR '' '' \<in> set (take 14 ?l)" by (rule example_get)+
  show "list_all field_ok ?fs" by (simp add: field_ok_def kContentLength_def Trim_def substr_def)
  show "bytes_ok True (wire_head ?l ?fs)" unfolding head by (simp add: bytes_ok_def)
  show "EasyDetectHttp (wire_head ?l ?fs)" "\<not> IsMessageClobbered (wire_head ?l ?fs)" unfolding head by (rule example_get)+
  show "header_value kContentLength ?fs = Some ?v" by (simp add: header_value_def)
  show "TryParse_integral 0 (2 ^ 64 - 1) 10 ?v = Some (int (2 ^ 64 - 1))"
    by (simp add: TryParse_integral_def from_chars_def is_digit_def digit_value_def digits_value_def)
  show "length (wire_head ?l ?fs) < 2 ^ 64" "2 ^ 64 \<le> length (wire_head ?l ?fs) + (2 ^ 64 - 1)" unfolding head by simp_all
  show "length [] < (2 ^ 64 - 1 :: nat)" by simp
qed

text \<open>
  C40. An edit of the body of a received message is lost. The pointer that \<^verbatim>\<open>body()\<close> returns refers to a copy of the buffer;
  after assigning through it, \<^verbatim>\<open>body_size()\<close> is the size of the new body, but \<^verbatim>\<open>WriteMessage\<close> still writes the old one. The
  comment says that \<^verbatim>\<open>noncontiguous_body()\<close> is no longer available after \<^verbatim>\<open>body()\<close> has been called.
\<close>

theorem http_body_edit_lost:
  assumes "pool_ok bs pool" "nb_invar nb"
  shows "\<exists>out. Http_WriteMessage pool (HttpRequestMessage (store_body s (set_body_nb nb m))) = Inr out \<and>
    nb_bytes out = wire_head (request_line m) (hh_fields (msg_headers m)) @ nb_bytes nb \<and>
    body_size (store_body s (set_body_nb nb m)) = length s"
proof -
  let ?m = "store_body s (set_body_nb nb m)"
  have m: "msg_body ?m = Some nb" "msg_body_str ?m = Some s" "request_line ?m = request_line m" "msg_headers ?m = msg_headers m"
    by (simp_all add: store_body_def set_body_nb_def HttpMessage_body_def StringifyBody_def Let_def request_line_def)
  then show ?thesis using Http_WriteMessage_request [OF assms(1), of ?m] assms(2) by (auto simp: written_body_def body_size_def)
qed

theorem http_body_edit_lost_witness:
  "\<exists>h nb out. rbind HttpHeaders_new (HH_AppendMany example_fields) = Inr h \<and> nb_bytes nb = ''old'' \<and>
     Http_WriteMessage (\<lambda>_. replicate 8 (CHR ''?'')) (HttpRequestMessage (store_body ''edited'' (set_body_nb nb (example_request h)))) = Inr out \<and>
     nb_bytes out = ''POST /x HTTP/1.1'' @ [CR, LF] @ ''Host: a'' @ [CR, LF] @ ''Content-Length: 2'' @ [CR, LF, CR, LF] @ ''old''"
proof -
  obtain h where h: "rbind HttpHeaders_new (HH_AppendMany example_fields) = Inr h" "hh_fields h = example_fields" using example_headers by blast
  have "nb_invar (NB_AppendPB (MakeForeignBuffer ''old'') NB_new) \<and> nb_bytes (NB_AppendPB (MakeForeignBuffer ''old'') NB_new) = ''old''"
    by (rule piece_ok) simp
  then show ?thesis
    using http_body_edit_lost [OF example_pool, of "NB_AppendPB (MakeForeignBuffer ''old'') NB_new" "''edited''" "example_request h"] h
    unfolding example_request_ok(3) [OF h(2)] by auto
qed

end
