(* ===== verification/Spec2Isabelle.thy ===== *)
theory Spec2Isabelle
  imports Encoding Endian Singly_Linked_List Doubly_Linked_List Buffer_Packing Buffer_Streams Buffer_View
    Strings Circular_Buffer Id_Alloc Rate_Limiter Read_At_Most Uri Stream_Connection Run_Queue Redis_Command Fiber_Mutex Http_Protocol
begin

text \<open>
  A verification library for Flare, a C++ framework for network services built on fibers (\<^verbatim>\<open>src/flare\<close>). It models
  the parts whose correctness does not depend on the operating system: the buffers and codecs, the containers, the lock-free
  queues and the mutex of the fiber runtime, the input and output path of a connection, and the protocols on top of it.

  \<^bold>\<open>How the parts interact.\<close> A connection (\<^verbatim>\<open>io/native/stream_connection.cc\<close>) is a descriptor in an event loop
  (\<^verbatim>\<open>io/descriptor.cc\<close>), which fires its callbacks in fibers. Fibers wait in the run queue (\<^verbatim>\<open>fiber/detail/run_queue.cc\<close>) and
  exclude each other with a mutex (\<^verbatim>\<open>fiber/detail/waitable.cc\<close>). What is read goes through \<^verbatim>\<open>io/detail/read_at_most.cc\<close> into a
  non-contiguous buffer (\<^verbatim>\<open>base/buffer.cc\<close>), limited by \<^verbatim>\<open>io/util/rate_limiter.cc\<close>, and is cut into messages by a protocol
  (\<^verbatim>\<open>net/redis\<close>, \<^verbatim>\<open>rpc/protocol/http\<close>). What is written is composed by a buffer builder and queued in the writing buffer list
  (\<^verbatim>\<open>io/detail/writing_buffer_list.cc\<close>).

  \<^bold>\<open>Conventions.\<close> A \<^verbatim>\<open>char\<close> is a byte (type \<open>char\<close>), a \<^verbatim>\<open>std::string\<close> or \<^verbatim>\<open>std::string_view\<close> a list of them. Operations that can
  fail a \<^verbatim>\<open>FLARE_CHECK\<close> or \<^verbatim>\<open>FLARE_DCHECK\<close>, or whose behaviour can be undefined, return \<open>fault + 'a\<close> (type \<open>'a result\<close> of
  \<open>Prelude\<close>), so that the absence of faults is something to be proved. Results that are null, \<^verbatim>\<open>nullopt\<close> or -1 are options.
  Objects are records and their operations return the updated record. Sizes are natural numbers where they are bounded by
  memory, and words or numbers modulo a power of two where a claim depends on the wrap-around. Concurrent code is a step
  relation: every thread has a program counter, a step is one access to a shared variable or one critical section, and
  properties hold in every reachable state, for any number of threads; memory is sequentially consistent there. Code outside
  of \<^verbatim>\<open>src\<close> is an argument: the block coders of OpenSSL (\<open>Encoding\<close>), the pool that blocks come from (\<open>Buffer_Builder\<close>), the
  serialisation of a protocol buffer (\<open>Buffer_Packing\<close>), the stream behind a connection (\<open>Read_At_Most\<close>,
  \<open>Stream_Connection\<close>), the clock (\<open>Rate_Limiter\<close>), hash functions (\<open>Hash_Map\<close>).

  \<^bold>\<open>Foundation.\<close>
  \<^item> \<open>Prelude\<close>: faults and results, substring search, bytes and integers, counting; the shared lemmas on them.
  \<^item> \<open>Strings\<close> (\<^verbatim>\<open>base/string.cc\<close>): search, replace, trim, split, join, case conversion, parsing of numbers. Splitting and
    joining are inverse, parsing inverts printing, and case conversion is out of bounds for bytes from 0x80 where \<^verbatim>\<open>char\<close> is signed.
  \<^item> \<open>Encoding\<close> (\<^verbatim>\<open>base/encoding\<close>): hexadecimal, percent and base64 codecs with their round trips and rejections.
  \<^item> \<open>Endian\<close> (\<^verbatim>\<open>base/endian.h\<close>): conversions of byte order on machines of either order.
  \<^item> \<open>Byte_Set\<close> (\<^verbatim>\<open>base/experimental/byte_set.h\<close>): bitmaps refine sets of bytes.

  \<^bold>\<open>Buffers.\<close>
  \<^item> \<open>Buffer\<close> (\<^verbatim>\<open>base/buffer.{h,cc}\<close>, \<^verbatim>\<open>base/buffer/polymorphic_buffer.h\<close>): ropes of blocks. Locale \<open>byte_sequence\<close>, interpreted
    on \<^verbatim>\<open>Cut\<close> and \<^verbatim>\<open>Append\<close>; every operation does to the bytes what it would do to one string.
  \<^item> \<open>Buffer_Builder\<close>: the builder. Locale \<open>byte_sink\<close>, interpreted on \<^verbatim>\<open>Append\<close>; everything appended comes out in order.
  \<^item> \<open>Buffer_Packing\<close>, \<open>Buffer_Streams\<close>, \<open>Buffer_View\<close>: packing several buffers into one, zero-copy streams, byte-wise views.

  \<^bold>\<open>Containers.\<close>
  \<^item> \<open>Intrusive_List\<close>, \<open>Singly_Linked_List\<close>, \<open>Doubly_Linked_List\<close> (\<^verbatim>\<open>base/internal\<close>): lists over an explicit store of pointers; the
    locale of the first is interpreted on both.
  \<^item> \<open>Hash_Map\<close> (\<^verbatim>\<open>base/internal/hash_map.h\<close>, \<^verbatim>\<open>case_insensitive_hash_map.h\<close>): buckets with chains, rehashing and iterators refine
    a map. Locale \<open>hash_keys\<close>, interpreted for keys compared with \<^verbatim>\<open>==\<close> and for case-insensitive ones.
  \<^item> \<open>Circular_Buffer\<close>, \<open>Id_Alloc\<close>: the ring of one producer and one consumer is a queue; the allocators do not hand out
    a number that is in use.

  \<^bold>\<open>Fibers and connections.\<close>
  \<^item> \<open>Run_Queue\<close>: the bounded queue for any number of producers, consumers and thieves. Entries leave in the order they
    were put in, none is lost or taken twice, no check fails, and a batch as large as the queue makes \<^verbatim>\<open>BatchPush\<close> spin forever.
  \<^item> \<open>Fiber_Mutex\<close>: mutual exclusion, no failing check, and no deadlock.
  \<^item> \<open>Writing_Buffer_List\<close>, \<open>Flush_To\<close>: the bytes written are a prefix of the bytes appended, whatever the interleaving, and no
    node is used after it is freed; then the same code run from entry to return.
  \<^item> \<open>Rate_Limiter\<close>, \<open>Read_At_Most\<close>: the token bucket bounds the throughput; reading takes exactly what the stream has.
  \<^item> \<open>Io_Descriptor\<close>: \<^verbatim>\<open>OnCleanup\<close> is called at most once and not before the last callback has returned, and it is never lost;
    \<^verbatim>\<open>OnReadable\<close> can be called again after \<^verbatim>\<open>Leaving\<close>.
  \<^item> \<open>Stream_Connection\<close>: what flushing and reading do on every path, and writes before the handshake that are never flushed.

  \<^bold>\<open>Protocols.\<close>
  \<^item> \<open>Uri\<close> (\<^verbatim>\<open>base/net/uri.cc\<close>): the parser accepts the strings of a grammar and returns their components.
  \<^item> \<open>Redis_Reader\<close>, \<open>Redis_Command\<close> (\<^verbatim>\<open>net/redis\<close>): objects are cut from the stream once they are complete, and commands come out
    as they were built.
  \<^item> \<open>Http_Headers\<close>, \<open>Http_Message\<close> (\<^verbatim>\<open>net/http\<close>): the index over the header fields refines the list of fields; requests and
    responses with their texts.
  \<^item> \<open>Http_Io\<close>, \<open>Http_Protocol\<close> (\<^verbatim>\<open>rpc/protocol/http/buffer_io.cc\<close>, \<^verbatim>\<open>http11_protocol.cc\<close>): the header is found on the fast and on the
    slow path alike, and requests and responses arrive as they were written, however the stream is cut into pieces; messages
    that abort the process.

  \<^bold>\<open>Invariants and fuel.\<close> Each component has an invariant (\<open>nb_invar\<close>, \<open>hm_inv\<close>, \<open>hh_inv\<close>, the \<open>inv\<close> of each step relation) that its
  operations preserve; the properties rest on these lemmas. Loops are structural recursion or \<open>function\<close> with a measure.
  Fuel appears where the recursion follows pointers or other state: iterating over the intrusive lists and the hash map (the
  number of entries plus one), popping from the ring (the number of slots), copying into blocks (the number of bytes), \<^verbatim>\<open>Rehash\<close> (one
  level, since the doubled map does not rehash), nested Redis objects (two more than the bytes in the buffer), and the chains of the
  writing buffer list (the number of nodes). Running out of it is a fault or no result, so that a theorem that a result is
  returned also shows that the fuel is enough.

  \<^bold>\<open>Not modelled.\<close> Logging, metrics and latencies are left out everywhere. Whole parts are left out: what only calls the operating
  system or a library (pollers, sockets, TLS, compression, digests, the HTTP client over libcurl, HBase and the RPC protocols over
  generated protocol buffers); the switching of fibers, their stacks and timers; hazard pointers and thread-local caches, whose claims
  depend on the memory model; object pools, which are parameters; smart pointers, casts and callables, which become part of the
  data types. Within what is modelled: the text formatting of \<^verbatim>\<open>Format\<close>, floating point numbers, the reference counts of
  descriptors and the timers that restart them, and grammar functions of the URI parser that nothing calls.
\<close>

end
